(* ===== verification/Prelude.thy ===== *)
theory Prelude
  imports Complex_Main "HOL-Library.AList"
begin

text \<open>
  Shared vocabulary of the development: the JavaScript containers (insertion-ordered \<open>Map\<close>
  and \<open>Set\<close>), the string and number routines of the language that the modelled code calls,
  and the lemma collections the component theories extend.

  A JavaScript string is a list of code units; the model's \<^typ>\<open>string\<close> has the code units
  below 256. A JavaScript number is \<open>jsnum\<close>: NaN, the two infinities, or an exact rational
  (binary rounding of doubles is not modelled; integers up to \<open>2 ^ 53\<close> are exact in both).
\<close>

section \<open>Lemma collections\<close>

named_theorems js_defs \<open>definitions of the language primitives\<close>
named_theorems wf_intros \<open>introduction rules for well-formedness predicates\<close>
named_theorems status_simps \<open>how an operation changes the statuses of tasks\<close>
named_theorems frame_simps \<open>what an operation leaves unchanged\<close>

section \<open>Maps and sets with insertion order\<close>

type_synonym ('k, 'v) jsmap = "('k \<times> 'v) list"

definition map_get :: "('k, 'v) jsmap \<Rightarrow> 'k \<Rightarrow> 'v option" where
  "map_get m k = map_of m k"

definition map_has :: "('k, 'v) jsmap \<Rightarrow> 'k \<Rightarrow> bool" where
  "map_has m k \<longleftrightarrow> k \<in> set (map fst m)"

definition map_set :: "'k \<Rightarrow> 'v \<Rightarrow> ('k, 'v) jsmap \<Rightarrow> ('k, 'v) jsmap" where
  "map_set k v m = AList.update k v m"

definition map_delete :: "'k \<Rightarrow> ('k, 'v) jsmap \<Rightarrow> ('k, 'v) jsmap" where
  "map_delete k m = AList.delete k m"

definition set_add :: "'a \<Rightarrow> 'a list \<Rightarrow> 'a list" where
  "set_add x xs = (if x \<in> set xs then xs else xs @ [x])"

definition keys_of :: "('k, 'v) jsmap \<Rightarrow> 'k set" where
  "keys_of m = set (map fst m)"

abbreviation map_ok :: "('k, 'v) jsmap \<Rightarrow> bool" where
  "map_ok m \<equiv> distinct (map fst m)"

lemma map_get_set [simp]:
  "map_get (map_set k v m) k' = (if k' = k then Some v else map_get m k')"
  by (simp add: map_get_def map_set_def update_conv')

lemma map_has_iff: "map_has m k \<longleftrightarrow> (\<exists>v. map_get m k = Some v)"
  by (metis map_get_def map_has_def map_of_eq_None_iff not_Some_eq set_map)

lemma map_has_keys: "map_has m k \<longleftrightarrow> k \<in> keys_of m"
  by (simp add: map_has_def keys_of_def)

lemma map_get_None_iff: "map_get m k = None \<longleftrightarrow> k \<notin> keys_of m"
  by (simp add: map_get_def keys_of_def map_of_eq_None_iff)

lemma map_get_in_set: "map_get m k = Some v \<Longrightarrow> (k, v) \<in> set m"
  by (simp add: map_get_def map_of_SomeD)

lemma map_get_iff: "map_ok m \<Longrightarrow> map_get m k = Some v \<longleftrightarrow> (k, v) \<in> set m"
  by (simp add: map_get_def)

lemma keys_map_set [simp]: "keys_of (map_set k v m) = insert k (keys_of m)"
  by (simp add: keys_of_def map_set_def dom_update)

lemma map_ok_set [simp]: "map_ok m \<Longrightarrow> map_ok (map_set k v m)"
  by (simp add: map_set_def distinct_update)

lemma map_get_delete [simp]: "map_get (map_delete k m) k' = (if k' = k then None else map_get m k')"
  by (simp add: map_get_def map_delete_def delete_conv')

lemma keys_map_delete [simp]: "keys_of (map_delete k m) = keys_of m - {k}"
  by (auto simp: keys_of_def map_delete_def delete_keys)

lemma map_ok_delete [simp]: "map_ok m \<Longrightarrow> map_ok (map_delete k m)"
  by (simp add: map_delete_def distinct_delete)

lemma set_set_add [simp]: "set (set_add x xs) = insert x (set xs)"
  by (auto simp: set_add_def)

lemma distinct_set_add [simp]: "distinct (set_add x xs) = distinct xs"
  by (auto simp: set_add_def)

lemma find_snoc:
  "find P (ys @ [y]) = (case find P ys of None \<Rightarrow> (if P y then Some y else None) | r \<Rightarrow> r)"
  by (induction ys) (auto split: option.splits)

subsection \<open>The store interface the components rely on\<close>

text \<open>
  What a client of a JavaScript \<open>Map\<close> may use: the value read back after a write or a delete,
  the key set, and a well-formedness predicate that every operation keeps. The interpretation
  below discharges the laws for the association-list model.
\<close>

locale keyed_store =
  fixes get :: "'m \<Rightarrow> 'k \<Rightarrow> 'v option"
    and put :: "'k \<Rightarrow> 'v \<Rightarrow> 'm \<Rightarrow> 'm"
    and del :: "'k \<Rightarrow> 'm \<Rightarrow> 'm"
    and dom_of :: "'m \<Rightarrow> 'k set"
    and ok :: "'m \<Rightarrow> bool"
  assumes get_put: "get (put k v m) k' = (if k' = k then Some v else get m k')"
    and get_del: "get (del k m) k' = (if k' = k then None else get m k')"
    and dom_get: "k \<in> dom_of m \<longleftrightarrow> get m k \<noteq> None"
    and ok_put: "ok m \<Longrightarrow> ok (put k v m)"
    and ok_del: "ok m \<Longrightarrow> ok (del k m)"
begin

lemma put_put_same: "get (put k v (put k u m)) = get (put k v m)"
  by (rule ext) (simp add: get_put)

lemma put_commute: "k \<noteq> l \<Longrightarrow> get (put k v (put l u m)) = get (put l u (put k v m))"
  by (rule ext) (simp add: get_put)

lemma del_put: "get (del k (put k v m)) = get (del k m)"
  by (rule ext) (simp add: get_put get_del)

lemma fold_put_get:
  "get (fold (\<lambda>x. put (f x) (g x)) xs m) k =
     (case find (\<lambda>x. f x = k) (rev xs) of Some x \<Rightarrow> Some (g x) | None \<Rightarrow> get m k)"
proof (induction xs arbitrary: m)
  case Nil
  then show ?case by simp
next
  case (Cons x xs)
  then show ?case
    by (simp add: get_put find_snoc split: option.splits)
qed

lemma fold_put_ok: "ok m \<Longrightarrow> ok (fold (\<lambda>x. put (f x) (g x)) xs m)"
  by (induction xs arbitrary: m) (simp_all add: ok_put)

end

interpretation js_map: keyed_store map_get map_set map_delete keys_of map_ok
  by unfold_locales (simp_all add: map_get_None_iff)

section \<open>Transition systems\<close>

text \<open>
  The contract between a component whose operations are the steps of a relation and its
  invariant: the invariant holds initially and every step keeps it.
\<close>

locale transition_system =
  fixes init :: "'s \<Rightarrow> bool" and step :: "'s \<Rightarrow> 's \<Rightarrow> bool" and inv :: "'s \<Rightarrow> bool"
  assumes init_inv: "init s \<Longrightarrow> inv s"
    and step_inv: "inv s \<Longrightarrow> step s s' \<Longrightarrow> inv s'"
begin

lemma steps_inv: "step\<^sup>*\<^sup>* s s' \<Longrightarrow> inv s \<Longrightarrow> inv s'"
  by (induction rule: rtranclp_induct) (auto intro: step_inv)

lemma reachable_inv: "init s \<Longrightarrow> step\<^sup>*\<^sup>* s s' \<Longrightarrow> inv s'"
  by (blast intro: steps_inv init_inv)

end

section \<open>Strings\<close>

definition is_ws :: "char \<Rightarrow> bool" where
  "is_ws c \<longleftrightarrow> of_char c \<in> {9, 10, 11, 12, 13, 32, 160 :: nat}"

definition is_digit :: "char \<Rightarrow> bool" where
  "is_digit c \<longleftrightarrow> 48 \<le> (of_char c :: nat) \<and> (of_char c :: nat) \<le> 57"

definition is_ident_start :: "char \<Rightarrow> bool" where
  "is_ident_start c \<longleftrightarrow>
     (let n = (of_char c :: nat) in (65 \<le> n \<and> n \<le> 90) \<or> (97 \<le> n \<and> n \<le> 122) \<or> n = 95)"

definition js_trim :: "string \<Rightarrow> string" where
  "js_trim s = rev (dropWhile is_ws (rev (dropWhile is_ws s)))"

definition lower_char :: "char \<Rightarrow> char" where
  "lower_char c =
     (let n = (of_char c :: nat) in if 65 \<le> n \<and> n \<le> 90 then char_of (n + 32) else c)"

text \<open>\<open>s.split(c)\<close> for a one-character separator: always at least one piece.\<close>

fun js_split :: "char \<Rightarrow> string \<Rightarrow> string list" where
  "js_split c [] = [[]]"
| "js_split c (x # xs) =
     (if x = c then [] # js_split c xs
      else (case js_split c xs of [] \<Rightarrow> [[x]] | p # ps \<Rightarrow> (x # p) # ps))"

text \<open>\<open>s.split(/\s+/)\<close> of a string: runs of white space separate the pieces.\<close>

fun js_split_ws_aux :: "bool \<Rightarrow> string \<Rightarrow> string list" where
  "js_split_ws_aux insep [] = [[]]"
| "js_split_ws_aux insep (x # xs) =
     (if is_ws x then (if insep then js_split_ws_aux True xs else [] # js_split_ws_aux True xs)
      else (case js_split_ws_aux False xs of [] \<Rightarrow> [[x]] | p # ps \<Rightarrow> (x # p) # ps))"

definition js_split_ws :: "string \<Rightarrow> string list" where
  "js_split_ws s = js_split_ws_aux False s"

fun js_join :: "string \<Rightarrow> string list \<Rightarrow> string" where
  "js_join sep [] = []"
| "js_join sep [x] = x"
| "js_join sep (x # y # xs) = x @ sep @ js_join sep (y # xs)"

fun js_starts_with :: "string \<Rightarrow> string \<Rightarrow> bool" where
  "js_starts_with s [] = True"
| "js_starts_with [] (p # ps) = False"
| "js_starts_with (x # xs) (p # ps) = (x = p \<and> js_starts_with xs ps)"

fun js_includes :: "string \<Rightarrow> string \<Rightarrow> bool" where
  "js_includes [] p = (p = [])"
| "js_includes (x # xs) p = (js_starts_with (x # xs) p \<or> js_includes xs p)"

definition truthy_str :: "string option \<Rightarrow> bool" where
  "truthy_str s \<longleftrightarrow> (case s of None \<Rightarrow> False | Some x \<Rightarrow> x \<noteq> [])"

definition truthy_num :: "int option \<Rightarrow> bool" where
  "truthy_num n \<longleftrightarrow> (case n of None \<Rightarrow> False | Some x \<Rightarrow> x \<noteq> 0)"

definition nullish :: "'a option \<Rightarrow> 'a \<Rightarrow> 'a" where
  "nullish x d = (case x of None \<Rightarrow> d | Some v \<Rightarrow> v)"

lemma nullish_simps [simp]: "nullish None d = d" "nullish (Some v) d = v"
  by (simp_all add: nullish_def)

lemma js_starts_with_iff: "js_starts_with s p \<longleftrightarrow> (\<exists>r. s = p @ r)"
  by (induction s p rule: js_starts_with.induct) auto

lemma js_starts_with_append [simp]: "js_starts_with (p @ r) p"
  by (simp add: js_starts_with_iff)

lemma js_includes_iff: "js_includes s p \<longleftrightarrow> (\<exists>u v. s = u @ p @ v)"
proof (induction s p rule: js_includes.induct)
  case (1 p)
  then show ?case by simp
next
  case (2 x xs p)
  then show ?case
    by (auto simp: js_starts_with_iff Cons_eq_append_conv)
qed

lemma js_split_nonempty [simp]: "js_split c s \<noteq> []"
  by (induction s) (auto split: list.splits)

lemma js_split_join: "js_join [c] (js_split c s) = s"
proof (induction s)
  case Nil
  then show ?case by simp
next
  case (Cons x xs)
  obtain p ps where ps: "js_split c xs = p # ps"
    by (meson js_split_nonempty neq_Nil_conv)
  with Cons show ?case
    by (cases ps) auto
qed

lemma js_split_no_sep: "p \<in> set (js_split c s) \<Longrightarrow> c \<notin> set p"
proof (induction s arbitrary: p)
  case Nil
  then show ?case by simp
next
  case (Cons x xs)
  then show ?case
    by (fastforce split: if_splits list.splits)
qed

lemma js_split_clean: "c \<notin> set s \<Longrightarrow> js_split c s = [s]"
  by (induction s) auto

lemma js_split_append: "c \<notin> set p \<Longrightarrow> js_split c (p @ c # s) = p # js_split c s"
  by (induction p) auto

section \<open>Numbers\<close>

datatype jsnum = JsNaN | JsInf | JsNegInf | JsNum rat

abbreviation js_int :: "int \<Rightarrow> jsnum" where
  "js_int n \<equiv> JsNum (of_int n)"

definition digit_val :: "char \<Rightarrow> nat" where
  "digit_val c = of_char c - 48"

definition dec_val :: "string \<Rightarrow> nat" where
  "dec_val ds = foldl (\<lambda>a c. 10 * a + digit_val c) 0 ds"

definition hex_digit :: "char \<Rightarrow> nat option" where
  "hex_digit c =
     (let n = (of_char c :: nat) in
      if 48 \<le> n \<and> n \<le> 57 then Some (n - 48)
      else if 97 \<le> n \<and> n \<le> 102 then Some (n - 87)
      else if 65 \<le> n \<and> n \<le> 70 then Some (n - 55)
      else None)"

fun radix_val :: "nat \<Rightarrow> nat \<Rightarrow> string \<Rightarrow> nat option" where
  "radix_val b acc [] = Some acc"
| "radix_val b acc (c # cs) =
     (case hex_digit c of
        None \<Rightarrow> None
      | Some d \<Rightarrow> if d < b then radix_val b (b * acc + d) cs else None)"

definition parse_exponent :: "string \<Rightarrow> int option" where
  "parse_exponent s =
     (case s of
        [] \<Rightarrow> Some 0
      | c # r \<Rightarrow>
          if c = CHR ''e'' \<or> c = CHR ''E'' then
            (case r of
               [] \<Rightarrow> None
             | d # r' \<Rightarrow>
                 if d = CHR ''+'' \<or> d = CHR ''-'' then
                   (if r' \<noteq> [] \<and> list_all is_digit r'
                    then Some ((if d = CHR ''-'' then -1 else 1) * int (dec_val r')) else None)
                 else if list_all is_digit r then Some (int (dec_val r)) else None)
          else None)"

text \<open>An unsigned decimal literal: digits, an optional fraction, an optional exponent.\<close>

definition parse_decimal :: "string \<Rightarrow> rat option" where
  "parse_decimal s =
     (let ip = takeWhile is_digit s; r1 = dropWhile is_digit s;
          fp = (case r1 of c # r \<Rightarrow> (if c = CHR ''.'' then takeWhile is_digit r else []) | [] \<Rightarrow> []);
          r2 = (case r1 of c # r \<Rightarrow> (if c = CHR ''.'' then dropWhile is_digit r else r1) | [] \<Rightarrow> [])
      in if ip = [] \<and> fp = [] then None
         else (case parse_exponent r2 of
                 None \<Rightarrow> None
               | Some e \<Rightarrow>
                   let m = of_nat (dec_val (ip @ fp)) / 10 ^ length fp :: rat
                   in Some (if 0 \<le> e then m * 10 ^ nat e else m / 10 ^ nat (- e))))"

text \<open>\<open>Number(s)\<close> on a string: white space is trimmed and the empty string is 0.\<close>

definition js_Number :: "string \<Rightarrow> jsnum" where
  "js_Number s =
     (let t = js_trim s in
      if t = [] then JsNum 0
      else if js_starts_with t ''0x'' \<or> js_starts_with t ''0X'' then
        (if drop 2 t = [] then JsNaN
         else (case radix_val 16 0 (drop 2 t) of None \<Rightarrow> JsNaN | Some n \<Rightarrow> JsNum (of_nat n)))
      else if js_starts_with t ''0o'' \<or> js_starts_with t ''0O'' then
        (if drop 2 t = [] then JsNaN
         else (case radix_val 8 0 (drop 2 t) of None \<Rightarrow> JsNaN | Some n \<Rightarrow> JsNum (of_nat n)))
      else if js_starts_with t ''0b'' \<or> js_starts_with t ''0B'' then
        (if drop 2 t = [] then JsNaN
         else (case radix_val 2 0 (drop 2 t) of None \<Rightarrow> JsNaN | Some n \<Rightarrow> JsNum (of_nat n)))
      else
        (let neg = (hd t = CHR ''-'');
             u = (if hd t = CHR ''-'' \<or> hd t = CHR ''+'' then tl t else t)
         in if u = ''Infinity'' then (if neg then JsNegInf else JsInf)
            else (case parse_decimal u of
                    None \<Rightarrow> JsNaN
                  | Some q \<Rightarrow> JsNum (if neg then - q else q))))"

fun show_nat_aux :: "nat \<Rightarrow> string \<Rightarrow> string" where
  "show_nat_aux n acc =
     (if n < 10 then char_of (48 + n) # acc
      else show_nat_aux (n div 10) (char_of (48 + n mod 10) # acc))"

declare show_nat_aux.simps [simp del]

definition show_nat :: "nat \<Rightarrow> string" where
  "show_nat n = show_nat_aux n []"

definition show_int :: "int \<Rightarrow> string" where
  "show_int i = (if i < 0 then CHR ''-'' # show_nat (nat (- i)) else show_nat (nat i))"

lemma is_digit_char_of: "d < 10 \<Longrightarrow> is_digit (char_of (48 + d :: nat))"
  by (simp add: is_digit_def)

lemma digit_val_char_of: "d < 10 \<Longrightarrow> digit_val (char_of (48 + d :: nat)) = d"
  by (simp add: digit_val_def)

lemma show_nat_aux_digits:
  "list_all is_digit acc \<Longrightarrow> list_all is_digit (show_nat_aux n acc)"
proof (induction n acc rule: show_nat_aux.induct)
  case (1 n acc)
  then show ?case
    by (cases "n < 10") (simp_all add: show_nat_aux.simps [of n acc] is_digit_char_of)
qed

lemma show_nat_digits: "list_all is_digit (show_nat n)"
  by (simp add: show_nat_def show_nat_aux_digits)

lemma show_nat_aux_nonempty: "show_nat_aux n acc \<noteq> []"
proof (induction n acc rule: show_nat_aux.induct)
  case (1 n acc)
  then show ?case
    by (cases "n < 10") (simp_all add: show_nat_aux.simps [of n acc])
qed

lemma show_nat_nonempty [simp]: "show_nat n \<noteq> []"
  by (simp add: show_nat_def show_nat_aux_nonempty)

lemma foldl_digits_shift:
  "foldl (\<lambda>a c. 10 * a + digit_val c) a ds = a * 10 ^ length ds + dec_val ds"
proof (induction ds arbitrary: a)
  case Nil
  then show ?case by (simp add: dec_val_def)
next
  case (Cons d ds)
  have "dec_val (d # ds) = digit_val d * 10 ^ length ds + dec_val ds"
    using Cons [of "digit_val d"] by (simp add: dec_val_def)
  with Cons [of "10 * a + digit_val d"] show ?case
    by (simp add: algebra_simps)
qed

lemma dec_val_show_nat_aux: "dec_val (show_nat_aux n acc) = n * 10 ^ length acc + dec_val acc"
proof (induction n acc rule: show_nat_aux.induct)
  case (1 n acc)
  have step: "dec_val (char_of (48 + d :: nat) # acc) = d * 10 ^ length acc + dec_val acc"
    if "d < 10" for d
    using foldl_digits_shift [of d acc] that
    by (simp add: dec_val_def [of "_ # _"] digit_val_char_of)
  show ?case
  proof (cases "n < 10")
    case True
    then show ?thesis by (simp add: show_nat_aux.simps [of n acc] step)
  next
    case False
    with "1.IH" step [of "n mod 10"] show ?thesis
      by (simp add: show_nat_aux.simps [of n acc])
        (metis (no_types, lifting) add_mult_distrib div_mult_mod_eq mult.assoc)
  qed
qed

lemma dec_val_show_nat [simp]: "dec_val (show_nat n) = n"
  by (simp add: show_nat_def dec_val_show_nat_aux) (simp add: dec_val_def)

text \<open>Printing a natural number and reading it back with \<open>Number\<close>.\<close>

lemma digits_not_ws: "list_all is_digit s \<Longrightarrow> js_trim s = s"
proof -
  assume d: "list_all is_digit s"
  have nws: "\<not> is_ws c" if "is_digit c" for c
    using that by (auto simp: is_ws_def is_digit_def)
  have "dropWhile is_ws t = t" if "list_all is_digit t" for t
    using that nws by (cases t) auto
  moreover have "list_all is_digit (rev s)" using d by simp
  ultimately show ?thesis using d by (simp add: js_trim_def)
qed

lemma parse_decimal_digits:
  "list_all is_digit s \<Longrightarrow> s \<noteq> [] \<Longrightarrow> parse_decimal s = Some (of_nat (dec_val s))"
proof -
  assume d: "list_all is_digit s" and ne: "s \<noteq> []"
  have "takeWhile is_digit s = s" and "dropWhile is_digit s = []"
    using d by (simp_all add: list_all_iff)
  note tw = this [THEN eq_reflection]
  show ?thesis
    unfolding parse_decimal_def parse_exponent_def Let_def tw using ne by simp
qed

lemma js_Number_digits:
  assumes "list_all is_digit s" and "s \<noteq> []"
  shows "js_Number s = JsNum (of_nat (dec_val s))"
proof -
  obtain c cs where s: "s = c # cs" using assms(2) by (cases s) auto
  have c: "is_digit c" and cs: "list_all is_digit cs" using assms(1) s by auto
  have sw: "\<not> js_starts_with s [x, y]" if "\<not> is_digit y" for x y
    using assms(1) that s by (cases cs) auto
  have nd: "\<not> is_digit (CHR ''x'')" "\<not> is_digit (CHR ''X'')" "\<not> is_digit (CHR ''o'')"
    "\<not> is_digit (CHR ''O'')" "\<not> is_digit (CHR ''b'')" "\<not> is_digit (CHR ''B'')"
    "\<not> is_digit (CHR ''-'')" "\<not> is_digit (CHR ''+'')" "\<not> is_digit (CHR ''I'')"
    by (simp_all add: is_digit_def)
  have "c \<noteq> CHR ''-''" "c \<noteq> CHR ''+''" "s \<noteq> ''Infinity''" using c nd s by auto
  moreover have "hd s = c" using s by simp
  ultimately show ?thesis
    using assms(2) sw nd parse_decimal_digits [OF assms]
    by (simp add: js_Number_def digits_not_ws [OF assms(1)] Let_def)
qed

lemma js_Number_show_nat: "js_Number (show_nat n) = JsNum (of_nat n)"
  by (simp add: js_Number_digits show_nat_digits)

text \<open>
  \<open>String(n)\<close>: exact for integers of up to 21 digits and for terminating decimals of up to
  seventeen places.
\<close>

primrec frac_digits :: "nat \<Rightarrow> rat \<Rightarrow> string" where
  "frac_digits 0 q = []"
| "frac_digits (Suc n) q =
     (if q = 0 then []
      else char_of (48 + nat \<lfloor>10 * q\<rfloor> :: nat) # frac_digits n (10 * q - of_int \<lfloor>10 * q\<rfloor>))"

definition js_num_text :: "jsnum \<Rightarrow> string" where
  "js_num_text x =
     (case x of
        JsNaN \<Rightarrow> ''NaN''
      | JsInf \<Rightarrow> ''Infinity''
      | JsNegInf \<Rightarrow> ''-Infinity''
      | JsNum q \<Rightarrow>
          (if q = of_int \<lfloor>q\<rfloor> then show_int \<lfloor>q\<rfloor>
           else (if q < 0 then ''-'' else []) @ show_int \<lfloor>\<bar>q\<bar>\<rfloor> @ ''.''
                  @ frac_digits 17 (\<bar>q\<bar> - of_int \<lfloor>\<bar>q\<bar>\<rfloor>)))"

end
