(* ===== verification/Graph.thy ===== *)
theory Graph
  imports Prelude
begin

text \<open>
  The dependency graph of a workflow, \<open>packages/workflow/src/graph.ts\<close>: the DSL parser
  (\<open>parseGraph\<close>), the validation with its cycle detection (\<open>validateGraph\<close>,
  \<open>detectCycles\<close>), the reverse graph and the two transitive searches. A graph is a
  JavaScript \<open>Map\<close> from a task id to the \<open>Set\<close> of ids it depends on. The results at
  the end of each part relate the routines to the edge relation \<open>edges\<close>: cycle detection
  decides acyclicity, the searches compute the transitive closure.
\<close>

section \<open>Data\<close>

type_synonym 'n graph = "('n, 'n list) jsmap"

definition deps_of :: "'n graph \<Rightarrow> 'n \<Rightarrow> 'n list" where
  "deps_of g v = nullish (map_get g v) []"

definition edges :: "'n graph \<Rightarrow> ('n \<times> 'n) set" where
  "edges g = {(v, w). w \<in> set (deps_of g v)}"

definition node_set :: "'n graph \<Rightarrow> 'n set" where
  "node_set g = keys_of g \<union> (\<Union>(k, ds) \<in> set g. set ds)"

definition graph_ok :: "'n graph \<Rightarrow> bool" where
  "graph_ok g \<longleftrightarrow> map_ok g \<and> (\<forall>(k, ds) \<in> set g. distinct ds \<and> set ds \<subseteq> keys_of g)"

lemma deps_of_not_key: "v \<notin> keys_of g \<Longrightarrow> deps_of g v = []"
  by (simp add: deps_of_def map_get_None_iff [THEN iffD2])

lemma deps_of_in_nodes: "w \<in> set (deps_of g v) \<Longrightarrow> w \<in> node_set g"
  by (cases "map_get g v") (auto simp: deps_of_def node_set_def dest: map_get_in_set)

lemma finite_node_set [simp]: "finite (node_set g)"
  by (auto simp: node_set_def keys_of_def)

lemma edges_iff: "(v, w) \<in> edges g \<longleftrightarrow> w \<in> set (deps_of g v)"
  by (simp add: edges_def)

lemma edges_in_nodes: "(v, w) \<in> edges g \<Longrightarrow> v \<in> keys_of g \<and> w \<in> node_set g"
  using deps_of_in_nodes [of w g v] deps_of_not_key [of v g]
  by (cases "v \<in> keys_of g") (auto simp: edges_iff)

lemma finite_edges: "finite (edges g)"
  by (rule finite_subset [of _ "keys_of g \<times> node_set g"])
    (auto simp: keys_of_def dest: edges_in_nodes)

lemma graph_ok_deps_keys: "graph_ok g \<Longrightarrow> w \<in> set (deps_of g v) \<Longrightarrow> w \<in> keys_of g"
  by (cases "map_get g v") (auto simp: deps_of_def graph_ok_def dest!: map_get_in_set)

section \<open>Building a graph: \<open>ensure\<close> and \<open>addDep\<close>\<close>

definition ensure :: "'n \<Rightarrow> 'n graph \<Rightarrow> 'n graph" where
  "ensure i g = (if map_has g i then g else map_set i [] g)"

definition addDep :: "'n \<Rightarrow> 'n \<Rightarrow> 'n graph \<Rightarrow> 'n graph" where
  "addDep taskId depId g =
     (let g' = ensure taskId g in map_set taskId (set_add depId (deps_of g' taskId)) g')"

lemma keys_ensure [simp]: "keys_of (ensure i g) = insert i (keys_of g)"
  by (auto simp: ensure_def map_has_keys)

lemma keys_addDep [simp]: "keys_of (addDep t d g) = insert t (keys_of g)"
  by (simp add: addDep_def Let_def)

lemma deps_ensure [simp]: "deps_of (ensure i g) v = deps_of g v"
  by (auto simp: deps_of_def ensure_def map_has_keys map_get_None_iff [symmetric])

lemma deps_addDep: "deps_of (addDep t d g) v = (if v = t then set_add d (deps_of g t) else deps_of g v)"
  using deps_ensure [of t g v] deps_ensure [of t g t]
  by (auto simp: addDep_def Let_def deps_of_def)

lemma edges_ensure [simp]: "edges (ensure i g) = edges g"
  by (simp add: edges_def)

lemma edges_addDep [simp]: "edges (addDep t d g) = insert (t, d) (edges g)"
  by (auto simp: edges_def deps_addDep split: if_splits)

lemma map_ok_ensure [simp]: "map_ok g \<Longrightarrow> map_ok (ensure i g)"
  by (simp add: ensure_def)

lemma map_ok_addDep [simp]: "map_ok g \<Longrightarrow> map_ok (addDep t d g)"
  by (simp add: addDep_def Let_def)

lemma graph_ok_alt:
  "map_ok g \<Longrightarrow>
     graph_ok g \<longleftrightarrow> (\<forall>v \<in> keys_of g. distinct (deps_of g v) \<and> set (deps_of g v) \<subseteq> keys_of g)"
  unfolding graph_ok_def
  by (force simp: deps_of_def keys_of_def map_get_def)

lemma graph_ok_ensure [wf_intros]: "graph_ok g \<Longrightarrow> graph_ok (ensure i g)"
proof -
  assume g: "graph_ok g"
  then have m: "map_ok g" by (simp add: graph_ok_def)
  show ?thesis
  proof (cases "i \<in> keys_of g")
    case True
    with g show ?thesis by (simp add: ensure_def map_has_keys)
  next
    case False
    with g m show ?thesis
      by (auto simp: graph_ok_alt deps_of_not_key)
  qed
qed

lemma graph_ok_addDep [wf_intros]:
  "graph_ok g \<Longrightarrow> d \<in> keys_of g \<or> d = t \<Longrightarrow> graph_ok (addDep t d g)"
proof -
  assume g: "graph_ok g" and d: "d \<in> keys_of g \<or> d = t"
  have m: "map_ok g" using g by (simp add: graph_ok_def)
  have "distinct (deps_of g v) \<and> set (deps_of g v) \<subseteq> keys_of g" for v
    using g m by (cases "v \<in> keys_of g") (auto simp: graph_ok_alt deps_of_not_key)
  with m d show ?thesis
    by (auto simp: graph_ok_alt deps_addDep)
qed

section \<open>Cycle detection\<close>

datatype color = WHITE | GRAY | BLACK

definition color_of :: "('n, color) jsmap \<Rightarrow> 'n \<Rightarrow> color" where
  "color_of c v = nullish (map_get c v) WHITE"

lemma color_of_set [simp]: "color_of (map_set v x c) w = (if w = v then x else color_of c w)"
  by (simp add: color_of_def)

text \<open>The reported path: \<open>cyclePath.slice(cyclePath.indexOf(w))\<close> with \<open>w\<close> appended.\<close>

definition cycle_path :: "'n list \<Rightarrow> 'n \<Rightarrow> 'n list" where
  "cycle_path path w =
     (if w \<in> set path then dropWhile (\<lambda>x. x \<noteq> w) path else [last path]) @ [w]"

text \<open>
  The iterative depth-first search: the stack holds a node with the part of its dependency
  iterator that is left. A gray neighbour closes a cycle, reported as \<open>Inl\<close>.
\<close>

function dfs_visit ::
  "'n graph \<Rightarrow> ('n, color) jsmap \<Rightarrow> ('n \<times> 'n list) list \<Rightarrow> 'n list + ('n, color) jsmap" where
  "dfs_visit g c [] = Inr c"
| "dfs_visit g c ((v, []) # st) = dfs_visit g (map_set v BLACK c) st"
| "dfs_visit g c ((v, w # ws) # st) =
     (case color_of c w of
        GRAY \<Rightarrow> Inl (cycle_path (rev (map fst ((v, w # ws) # st))) w)
      | WHITE \<Rightarrow> dfs_visit g (map_set w GRAY c) ((w, deps_of g w) # (v, ws) # st)
      | BLACK \<Rightarrow> dfs_visit g c ((v, ws) # st))"
  by pat_completeness auto

definition white_nodes :: "'n graph \<Rightarrow> ('n, color) jsmap \<Rightarrow> 'n set" where
  "white_nodes g c = {x \<in> node_set g. color_of c x = WHITE}"

lemma finite_white_nodes [simp]: "finite (white_nodes g c)"
  by (simp add: white_nodes_def)

lemma white_nodes_set_mono: "x \<noteq> WHITE \<Longrightarrow> white_nodes g (map_set v x c) \<subseteq> white_nodes g c"
  by (auto simp: white_nodes_def split: if_splits)

lemma white_nodes_set_less:
  "w \<in> node_set g \<Longrightarrow> color_of c w = WHITE \<Longrightarrow>
     white_nodes g (map_set w GRAY c) \<subset> white_nodes g c"
  by (auto simp: white_nodes_def split: if_splits)

definition stack_weight :: "('n \<times> 'n list) list \<Rightarrow> nat" where
  "stack_weight st = sum_list (map (\<lambda>(v, ws). 2 * length ws + 1) st)"

termination dfs_visit
proof (relation "inv_image (less_than <*lex*> less_than)
    (\<lambda>(g, c, st). (card (white_nodes g c), stack_weight st))", goal_cases)
  case 1
  show ?case by (rule wf_inv_image) (rule wf_lex_prod; rule wf_less_than)
next
  case (2 g c v st)
  have "card (white_nodes g (map_set v BLACK c)) \<le> card (white_nodes g c)"
    by (rule card_mono) (simp_all add: white_nodes_set_mono)
  then show ?case by (auto simp: stack_weight_def)
next
  case (3 g c v w ws st)
  show ?case
  proof (cases "w \<in> keys_of g")
    case True
    then have "w \<in> node_set g" by (simp add: node_set_def)
    with 3 have "card (white_nodes g (map_set w GRAY c)) < card (white_nodes g c)"
      by (intro psubset_card_mono) (simp_all add: white_nodes_set_less)
    then show ?thesis by simp
  next
    case False
    have "card (white_nodes g (map_set w GRAY c)) \<le> card (white_nodes g c)"
      by (rule card_mono) (simp_all add: white_nodes_set_mono)
    with False show ?thesis by (auto simp: stack_weight_def deps_of_not_key)
  qed
next
  case (4 g c v w ws st)
  then show ?case by (simp add: stack_weight_def)
qed

fun detect_from :: "'n graph \<Rightarrow> ('n, color) jsmap \<Rightarrow> 'n list \<Rightarrow> 'n list + ('n, color) jsmap" where
  "detect_from g c [] = Inr c"
| "detect_from g c (k # ks) =
     (if color_of c k \<noteq> WHITE then detect_from g c ks
      else (case dfs_visit g (map_set k GRAY c) [(k, deps_of g k)] of
              Inl cyc \<Rightarrow> Inl cyc
            | Inr c' \<Rightarrow> detect_from g c' ks))"

text \<open>\<open>Some cyc\<close> is the thrown \<open>Cycle detected\<close> error with its path.\<close>

definition detectCycles :: "'n graph \<Rightarrow> 'n list option" where
  "detectCycles g =
     (case detect_from g (fold (\<lambda>i. map_set i WHITE) (map fst g) []) (map fst g) of
        Inl cyc \<Rightarrow> Some cyc
      | Inr c \<Rightarrow> None)"

subsection \<open>The search invariant\<close>

fun linked :: "'n graph \<Rightarrow> ('n, color) jsmap \<Rightarrow> 'n option \<Rightarrow> ('n \<times> 'n list) list \<Rightarrow> bool" where
  "linked g c up [] \<longleftrightarrow> True"
| "linked g c up ((v, ws) # st) \<longleftrightarrow>
     set ws \<subseteq> set (deps_of g v) \<and>
     (\<forall>w \<in> set (deps_of g v) - set ws. color_of c w = BLACK \<or> up = Some w) \<and>
     (\<forall>u. up = Some u \<longrightarrow> u \<in> set (deps_of g v)) \<and>
     linked g c (Some v) st"

definition black_ok :: "'n graph \<Rightarrow> ('n, color) jsmap \<Rightarrow> bool" where
  "black_ok g c \<longleftrightarrow>
     (\<forall>v w. color_of c v = BLACK \<longrightarrow> (v, w) \<in> edges g \<longrightarrow> color_of c w = BLACK) \<and>
     (\<forall>v. color_of c v = BLACK \<longrightarrow> (v, v) \<notin> (edges g)\<^sup>+)"

definition dfs_inv :: "'n graph \<Rightarrow> ('n, color) jsmap \<Rightarrow> ('n \<times> 'n list) list \<Rightarrow> bool" where
  "dfs_inv g c st \<longleftrightarrow>
     distinct (map fst st) \<and>
     (\<forall>v. color_of c v = GRAY \<longleftrightarrow> v \<in> fst ` set st) \<and>
     black_ok g c \<and> linked g c None st"

lemma black_reach:
  assumes "black_ok g c" and "(v, w) \<in> (edges g)\<^sup>*" and "color_of c v = BLACK"
  shows "color_of c w = BLACK"
  using assms(2,3)
proof (induction rule: rtrancl_induct)
  case base
  then show ?case by simp
next
  case (step y z)
  with assms(1) show ?case by (auto simp: black_ok_def)
qed

lemma linked_mono:
  assumes "linked g c up st"
    and "\<And>w. color_of c w = BLACK \<Longrightarrow> color_of c' w = BLACK"
  shows "linked g c' up st"
  using assms(1)
proof (induction st arbitrary: up)
  case Nil
  then show ?case by simp
next
  case (Cons f st)
  obtain v ws where f: "f = (v, ws)" by (cases f)
  from Cons.prems f have "linked g c (Some v) st" by simp
  then have "linked g c' (Some v) st" by (rule Cons.IH)
  with Cons.prems f assms(2) show ?case by auto
qed

lemma linked_drop_up:
  "linked g c (Some v) st \<Longrightarrow> color_of c v = BLACK \<Longrightarrow> linked g c None st"
  by (cases st) auto

lemma black_ok_finish:
  assumes "black_ok g c" and "\<forall>w \<in> set (deps_of g v). color_of c w = BLACK"
    and "color_of c v \<noteq> BLACK"
  shows "black_ok g (map_set v BLACK c)"
proof -
  have "(v, v) \<notin> (edges g)\<^sup>+"
  proof
    assume "(v, v) \<in> (edges g)\<^sup>+"
    then obtain w where "(v, w) \<in> edges g" and "(w, v) \<in> (edges g)\<^sup>*"
      by (meson tranclD)
    with assms have "color_of c v = BLACK"
      by (auto simp: edges_iff intro: black_reach)
    with assms(3) show False by simp
  qed
  with assms show ?thesis by (auto simp: black_ok_def edges_iff)
qed

lemma dfs_inv_pop:
  assumes "dfs_inv g c ((v, []) # st)"
  shows "dfs_inv g (map_set v BLACK c) st"
proof -
  from assms have gray: "color_of c v = GRAY" and v: "v \<notin> fst ` set st"
    by (auto simp: dfs_inv_def)
  from assms have "\<forall>w \<in> set (deps_of g v). color_of c w = BLACK"
    by (simp add: dfs_inv_def)
  moreover have "black_ok g c" using assms by (simp add: dfs_inv_def)
  ultimately have "black_ok g (map_set v BLACK c)"
    using gray by (intro black_ok_finish) simp_all
  moreover have "linked g (map_set v BLACK c) (Some v) st"
    using assms by (auto simp: dfs_inv_def intro: linked_mono)
  then have "linked g (map_set v BLACK c) None st"
    by (rule linked_drop_up) simp
  ultimately show ?thesis
    using assms v by (auto simp: dfs_inv_def)
qed

lemma dfs_inv_skip:
  "dfs_inv g c ((v, w # ws) # st) \<Longrightarrow> color_of c w = BLACK \<Longrightarrow> dfs_inv g c ((v, ws) # st)"
  by (auto simp: dfs_inv_def)

lemma dfs_inv_push:
  assumes "dfs_inv g c ((v, w # ws) # st)" and "color_of c w = WHITE"
  shows "dfs_inv g (map_set w GRAY c) ((w, deps_of g w) # (v, ws) # st)"
proof -
  have "color_of c x = GRAY \<longleftrightarrow> x \<in> insert v (fst ` set st)" for x
    using assms(1) by (simp add: dfs_inv_def)
  with assms(2) have w: "w \<notin> insert v (fst ` set st)"
    by (metis color.distinct(1))
  have "linked g (map_set w GRAY c) None ((v, w # ws) # st)"
    by (rule linked_mono [of g c]) (use assms in \<open>auto simp: dfs_inv_def\<close>)
  moreover have "black_ok g (map_set w GRAY c)"
    using assms by (auto simp: dfs_inv_def black_ok_def split: if_splits)
  ultimately show ?thesis
    using assms w by (auto simp: dfs_inv_def)
qed

lemma dfs_inv_start:
  "dfs_inv g c [] \<Longrightarrow> color_of c k = WHITE \<Longrightarrow> dfs_inv g (map_set k GRAY c) [(k, deps_of g k)]"
  by (auto simp: dfs_inv_def black_ok_def split: if_splits)

text \<open>The stack, read from the bottom, is a path of the graph.\<close>

lemma linked_path:
  "linked g c up st \<Longrightarrow>
     successively (\<lambda>x y. (x, y) \<in> edges g) (rev (map fst st) @ (case up of None \<Rightarrow> [] | Some u \<Rightarrow> [u]))"
proof (induction st arbitrary: up)
  case Nil
  then show ?case by (auto split: option.splits)
next
  case (Cons f st)
  obtain v ws where f: "f = (v, ws)" by (cases f)
  with Cons have "successively (\<lambda>x y. (x, y) \<in> edges g) (rev (map fst st) @ [v])"
    by fastforce
  with Cons.prems f show ?case
    by (auto simp: successively_append_iff edges_iff split: option.splits)
qed

definition is_cycle :: "'n graph \<Rightarrow> 'n list \<Rightarrow> bool" where
  "is_cycle g p \<longleftrightarrow>
     2 \<le> length p \<and> hd p = last p \<and> successively (\<lambda>x y. (x, y) \<in> edges g) p"

lemma successively_dropWhile:
  "successively P xs \<Longrightarrow> successively P (dropWhile Q xs)"
  by (induction xs rule: induct_list012) auto

lemma successively_trancl:
  "successively (\<lambda>x y. (x, y) \<in> r) p \<Longrightarrow> 2 \<le> length p \<Longrightarrow> (hd p, last p) \<in> r\<^sup>+"
proof (induction p rule: induct_list012)
  case (3 x y zs)
  then show ?case
    by (cases zs) (auto intro: trancl_into_trancl2)
qed simp_all

lemma is_cycle_not_acyclic: "is_cycle g p \<Longrightarrow> \<not> acyclic (edges g)"
  using successively_trancl [of "edges g" p] by (auto simp: is_cycle_def acyclic_def)

lemma dfs_inv_cycle:
  assumes inv: "dfs_inv g c ((v, w # ws) # st)" and gray: "color_of c w = GRAY"
  shows "is_cycle g (cycle_path (rev (map fst ((v, w # ws) # st))) w)"
proof -
  let ?p = "rev (map fst ((v, w # ws) # st))"
  let ?d = "dropWhile (\<lambda>x. x \<noteq> w) ?p"
  have lk: "linked g c None ((v, w # ws) # st)" using inv by (simp add: dfs_inv_def)
  have wp: "w \<in> set ?p" using inv gray by (simp add: dfs_inv_def)
  then have ne: "?d \<noteq> []" and hd: "hd ?d = w"
    using hd_dropWhile [of "\<lambda>x. x \<noteq> w" ?p] by (auto simp: dropWhile_eq_Nil_conv)
  have "last ?p = v" by simp
  then have "last ?d = v" using ne by (metis last_appendR takeWhile_dropWhile_id)
  moreover have "(v, w) \<in> edges g" using lk by (auto simp: edges_iff)
  moreover have "successively (\<lambda>x y. (x, y) \<in> edges g) ?d"
    using linked_path [OF lk] successively_dropWhile by auto
  ultimately have "successively (\<lambda>x y. (x, y) \<in> edges g) (?d @ [w])"
    using ne by (simp add: successively_append_iff)
  moreover have "2 \<le> length (?d @ [w])" using ne by (cases ?d) simp_all
  moreover have "hd (?d @ [w]) = last (?d @ [w])" using ne hd by simp
  ultimately show ?thesis
    using wp by (simp add: cycle_path_def is_cycle_def)
qed

text \<open>
  What a run of the search establishes: an error carries a real cycle, and without one every
  node of the stack ends black, with the invariant kept.
\<close>

lemma dfs_visit_correct:
  "dfs_inv g c st \<Longrightarrow>
     (case dfs_visit g c st of
        Inl cyc \<Rightarrow> is_cycle g cyc
      | Inr c' \<Rightarrow> dfs_inv g c' [] \<and> (\<forall>v. color_of c v \<noteq> WHITE \<longrightarrow> color_of c' v = BLACK))"
proof (induction g c st rule: dfs_visit.induct)
  case (1 g c)
  then show ?case
    by (auto simp: dfs_inv_def) (metis color.exhaust)
next
  case (2 g c v st)
  have "dfs_inv g (map_set v BLACK c) st" by (rule dfs_inv_pop [OF "2.prems"])
  with "2.IH" show ?case by (auto split: sum.splits if_splits)
next
  case (3 g c v w ws st)
  show ?case
  proof (cases "color_of c w")
    case WHITE
    with dfs_inv_push [OF "3.prems"] "3.IH"(1) show ?thesis
      by (auto split: sum.splits if_splits)
  next
    case GRAY
    with dfs_inv_cycle [OF "3.prems"] show ?thesis by simp
  next
    case BLACK
    with dfs_inv_skip [OF "3.prems"] "3.IH"(2) show ?thesis by simp
  qed
qed

lemma detect_from_correct:
  "dfs_inv g c [] \<Longrightarrow>
     (case detect_from g c ks of
        Inl cyc \<Rightarrow> is_cycle g cyc
      | Inr c' \<Rightarrow> dfs_inv g c' [] \<and>
          (\<forall>v. v \<in> set ks \<or> color_of c v = BLACK \<longrightarrow> color_of c' v = BLACK))"
proof (induction ks arbitrary: c)
  case Nil
  then show ?case by simp
next
  case (Cons k ks)
  show ?case
  proof (cases "color_of c k = WHITE")
    case False
    with Cons.prems have "color_of c k = BLACK"
      by (cases "color_of c k") (auto simp: dfs_inv_def)
    with Cons.IH [OF Cons.prems] show ?thesis
      by (auto split: sum.splits)
  next
    case True
    let ?r = "dfs_visit g (map_set k GRAY c) [(k, deps_of g k)]"
    note ok = dfs_visit_correct [OF dfs_inv_start [OF Cons.prems True]]
    show ?thesis
    proof (cases ?r)
      case (Inl cyc)
      with ok True show ?thesis by simp
    next
      case (Inr c')
      with ok have inv: "dfs_inv g c' []"
        and bl: "\<And>v. v = k \<or> color_of c v \<noteq> WHITE \<Longrightarrow> color_of c' v = BLACK"
        by auto
      from Cons.IH [OF inv] Inr True bl show ?thesis
        by (auto split: sum.splits)
    qed
  qed
qed

lemma color_of_init: "color_of (fold (\<lambda>i. map_set i WHITE) ks m) v = WHITE"
  if "\<And>v. color_of m v = WHITE" for ks m v
  using that by (induction ks arbitrary: m) simp_all

lemma dfs_inv_init: "dfs_inv g (fold (\<lambda>i. map_set i WHITE) ks []) []"
proof -
  have "color_of (fold (\<lambda>i. map_set i WHITE) ks []) v = WHITE" for v
    by (rule color_of_init) (simp add: color_of_def map_get_def)
  then show ?thesis by (simp add: dfs_inv_def black_ok_def)
qed

lemma detectCycles_cycle: "detectCycles g = Some cyc \<Longrightarrow> is_cycle g cyc"
  using detect_from_correct [OF dfs_inv_init [of g "map fst g"], of "map fst g"]
  by (auto simp: detectCycles_def split: sum.splits)

lemma detectCycles_acyclic:
  assumes "detectCycles g = None"
  shows "acyclic (edges g)"
proof -
  obtain c where "detect_from g (fold (\<lambda>i. map_set i WHITE) (map fst g) []) (map fst g) = Inr c"
    using assms by (auto simp: detectCycles_def split: sum.splits)
  with detect_from_correct [OF dfs_inv_init [of g "map fst g"], of "map fst g"]
  have inv: "dfs_inv g c []" and bl: "\<And>v. v \<in> keys_of g \<Longrightarrow> color_of c v = BLACK"
    by (auto simp: keys_of_def)
  have "(v, v) \<notin> (edges g)\<^sup>+" for v
  proof
    assume v: "(v, v) \<in> (edges g)\<^sup>+"
    then obtain w where "(v, w) \<in> edges g" by (meson tranclD)
    then have "color_of c v = BLACK" using bl edges_in_nodes by metis
    with inv v show False by (simp add: dfs_inv_def black_ok_def)
  qed
  then show ?thesis by (simp add: acyclic_def)
qed

section \<open>Validation\<close>

datatype 'n graph_error =
    TaskWithoutEntry 'n
  | UnknownTask 'n
  | UnknownDependency 'n 'n
  | CycleDetected "'n list"

definition first_dead_dep :: "'n \<Rightarrow> 'n list \<Rightarrow> 'n list \<Rightarrow> 'n graph_error option" where
  "first_dead_dep taskId deps taskIds =
     map_option (UnknownDependency taskId) (find (\<lambda>d. d \<notin> set taskIds) deps)"

fun check_refs :: "'n graph \<Rightarrow> 'n list \<Rightarrow> 'n graph_error option" where
  "check_refs [] taskIds = None"
| "check_refs ((taskId, deps) # g) taskIds =
     (if taskId \<notin> set taskIds then Some (UnknownTask taskId)
      else (case first_dead_dep taskId deps taskIds of
              Some e \<Rightarrow> Some e
            | None \<Rightarrow> check_refs g taskIds))"

text \<open>\<open>Inr\<close> is the (always empty) list of warnings, \<open>Inl\<close> the thrown error.\<close>

definition validateGraph :: "'n graph \<Rightarrow> 'n list \<Rightarrow> 'n graph_error + string list" where
  "validateGraph g taskIds =
     (case find (\<lambda>t. \<not> map_has g t) taskIds of
        Some t \<Rightarrow> Inl (TaskWithoutEntry t)
      | None \<Rightarrow>
          (case check_refs g taskIds of
             Some e \<Rightarrow> Inl e
           | None \<Rightarrow>
               (case detectCycles g of
                  Some cyc \<Rightarrow> Inl (CycleDetected cyc)
                | None \<Rightarrow> Inr [])))"

lemma check_refs_None:
  "check_refs g taskIds = None \<longleftrightarrow>
     keys_of g \<subseteq> set taskIds \<and> (\<forall>e \<in> set g. set (snd e) \<subseteq> set taskIds)"
proof (induction g taskIds rule: check_refs.induct)
  case (1 taskIds)
  then show ?case by (simp add: keys_of_def)
next
  case (2 taskId deps g taskIds)
  have "find (\<lambda>d. d \<notin> set taskIds) deps = None \<longleftrightarrow> set deps \<subseteq> set taskIds"
    by (auto simp: find_None_iff)
  with 2 show ?case
    by (auto simp: first_dead_dep_def keys_of_def split: option.splits)
qed

lemma find_not_has_None: "find (\<lambda>t. \<not> map_has g t) ts = None \<longleftrightarrow> set ts \<subseteq> keys_of g"
  by (auto simp: find_None_iff map_has_keys)

lemma validateGraph_valid:
  "(\<exists>w. validateGraph g taskIds = Inr w) \<longleftrightarrow>
     set taskIds = keys_of g \<and> (\<forall>e \<in> set g. set (snd e) \<subseteq> keys_of g) \<and> acyclic (edges g)"
proof -
  have "detectCycles g = None \<longleftrightarrow> acyclic (edges g)"
    using detectCycles_acyclic detectCycles_cycle is_cycle_not_acyclic by (metis option.exhaust)
  moreover have "(\<exists>w. validateGraph g taskIds = Inr w) \<longleftrightarrow>
      find (\<lambda>t. \<not> map_has g t) taskIds = None \<and> check_refs g taskIds = None \<and>
      detectCycles g = None"
    by (auto simp: validateGraph_def split: option.splits)
  ultimately show ?thesis
    using find_not_has_None [of g taskIds] check_refs_None [of g taskIds]
    by (cases "set taskIds = keys_of g") auto
qed

section \<open>Transitive searches\<close>

text \<open>The common loop of both searches; the head of the list is the top of the stack.\<close>

function reach_loop :: "'n graph \<Rightarrow> 'n list \<Rightarrow> 'n list \<Rightarrow> 'n list" where
  "reach_loop g [] visited = visited"
| "reach_loop g (current # stack) visited =
     (if current \<in> set visited then reach_loop g stack visited
      else reach_loop g (rev (deps_of g current) @ stack) (set_add current visited))"
  by pat_completeness auto
termination
proof (relation "inv_image (less_than <*lex*> less_than)
    (\<lambda>(g, st, vis). (card (keys_of g - set vis), length st))", goal_cases)
  case 1
  show ?case by (rule wf_inv_image) (rule wf_lex_prod; rule wf_less_than)
next
  case (2 g current stack visited)
  then show ?case by simp
next
  case (3 g current stack visited)
  show ?case
  proof (cases "current \<in> keys_of g")
    case True
    with 3 have "keys_of g - set (set_add current visited) \<subset> keys_of g - set visited" by auto
    then have "card (keys_of g - set (set_add current visited)) < card (keys_of g - set visited)"
      by (rule psubset_card_mono [rotated]) (simp add: keys_of_def)
    then show ?thesis by simp
  next
    case False
    then have "keys_of g - set (set_add current visited) = keys_of g - set visited" by auto
    with False show ?thesis by (simp add: deps_of_not_key)
  qed
qed

definition getTransitiveDeps :: "'n graph \<Rightarrow> 'n \<Rightarrow> 'n list" where
  "getTransitiveDeps g taskId = reach_loop g (rev (deps_of g taskId)) []"

fun reverse_entry :: "'n \<Rightarrow> 'n list \<Rightarrow> 'n graph \<Rightarrow> 'n graph" where
  "reverse_entry tid [] r = r"
| "reverse_entry tid (depId # deps) r = reverse_entry tid deps (addDep depId tid r)"

fun reverse_entries :: "'n graph \<Rightarrow> 'n graph \<Rightarrow> 'n graph" where
  "reverse_entries [] r = r"
| "reverse_entries ((tid, deps) # g) r = reverse_entries g (reverse_entry tid deps r)"

definition buildReverseGraph :: "'n graph \<Rightarrow> 'n graph" where
  "buildReverseGraph g = reverse_entries g []"

definition getTransitiveDependents :: "'n \<Rightarrow> 'n graph \<Rightarrow> 'n graph option \<Rightarrow> 'n list" where
  "getTransitiveDependents taskId g reverseGraph =
     (let rg = nullish reverseGraph (buildReverseGraph g)
      in reach_loop rg (rev (deps_of rg taskId)) [])"

lemma edges_reverse_entry: "edges (reverse_entry t ds r) = edges r \<union> {(d, t) | d. d \<in> set ds}"
  by (induction t ds r rule: reverse_entry.induct) auto

lemma edges_reverse_entries:
  "edges (reverse_entries g r) = edges r \<union> {(d, t) | d t ds. (t, ds) \<in> set g \<and> d \<in> set ds}"
  by (induction g r rule: reverse_entries.induct) (auto simp: edges_reverse_entry)

lemma edges_buildReverseGraph: "map_ok g \<Longrightarrow> edges (buildReverseGraph g) = (edges g)\<inverse>"
proof -
  assume ok: "map_ok g"
  have "edges ([] :: 'a graph) = {}" by (simp add: edges_def deps_of_def map_get_def)
  moreover have "(t, d) \<in> edges g \<longleftrightarrow> (\<exists>ds. (t, ds) \<in> set g \<and> d \<in> set ds)" for t d
    using ok by (cases "map_get g t")
      (auto simp: edges_iff deps_of_def map_get_iff [symmetric])
  ultimately show ?thesis
    by (auto simp: buildReverseGraph_def edges_reverse_entries)
qed

lemma reach_loop_mono: "set visited \<subseteq> set (reach_loop g stack visited)"
  by (induction g stack visited rule: reach_loop.induct) auto

lemma reach_loop_stack: "set stack \<subseteq> set (reach_loop g stack visited)"
proof (induction g stack visited rule: reach_loop.induct)
  case (1 g visited)
  then show ?case by simp
next
  case (2 g current stack visited)
  show ?case
  proof (cases "current \<in> set visited")
    case True
    with 2(1) reach_loop_mono [of visited g stack] show ?thesis by auto
  next
    case False
    with 2(2) reach_loop_mono [of "set_add current visited" g "rev (deps_of g current) @ stack"]
    show ?thesis by auto
  qed
qed

lemma reach_loop_closed:
  "\<forall>v \<in> set visited. set (deps_of g v) \<subseteq> set visited \<union> set stack \<Longrightarrow>
     \<forall>v \<in> set (reach_loop g stack visited). set (deps_of g v) \<subseteq> set (reach_loop g stack visited)"
proof (induction g stack visited rule: reach_loop.induct)
  case (1 g visited)
  then show ?case by simp
next
  case (2 g current stack visited)
  show ?case
  proof (cases "current \<in> set visited")
    case True
    with 2(1) "2.prems" show ?thesis by auto
  next
    case False
    have "\<forall>v \<in> set (set_add current visited).
        set (deps_of g v) \<subseteq> set (set_add current visited) \<union> set (rev (deps_of g current) @ stack)"
      using "2.prems" by auto
    with 2(2) False show ?thesis by auto
  qed
qed

lemma reach_loop_sound:
  "\<forall>v \<in> set visited \<union> set stack. (x, v) \<in> (edges g)\<^sup>+ \<Longrightarrow>
     \<forall>v \<in> set (reach_loop g stack visited). (x, v) \<in> (edges g)\<^sup>+"
proof (induction g stack visited rule: reach_loop.induct)
  case (1 g visited)
  then show ?case by simp
next
  case (2 g current stack visited)
  show ?case
  proof (cases "current \<in> set visited")
    case True
    with 2(1) "2.prems" show ?thesis by auto
  next
    case False
    have "(x, w) \<in> (edges g)\<^sup>+" if "w \<in> set (deps_of g current)" for w
      using "2.prems" that by (auto simp: edges_iff intro: trancl_into_trancl)
    with 2(2) False "2.prems" show ?thesis by auto
  qed
qed

lemma reach_loop_distinct: "distinct visited \<Longrightarrow> distinct (reach_loop g stack visited)"
  by (induction g stack visited rule: reach_loop.induct) simp_all

subsection \<open>The contract of a transitive search\<close>

text \<open>
  What the callers of the searches (template validation, gate propagation, retry) rely on: the
  direct successors are in the result, the result is closed under the relation, and nothing
  else is in it.
\<close>

locale transitive_search =
  fixes rel :: "('n \<times> 'n) set" and search :: "'n \<Rightarrow> 'n set"
  assumes direct: "(x, y) \<in> rel \<Longrightarrow> y \<in> search x"
    and closed: "y \<in> search x \<Longrightarrow> (y, z) \<in> rel \<Longrightarrow> z \<in> search x"
    and sound: "y \<in> search x \<Longrightarrow> (x, y) \<in> rel\<^sup>+"
begin

lemma search_trancl: "search x = rel\<^sup>+ `` {x}"
proof -
  have "y \<in> search x" if "(x, y) \<in> rel\<^sup>+" for y
    using that by (induction rule: trancl_induct) (auto intro: direct closed)
  then show ?thesis by (auto dest: sound)
qed

lemma search_trans: "y \<in> search x \<Longrightarrow> search y \<subseteq> search x"
  by (auto simp: search_trancl)

lemma search_irrefl: "acyclic rel \<Longrightarrow> x \<notin> search x"
  by (auto simp: search_trancl acyclic_def)

end

lemma transitive_search_loop:
  "transitive_search (edges g) (\<lambda>x. set (reach_loop g (rev (deps_of g x)) []))"
proof (unfold_locales, goal_cases)
  case (1 x y)
  then show ?case using reach_loop_stack [of "rev (deps_of g x)" g "[]"] by (auto simp: edges_iff)
next
  case (2 y x z)
  then show ?case using reach_loop_closed [of "[]" g "rev (deps_of g x)"] by (auto simp: edges_iff)
next
  case (3 y x)
  have "\<forall>v \<in> set [] \<union> set (rev (deps_of g x)). (x, v) \<in> (edges g)\<^sup>+"
    by (simp add: edges_iff r_into_trancl)
  from reach_loop_sound [OF this] 3 show ?case by blast
qed

interpretation fwd_search: transitive_search "edges g" "\<lambda>x. set (getTransitiveDeps g x)" for g
  using transitive_search_loop [of g] by (simp add: getTransitiveDeps_def)

lemma transitive_search_dependents:
  "map_ok g \<Longrightarrow>
     transitive_search ((edges g)\<inverse>)
       (\<lambda>x. set (getTransitiveDependents x g (Some (buildReverseGraph g))))"
  using transitive_search_loop [of "buildReverseGraph g"]
  by (simp add: getTransitiveDependents_def edges_buildReverseGraph Let_def)

interpretation rev_search:
  transitive_search "edges (buildReverseGraph g)" "\<lambda>x. set (getTransitiveDependents x g None)" for g
  using transitive_search_loop [of "buildReverseGraph g"]
  by (simp add: getTransitiveDependents_def Let_def)

end
