(* ===== verification/Graph_Dsl.thy ===== *)
theory Graph_Dsl
  imports Graph
begin

text \<open>
  The dependency DSL, \<open>parseGraph\<close> of \<open>packages/workflow/src/graph.ts\<close>: lanes
  separated by white space, each an arrow lane (\<open>1,2>3\<close>), a chain (\<open>1-5\<close>) or a
  bare group (\<open>4,7\<close>). The outer \<open>option\<close> of \<open>parseGraph\<close> is \<open>None\<close>
  when the chain loop never ends (an infinite bound); the inner sum is \<open>Inl\<close> for a thrown
  error. Results: every parsed graph is well formed, and every kind of lane means what it says: a text printed
  from lanes parses to the nodes and dependencies that the lanes name.
\<close>

section \<open>The parser\<close>

type_synonym task_id = jsnum

datatype parse_error =
    InvalidChain string
  | InvalidTaskIdIn string
  | InvalidTaskId string

fun parse_ids :: "(string \<Rightarrow> parse_error) \<Rightarrow> string list \<Rightarrow> parse_error + task_id list" where
  "parse_ids err [] = Inr []"
| "parse_ids err (s # ss) =
     (case js_Number s of
        JsNaN \<Rightarrow> Inl (err s)
      | n \<Rightarrow> (case parse_ids err ss of Inl e \<Rightarrow> Inl e | Inr ns \<Rightarrow> Inr (n # ns)))"

definition parseSegment :: "string \<Rightarrow> parse_error + task_id list" where
  "parseSegment segment = parse_ids InvalidTaskId (js_split (CHR '','') segment)"

fun add_deps :: "'n \<Rightarrow> 'n list \<Rightarrow> 'n graph \<Rightarrow> 'n graph" where
  "add_deps tid [] g = g"
| "add_deps tid (did # dids) g = add_deps tid dids (addDep tid did (ensure did g))"

fun add_targets :: "'n list \<Rightarrow> 'n list \<Rightarrow> 'n graph \<Rightarrow> 'n graph" where
  "add_targets [] dids g = g"
| "add_targets (tid # tids) dids g = add_targets tids dids (add_deps tid dids (ensure tid g))"

fun parse_arrow :: "string list \<Rightarrow> task_id graph \<Rightarrow> parse_error + task_id graph" where
  "parse_arrow (depSegment # targetSegment # segs) g =
     (case parseSegment depSegment of
        Inl e \<Rightarrow> Inl e
      | Inr depIds \<Rightarrow>
          (case parseSegment targetSegment of
             Inl e \<Rightarrow> Inl e
           | Inr targetIds \<Rightarrow>
               parse_arrow (targetSegment # segs) (add_targets targetIds depIds g)))"
| "parse_arrow segs g = Inr g"

text \<open>The counting loop of a chain, upwards and downwards.\<close>

function chain_up :: "rat \<Rightarrow> rat \<Rightarrow> rat list" where
  "chain_up n e = (if n \<le> e then n # chain_up (n + 1) e else [])"
  by pat_completeness auto
termination
proof (relation "measure (\<lambda>(n, e). nat (\<lfloor>e - n\<rfloor> + 1))", goal_cases)
  case (2 n e)
  have "\<lfloor>e - (n + 1)\<rfloor> = \<lfloor>e - n\<rfloor> - 1"
    using floor_diff_of_int [of "e - n" 1] by (simp add: algebra_simps)
  moreover have "0 \<le> \<lfloor>e - n\<rfloor>" using 2 by simp
  ultimately show ?case by simp
qed simp

function chain_down :: "rat \<Rightarrow> rat \<Rightarrow> rat list" where
  "chain_down n e = (if e \<le> n then n # chain_down (n - 1) e else [])"
  by pat_completeness auto
termination
proof (relation "measure (\<lambda>(n, e). nat (\<lfloor>n - e\<rfloor> + 1))", goal_cases)
  case (2 n e)
  have "\<lfloor>n - 1 - e\<rfloor> = \<lfloor>n - e\<rfloor> - 1"
    using floor_diff_of_int [of "n - e" 1] by (simp add: algebra_simps)
  moreover have "0 \<le> \<lfloor>n - e\<rfloor>" using 2 by simp
  ultimately show ?case by simp
qed simp

declare chain_up.simps [simp del] chain_down.simps [simp del]

text \<open>With an infinite bound the loop condition stays true for ever: \<open>None\<close>.\<close>

definition chain_ids :: "jsnum \<Rightarrow> jsnum \<Rightarrow> task_id list option" where
  "chain_ids start end' =
     (case (start, end') of
        (JsNum a, JsNum b) \<Rightarrow> Some (map JsNum (if a \<le> b then chain_up a b else chain_down a b))
      | _ \<Rightarrow> None)"

fun ensure_all :: "'n list \<Rightarrow> 'n graph \<Rightarrow> 'n graph" where
  "ensure_all [] g = g"
| "ensure_all (i # is) g = ensure_all is (ensure i g)"

fun add_chain :: "'n list \<Rightarrow> 'n graph \<Rightarrow> 'n graph" where
  "add_chain (a # b # ids) g = add_chain (b # ids) (addDep b a g)"
| "add_chain ids g = g"

definition parse_chain :: "string \<Rightarrow> task_id graph \<Rightarrow> (parse_error + task_id graph) option" where
  "parse_chain lane g =
     (let parts = js_split (CHR ''-'') lane;
          start = js_Number (parts ! 0);
          end' = js_Number (parts ! 1)
      in if start = JsNaN \<or> end' = JsNaN then Some (Inl (InvalidChain lane))
         else (case chain_ids start end' of
                 None \<Rightarrow> None
               | Some ids \<Rightarrow> Some (Inr (add_chain ids (ensure_all ids g)))))"

definition parse_group :: "string \<Rightarrow> task_id graph \<Rightarrow> parse_error + task_id graph" where
  "parse_group lane g =
     (case parse_ids (\<lambda>_. InvalidTaskIdIn lane) (js_split (CHR '','') lane) of
        Inl e \<Rightarrow> Inl e
      | Inr ids \<Rightarrow> Inr (ensure_all ids g))"

definition parse_lane :: "string \<Rightarrow> task_id graph \<Rightarrow> (parse_error + task_id graph) option" where
  "parse_lane lane g =
     (if CHR ''>'' \<in> set lane then Some (parse_arrow (js_split (CHR ''>'') lane) g)
      else if CHR ''-'' \<in> set lane then parse_chain lane g
      else Some (parse_group lane g))"

fun parse_lanes :: "string list \<Rightarrow> task_id graph \<Rightarrow> (parse_error + task_id graph) option" where
  "parse_lanes [] g = Some (Inr g)"
| "parse_lanes (lane # lanes) g =
     (case parse_lane lane g of
        None \<Rightarrow> None
      | Some (Inl e) \<Rightarrow> Some (Inl e)
      | Some (Inr g') \<Rightarrow> parse_lanes lanes g')"

definition parseGraph :: "string \<Rightarrow> (parse_error + task_id graph) option" where
  "parseGraph dsl =
     (let trimmed = js_trim dsl
      in if trimmed = [] then Some (Inr []) else parse_lanes (js_split_ws trimmed) [])"

section \<open>Every parsed graph is well formed\<close>

lemma graph_ok_empty [wf_intros, simp]: "graph_ok []"
  by (simp add: graph_ok_def)

lemma keys_add_deps [simp]:
  "tid \<in> keys_of g \<Longrightarrow> keys_of (add_deps tid ds g) = keys_of g \<union> set ds"
  by (induction tid ds g rule: add_deps.induct) auto

lemma edges_add_deps [simp]: "edges (add_deps tid ds g) = edges g \<union> {tid} \<times> set ds"
  by (induction tid ds g rule: add_deps.induct) auto

lemma graph_ok_add_deps [wf_intros]: "graph_ok g \<Longrightarrow> graph_ok (add_deps tid ds g)"
  by (induction tid ds g rule: add_deps.induct) (simp_all add: graph_ok_addDep graph_ok_ensure)

lemma keys_add_targets:
  "keys_of (add_targets ts ds g) = keys_of g \<union> set ts \<union> (if ts = [] then {} else set ds)"
  by (induction ts ds g rule: add_targets.induct) auto

lemma edges_add_targets [simp]: "edges (add_targets ts ds g) = edges g \<union> set ts \<times> set ds"
  by (induction ts ds g rule: add_targets.induct) auto

lemma graph_ok_add_targets [wf_intros]: "graph_ok g \<Longrightarrow> graph_ok (add_targets ts ds g)"
  by (induction ts ds g rule: add_targets.induct) (simp_all add: graph_ok_add_deps graph_ok_ensure)

lemma keys_ensure_all [simp]: "keys_of (ensure_all is g) = keys_of g \<union> set is"
  by (induction "is" g rule: ensure_all.induct) auto

lemma edges_ensure_all [simp]: "edges (ensure_all is g) = edges g"
  by (induction "is" g rule: ensure_all.induct) auto

lemma graph_ok_ensure_all [wf_intros]: "graph_ok g \<Longrightarrow> graph_ok (ensure_all is g)"
  by (induction "is" g rule: ensure_all.induct) (simp_all add: graph_ok_ensure)

lemma graph_ok_add_chain [wf_intros]:
  "graph_ok g \<Longrightarrow> set ids \<subseteq> keys_of g \<Longrightarrow> graph_ok (add_chain ids g)"
  by (induction ids g rule: add_chain.induct) (auto simp: graph_ok_addDep)

lemma edges_add_chain:
  "edges (add_chain ids g) = edges g \<union> {(b, a). (a, b) \<in> set (zip ids (tl ids))}"
  by (induction ids g rule: add_chain.induct) auto

lemma keys_add_chain:
  "set ids \<subseteq> keys_of g \<Longrightarrow> keys_of (add_chain ids g) = keys_of g"
  by (induction ids g rule: add_chain.induct) (auto simp: insert_absorb)

lemma graph_ok_parse_arrow: "parse_arrow segs g = Inr g' \<Longrightarrow> graph_ok g \<Longrightarrow> graph_ok g'"
  by (induction segs g rule: parse_arrow.induct)
    (auto simp: graph_ok_add_targets split: sum.splits)

lemma graph_ok_parse_lane: "parse_lane lane g = Some (Inr g') \<Longrightarrow> graph_ok g \<Longrightarrow> graph_ok g'"
  by (auto simp: parse_lane_def parse_chain_def parse_group_def Let_def
      intro: graph_ok_parse_arrow graph_ok_add_chain graph_ok_ensure_all
      split: if_splits sum.splits option.splits)

lemma graph_ok_parse_lanes: "parse_lanes lanes g = Some (Inr g') \<Longrightarrow> graph_ok g \<Longrightarrow> graph_ok g'"
  by (induction lanes g rule: parse_lanes.induct)
    (auto dest: graph_ok_parse_lane split: option.splits sum.splits)

lemma parseGraph_graph_ok: "parseGraph dsl = Some (Inr g) \<Longrightarrow> graph_ok g"
  by (auto simp: parseGraph_def Let_def intro: graph_ok_parse_lanes split: if_splits)

section \<open>What the lanes mean\<close>

text \<open>
  The lanes of the syntax, over natural task ids: a bare group \<open>4,7\<close>, an arrow lane
  \<open>1,3>4>5\<close> of groups, a chain \<open>2-5\<close> (or downwards, \<open>5-2\<close>); how they are written, and
  which tasks and dependencies they stand for.
\<close>

datatype lane = LGroup "nat list" | LArrow "nat list list" | LChain nat nat

definition print_ids :: "nat list \<Rightarrow> string" where
  "print_ids ns = js_join '','' (map show_nat ns)"

fun print_lane :: "lane \<Rightarrow> string" where
  "print_lane (LGroup ns) = print_ids ns"
| "print_lane (LArrow segs) = js_join ''>'' (map print_ids segs)"
| "print_lane (LChain a b) = show_nat a @ ''-'' @ show_nat b"

definition print_lanes :: "lane list \<Rightarrow> string" where
  "print_lanes ls = js_join '' '' (map print_lane ls)"

fun lane_nodes :: "lane \<Rightarrow> nat set" where
  "lane_nodes (LGroup ns) = set ns"
| "lane_nodes (LArrow segs) = (\<Union>seg \<in> set segs. set seg)"
| "lane_nodes (LChain a b) = {min a b..max a b}"

text \<open>A pair is a task and a task it depends on.\<close>

fun lane_deps :: "lane \<Rightarrow> (nat \<times> nat) set" where
  "lane_deps (LGroup ns) = {}"
| "lane_deps (LArrow segs) =
     {(t, d). \<exists>i. Suc i < length segs \<and> t \<in> set (segs ! Suc i) \<and> d \<in> set (segs ! i)}"
| "lane_deps (LChain a b) =
     (if a \<le> b then {(Suc n, n) |n. a \<le> n \<and> n < b} else {(n, Suc n) |n. b \<le> n \<and> n < a})"

text \<open>
  A lane that can be written: no empty group, an arrow has two sides, and the ids are numbers that a
  double represents exactly.
\<close>

definition lane_ok :: "lane \<Rightarrow> bool" where
  "lane_ok l \<longleftrightarrow>
     (case l of LGroup ns \<Rightarrow> ns \<noteq> [] | LArrow segs \<Rightarrow> 2 \<le> length segs \<and> [] \<notin> set segs | LChain a b \<Rightarrow> True)
     \<and> (\<forall>n \<in> lane_nodes l. n \<le> 2 ^ 53)"

abbreviation js_nat :: "nat \<Rightarrow> jsnum" where
  "js_nat n \<equiv> JsNum (of_nat n)"

lemma js_split_js_join:
  "xs \<noteq> [] \<Longrightarrow> \<forall>x \<in> set xs. c \<notin> set x \<Longrightarrow> js_split c (js_join [c] xs) = xs"
  by (induction "[c]" xs rule: js_join.induct) (simp_all add: js_split_clean js_split_append)

lemma digit_not_special:
  "is_digit c \<Longrightarrow> c \<noteq> CHR '','' \<and> c \<noteq> CHR ''>'' \<and> c \<noteq> CHR ''-'' \<and> \<not> is_ws c"
  by (auto simp: is_digit_def is_ws_def)

lemma show_nat_clean [simp]:
  "CHR '','' \<notin> set (show_nat n)" "CHR ''>'' \<notin> set (show_nat n)" "CHR ''-'' \<notin> set (show_nat n)"
  using show_nat_digits [of n] digit_not_special by (auto simp: list_all_iff)

lemma show_nat_no_ws: "x \<in> set (show_nat n) \<Longrightarrow> \<not> is_ws x"
  using show_nat_digits [of n] digit_not_special by (auto simp: list_all_iff)

lemma set_js_join: "set (js_join sep xs) \<subseteq> set sep \<union> (\<Union>x \<in> set xs. set x)"
  by (induction sep xs rule: js_join.induct) auto

lemma print_ids_clean:
  "CHR ''>'' \<notin> set (print_ids ns)" "x \<in> set (print_ids ns) \<Longrightarrow> \<not> is_ws x"
  using set_js_join [of "'','' :: string" "map show_nat ns"] show_nat_no_ws
  by (auto simp: print_ids_def is_ws_def)

lemma parse_ids_show: "parse_ids err (map show_nat ns) = Inr (map js_nat ns)"
  by (induction ns) (simp_all add: js_Number_show_nat)

lemma parseSegment_print: "ns \<noteq> [] \<Longrightarrow> parseSegment (print_ids ns) = Inr (map js_nat ns)"
  by (simp add: parseSegment_def print_ids_def js_split_js_join parse_ids_show)

abbreviation js_pairs :: "(nat \<times> nat) set \<Rightarrow> (task_id \<times> task_id) set" where
  "js_pairs R \<equiv> map_prod js_nat js_nat ` R"

lemma js_pairs_iff: "(x, y) \<in> js_pairs R \<longleftrightarrow> (\<exists>n m. x = js_nat n \<and> y = js_nat m \<and> (n, m) \<in> R)"
  by auto

definition lane_added :: "lane \<Rightarrow> task_id graph \<Rightarrow> task_id graph \<Rightarrow> bool" where
  "lane_added l g g' \<longleftrightarrow>
     keys_of g' = keys_of g \<union> js_nat ` lane_nodes l \<and> edges g' = edges g \<union> js_pairs (lane_deps l)"

lemma lane_deps_arrow:
  "lane_deps (LArrow (s1 # s2 # segs)) = set s2 \<times> set s1 \<union> lane_deps (LArrow (s2 # segs))"
proof -
  have "(\<exists>i. Suc i < length (s1 # s2 # segs) \<and> t \<in> set ((s1 # s2 # segs) ! Suc i) \<and> d \<in> set ((s1 # s2 # segs) ! i)) \<longleftrightarrow>
      t \<in> set s2 \<and> d \<in> set s1
      \<or> (\<exists>i. Suc i < length (s2 # segs) \<and> t \<in> set ((s2 # segs) ! Suc i) \<and> d \<in> set ((s2 # segs) ! i))"
    (is "(\<exists>i. ?P i) \<longleftrightarrow> ?Q \<or> (\<exists>i. ?R i)") for t d
  proof -
    have "(\<exists>i. ?P i) \<longleftrightarrow> ?P 0 \<or> (\<exists>i. ?P (Suc i))" by (metis not0_implies_Suc)
    then show ?thesis by simp
  qed
  then show ?thesis by auto
qed

lemma parse_arrow_print:
  "[] \<notin> set segs \<Longrightarrow> 2 \<le> length segs \<Longrightarrow>
     \<exists>g'. parse_arrow (map print_ids segs) g = Inr g' \<and> lane_added (LArrow segs) g g'"
proof (induction segs arbitrary: g rule: induct_list012)
  case (3 s1 s2 segs)
  let ?g = "add_targets (map js_nat s2) (map js_nat s1) g"
  have ne: "s1 \<noteq> []" "s2 \<noteq> []" using "3.prems" by auto
  have k: "keys_of ?g = keys_of g \<union> js_nat ` (set s1 \<union> set s2)" using ne by (auto simp: keys_add_targets)
  have e: "edges ?g = edges g \<union> js_pairs (set s2 \<times> set s1)" by auto
  have step: "parse_arrow (map print_ids (s1 # s2 # segs)) g = parse_arrow (map print_ids (s2 # segs)) ?g"
    using parseSegment_print ne by simp
  show ?case
  proof (cases segs)
    case Nil
    have "lane_added (LArrow [s1, s2]) g ?g" unfolding lane_added_def lane_deps_arrow k e by auto
    with Nil step show ?thesis by auto
  next
    case (Cons s3 segs')
    with 3 obtain g' where g': "parse_arrow (map print_ids (s2 # segs)) ?g = Inr g'" "lane_added (LArrow (s2 # segs)) ?g g'"
      by fastforce
    have "lane_added (LArrow (s1 # s2 # segs)) g g'"
      using g'(2) unfolding lane_added_def lane_deps_arrow k e by (auto simp: image_Un)
    with g'(1) step show ?thesis by auto
  qed
qed simp_all

lemma chain_up_nat: "chain_up (of_nat a) (of_nat b) = map of_nat [a..<Suc b]"
proof (induction "Suc b - a" arbitrary: a)
  case (Suc n)
  have ab: "a \<le> b" using Suc.hyps(2) by simp
  have IH: "chain_up (of_nat (Suc a)) (of_nat b) = map of_nat [Suc a..<Suc b]" using Suc.hyps(2) by (intro Suc.hyps(1)) simp
  have "[a..<Suc b] = a # [Suc a..<Suc b]" using ab by (simp add: upt_conv_Cons del: upt_Suc)
  then show ?case by (subst chain_up.simps) (use ab IH in \<open>simp add: add.commute del: upt_Suc\<close>)
qed (subst chain_up.simps, simp)

lemma chain_down_nat: "chain_down (of_nat a) (of_nat b) = map of_nat (rev [b..<Suc a])"
proof (induction "Suc a - b" arbitrary: a)
  case (Suc n)
  show ?case
  proof (cases a)
    case 0
    with Suc have "b = 0" by simp
    have "chain_down (- 1) 0 = []" by (subst chain_down.simps) simp
    with 0 \<open>b = 0\<close> show ?thesis by (subst chain_down.simps) simp
  next
    case (Suc a')
    with \<open>Suc n = Suc a - b\<close> have "b \<le> a" "chain_down (of_nat a') (of_nat b) = map of_nat (rev [b..<Suc a'])"
      using Suc.hyps(1) [of a'] by auto
    with Suc show ?thesis by (subst chain_down.simps) simp
  qed
qed (subst chain_down.simps, simp)

lemma zip_tl_iff: "(x, y) \<in> set (zip xs (tl xs)) \<longleftrightarrow> (\<exists>i. Suc i < length xs \<and> x = xs ! i \<and> y = xs ! Suc i)"
  by (force simp: set_zip nth_tl)

lemma chain_pairs_up: "{(b', a'). (a', b') \<in> set (zip [a..<Suc b] (tl [a..<Suc b]))} = {(Suc n, n) |n. a \<le> n \<and> n < b}"
proof -
  have "\<exists>i. Suc i < Suc b - a \<and> n = [a..<Suc b] ! i \<and> Suc n = [a..<Suc b] ! Suc i" if "a \<le> n" "n < b" for n
    using that by (intro exI [of _ "n - a"]) (simp del: upt_Suc)
  then show ?thesis unfolding zip_tl_iff by (auto simp del: upt_Suc)
qed

lemma chain_pairs_down:
  "{(b', a'). (a', b') \<in> set (zip (rev [b..<Suc a]) (tl (rev [b..<Suc a])))} = {(n, Suc n) |n. b \<le> n \<and> n < a}"
proof -
  have nth: "rev [b..<Suc a] ! i = a - i" if "i < Suc a - b" for i
    using that by (simp add: rev_nth del: upt_Suc)
  have "\<exists>i. Suc i < Suc a - b \<and> Suc n = rev [b..<Suc a] ! i \<and> n = rev [b..<Suc a] ! Suc i" if "b \<le> n" "n < a" for n
    using that nth by (intro exI [of _ "a - Suc n"]) (simp del: upt_Suc)
  then show ?thesis unfolding zip_tl_iff using nth by (auto simp del: upt_Suc)
qed

lemma zip_map_tl: "{(y, x). (x, y) \<in> set (zip (map f xs) (tl (map f xs)))} = map_prod f f ` {(y, x). (x, y) \<in> set (zip xs (tl xs))}"
  unfolding zip_tl_iff by (force simp: image_iff)

lemma parse_chain_print:
  "\<exists>g'. parse_chain (show_nat a @ ''-'' @ show_nat b) g = Some (Inr g') \<and> lane_added (LChain a b) g g'"
proof -
  let ?ids = "if a \<le> b then [a..<Suc b] else rev [b..<Suc a]"
  let ?g = "add_chain (map js_nat ?ids) (ensure_all (map js_nat ?ids) g)"
  have p: "js_split (CHR ''-'') (show_nat a @ ''-'' @ show_nat b) = [show_nat a, show_nat b]"
    by (simp add: js_split_append js_split_clean)
  have "chain_ids (js_nat a) (js_nat b) = Some (map js_nat ?ids)"
    by (simp add: chain_ids_def chain_up_nat chain_down_nat comp_def del: upt_Suc)
  with p have "parse_chain (show_nat a @ ''-'' @ show_nat b) g = Some (Inr ?g)"
    by (simp add: parse_chain_def Let_def js_Number_show_nat del: upt_Suc)
  moreover have "keys_of ?g = keys_of g \<union> js_nat ` lane_nodes (LChain a b)"
    by (subst keys_add_chain) (auto simp: image_iff simp del: upt_Suc)
  moreover have "edges ?g = edges g \<union> js_pairs (lane_deps (LChain a b))"
    unfolding edges_add_chain edges_ensure_all zip_map_tl
    using chain_pairs_up [of a b] chain_pairs_down [of b a] by (simp del: upt_Suc)
  ultimately show ?thesis unfolding lane_added_def by blast
qed

lemma parse_lane_print:
  assumes "lane_ok l"
  shows "\<exists>g'. parse_lane (print_lane l) g = Some (Inr g') \<and> lane_added l g g'"
proof (cases l)
  case (LGroup ns)
  then have ne: "ns \<noteq> []" using assms by (simp add: lane_ok_def)
  have "CHR ''-'' \<notin> set (print_ids ns)"
    using set_js_join [of "'','' :: string" "map show_nat ns"] by (auto simp: print_ids_def)
  then have "parse_lane (print_lane l) g = Some (parse_group (print_ids ns) g)"
    using LGroup by (simp add: parse_lane_def print_ids_clean)
  moreover have "parse_group (print_ids ns) g = Inr (ensure_all (map js_nat ns) g)"
    using ne by (simp add: parse_group_def print_ids_def js_split_js_join parse_ids_show)
  moreover have "lane_added l g (ensure_all (map js_nat ns) g)" using LGroup by (simp add: lane_added_def)
  ultimately show ?thesis by simp
next
  case (LArrow segs)
  then have ok: "[] \<notin> set segs" "2 \<le> length segs" using assms by (simp_all add: lane_ok_def)
  then have "js_split (CHR ''>'') (print_lane l) = map print_ids segs"
    using LArrow by (auto simp: print_ids_clean intro!: js_split_js_join)
  moreover obtain s1 s2 r where "segs = s1 # s2 # r" using ok(2) by (metis Suc_le_length_iff numeral_2_eq_2)
  then have "CHR ''>'' \<in> set (print_lane l)" using LArrow by simp
  ultimately show ?thesis using parse_arrow_print [OF ok, of g] LArrow by (auto simp: parse_lane_def)
next
  case (LChain a b)
  then show ?thesis using parse_chain_print [of a b g] by (simp add: parse_lane_def)
qed

lemma parse_lanes_print:
  "\<forall>l \<in> set ls. lane_ok l \<Longrightarrow>
     \<exists>g'. parse_lanes (map print_lane ls) g = Some (Inr g')
       \<and> keys_of g' = keys_of g \<union> js_nat ` (\<Union>l \<in> set ls. lane_nodes l)
       \<and> edges g' = edges g \<union> js_pairs (\<Union>l \<in> set ls. lane_deps l)"
proof (induction ls arbitrary: g)
  case (Cons l ls)
  then obtain g1 where g1: "parse_lane (print_lane l) g = Some (Inr g1)" "lane_added l g g1"
    using parse_lane_print [of l g] by auto
  from Cons.IH [of g1] Cons.prems obtain g' where "parse_lanes (map print_lane ls) g1 = Some (Inr g')"
    "keys_of g' = keys_of g1 \<union> js_nat ` (\<Union>l \<in> set ls. lane_nodes l)"
    "edges g' = edges g1 \<union> js_pairs (\<Union>l \<in> set ls. lane_deps l)" by auto
  with g1 show ?case by (auto simp: lane_added_def image_Un)
qed simp

lemma split_ws_word:
  "\<forall>x \<in> set w. \<not> is_ws x \<Longrightarrow> is_ws c \<Longrightarrow> js_split_ws_aux False (w @ c # r) = w # js_split_ws_aux True r"
  by (induction w) auto

lemma split_ws_last: "\<forall>x \<in> set w. \<not> is_ws x \<Longrightarrow> js_split_ws_aux False w = [w]"
  by (induction w) auto

lemma split_ws_insep:
  "w \<noteq> [] \<Longrightarrow> \<not> is_ws (hd w) \<Longrightarrow> js_split_ws_aux True (w @ r) = js_split_ws_aux False (w @ r)"
  by (cases w) auto

lemma js_split_ws_join:
  "ws \<noteq> [] \<Longrightarrow> \<forall>w \<in> set ws. w \<noteq> [] \<and> (\<forall>x \<in> set w. \<not> is_ws x) \<Longrightarrow>
     js_split_ws_aux False (js_join '' '' ws) = ws"
proof (induction "'' '' :: string" ws rule: js_join.induct)
  case (3 x y xs)
  let ?r = "js_join '' '' (y # xs)"
  have y: "y \<noteq> []" "\<not> is_ws (hd y)" using "3.prems" by auto
  obtain r where r: "?r = y @ r" by (cases xs) auto
  have "js_split_ws_aux True ?r = js_split_ws_aux False ?r"
    unfolding r by (rule split_ws_insep [OF y])
  with 3 show ?case by (simp add: split_ws_word is_ws_def)
qed (simp_all add: split_ws_last)

lemma js_trim_id: "s \<noteq> [] \<Longrightarrow> \<not> is_ws (hd s) \<Longrightarrow> \<not> is_ws (last s) \<Longrightarrow> js_trim s = s"
proof -
  assume s: "s \<noteq> []" "\<not> is_ws (hd s)" "\<not> is_ws (last s)"
  have "dropWhile is_ws s = s" using s by (cases s) auto
  moreover have "dropWhile is_ws (rev s) = rev s"
    using s by (cases s rule: rev_cases) auto
  ultimately show ?thesis by (simp add: js_trim_def)
qed

lemma js_join_hd: "xs \<noteq> [] \<Longrightarrow> hd xs \<noteq> [] \<Longrightarrow> js_join sep xs \<noteq> [] \<and> hd (js_join sep xs) = hd (hd xs)"
  by (induction sep xs rule: js_join.induct) auto

lemma js_join_last: "xs \<noteq> [] \<Longrightarrow> last xs \<noteq> [] \<Longrightarrow> last (js_join sep xs) = last (last xs) \<and> js_join sep xs \<noteq> []"
  by (induction sep xs rule: js_join.induct) auto

lemma js_join_word:
  "xs \<noteq> [] \<Longrightarrow> \<forall>x \<in> set xs. x \<noteq> [] \<and> (\<forall>c \<in> set x. \<not> is_ws c) \<Longrightarrow> \<forall>c \<in> set sep. \<not> is_ws c \<Longrightarrow>
     js_join sep xs \<noteq> [] \<and> (\<forall>c \<in> set (js_join sep xs). \<not> is_ws c)"
  using js_join_hd [of xs sep] set_js_join [of sep xs] by (cases xs) fastforce+

lemma print_lane_word:
  assumes "lane_ok l"
  shows "print_lane l \<noteq> [] \<and> (\<forall>c \<in> set (print_lane l). \<not> is_ws c)"
proof -
  have sep: "\<forall>c \<in> set '',''. \<not> is_ws c" "\<forall>c \<in> set ''>''. \<not> is_ws c" "\<not> is_ws (CHR ''-'')"
    by (simp_all add: is_ws_def)
  have ids: "print_ids ns \<noteq> [] \<and> (\<forall>c \<in> set (print_ids ns). \<not> is_ws c)" if "ns \<noteq> []" for ns
    unfolding print_ids_def using that show_nat_no_ws by (intro js_join_word sep) auto
  show ?thesis
  proof (cases l)
    case (LArrow segs)
    with assms have "segs \<noteq> []" "\<forall>x \<in> set segs. x \<noteq> []" by (auto simp: lane_ok_def)
    with ids have "map print_ids segs \<noteq> []" "\<forall>x \<in> set (map print_ids segs). x \<noteq> [] \<and> (\<forall>c \<in> set x. \<not> is_ws c)"
      by auto
    from js_join_word [OF this sep(2)] show ?thesis using LArrow by simp
  next
    case (LChain a b)
    then show ?thesis using sep(3) show_nat_no_ws by auto
  qed (use assms ids in \<open>auto simp: lane_ok_def\<close>)
qed

lemma parseGraph_print:
  assumes "\<forall>l \<in> set ls. lane_ok l"
  shows "\<exists>g. parseGraph (print_lanes ls) = Some (Inr g)
    \<and> keys_of g = js_nat ` (\<Union>l \<in> set ls. lane_nodes l) \<and> edges g = js_pairs (\<Union>l \<in> set ls. lane_deps l)"
proof (cases "ls = []")
  case True
  then show ?thesis by (simp add: print_lanes_def parseGraph_def js_trim_def Let_def edges_def deps_of_def map_get_def keys_of_def)
next
  case False
  let ?ws = "map print_lane ls"
  have words: "?ws \<noteq> []" "\<forall>w \<in> set ?ws. w \<noteq> [] \<and> (\<forall>x \<in> set w. \<not> is_ws x)"
    using False assms print_lane_word by auto
  have "hd ?ws \<in> set ?ws" "last ?ws \<in> set ?ws"
    using hd_in_set [OF words(1)] last_in_set [OF words(1)] by blast+
  with words js_join_hd [of ?ws "'' ''"] js_join_last [of ?ws "'' ''"]
  have "js_trim (print_lanes ls) = print_lanes ls" "print_lanes ls \<noteq> []"
    by (auto simp: print_lanes_def intro!: js_trim_id)
  then have p: "parseGraph (print_lanes ls) = parse_lanes (map print_lane ls) []"
    using js_split_ws_join [OF words] by (simp add: parseGraph_def js_split_ws_def print_lanes_def Let_def)
  have "edges ([] :: task_id graph) = {}" "keys_of ([] :: task_id graph) = {}"
    by (simp_all add: edges_def deps_of_def map_get_def keys_of_def)
  with parse_lanes_print [OF assms, of "[]"] p show ?thesis by auto
qed

end
