(* ===== verification/Workflow_Types.thy ===== *)
theory Workflow_Types
  imports Graph_Dsl
begin

text \<open>
  The data of the workflow engine (\<open>packages/workflow/src/types.ts\<close>), the spawn-depth check
  (\<open>depth.ts\<close>), the status transition guards and the tick lock of \<open>hardening.ts\<close>,
  and the duration format (\<open>format.ts\<close>). Times are integers (milliseconds); an optional
  property of the source is an \<open>option\<close>.
\<close>

section \<open>JSON values\<close>

datatype json =
    JNull
  | JBool bool
  | JNum jsnum
  | JStr string
  | JArr "json list"
  | JObj "(string \<times> json) list"

section \<open>Task definitions\<close>

datatype task_status = Pending | InProgress | Done | Failed | Paused | Skipped

definition isTerminal :: "task_status \<Rightarrow> bool" where
  "isTerminal status \<longleftrightarrow> status = Done \<or> status = Failed \<or> status = Skipped"

datatype failure_behavior = FbAbort | FbPause | FbContinue

datatype failure_notification = FnSilent | FnParent | FnTarget string

datatype contract_action = CCreate | CUpdate | CDelete

record contract_entry =
  ce_path :: string
  ce_action :: contract_action
  ce_summary :: string

record agent_spec =
  prompt :: string
  responseSchema :: "json option"
  modelOptions :: "string option option"
  enableTools :: "string list option"
  contract :: "contract_entry list option"
  judge :: "string option"

datatype task_kind =
    KAgent agent_spec
  | KTool string "(string \<times> json) list option"
  | KGate string
  | KTransform string
  | KMessage string "string option"

record task_def =
  td_id :: task_id
  title :: "string option"
  failureBehavior :: failure_behavior
  failureNotification :: failure_notification
  td_runtimeLimitMs :: "int option"
  outputTemplate :: "string option"
  kind :: task_kind

definition getTaskPromptOrLabel :: "task_def \<Rightarrow> string" where
  "getTaskPromptOrLabel td =
     (case kind td of
        KAgent a \<Rightarrow> prompt a
      | KTool tool args \<Rightarrow> nullish (title td) (''tool:'' @ tool)
      | KGate condition \<Rightarrow> nullish (title td) (''gate:'' @ condition)
      | KTransform tpl \<Rightarrow> nullish (title td) ''transform''
      | KMessage message channel \<Rightarrow> nullish (title td) message)"

section \<open>Task and workflow state\<close>

record task_state =
  taskDef :: task_def
  status :: task_status
  sessionKey :: "string option"
  task_output :: "string option"
  error :: "string option"
  startedAt :: "int option"
  completedAt :: "int option"
  failureHandled :: bool

abbreviation tid :: "task_state \<Rightarrow> task_id" where
  "tid t \<equiv> td_id (taskDef t)"

definition pending_task :: "task_def \<Rightarrow> task_state" where
  "pending_task td =
     \<lparr> taskDef = td, status = Pending, sessionKey = None, task_output = None, error = None,
       startedAt = None, completedAt = None, failureHandled = False \<rparr>"

record task_list =
  wf_id :: string
  wf_name :: string
  tasks :: "task_state list"
  graph :: "task_id graph"
  pollingIntervalMs :: int
  createdAt :: int
  concurrency :: "int option"
  wf_runtimeLimitMs :: "int option"
  currentDepth :: "int option"
  maxDepth :: "int option"
  wf_replyTo :: "string option"

definition canSpawn :: "int \<Rightarrow> int \<Rightarrow> bool" where
  "canSpawn current maximum \<longleftrightarrow> current < maximum"

subsection \<open>Lookup by id\<close>

text \<open>
  \<open>taskMap\<close> maps an id to the task object; a later task with the same id wins. The objects are
  shared with the task list, so the map is always read against the current list.
\<close>

definition taskMap :: "task_state list \<Rightarrow> (task_id, task_state) jsmap" where
  "taskMap ts = fold (\<lambda>t. map_set (tid t) t) ts []"

definition task_get :: "task_state list \<Rightarrow> task_id \<Rightarrow> task_state option" where
  "task_get ts i = map_get (taskMap ts) i"

text \<open>Mutation through the map: the last task with that id is the object that changes.\<close>

fun task_update :: "task_id \<Rightarrow> (task_state \<Rightarrow> task_state) \<Rightarrow> task_state list \<Rightarrow> task_state list" where
  "task_update i f [] = []"
| "task_update i f (t # ts) =
     (if tid t = i \<and> i \<notin> set (map tid ts) then f t # ts else t # task_update i f ts)"

abbreviation ids_ok :: "task_state list \<Rightarrow> bool" where
  "ids_ok ts \<equiv> distinct (map tid ts)"

lemma task_get_find: "task_get ts i = find (\<lambda>t. tid t = i) (rev ts)"
  using js_map.fold_put_get [of tid "\<lambda>t. t" ts "[]" i]
  by (simp add: task_get_def taskMap_def map_get_def split: option.splits)

lemma task_get_Some: "task_get ts i = Some t \<Longrightarrow> t \<in> set ts \<and> tid t = i"
  by (auto simp: task_get_find find_Some_iff) (metis nth_mem length_rev set_rev)

lemma task_get_None: "task_get ts i = None \<longleftrightarrow> i \<notin> tid ` set ts"
  by (auto simp: task_get_find find_None_iff)

lemma task_get_mem: "ids_ok ts \<Longrightarrow> t \<in> set ts \<Longrightarrow> task_get ts (tid t) = Some t"
proof -
  assume ok: "ids_ok ts" and t: "t \<in> set ts"
  then obtain u where u: "task_get ts (tid t) = Some u"
    by (cases "task_get ts (tid t)") (auto simp: task_get_None)
  with ok t show ?thesis
    by (metis task_get_Some distinct_map inj_onD)
qed

lemma task_get_Some_iff: "ids_ok ts \<Longrightarrow> task_get ts i = Some t \<longleftrightarrow> t \<in> set ts \<and> tid t = i"
  using task_get_Some task_get_mem by metis

lemma task_update_ids [simp]: "(\<And>t. tid (f t) = tid t) \<Longrightarrow> map tid (task_update i f ts) = map tid ts"
  by (induction ts) auto

lemma length_task_update [simp]: "length (task_update i f ts) = length ts"
  by (induction ts) auto

lemma task_update_map:
  "ids_ok ts \<Longrightarrow> task_update i f ts = map (\<lambda>t. if tid t = i then f t else t) ts"
proof (induction ts)
  case Nil
  then show ?case by simp
next
  case (Cons t ts)
  then show ?case by (fastforce simp: image_iff intro!: map_idI [symmetric])
qed

section \<open>Status transitions\<close>

definition STATUS_ORDER :: "task_status \<Rightarrow> nat" where
  "STATUS_ORDER s =
     (case s of Pending \<Rightarrow> 0 | Paused \<Rightarrow> 0 | InProgress \<Rightarrow> 1 | Done \<Rightarrow> 2 | Failed \<Rightarrow> 2 | Skipped \<Rightarrow> 2)"

definition isValidTransition :: "task_status \<Rightarrow> task_status \<Rightarrow> bool" where
  "isValidTransition from' to' \<longleftrightarrow>
     (if from' = to' then False
      else if from' = Done \<or> from' = Failed \<or> from' = Skipped then False
      else STATUS_ORDER from' \<le> STATUS_ORDER to')"

definition guardedTransition :: "task_state \<Rightarrow> task_status \<Rightarrow> bool \<times> task_state" where
  "guardedTransition task newStatus =
     (if \<not> isValidTransition (status task) newStatus then (False, task)
      else (True, task\<lparr>status := newStatus\<rparr>))"

text \<open>The order the guards describe: a status stays or moves by a valid transition.\<close>

definition status_le :: "task_status \<Rightarrow> task_status \<Rightarrow> bool" where
  "status_le a b \<longleftrightarrow> a = b \<or> isValidTransition a b"

lemmas transition_defs = isValidTransition_def STATUS_ORDER_def isTerminal_def

lemma status_le_refl [simp]: "status_le a a"
  by (simp add: status_le_def)

lemma status_le_trans: "status_le a b \<Longrightarrow> status_le b c \<Longrightarrow> status_le a c"
  by (cases a; cases b; cases c) (simp_all add: status_le_def transition_defs)

lemma status_le_terminal: "status_le a b \<Longrightarrow> isTerminal a \<Longrightarrow> b = a"
  by (cases a; cases b) (simp_all add: status_le_def transition_defs)

lemma status_le_simps [simp]:
  "status_le Pending b" "status_le InProgress Done" "status_le InProgress Failed"
  "status_le Paused Failed"
  by (cases b) (simp_all add: status_le_def transition_defs)

section \<open>The tick lock\<close>

record tick_lock = locked :: bool

definition createTickLock :: tick_lock where
  "createTickLock = \<lparr> locked = False \<rparr>"

definition lock_acquire :: "tick_lock \<Rightarrow> bool \<times> tick_lock" where
  "lock_acquire l = (if locked l then (False, l) else (True, l\<lparr>locked := True\<rparr>))"

definition lock_release :: "tick_lock \<Rightarrow> tick_lock" where
  "lock_release l = l\<lparr>locked := False\<rparr>"

definition isLocked :: "tick_lock \<Rightarrow> bool" where
  "isLocked l = locked l"

section \<open>Durations\<close>

definition formatDuration :: "int \<Rightarrow> string" where
  "formatDuration ms =
     (let totalSeconds = max 0 ms div 1000;
          totalMinutes = totalSeconds div 60;
          totalHours = totalMinutes div 60
      in if totalMinutes < 1 then show_int totalSeconds @ ''s''
         else if totalMinutes < 60
           then show_int totalMinutes @ ''m'' @ show_int (totalSeconds mod 60) @ ''s''
         else show_int totalHours @ ''h'' @ show_int (totalMinutes mod 60) @ ''m'')"

end
