(* ===== verification/Templates.thy ===== *)
theory Templates
  imports Workflow_Types
begin

text \<open>
  Template references \<open>{{task:N:output}}\<close> and \<open>{{task:N:success}}\<close>
  (\<open>packages/workflow/src/templates.ts\<close>) and the output templates of a task
  (\<open>applyOutputTemplate\<close> of \<open>orchestrator.ts\<close>). The regular expressions of the source
  are scanners here: a leftmost, non-overlapping, left-to-right pass.
\<close>

section \<open>Scanning\<close>

datatype ref_kind = RefOutput | RefSuccess

datatype tpl_seg = Lit char | Ref string ref_kind

text \<open>One match of \<open>TEMPLATE_PATTERN\<close> at the start of a string: the digits, the kind, the rest.\<close>

definition tpl_at :: "string \<Rightarrow> (string \<times> ref_kind \<times> string) option" where
  "tpl_at s =
     (if js_starts_with s ''{{task:'' then
        (let r = drop 7 s; ds = takeWhile is_digit r; r2 = dropWhile is_digit r in
         if ds = [] then None
         else if js_starts_with r2 '':output}}'' then Some (ds, RefOutput, drop 9 r2)
         else if js_starts_with r2 '':success}}'' then Some (ds, RefSuccess, drop 10 r2)
         else None)
      else None)"

definition kind_name :: "ref_kind \<Rightarrow> string" where
  "kind_name k = (case k of RefOutput \<Rightarrow> ''output'' | RefSuccess \<Rightarrow> ''success'')"

definition ref_text :: "string \<Rightarrow> ref_kind \<Rightarrow> string" where
  "ref_text ds k = ''{{task:'' @ ds @ '':'' @ kind_name k @ ''}}''"

lemma tpl_kind_text:
  "js_starts_with q '':output}}'' \<and> k = RefOutput \<and> r = drop 9 q \<or>
   js_starts_with q '':success}}'' \<and> k = RefSuccess \<and> r = drop 10 q \<Longrightarrow>
     q = '':'' @ kind_name k @ ''}}'' @ r"
  by (auto simp: js_starts_with_iff kind_name_def)

lemma tpl_at_Some:
  assumes "tpl_at s = Some (ds, k, r)"
  shows "s = ref_text ds k @ r \<and> ds \<noteq> [] \<and> list_all is_digit ds"
proof -
  from assms have "js_starts_with s ''{{task:''" by (simp add: tpl_at_def split: if_splits)
  then obtain r1 where s: "s = ''{{task:'' @ r1" by (auto simp: js_starts_with_iff)
  let ?d = "takeWhile is_digit r1" and ?r2 = "dropWhile is_digit r1"
  have r1: "r1 = ?d @ ?r2" by simp
  have dd: "list_all is_digit ?d" by (auto simp: list_all_iff dest: set_takeWhileD)
  have drop: "drop 7 s = r1" using s by simp
  have pre: "js_starts_with s ''{{task:''" using s by (simp only: js_starts_with_append)
  from assms have ne: "?d \<noteq> []" and ds: "ds = ?d"
    and alt: "js_starts_with ?r2 '':output}}'' \<and> k = RefOutput \<and> r = drop 9 ?r2 \<or>
      js_starts_with ?r2 '':success}}'' \<and> k = RefSuccess \<and> r = drop 10 ?r2"
    unfolding tpl_at_def Let_def drop by (auto simp only: pre split: if_splits)
  from alt have r2: "?r2 = '':'' @ kind_name k @ ''}}'' @ r" by (rule tpl_kind_text)
  from r1 ds r2 have "r1 = ds @ '':'' @ kind_name k @ ''}}'' @ r" by metis
  then have "s = ref_text ds k @ r" unfolding s ref_text_def by simp
  moreover have "ds \<noteq> [] \<and> list_all is_digit ds" unfolding ds using ne dd by blast
  ultimately show ?thesis by blast
qed

lemma tpl_at_shorter: "tpl_at s = Some (ds, k, r) \<Longrightarrow> length r < length s"
  by (auto dest!: tpl_at_Some simp: ref_text_def)

function tpl_scan :: "string \<Rightarrow> tpl_seg list" where
  "tpl_scan [] = []"
| "tpl_scan (c # s) =
     (case tpl_at (c # s) of
        Some (ds, k, r) \<Rightarrow> Ref ds k # tpl_scan r
      | None \<Rightarrow> Lit c # tpl_scan s)"
  by pat_completeness auto
termination
  by (relation "measure length") (auto dest: tpl_at_shorter)

fun seg_text :: "tpl_seg \<Rightarrow> string" where
  "seg_text (Lit c) = [c]"
| "seg_text (Ref ds k) = ref_text ds k"

lemma tpl_scan_lossless: "concat (map seg_text (tpl_scan s)) = s"
proof (induction s rule: tpl_scan.induct)
  case 1
  then show ?case by simp
next
  case (2 c s)
  show ?case
  proof (cases "tpl_at (c # s)")
    case None
    with "2.IH"(1) show ?thesis by simp
  next
    case (Some m)
    obtain ds k r where m: "m = (ds, k, r)" by (cases m)
    from "2.IH"(2) Some m have "concat (map seg_text (tpl_scan r)) = r" by blast
    then have "concat (map seg_text (tpl_scan (c # s))) = ref_text ds k @ r"
      using Some m by simp
    also have "\<dots> = c # s" using tpl_at_Some [of "c # s" ds k r] Some m by simp
    finally show ?thesis .
  qed
qed

section \<open>References, validation, resolution\<close>

record template_ref =
  ref_kind :: ref_kind
  ref_taskId :: task_id

fun seg_ref :: "tpl_seg \<Rightarrow> template_ref list" where
  "seg_ref (Lit c) = []"
| "seg_ref (Ref ds k) = [\<lparr> ref_kind = k, ref_taskId = js_Number ds \<rparr>]"

definition parseTemplateRefs :: "string \<Rightarrow> template_ref list" where
  "parseTemplateRefs prompt' = concat (map seg_ref (tpl_scan prompt'))"

text \<open>\<open>Some r\<close> is the thrown error: \<open>r\<close> is the first reference that is no dependency.\<close>

definition validateTemplateRefs ::
  "task_id \<Rightarrow> template_ref list \<Rightarrow> task_id graph \<Rightarrow> template_ref option" where
  "validateTemplateRefs taskId refs g =
     (if refs = [] then None
      else (let allDeps = set (deps_of g taskId) \<union> set (getTransitiveDeps g taskId)
            in find (\<lambda>r. ref_taskId r \<notin> allDeps) refs))"

definition resolve_seg :: "(task_id \<Rightarrow> task_state option) \<Rightarrow> tpl_seg \<Rightarrow> string" where
  "resolve_seg get seg =
     (case seg of
        Lit c \<Rightarrow> [c]
      | Ref ds k \<Rightarrow>
          (case get (js_Number ds) of
             None \<Rightarrow> ref_text ds k
           | Some task \<Rightarrow>
               (case k of
                  RefOutput \<Rightarrow> nullish (task_output task) []
                | RefSuccess \<Rightarrow> if status task = Done then ''true'' else ''false'')))"

definition resolveTemplates :: "string \<Rightarrow> (task_id \<Rightarrow> task_state option) \<Rightarrow> string" where
  "resolveTemplates prompt' get = concat (map (resolve_seg get) (tpl_scan prompt'))"

lemma validateTemplateRefs_None:
  "validateTemplateRefs i refs g = None \<longleftrightarrow> (\<forall>r \<in> set refs. (i, ref_taskId r) \<in> (edges g)\<^sup>+)"
proof -
  have "set (deps_of g i) \<subseteq> (edges g)\<^sup>+ `` {i}" by (auto simp: edges_iff intro: r_into_trancl)
  then have "set (deps_of g i) \<union> set (getTransitiveDeps g i) = (edges g)\<^sup>+ `` {i}"
    unfolding fwd_search.search_trancl by auto
  then show ?thesis
    by (auto simp: validateTemplateRefs_def find_None_iff Let_def)
qed

lemma seg_ref_mem: "Ref ds k \<in> set (tpl_scan s) \<Longrightarrow>
    \<lparr> ref_kind = k, ref_taskId = js_Number ds \<rparr> \<in> set (parseTemplateRefs s)"
  by (force simp: parseTemplateRefs_def)

lemma resolve_no_refs: "parseTemplateRefs s = [] \<Longrightarrow> resolveTemplates s get = s"
proof -
  assume none: "parseTemplateRefs s = []"
  have "resolve_seg get x = seg_text x" if "x \<in> set (tpl_scan s)" for x
  proof (cases x)
    case (Ref ds k)
    with that seg_ref_mem none show ?thesis by fastforce
  qed (simp add: resolve_seg_def)
  then have "map (resolve_seg get) (tpl_scan s) = map seg_text (tpl_scan s)" by simp
  then show ?thesis unfolding resolveTemplates_def by (simp only: tpl_scan_lossless)
qed

section \<open>Output templates\<close>

text \<open>
  \<open>String.replace\<close> with a replacement \<^emph>\<open>string\<close> expands \<open>$$\<close>, \<open>$&\<close>,
  \<open>$`\<close> and \<open>$'\<close> in it; the patterns here have no capture groups.
\<close>

fun get_subst :: "string \<Rightarrow> string \<Rightarrow> string \<Rightarrow> string \<Rightarrow> string" where
  "get_subst matched before after [] = []"
| "get_subst matched before after [c] = [c]"
| "get_subst matched before after (c # d # r) =
     (if c = CHR ''$'' then
        (if d = CHR ''$'' then CHR ''$'' # get_subst matched before after r
         else if d = CHR ''&'' then matched @ get_subst matched before after r
         else if d = CHR 0x60 then before @ get_subst matched before after r
         else if d = CHR 0x27 then after @ get_subst matched before after r
         else c # get_subst matched before after (d # r))
      else c # get_subst matched before after (d # r))"

text \<open>
  A match of \<open>/{{self.<field>}}/\<close> at the start of a string: the dot of the pattern stands for
  any character but a line terminator.
\<close>

definition self_at :: "string \<Rightarrow> string \<Rightarrow> (string \<times> string) option" where
  "self_at field s =
     (if js_starts_with s ''{{self'' then
        (case drop 6 s of
           [] \<Rightarrow> None
         | c # r \<Rightarrow>
             if (of_char c :: nat) \<noteq> 10 \<and> (of_char c :: nat) \<noteq> 13
                \<and> js_starts_with r (field @ ''}}'')
             then Some (take (9 + length field) s, drop (9 + length field) s)
             else None)
      else None)"

lemma self_at_shorter: "self_at field s = Some (m, r) \<Longrightarrow> length r < length s"
  by (cases s) (auto simp: self_at_def split: if_splits list.splits)

function replace_self :: "string \<Rightarrow> string \<Rightarrow> string \<Rightarrow> string \<Rightarrow> string" where
  "replace_self field repl before [] = []"
| "replace_self field repl before (c # s) =
     (case self_at field (c # s) of
        Some (m, r) \<Rightarrow> get_subst m before r repl @ replace_self field repl (before @ m) r
      | None \<Rightarrow> c # replace_self field repl (before @ [c]) s)"
  by pat_completeness auto
termination
  by (relation "measure (\<lambda>(f, p, b, s). length s)") (auto dest: self_at_shorter)

definition resolve_self :: "task_state \<Rightarrow> string \<Rightarrow> string" where
  "resolve_self task tpl =
     (let s1 = replace_self ''output'' (nullish (task_output task) []) [] tpl;
          s2 = replace_self ''error'' (nullish (error task) []) [] s1
      in replace_self ''exitCode'' [] [] s2)"

text \<open>Returns the task and the set of ids whose template has been applied.\<close>

definition applyOutputTemplate :: "task_state \<Rightarrow> task_id list \<Rightarrow> task_state \<times> task_id list" where
  "applyOutputTemplate task applied =
     (if status task \<noteq> Done then (task, applied)
      else if \<not> truthy_str (outputTemplate (taskDef task)) then (task, applied)
      else if tid task \<in> set applied then (task, applied)
      else (task\<lparr>task_output := Some (resolve_self task (the (outputTemplate (taskDef task))))\<rparr>,
            set_add (tid task) applied))"

lemma get_subst_plain: "CHR ''$'' \<notin> set p \<Longrightarrow> get_subst m b a p = p"
  by (induction m b a p rule: get_subst.induct) auto

lemma applyOutputTemplate_frame [frame_simps]:
  "status (fst (applyOutputTemplate t ap)) = status t"
  "taskDef (fst (applyOutputTemplate t ap)) = taskDef t"
  "sessionKey (fst (applyOutputTemplate t ap)) = sessionKey t"
  "error (fst (applyOutputTemplate t ap)) = error t"
  "startedAt (fst (applyOutputTemplate t ap)) = startedAt t"
  "completedAt (fst (applyOutputTemplate t ap)) = completedAt t"
  "failureHandled (fst (applyOutputTemplate t ap)) = failureHandled t"
  by (simp_all add: applyOutputTemplate_def)

end
