(* ===== verification/Gate_Eval.thy ===== *)
theory Gate_Eval
  imports Templates
begin

text \<open>
  Gate conditions, \<open>packages/workflow/src/gate-eval.ts\<close>: the tokenizer and the
  recursive-descent evaluator (it evaluates while it parses, without short-circuiting). The
  evaluator carries fuel; \<open>gate_fuel\<close> is enough for every token list
  (\<open>parse_fuel_enough\<close>), so \<open>evaluateGateCondition\<close> always returns a value or a
  thrown error. The last part relates it to an abstract syntax of conditions with a
  compositional semantics.
\<close>

section \<open>Context\<close>

record gate_entry =
  ge_output :: string
  ge_success :: bool

type_synonym gate_context = "task_id \<Rightarrow> gate_entry option"

text \<open>Only done and failed tasks have a result.\<close>

definition buildGateContext :: "(task_id \<Rightarrow> task_state option) \<Rightarrow> gate_context" where
  "buildGateContext get i =
     (case get i of
        None \<Rightarrow> None
      | Some t \<Rightarrow>
          if status t = Done \<or> status t = Failed
          then Some \<lparr> ge_output = nullish (task_output t) [], ge_success = (status t = Done) \<rparr>
          else None)"

fun gate_seg :: "tpl_seg \<Rightarrow> string" where
  "gate_seg (Lit c) = [c]"
| "gate_seg (Ref ds k) = ''task.'' @ ds @ ''.'' @ kind_name k"

definition resolveGateTemplates :: "string \<Rightarrow> string" where
  "resolveGateTemplates condition = concat (map gate_seg (tpl_scan condition))"

section \<open>Tokens\<close>

datatype token =
    TaskRef task_id bool \<comment> \<open>the flag is True for the field \<open>success\<close>\<close>
  | TBool bool
  | TString string
  | TEq
  | TNeq
  | TAnd
  | TOr
  | TNot
  | TContains
  | TLParen
  | TRParen
  | TEof

datatype gate_error =
    UnterminatedString
  | UnknownIdentifier string
  | UnexpectedCharacter char nat
  | NoResult task_id
  | ExpectedRParen token
  | UnexpectedToken token
  | TrailingTokens token

text \<open>The body of a string literal up to its quote: the text, the rest, the number of units read.\<close>

fun scan_string :: "char \<Rightarrow> string \<Rightarrow> (string \<times> string \<times> nat) option" where
  "scan_string q [] = None"
| "scan_string q [c] = (if c = q then Some ([], [], 1) else None)"
| "scan_string q (c # d # s) =
     (if c = q then Some ([], d # s, 1)
      else if c = CHR 0x5C then map_option (\<lambda>(t, r, n). (d # t, r, n + 2)) (scan_string q s)
      else map_option (\<lambda>(t, r, n). (c # t, r, n + 1)) (scan_string q (d # s)))"

definition is_word_char :: "char \<Rightarrow> bool" where
  "is_word_char c \<longleftrightarrow> is_ident_start c \<or> is_digit c \<or> c = CHR ''.''"

definition word_token :: "string \<Rightarrow> gate_error + token" where
  "word_token w =
     (if w = ''true'' then Inr (TBool True)
      else if w = ''false'' then Inr (TBool False)
      else if w = ''contains'' then Inr TContains
      else (case js_split (CHR ''.'') w of
              [a, b, c] \<Rightarrow>
                (if a = ''task'' \<and> b \<noteq> [] \<and> list_all is_digit b \<and> (c = ''output'' \<or> c = ''success'')
                 then Inr (TaskRef (js_Number b) (c = ''success''))
                 else Inl (UnknownIdentifier w))
            | _ \<Rightarrow> Inl (UnknownIdentifier w)))"

lemma scan_string_shorter: "scan_string q s = Some (t, r, n) \<Longrightarrow> length r < length s"
  by (induction q s arbitrary: t r n rule: scan_string.induct)
    (auto split: if_splits simp: less_Suc_eq)

text \<open>
  One turn of the tokenizer's loop at position \<open>i\<close>, on the character \<open>c\<close> and the rest
  \<open>s\<close>: the token pushed, if any, the next position and what is left of the string.
\<close>

definition next_token :: "nat \<Rightarrow> char \<Rightarrow> string \<Rightarrow> gate_error + token option \<times> nat \<times> string" where
  "next_token i c s =
     (if is_ws c then Inr (None, i + 1, s)
      else if c = CHR ''('' then Inr (Some TLParen, i + 1, s)
      else if c = CHR '')'' then Inr (Some TRParen, i + 1, s)
      else if c = CHR ''='' \<and> js_starts_with s ''='' then Inr (Some TEq, i + 2, tl s)
      else if c = CHR ''!'' \<and> js_starts_with s ''='' then Inr (Some TNeq, i + 2, tl s)
      else if c = CHR ''&'' \<and> js_starts_with s ''&'' then Inr (Some TAnd, i + 2, tl s)
      else if c = CHR ''|'' \<and> js_starts_with s ''|'' then Inr (Some TOr, i + 2, tl s)
      else if c = CHR ''!'' then Inr (Some TNot, i + 1, s)
      else if c = CHR 0x22 \<or> c = CHR 0x27 then
        (case scan_string c s of
           None \<Rightarrow> Inl UnterminatedString
         | Some (t, r, n) \<Rightarrow> Inr (Some (TString t), i + 1 + n, r))
      else if is_ident_start c then
        (case word_token (c # takeWhile is_word_char s) of
           Inl e \<Rightarrow> Inl e
         | Inr t \<Rightarrow>
             Inr (Some t, i + length (c # takeWhile is_word_char s), dropWhile is_word_char s))
      else Inl (UnexpectedCharacter c i))"

definition leaves_at_most :: "nat \<Rightarrow> gate_error + token option \<times> nat \<times> string \<Rightarrow> bool" where
  "leaves_at_most n x = (case x of Inl e \<Rightarrow> True | Inr (t, j, r) \<Rightarrow> length r \<le> n)"

lemma leaves_at_most_simps [simp]:
  "leaves_at_most n (Inl e)" "leaves_at_most n (Inr (t, j, r)) \<longleftrightarrow> length r \<le> n"
  by (simp_all add: leaves_at_most_def)

lemma leaves_next_token: "leaves_at_most (length s) (next_token i c s)"
proof -
  have str: "leaves_at_most (length s)
      (case scan_string c s of
         None \<Rightarrow> Inl UnterminatedString
       | Some (t, r, n) \<Rightarrow> Inr (Some (TString t), i + 1 + n, r))"
    by (auto split: option.split dest!: scan_string_shorter)
  have word: "leaves_at_most (length s)
      (case word_token (c # takeWhile is_word_char s) of
         Inl e \<Rightarrow> Inl e
       | Inr t \<Rightarrow>
           Inr (Some t, i + length (c # takeWhile is_word_char s), dropWhile is_word_char s))"
    by (simp add: length_dropWhile_le split: sum.split)
  have tl: "length (tl s) \<le> length s" by simp
  show ?thesis
    unfolding next_token_def
    by (simp only: str word tl leaves_at_most_simps if_distrib [of "leaves_at_most (length s)"]
        if_True if_False order_refl if_cancel)
qed

lemma next_token_shorter: "next_token i c s = Inr (t, j, r) \<Longrightarrow> length r \<le> length s"
  using leaves_next_token [of s i c] by simp

definition tok_push :: "token option \<Rightarrow> gate_error + token list \<Rightarrow> gate_error + token list" where
  "tok_push t r =
     (case r of Inl e \<Rightarrow> Inl e | Inr ts \<Rightarrow> Inr (case t of None \<Rightarrow> ts | Some t' \<Rightarrow> t' # ts))"

function tokenize :: "nat \<Rightarrow> string \<Rightarrow> gate_error + token list" where
  "tokenize i [] = Inr [TEof]"
| "tokenize i (c # s) =
     (case next_token i c s of
        Inl e \<Rightarrow> Inl e
      | Inr (t, j, r) \<Rightarrow> tok_push t (tokenize j r))"
  by pat_completeness auto
termination
  by (relation "measure (\<lambda>(i, s). length s)") (auto dest: next_token_shorter)

section \<open>Evaluation\<close>

datatype gvalue = VStr string | VBool bool

definition toBool :: "gvalue \<Rightarrow> bool" where
  "toBool v = (case v of VBool b \<Rightarrow> b | VStr s \<Rightarrow> s = ''true'')"

definition js_String :: "gvalue \<Rightarrow> string" where
  "js_String v = (case v of VStr s \<Rightarrow> s | VBool b \<Rightarrow> if b then ''true'' else ''false'')"

definition resolveRef :: "task_id \<Rightarrow> bool \<Rightarrow> gate_context \<Rightarrow> gate_error + gvalue" where
  "resolveRef i success ctx =
     (case ctx i of
        None \<Rightarrow> Inl (NoResult i)
      | Some e \<Rightarrow> Inr (if success then VBool (ge_success e) else VStr (ge_output e)))"

definition peek :: "token list \<Rightarrow> token" where
  "peek ts = (case ts of [] \<Rightarrow> TEof | t # _ \<Rightarrow> t)"

type_synonym parse_res = "(gate_error + gvalue \<times> token list) option"

definition pbind :: "parse_res \<Rightarrow> (gvalue \<Rightarrow> token list \<Rightarrow> parse_res) \<Rightarrow> parse_res" where
  "pbind r f =
     (case r of
        None \<Rightarrow> None
      | Some (Inl e) \<Rightarrow> Some (Inl e)
      | Some (Inr (v, ts)) \<Rightarrow> f v ts)"

abbreviation pret :: "gvalue \<Rightarrow> token list \<Rightarrow> parse_res" where
  "pret v ts \<equiv> Some (Inr (v, ts))"

text \<open>
  The mutually recursive parse functions: each is a definition over \<open>call\<close>, which stands for
  the calls of the others, and \<open>gate_parse\<close> ties the knot. The loops of \<open>parseOr\<close> and
  \<open>parseAnd\<close> are goals of their own, with the value of the left operand.
\<close>

datatype goal = GOr | GOrLoop gvalue | GAnd | GAndLoop gvalue | GComparison | GUnary | GPrimary

type_synonym call = "goal \<Rightarrow> token list \<Rightarrow> parse_res"

definition parseOr :: "call \<Rightarrow> token list \<Rightarrow> parse_res" where
  "parseOr call ts = pbind (call GAnd ts) (\<lambda>left. call (GOrLoop left))"

definition orLoop :: "call \<Rightarrow> gvalue \<Rightarrow> token list \<Rightarrow> parse_res" where
  "orLoop call left ts =
     (if peek ts = TOr
      then pbind (call GAnd (tl ts)) (\<lambda>right. call (GOrLoop (VBool (toBool left \<or> toBool right))))
      else pret left ts)"

definition parseAnd :: "call \<Rightarrow> token list \<Rightarrow> parse_res" where
  "parseAnd call ts = pbind (call GComparison ts) (\<lambda>left. call (GAndLoop left))"

definition andLoop :: "call \<Rightarrow> gvalue \<Rightarrow> token list \<Rightarrow> parse_res" where
  "andLoop call left ts =
     (if peek ts = TAnd
      then pbind (call GComparison (tl ts))
             (\<lambda>right. call (GAndLoop (VBool (toBool left \<and> toBool right))))
      else pret left ts)"

definition parseComparison :: "call \<Rightarrow> token list \<Rightarrow> parse_res" where
  "parseComparison call ts =
     pbind (call GUnary ts) (\<lambda>left ts1.
       if peek ts1 = TEq \<or> peek ts1 = TNeq then
         pbind (call GUnary (tl ts1)) (\<lambda>right ts2.
           pret (VBool (if peek ts1 = TEq then js_String left = js_String right
                        else js_String left \<noteq> js_String right)) ts2)
       else if peek ts1 = TContains then
         pbind (call GUnary (tl ts1)) (\<lambda>right ts2.
           pret (VBool (js_includes (js_String left) (js_String right))) ts2)
       else pret left ts1)"

definition parseUnary :: "call \<Rightarrow> token list \<Rightarrow> parse_res" where
  "parseUnary call ts =
     (if peek ts = TNot
      then pbind (call GUnary (tl ts)) (\<lambda>v ts1. pret (VBool (\<not> toBool v)) ts1)
      else call GPrimary ts)"

definition parsePrimary :: "call \<Rightarrow> gate_context \<Rightarrow> token list \<Rightarrow> parse_res" where
  "parsePrimary call ctx ts =
     (case peek ts of
        TaskRef i s \<Rightarrow>
          (case resolveRef i s ctx of Inl e \<Rightarrow> Some (Inl e) | Inr v \<Rightarrow> pret v (tl ts))
      | TBool b \<Rightarrow> pret (VBool b) (tl ts)
      | TString s \<Rightarrow> pret (VStr s) (tl ts)
      | TLParen \<Rightarrow>
          pbind (call GOr (tl ts)) (\<lambda>v ts1.
            if peek ts1 = TRParen then pret v (tl ts1) else Some (Inl (ExpectedRParen (peek ts1))))
      | t \<Rightarrow> Some (Inl (UnexpectedToken t)))"

primrec gate_parse :: "nat \<Rightarrow> gate_context \<Rightarrow> goal \<Rightarrow> token list \<Rightarrow> parse_res" where
  "gate_parse 0 ctx g ts = None"
| "gate_parse (Suc n) ctx g ts =
     (case g of
        GOr \<Rightarrow> parseOr (gate_parse n ctx) ts
      | GOrLoop left \<Rightarrow> orLoop (gate_parse n ctx) left ts
      | GAnd \<Rightarrow> parseAnd (gate_parse n ctx) ts
      | GAndLoop left \<Rightarrow> andLoop (gate_parse n ctx) left ts
      | GComparison \<Rightarrow> parseComparison (gate_parse n ctx) ts
      | GUnary \<Rightarrow> parseUnary (gate_parse n ctx) ts
      | GPrimary \<Rightarrow> parsePrimary (gate_parse n ctx) ctx ts)"

lemma parse_GOr: "gate_parse (Suc n) ctx GOr ts = parseOr (gate_parse n ctx) ts"
  and parse_GOrLoop: "gate_parse (Suc n) ctx (GOrLoop v) ts = orLoop (gate_parse n ctx) v ts"
  and parse_GAnd: "gate_parse (Suc n) ctx GAnd ts = parseAnd (gate_parse n ctx) ts"
  and parse_GAndLoop: "gate_parse (Suc n) ctx (GAndLoop v) ts = andLoop (gate_parse n ctx) v ts"
  and parse_GComparison: "gate_parse (Suc n) ctx GComparison ts = parseComparison (gate_parse n ctx) ts"
  and parse_GPrimary: "gate_parse (Suc n) ctx GPrimary ts = parsePrimary (gate_parse n ctx) ctx ts"
  by simp_all

definition gate_fuel :: "token list \<Rightarrow> nat" where
  "gate_fuel ts = 7 * length ts + 7"

text \<open>\<open>None\<close> would mean that the fuel ran out; \<open>Inl\<close> is a thrown error.\<close>

definition evaluateGateCondition :: "string \<Rightarrow> gate_context \<Rightarrow> (gate_error + bool) option" where
  "evaluateGateCondition expr ctx =
     (case tokenize 0 (resolveGateTemplates expr) of
        Inl e \<Rightarrow> Some (Inl e)
      | Inr tokens \<Rightarrow>
          (case gate_parse (gate_fuel tokens) ctx GOr tokens of
             None \<Rightarrow> None
           | Some (Inl e) \<Rightarrow> Some (Inl e)
           | Some (Inr (v, ts)) \<Rightarrow>
               if peek ts \<noteq> TEof then Some (Inl (TrailingTokens (peek ts)))
               else Some (Inr (toBool v))))"

section \<open>Fuel\<close>

text \<open>A result that consumed at least \<open>d\<close> tokens of a list of length \<open>m\<close>.\<close>

definition consumes :: "nat \<Rightarrow> nat \<Rightarrow> parse_res \<Rightarrow> bool" where
  "consumes d m r \<longleftrightarrow>
     (case r of None \<Rightarrow> False | Some (Inl e) \<Rightarrow> True | Some (Inr (v, ts)) \<Rightarrow> length ts + d \<le> m)"

lemma consumes_pret [simp]: "consumes d m (pret v ts) \<longleftrightarrow> length ts + d \<le> m"
  by (simp add: consumes_def)

lemma consumes_err [simp]: "consumes d m (Some (Inl e))"
  by (simp add: consumes_def)

lemma consumes_cases:
  "consumes d m r \<longleftrightarrow> (\<exists>e. r = Some (Inl e)) \<or> (\<exists>v ts. r = pret v ts \<and> length ts + d \<le> m)"
  by (cases r) (auto simp: consumes_def split: sum.splits)

lemma consumes_pbind:
  "consumes d m r \<Longrightarrow> (\<And>v ts. length ts + d \<le> m \<Longrightarrow> consumes d' m' (f v ts)) \<Longrightarrow>
     consumes d' m' (pbind r f)"
  by (auto simp: consumes_cases [of d] pbind_def)

lemma consumes_Some: "consumes d m r \<Longrightarrow> r \<noteq> None"
  by (auto simp: consumes_cases)

lemma peek_nonempty: "peek ts \<noteq> TEof \<Longrightarrow> length (tl ts) + 1 = length ts"
  by (cases ts) (auto simp: peek_def)

text \<open>How much fuel each goal needs beyond seven units for every token.\<close>

definition goal_fuel :: "goal \<Rightarrow> nat" where
  "goal_fuel g =
     (case g of GOr \<Rightarrow> 6 | GOrLoop v \<Rightarrow> 1 | GAnd \<Rightarrow> 5 | GAndLoop v \<Rightarrow> 1
      | GComparison \<Rightarrow> 4 | GUnary \<Rightarrow> 3 | GPrimary \<Rightarrow> 2)"

definition goal_eats :: "goal \<Rightarrow> nat" where
  "goal_eats g = (case g of GOrLoop v \<Rightarrow> 0 | GAndLoop v \<Rightarrow> 0 | _ \<Rightarrow> 1)"

lemma parse_fuel_enough:
  "7 * length ts + goal_fuel g \<le> n \<Longrightarrow> consumes (goal_eats g) (length ts) (gate_parse n ctx g ts)"
proof (induction n arbitrary: ts g)
  case 0
  then show ?case by (cases g) (simp_all add: goal_fuel_def)
next
  case (Suc n)
  have sub: "consumes d m (gate_parse n ctx h us)"
    if "7 * length us + goal_fuel h \<le> n" "length us + d \<le> m + goal_eats h" for d m h us
  proof -
    have "consumes (goal_eats h) (length us) (gate_parse n ctx h us)" by (rule Suc.IH [OF that(1)])
    with that(2) show ?thesis by (auto simp: consumes_def split: option.splits sum.splits)
  qed
  show ?case
  proof (cases g)
    case GOr
    with Suc.prems show ?thesis
      by (auto simp: parseOr_def goal_fuel_def goal_eats_def
          intro!: consumes_pbind [of 1 "length ts"] sub)
  next
    case (GOrLoop left)
    with Suc.prems peek_nonempty [of ts] show ?thesis
      by (auto simp: orLoop_def goal_fuel_def goal_eats_def
          intro!: consumes_pbind [of 1 "length (tl ts)"] sub)
  next
    case GAnd
    with Suc.prems show ?thesis
      by (auto simp: parseAnd_def goal_fuel_def goal_eats_def
          intro!: consumes_pbind [of 1 "length ts"] sub)
  next
    case (GAndLoop left)
    with Suc.prems peek_nonempty [of ts] show ?thesis
      by (auto simp: andLoop_def goal_fuel_def goal_eats_def
          intro!: consumes_pbind [of 1 "length (tl ts)"] sub)
  next
    case GComparison
    have "consumes 1 (length ts) (pbind (gate_parse n ctx GUnary (tl us)) (\<lambda>r. pret (f r)))"
      if "peek us \<noteq> TEof" "length us + 1 \<le> length ts" for us and f :: "gvalue \<Rightarrow> gvalue"
      using that Suc.prems GComparison peek_nonempty [of us]
      by (auto simp: goal_fuel_def goal_eats_def intro!: consumes_pbind [of 1 "length (tl us)"] sub)
    with GComparison Suc.prems show ?thesis
      by (auto simp: parseComparison_def goal_fuel_def goal_eats_def
          intro!: consumes_pbind [of 1 "length ts"] sub)
  next
    case GUnary
    with Suc.prems peek_nonempty [of ts] show ?thesis
      by (auto simp: parseUnary_def goal_fuel_def goal_eats_def
          intro!: consumes_pbind [of 1 "length (tl ts)"] sub)
  next
    case GPrimary
    have "consumes 1 (length ts) (pbind (gate_parse n ctx GOr (tl ts)) (\<lambda>v ts1.
        if peek ts1 = TRParen then pret v (tl ts1) else Some (Inl (ExpectedRParen (peek ts1)))))"
      if "peek ts \<noteq> TEof"
      using that Suc.prems GPrimary peek_nonempty [of ts]
      by (auto simp: goal_fuel_def goal_eats_def intro!: consumes_pbind [of 1 "length (tl ts)"] sub)
    with GPrimary Suc.prems peek_nonempty [of ts] show ?thesis
      by (auto simp: parsePrimary_def goal_fuel_def goal_eats_def
          split: token.splits sum.splits)
  qed
qed

lemma evaluateGateCondition_returns: "evaluateGateCondition expr ctx \<noteq> None"
proof -
  have "gate_parse (gate_fuel ts) ctx GOr ts \<noteq> None" for ts
    by (rule consumes_Some, rule parse_fuel_enough) (simp add: gate_fuel_def goal_fuel_def)
  then show ?thesis
    unfolding evaluateGateCondition_def
    by (simp split: sum.split option.split) (metis option.distinct(1))
qed

section \<open>Abstract syntax and its semantics\<close>

datatype cond =
    CBool bool
  | CStr string
  | CRef nat bool
  | CNot cond
  | CEq cond cond
  | CNeq cond cond
  | CContains cond cond
  | CAnd cond cond
  | COr cond cond

definition lift2 ::
  "(gvalue \<Rightarrow> gvalue \<Rightarrow> bool) \<Rightarrow> gate_error + gvalue \<Rightarrow> gate_error + gvalue \<Rightarrow> gate_error + gvalue" where
  "lift2 f a b =
     (case a of
        Inl e \<Rightarrow> Inl e
      | Inr x \<Rightarrow> (case b of Inl e \<Rightarrow> Inl e | Inr y \<Rightarrow> Inr (VBool (f x y))))"

text \<open>The meaning of a condition: operands from left to right, every operand evaluated.\<close>

primrec sem :: "gate_context \<Rightarrow> cond \<Rightarrow> gate_error + gvalue" where
  "sem ctx (CBool b) = Inr (VBool b)"
| "sem ctx (CStr s) = Inr (VStr s)"
| "sem ctx (CRef i f) = resolveRef (js_nat i) f ctx"
| "sem ctx (CNot a) = (case sem ctx a of Inl e \<Rightarrow> Inl e | Inr v \<Rightarrow> Inr (VBool (\<not> toBool v)))"
| "sem ctx (CEq a b) = lift2 (\<lambda>x y. js_String x = js_String y) (sem ctx a) (sem ctx b)"
| "sem ctx (CNeq a b) = lift2 (\<lambda>x y. js_String x \<noteq> js_String y) (sem ctx a) (sem ctx b)"
| "sem ctx (CContains a b) =
     lift2 (\<lambda>x y. js_includes (js_String x) (js_String y)) (sem ctx a) (sem ctx b)"
| "sem ctx (CAnd a b) = lift2 (\<lambda>x y. toBool x \<and> toBool y) (sem ctx a) (sem ctx b)"
| "sem ctx (COr a b) = lift2 (\<lambda>x y. toBool x \<or> toBool y) (sem ctx a) (sem ctx b)"

definition wrap :: "cond \<Rightarrow> token list \<Rightarrow> token list" where
  "wrap e ts =
     (case e of
        CBool b \<Rightarrow> ts
      | CStr s \<Rightarrow> ts
      | CRef i f \<Rightarrow> ts
      | _ \<Rightarrow> TLParen # ts @ [TRParen])"

text \<open>The tokens of a condition, every compound operand in parentheses.\<close>

primrec toks :: "cond \<Rightarrow> token list" where
  "toks (CBool b) = [TBool b]"
| "toks (CStr s) = [TString s]"
| "toks (CRef i f) = [TaskRef (js_nat i) f]"
| "toks (CNot a) = TNot # wrap a (toks a)"
| "toks (CEq a b) = wrap a (toks a) @ TEq # wrap b (toks b)"
| "toks (CNeq a b) = wrap a (toks a) @ TNeq # wrap b (toks b)"
| "toks (CContains a b) = wrap a (toks a) @ TContains # wrap b (toks b)"
| "toks (CAnd a b) = wrap a (toks a) @ TAnd # wrap b (toks b)"
| "toks (COr a b) = wrap a (toks a) @ TOr # wrap b (toks b)"

definition presult :: "gate_error + gvalue \<Rightarrow> token list \<Rightarrow> parse_res" where
  "presult r ts = (case r of Inl e \<Rightarrow> Some (Inl e) | Inr v \<Rightarrow> pret v ts)"

lemma pbind_res: "pbind (presult r ts) f = (case r of Inl e \<Rightarrow> Some (Inl e) | Inr v \<Rightarrow> f v ts)"
  by (simp add: presult_def pbind_def split: sum.split)

lemma peek_Cons [simp]: "peek (t # ts) = t"
  by (simp add: peek_def)

lemma wrap_first: "peek (wrap e (toks e) @ rest) \<noteq> TNot" "wrap e (toks e) \<noteq> []"
  by (cases e; simp add: wrap_def)+

definition ends :: "token list \<Rightarrow> bool" where
  "ends ts \<longleftrightarrow> peek ts = TRParen \<or> peek ts = TEof"

lemma loops_exit:
  "ends ts \<Longrightarrow> gate_parse (Suc n) ctx (GOrLoop v) ts = pret v ts"
  "ends ts \<or> peek ts = TOr \<Longrightarrow> gate_parse (Suc n) ctx (GAndLoop v) ts = pret v ts"
  by (auto simp: orLoop_def andLoop_def ends_def)

text \<open>What the induction gives for an operand, and how it climbs the precedence levels.\<close>

definition operand_ok :: "gate_context \<Rightarrow> cond \<Rightarrow> bool" where
  "operand_ok ctx e \<longleftrightarrow>
     (\<forall>n rest. 7 * length (wrap e (toks e)) + 5 \<le> n \<longrightarrow>
        gate_parse n ctx GPrimary (wrap e (toks e) @ rest) = presult (sem ctx e) rest)"

lemma operand_unary:
  assumes "operand_ok ctx e" and "7 * length (wrap e (toks e)) + 6 \<le> n"
  shows "gate_parse n ctx GUnary (wrap e (toks e) @ rest) = presult (sem ctx e) rest"
proof (cases n)
  case 0
  with assms show ?thesis by simp
next
  case (Suc m)
  with assms wrap_first(1) [of e rest] show ?thesis by (simp add: parseUnary_def operand_ok_def)
qed

lemma operand_comparison:
  assumes "operand_ok ctx e" and "7 * length (wrap e (toks e)) + 7 \<le> n"
    and "peek rest \<noteq> TEq" "peek rest \<noteq> TNeq" "peek rest \<noteq> TContains"
  shows "gate_parse n ctx GComparison (wrap e (toks e) @ rest) = presult (sem ctx e) rest"
proof (cases n)
  case 0
  with assms show ?thesis by simp
next
  case (Suc m)
  with assms operand_unary [OF assms(1), of m rest] show ?thesis
    by (simp add: parseComparison_def pbind_res) (simp add: presult_def split: sum.split)
qed

definition expr_ok :: "gate_context \<Rightarrow> cond \<Rightarrow> bool" where
  "expr_ok ctx e \<longleftrightarrow>
     (\<forall>n rest. 7 * length (toks e) + 10 \<le> n \<longrightarrow> ends rest \<longrightarrow>
        gate_parse n ctx GOr (toks e @ rest) = presult (sem ctx e) rest)"

lemma ends_not_op:
  assumes "ends rest"
  shows "peek rest \<noteq> TEq" "peek rest \<noteq> TNeq" "peek rest \<noteq> TContains"
    "peek rest \<noteq> TAnd" "peek rest \<noteq> TOr"
  using assms by (auto simp: ends_def)

text \<open>From a comparison-level result to the whole expression.\<close>

lemma comparison_to_expr:
  assumes "\<And>n rest. 7 * length (toks e) + 8 \<le> n \<Longrightarrow> ends rest \<Longrightarrow>
      gate_parse n ctx GComparison (toks e @ rest) = presult (sem ctx e) rest"
  shows "expr_ok ctx e"
proof (unfold expr_ok_def, intro allI impI)
  fix n rest assume n: "7 * length (toks e) + 10 \<le> n" and r: "ends rest"
  define k where "k = n - 3"
  with n have k: "n = Suc (Suc (Suc k))" by simp
  have "gate_parse (Suc k) ctx GComparison (toks e @ rest) = presult (sem ctx e) rest"
    using n r k by (intro assms) simp_all
  moreover have "gate_parse (Suc k) ctx (GAndLoop v) rest = pret v rest"
    "gate_parse (Suc (Suc k)) ctx (GOrLoop v) rest = pret v rest" for v
    using loops_exit r by blast+
  ultimately show "gate_parse n ctx GOr (toks e @ rest) = presult (sem ctx e) rest"
    unfolding k parse_GOr parseOr_def parse_GAnd parseAnd_def
    by (simp add: pbind_res pbind_def presult_def del: gate_parse.simps split: sum.split)
qed

lemma atom_expr:
  assumes "operand_ok ctx e" and "wrap e (toks e) = toks e"
  shows "expr_ok ctx e"
proof (rule comparison_to_expr)
  fix n rest assume "7 * length (toks e) + 8 \<le> n" "ends rest"
  then show "gate_parse n ctx GComparison (toks e @ rest) = presult (sem ctx e) rest"
    using operand_comparison [OF assms(1), of n rest] ends_not_op [of rest] assms(2) by simp
qed

lemma not_expr:
  assumes "operand_ok ctx a"
  shows "expr_ok ctx (CNot a)"
proof (rule comparison_to_expr)
  fix n rest assume n: "7 * length (toks (CNot a)) + 8 \<le> n" and r: "ends rest"
  define k where "k = n - 2"
  with n have k: "n = Suc (Suc k)" by simp
  have "gate_parse k ctx GUnary (wrap a (toks a) @ rest) = presult (sem ctx a) rest"
    using n k by (intro operand_unary [OF assms]) simp
  then show "gate_parse n ctx GComparison (toks (CNot a) @ rest) = presult (sem ctx (CNot a)) rest"
    unfolding k parse_GComparison parseComparison_def
    by (simp add: parseUnary_def pbind_res ends_not_op [OF r])
      (simp add: presult_def pbind_def ends_not_op [OF r] split: sum.split)
qed

text \<open>The three comparison operators at once: \<open>op\<close> is the token, \<open>f\<close> its meaning.\<close>

lemma compare_expr:
  assumes "operand_ok ctx a" "operand_ok ctx b"
    and t: "toks e = wrap a (toks a) @ opr # wrap b (toks b)"
    and m: "sem ctx e = lift2 f (sem ctx a) (sem ctx b)"
    and f: "(opr, f) \<in> {(TEq, \<lambda>x y. js_String x = js_String y),
      (TNeq, \<lambda>x y. js_String x \<noteq> js_String y),
      (TContains, \<lambda>x y. js_includes (js_String x) (js_String y))}"
  shows "expr_ok ctx e"
proof (rule comparison_to_expr)
  fix n rest assume n: "7 * length (toks e) + 8 \<le> n" and r: "ends rest"
  define k where "k = n - 1"
  with n have k: "n = Suc k" by simp
  have a: "gate_parse k ctx GUnary (wrap a (toks a) @ us) = presult (sem ctx a) us" for us
    using n k t by (intro operand_unary [OF assms(1)]) simp
  have b: "gate_parse k ctx GUnary (wrap b (toks b) @ rest) = presult (sem ctx b) rest"
    using n k t by (intro operand_unary [OF assms(2)]) simp
  show "gate_parse n ctx GComparison (toks e @ rest) = presult (sem ctx e) rest"
    unfolding k parse_GComparison parseComparison_def t m
    using f by (auto simp: a b pbind_res presult_def lift2_def pbind_def split: sum.split)
qed

lemma and_expr:
  assumes "operand_ok ctx a" "operand_ok ctx b"
  shows "expr_ok ctx (CAnd a b)"
proof (unfold expr_ok_def, intro allI impI)
  fix n rest assume n: "7 * length (toks (CAnd a b)) + 10 \<le> n" and r: "ends rest"
  define k where "k = n - 4"
  with n have k: "n = Suc (Suc (Suc (Suc k)))" by simp
  have a: "gate_parse (Suc (Suc k)) ctx GComparison (wrap a (toks a) @ TAnd # us) = presult (sem ctx a) (TAnd # us)" for us
    using n k by (intro operand_comparison [OF assms(1)]) simp_all
  have b: "gate_parse (Suc k) ctx GComparison (wrap b (toks b) @ rest) = presult (sem ctx b) rest"
    using n k ends_not_op [OF r] by (intro operand_comparison [OF assms(2)]) simp_all
  have l: "gate_parse (Suc k) ctx (GAndLoop v) rest = pret v rest"
    "gate_parse (Suc (Suc (Suc k))) ctx (GOrLoop v) rest = pret v rest" for v
    using loops_exit r by blast+
  have m: "gate_parse (Suc (Suc k)) ctx (GAndLoop v) (TAnd # wrap b (toks b) @ rest) =
      (case sem ctx b of Inl e \<Rightarrow> Some (Inl e) | Inr w \<Rightarrow> pret (VBool (toBool v \<and> toBool w)) rest)" for v
    by (simp add: parse_GAndLoop [of "Suc k"] andLoop_def [of "gate_parse (Suc k) ctx"] b pbind_res
        del: gate_parse.simps) (simp add: l del: gate_parse.simps split: sum.split)
  show "gate_parse n ctx GOr (toks (CAnd a b) @ rest) = presult (sem ctx (CAnd a b)) rest"
    unfolding k parse_GOr parseOr_def parse_GAnd parseAnd_def
    by (simp add: a pbind_res m lift2_def presult_def pbind_def l del: gate_parse.simps split: sum.split)
qed

lemma or_expr:
  assumes "operand_ok ctx a" "operand_ok ctx b"
  shows "expr_ok ctx (COr a b)"
proof (unfold expr_ok_def, intro allI impI)
  fix n rest assume n: "7 * length (toks (COr a b)) + 10 \<le> n" and r: "ends rest"
  define k where "k = n - 4"
  with n have k: "n = Suc (Suc (Suc (Suc k)))" by simp
  have a: "gate_parse (Suc (Suc k)) ctx GComparison (wrap a (toks a) @ TOr # us) = presult (sem ctx a) (TOr # us)" for us
    using n k by (intro operand_comparison [OF assms(1)]) simp_all
  have b: "gate_parse (Suc k) ctx GComparison (wrap b (toks b) @ rest) = presult (sem ctx b) rest"
    using n k ends_not_op [OF r] by (intro operand_comparison [OF assms(2)]) simp_all
  have l: "gate_parse (Suc (Suc k)) ctx (GAndLoop v) (TOr # us) = pret v (TOr # us)"
    "gate_parse (Suc k) ctx (GAndLoop v) rest = pret v rest"
    "gate_parse (Suc (Suc k)) ctx (GOrLoop v) rest = pret v rest" for v us
    using r by (simp_all add: loops_exit del: gate_parse.simps)
  have m: "gate_parse (Suc (Suc (Suc k))) ctx (GOrLoop v) (TOr # wrap b (toks b) @ rest) =
      (case sem ctx b of Inl e \<Rightarrow> Some (Inl e) | Inr w \<Rightarrow> pret (VBool (toBool v \<or> toBool w)) rest)" for v
    by (simp add: parse_GOrLoop [of "Suc (Suc k)"] orLoop_def [of "gate_parse (Suc (Suc k)) ctx"]
        parse_GAnd [of "Suc k"] parseAnd_def b pbind_res l del: gate_parse.simps)
      (simp add: pbind_def l del: gate_parse.simps split: sum.split)
  show "gate_parse n ctx GOr (toks (COr a b) @ rest) = presult (sem ctx (COr a b)) rest"
    unfolding k parse_GOr parseOr_def parse_GAnd parseAnd_def
    by (simp add: a pbind_res m lift2_def presult_def pbind_def l del: gate_parse.simps split: sum.split)
qed

lemma atom_operand:
  "operand_ok ctx (CBool b)" "operand_ok ctx (CStr s)" "operand_ok ctx (CRef i f)"
proof -
  have "gate_parse n ctx GPrimary (t # rest) = presult r rest"
    if "12 \<le> n" "(t, r) \<in> {(TBool b, Inr (VBool b)), (TString s, Inr (VStr s)),
        (TaskRef (js_nat i) f, resolveRef (js_nat i) f ctx)}" for n t r rest
    using that by (cases n) (auto simp: parsePrimary_def presult_def split: sum.split)
  then show "operand_ok ctx (CBool b)" "operand_ok ctx (CStr s)" "operand_ok ctx (CRef i f)"
    by (simp_all add: operand_ok_def wrap_def)
qed

lemma paren_operand:
  assumes "expr_ok ctx e" and w: "wrap e (toks e) = TLParen # toks e @ [TRParen]"
  shows "operand_ok ctx e"
proof (unfold operand_ok_def, intro allI impI)
  fix n rest assume n: "7 * length (wrap e (toks e)) + 5 \<le> n"
  define k where "k = n - 1"
  with n have k: "n = Suc k" by simp
  have "gate_parse k ctx GOr (toks e @ TRParen # rest) = presult (sem ctx e) (TRParen # rest)"
    using assms(1) n k w by (simp add: expr_ok_def ends_def)
  then show "gate_parse n ctx GPrimary (wrap e (toks e) @ rest) = presult (sem ctx e) rest"
    unfolding k parse_GPrimary w
    by (simp add: parsePrimary_def pbind_res) (simp add: presult_def split: sum.split)
qed

lemma expr_operand_ok: "expr_ok ctx e \<and> operand_ok ctx e"
proof (induction e)
  case (CNot a)
  then show ?case by (simp add: not_expr paren_operand wrap_def)
next
  case (CEq a b)
  then have "expr_ok ctx (CEq a b)"
    by (intro compare_expr [of ctx a b _ TEq "\<lambda>x y. js_String x = js_String y"]) simp_all
  then show ?case by (simp add: paren_operand wrap_def)
next
  case (CNeq a b)
  then have "expr_ok ctx (CNeq a b)"
    by (intro compare_expr [of ctx a b _ TNeq "\<lambda>x y. js_String x \<noteq> js_String y"]) simp_all
  then show ?case by (simp add: paren_operand wrap_def)
next
  case (CContains a b)
  then have "expr_ok ctx (CContains a b)"
    by (intro compare_expr [of ctx a b _ TContains "\<lambda>x y. js_includes (js_String x) (js_String y)"]) simp_all
  then show ?case by (simp add: paren_operand wrap_def)
next
  case (CAnd a b)
  then show ?case by (simp add: and_expr paren_operand wrap_def)
next
  case (COr a b)
  then show ?case by (simp add: or_expr paren_operand wrap_def)
qed (simp_all add: atom_operand atom_expr wrap_def)

lemma gate_parse_toks:
  "gate_parse (gate_fuel (toks e @ [TEof])) ctx GOr (toks e @ [TEof]) = presult (sem ctx e) [TEof]"
  using expr_operand_ok [of ctx e] by (simp add: expr_ok_def ends_def gate_fuel_def)

section \<open>From the text of a condition to its meaning\<close>

text \<open>A printer for conditions: every token followed by a blank.\<close>

definition ref_number :: "task_id \<Rightarrow> nat" where
  "ref_number i = (case i of JsNum q \<Rightarrow> nat \<lfloor>q\<rfloor> | _ \<Rightarrow> 0)"

definition print_token :: "token \<Rightarrow> string" where
  "print_token t =
     (case t of
        TaskRef i s \<Rightarrow> ''task.'' @ show_nat (ref_number i) @ (if s then ''.success'' else ''.output'')
      | TBool b \<Rightarrow> if b then ''true'' else ''false''
      | TString s \<Rightarrow> CHR 0x22 # s @ [CHR 0x22]
      | TEq \<Rightarrow> ''=='' | TNeq \<Rightarrow> ''!='' | TAnd \<Rightarrow> ''&&'' | TOr \<Rightarrow> ''||'' | TNot \<Rightarrow> ''!''
      | TContains \<Rightarrow> ''contains'' | TLParen \<Rightarrow> ''('' | TRParen \<Rightarrow> '')'' | TEof \<Rightarrow> [])"

definition print_tokens :: "token list \<Rightarrow> string" where
  "print_tokens ts = concat (map (\<lambda>t. print_token t @ '' '') ts)"

definition print_cond :: "cond \<Rightarrow> string" where
  "print_cond e = print_tokens (toks e)"

text \<open>String literals that need no escape and hold no template brace.\<close>

definition plain_str :: "string \<Rightarrow> bool" where
  "plain_str s \<longleftrightarrow> CHR 0x22 \<notin> set s \<and> CHR 0x5C \<notin> set s \<and> CHR ''{'' \<notin> set s"

primrec plain_cond :: "cond \<Rightarrow> bool" where
  "plain_cond (CBool b) = True"
| "plain_cond (CStr s) = plain_str s"
| "plain_cond (CRef i f) = True"
| "plain_cond (CNot a) = plain_cond a"
| "plain_cond (CEq a b) = (plain_cond a \<and> plain_cond b)"
| "plain_cond (CNeq a b) = (plain_cond a \<and> plain_cond b)"
| "plain_cond (CContains a b) = (plain_cond a \<and> plain_cond b)"
| "plain_cond (CAnd a b) = (plain_cond a \<and> plain_cond b)"
| "plain_cond (COr a b) = (plain_cond a \<and> plain_cond b)"

definition token_ok :: "token \<Rightarrow> bool" where
  "token_ok t \<longleftrightarrow>
     (case t of
        TaskRef i s \<Rightarrow> i = js_nat (ref_number i)
      | TString s \<Rightarrow> plain_str s
      | TEof \<Rightarrow> False
      | _ \<Rightarrow> True)"

lemma wrap_ok: "list_all token_ok (wrap e ts) \<longleftrightarrow> list_all token_ok ts"
  by (cases e) (simp_all add: wrap_def token_ok_def)

lemma toks_ok: "plain_cond e \<Longrightarrow> list_all token_ok (toks e)"
  by (induction e) (simp_all add: wrap_ok, simp_all add: token_ok_def ref_number_def)

lemma scan_plain: "plain_str s \<Longrightarrow>
    scan_string (CHR 0x22) (s @ CHR 0x22 # c # r) = Some (s, c # r, length s + 1)"
proof (induction s)
  case Nil
  then show ?case by simp
next
  case (Cons x s)
  obtain y ys where t: "s @ CHR 0x22 # c # r = y # ys" by (cases "s @ CHR 0x22 # c # r") auto
  from Cons show ?case by (auto simp: plain_str_def t)
qed

lemma digit_is_word: "is_digit c \<Longrightarrow> is_word_char c \<and> c \<noteq> CHR ''.''"
  by (auto simp: is_word_char_def is_digit_def)

lemma task_word:
  assumes f: "f = ''output'' \<or> f = ''success''"
  shows "word_token (''task.'' @ show_nat n @ ''.'' @ f) = Inr (TaskRef (js_nat n) (f = ''success''))"
    and "list_all is_word_char (''task.'' @ show_nat n @ ''.'' @ f)"
proof -
  have d: "CHR ''.'' \<notin> set (show_nat n)"
    using show_nat_digits [of n] by (auto simp: list_all_iff is_digit_def)
  have w: "''task.'' @ show_nat n @ ''.'' @ f = ''task'' @ CHR ''.'' # show_nat n @ CHR ''.'' # f" by simp
  have "js_split (CHR ''.'') (''task.'' @ show_nat n @ ''.'' @ f) = [''task'', show_nat n, f]"
    unfolding w using f d by (subst js_split_append; simp add: js_split_append js_split_clean)+ auto
  with f show "word_token (''task.'' @ show_nat n @ ''.'' @ f) =
      Inr (TaskRef (js_nat n) (f = ''success''))"
    by (auto simp: word_token_def show_nat_digits js_Number_show_nat)
  show "list_all is_word_char (''task.'' @ show_nat n @ ''.'' @ f)"
    using f show_nat_digits [of n]
    by (auto simp: list_all_iff digit_is_word)
      (auto simp: is_word_char_def is_ident_start_def)
qed

lemma next_token_word:
  assumes "list_all is_word_char w" and "w \<noteq> []" "is_ident_start (hd w)" and "word_token w = Inr t"
  shows "next_token i (hd w) (tl w @ CHR '' '' # r) = Inr (Some t, i + length w, CHR '' '' # r)"
proof -
  obtain c s where w: "w = c # s" using assms(2) by (cases w) auto
  have b: "\<not> is_word_char (CHR '' '')" by (simp add: is_word_char_def is_ident_start_def is_digit_def)
  have t: "takeWhile is_word_char (s @ CHR '' '' # r) = s" "dropWhile is_word_char (s @ CHR '' '' # r) = CHR '' '' # r"
    using assms(1) w b by (auto simp: list_all_iff takeWhile_append2 dropWhile_append2)
  have "\<not> is_ws c" "c \<notin> {CHR ''('', CHR '')'', CHR ''='', CHR ''!'', CHR ''&'', CHR ''|'', CHR 0x22, CHR 0x27}"
    using assms(3) w by (auto simp: is_ident_start_def is_ws_def Let_def)
  then show ?thesis
    using assms(3,4) by (simp add: next_token_def t w)
qed

lemma tok_push_None [simp]: "tok_push None r = r"
  by (simp add: tok_push_def split: sum.split)

lemma next_token_blank [simp]: "next_token i (CHR '' '') r = Inr (None, i + 1, r)"
  by (simp add: next_token_def is_ws_def)

lemma tokenize_word:
  assumes "list_all is_word_char w" and "w \<noteq> []" "is_ident_start (hd w)" and "word_token w = Inr t"
  shows "tokenize i (w @ CHR '' '' # r) = tok_push (Some t) (tokenize (i + length w + 1) r)"
  using next_token_word [OF assms, of i r] assms(2)
  by (cases w) simp_all

lemma tokenize_token:
  assumes "token_ok t"
  obtains j where "tokenize i (print_token t @ CHR '' '' # r) = tok_push (Some t) (tokenize j r)"
proof (cases t)
  case (TaskRef n s)
  let ?f = "if s then ''success'' else ''output''"
  have n: "js_nat (ref_number n) = n" using assms TaskRef by (simp add: token_ok_def)
  have p: "print_token t = ''task.'' @ show_nat (ref_number n) @ ''.'' @ ?f"
    by (simp add: TaskRef print_token_def)
  have "tokenize i (print_token t @ CHR '' '' # r) =
      tok_push (Some t) (tokenize (i + length (print_token t) + 1) r)"
    unfolding p using task_word [of ?f "ref_number n"]
    by (intro tokenize_word) (auto simp: TaskRef n is_ident_start_def)
  then show ?thesis by (rule that)
next
  case (TBool b)
  have "tokenize i (print_token t @ CHR '' '' # r) =
      tok_push (Some t) (tokenize (i + length (print_token t) + 1) r)"
    by (rule tokenize_word)
      (auto simp: TBool print_token_def word_token_def is_word_char_def is_ident_start_def)
  then show ?thesis by (rule that)
next
  case TContains
  have "tokenize i (print_token t @ CHR '' '' # r) =
      tok_push (Some t) (tokenize (i + length (print_token t) + 1) r)"
    by (rule tokenize_word)
      (auto simp: TContains print_token_def word_token_def is_word_char_def is_ident_start_def)
  then show ?thesis by (rule that)
next
  case (TString s)
  with assms have "plain_str s" by (simp add: token_ok_def)
  with TString show ?thesis
    by (intro that) (simp add: print_token_def next_token_def is_ws_def scan_plain)
qed (use assms in \<open>auto intro!: that simp: print_token_def next_token_def is_ws_def token_ok_def
       js_starts_with_iff simp del: tokenize.simps(1)\<close>)

lemma tokenize_print:
  "list_all token_ok ts \<Longrightarrow> tokenize i (print_tokens ts) = Inr (ts @ [TEof])"
proof (induction ts arbitrary: i)
  case Nil
  then show ?case by (simp add: print_tokens_def)
next
  case (Cons t ts)
  obtain j where "tokenize i (print_token t @ CHR '' '' # print_tokens ts) =
      tok_push (Some t) (tokenize j (print_tokens ts))"
    using Cons.prems by (auto intro: tokenize_token)
  with Cons show ?case by (simp add: print_tokens_def tok_push_def)
qed

lemma tpl_scan_no_brace: "CHR ''{'' \<notin> set s \<Longrightarrow> tpl_scan s = map Lit s"
  by (induction s) (auto simp: tpl_at_def)

lemma resolveGateTemplates_no_brace: "CHR ''{'' \<notin> set s \<Longrightarrow> resolveGateTemplates s = s"
  by (simp add: resolveGateTemplates_def tpl_scan_no_brace comp_def)

lemma print_no_brace: "list_all token_ok ts \<Longrightarrow> CHR ''{'' \<notin> set (print_tokens ts)"
proof (induction ts)
  case (Cons t ts)
  have "CHR ''{'' \<notin> set (show_nat n)" for n
    using show_nat_digits [of n] by (auto simp: list_all_iff is_digit_def)
  with Cons show ?case
    by (cases t) (auto simp: print_tokens_def print_token_def token_ok_def plain_str_def)
qed (simp add: print_tokens_def)

text \<open>
  C5. A gate condition means what its structure says: on the text of a condition (compound
  operands in parentheses, plain string literals) \<open>evaluateGateCondition\<close> returns the truth
  value of the compositional semantics, or throws the error of the leftmost reference to a task
  without a result.
\<close>

theorem evaluateGateCondition_sem:
  assumes "plain_cond e"
  shows "evaluateGateCondition (print_cond e) ctx =
     Some (case sem ctx e of Inl err \<Rightarrow> Inl err | Inr v \<Rightarrow> Inr (toBool v))"
  using tokenize_print [OF toks_ok [OF assms], of 0] print_no_brace [OF toks_ok [OF assms]]
    gate_parse_toks [of e ctx]
  by (simp add: evaluateGateCondition_def print_cond_def resolveGateTemplates_no_brace presult_def
      split: sum.split)

end
