(* ===== verification/Blocking.thy ===== *)
theory Blocking
  imports Gate_Eval
begin

text \<open>
  Propagation of failures and skips over the dependency graph: \<open>computeBlockedAndSkipped\<close> of
  \<open>packages/workflow/src/orchestrator.ts\<close>. The breadth-first searches are related to the
  transitive closure of the dependents that are still pending.
\<close>

section \<open>The breadth-first search\<close>

text \<open>The inner loop over the dependents of one task: those it marks and queues, in order.\<close>

fun fresh_dependents :: "('n \<Rightarrow> bool) \<Rightarrow> 'n list \<Rightarrow> 'n list \<Rightarrow> 'n list" where
  "fresh_dependents ok marked [] = []"
| "fresh_dependents ok marked (d # ds) =
     (if d \<in> set marked \<or> \<not> ok d then fresh_dependents ok marked ds
      else d # fresh_dependents ok (marked @ [d]) ds)"

lemma set_fresh [simp]:
  "set (fresh_dependents ok marked ds) = {d \<in> set ds. ok d \<and> d \<notin> set marked}"
  by (induction ok marked ds rule: fresh_dependents.induct) auto

lemma distinct_fresh: "distinct (fresh_dependents ok marked ds)"
  by (induction ok marked ds rule: fresh_dependents.induct) auto

function bfs_mark :: "('n \<Rightarrow> bool) \<Rightarrow> 'n graph \<Rightarrow> 'n list \<Rightarrow> 'n list \<Rightarrow> 'n list" where
  "bfs_mark ok reverse [] marked = marked"
| "bfs_mark ok reverse (current # queue) marked =
     (let new = fresh_dependents ok marked (deps_of reverse current)
      in bfs_mark ok reverse (queue @ new) (marked @ new))"
  by pat_completeness auto
termination
proof (relation "measure (\<lambda>(ok, r, q, m). 2 * card (node_set r - set m) + length q)", goal_cases)
  case 1
  then show ?case by simp
next
  case (2 ok r current queue marked new)
  have sub: "set new \<subseteq> node_set r - set marked" using 2 by (auto dest: deps_of_in_nodes)
  have "card (set new) = length new" unfolding 2 by (rule distinct_card [OF distinct_fresh])
  moreover have "card (node_set r - set marked - set new) = card (node_set r - set marked) - card (set new)"
    using sub by (simp add: card_Diff_subset)
  moreover have "card (set new) \<le> card (node_set r - set marked)"
    using sub by (simp add: card_mono)
  ultimately show ?case by (simp add: Diff_eq Compl_Un Int_assoc)
qed

text \<open>The edges the search follows: from a task to a dependent that may be marked.\<close>

definition markable :: "('n \<Rightarrow> bool) \<Rightarrow> 'n graph \<Rightarrow> ('n \<times> 'n) set" where
  "markable ok reverse = {(c, d). (c, d) \<in> edges reverse \<and> ok d}"

lemma bfs_mark_mono: "set marked \<subseteq> set (bfs_mark ok r queue marked)"
proof (induction ok r queue marked rule: bfs_mark.induct)
  case (2 ok r current queue marked)
  from "2.IH" [OF refl] show ?case by (auto simp: Let_def)
qed simp

lemma bfs_mark_closed:
  assumes "\<forall>c d. (c, d) \<in> markable ok r \<longrightarrow> c \<in> S \<union> set marked \<longrightarrow> c \<in> set queue \<or> d \<in> set marked"
    and "(c, d) \<in> markable ok r" and "c \<in> S \<union> set (bfs_mark ok r queue marked)"
  shows "d \<in> set (bfs_mark ok r queue marked)"
  using assms
proof (induction ok r queue marked rule: bfs_mark.induct)
  case (1 ok r marked)
  then show ?case by auto
next
  case (2 ok r current queue marked)
  let ?new = "fresh_dependents ok marked (deps_of r current)"
  have "\<forall>c d. (c, d) \<in> markable ok r \<longrightarrow> c \<in> S \<union> set (marked @ ?new) \<longrightarrow>
      c \<in> set (queue @ ?new) \<or> d \<in> set (marked @ ?new)"
    using "2.prems"(1) by (fastforce simp: markable_def edges_iff)
  from "2.IH" [OF refl this "2.prems"(2)] "2.prems"(3) show ?case by (simp add: Let_def)
qed

lemma bfs_mark_sound:
  "set marked \<union> set queue \<subseteq> S \<union> (markable ok r)\<^sup>+ `` S \<Longrightarrow> set marked \<subseteq> (markable ok r)\<^sup>+ `` S \<Longrightarrow>
     set (bfs_mark ok r queue marked) \<subseteq> (markable ok r)\<^sup>+ `` S"
proof (induction ok r queue marked rule: bfs_mark.induct)
  case (1 ok r marked)
  then show ?case by simp
next
  case (2 ok r current queue marked)
  let ?new = "fresh_dependents ok marked (deps_of r current)"
  have "(current, d) \<in> markable ok r" if "d \<in> set ?new" for d
    using that by (auto simp: markable_def edges_iff)
  moreover have "current \<in> S \<union> (markable ok r)\<^sup>+ `` S" using "2.prems"(1) by auto
  ultimately have new: "set ?new \<subseteq> (markable ok r)\<^sup>+ `` S"
    by (auto intro: trancl_into_trancl)
  have "set (bfs_mark ok r (queue @ ?new) (marked @ ?new)) \<subseteq> (markable ok r)\<^sup>+ `` S"
  proof (rule "2.IH" [OF refl])
    show "set (marked @ ?new) \<union> set (queue @ ?new) \<subseteq> S \<union> (markable ok r)\<^sup>+ `` S"
      using "2.prems"(1) new unfolding set_append by auto
    show "set (marked @ ?new) \<subseteq> (markable ok r)\<^sup>+ `` S"
      using "2.prems"(2) new unfolding set_append by blast
  qed
  then show ?case by (simp add: Let_def)
qed

lemma bfs_mark_trancl: "set (bfs_mark ok r seeds []) = (markable ok r)\<^sup>+ `` set seeds"
proof
  show "set (bfs_mark ok r seeds []) \<subseteq> (markable ok r)\<^sup>+ `` set seeds"
    by (rule bfs_mark_sound) auto
  have step: "d \<in> set (bfs_mark ok r seeds [])"
    if "(c, d) \<in> markable ok r" "c \<in> set seeds \<union> set (bfs_mark ok r seeds [])" for c d
    using bfs_mark_closed [of ok r "set seeds" "[]" seeds c d] that by auto
  have "d \<in> set (bfs_mark ok r seeds [])" if "(s, d) \<in> (markable ok r)\<^sup>+" "s \<in> set seeds" for s d
    using that by (induction rule: trancl_induct) (auto intro: step)
  then show "(markable ok r)\<^sup>+ `` set seeds \<subseteq> set (bfs_mark ok r seeds [])" by auto
qed

section \<open>Blocked and skipped tasks\<close>

definition is_pending :: "(task_id, task_state) jsmap \<Rightarrow> task_id \<Rightarrow> bool" where
  "is_pending tm d \<longleftrightarrow> (case map_get tm d of None \<Rightarrow> False | Some t \<Rightarrow> status t = Pending)"

definition ids_with :: "task_status \<Rightarrow> (task_id, task_state) jsmap \<Rightarrow> task_id list" where
  "ids_with st tm = map fst (filter (\<lambda>(i, t). status t = st) tm)"

definition missing_deps :: "task_id graph \<Rightarrow> (task_id, task_state) jsmap \<Rightarrow> task_id \<Rightarrow> bool" where
  "missing_deps g tm i \<longleftrightarrow>
     (case map_get g i of None \<Rightarrow> False | Some deps \<Rightarrow> \<exists>d \<in> set deps. \<not> map_has tm d)"

text \<open>The pair of the sets \<open>blocked\<close> and \<open>skipped\<close>.\<close>

definition computeBlockedAndSkipped ::
  "task_id graph \<Rightarrow> (task_id, task_state) jsmap \<Rightarrow> task_id list \<times> task_id list" where
  "computeBlockedAndSkipped g tm =
     (let reverse = reverse_entries g [];
          blocked = bfs_mark (is_pending tm) reverse (ids_with Failed tm) [];
          skipped = bfs_mark (\<lambda>d. is_pending tm d \<and> d \<notin> set blocked) reverse (ids_with Skipped tm) [];
          missing = filter (\<lambda>i. i \<notin> set skipped \<and> i \<notin> set blocked \<and> missing_deps g tm i)
                      (ids_with Pending tm)
      in (blocked @ missing, skipped))"

text \<open>
  The specification: the pending tasks that a failed task reaches through pending dependents,
  and those a skipped task reaches through pending dependents that are not blocked.
\<close>

definition dependents_via :: "task_id graph \<Rightarrow> (task_id \<Rightarrow> bool) \<Rightarrow> (task_id \<times> task_id) set" where
  "dependents_via g ok = {(d, t). (t, d) \<in> edges g \<and> ok t}"

lemma markable_reverse: "map_ok g \<Longrightarrow> markable ok (reverse_entries g []) = dependents_via g ok"
  using edges_buildReverseGraph [of g]
  by (auto simp: buildReverseGraph_def markable_def dependents_via_def)

definition blocked_spec :: "task_id graph \<Rightarrow> (task_id, task_state) jsmap \<Rightarrow> task_id set" where
  "blocked_spec g tm = (dependents_via g (is_pending tm))\<^sup>+ `` set (ids_with Failed tm)"

definition skipped_spec :: "task_id graph \<Rightarrow> (task_id, task_state) jsmap \<Rightarrow> task_id set" where
  "skipped_spec g tm =
     (dependents_via g (\<lambda>t. is_pending tm t \<and> t \<notin> blocked_spec g tm))\<^sup>+ `` set (ids_with Skipped tm)"

lemma compute_spec:
  assumes "map_ok g"
  shows "set (snd (computeBlockedAndSkipped g tm)) = skipped_spec g tm"
    and "set (fst (computeBlockedAndSkipped g tm)) =
      blocked_spec g tm \<union>
      {i \<in> set (ids_with Pending tm). i \<notin> skipped_spec g tm \<and> missing_deps g tm i}"
  using assms
  by (auto simp: computeBlockedAndSkipped_def Let_def bfs_mark_trancl markable_reverse
      blocked_spec_def skipped_spec_def)

lemma missing_deps_none:
  assumes "graph_ok g" and "keys_of g \<subseteq> keys_of tm"
  shows "\<not> missing_deps g tm i"
proof -
  have "missing_deps g tm i \<longleftrightarrow> (\<exists>d \<in> set (deps_of g i). d \<notin> keys_of tm)"
    by (simp add: missing_deps_def deps_of_def map_has_keys split: option.split)
  with assms show ?thesis by (auto dest: graph_ok_deps_keys)
qed

lemma blocked_pending: "i \<in> blocked_spec g tm \<Longrightarrow> is_pending tm i"
  by (auto simp: blocked_spec_def dependents_via_def elim: tranclE)

lemma skipped_pending: "i \<in> skipped_spec g tm \<Longrightarrow> is_pending tm i \<and> i \<notin> blocked_spec g tm"
  by (auto simp: skipped_spec_def dependents_via_def elim: tranclE)

lemma blocked_step:
  assumes "(t, d) \<in> edges g" "is_pending tm t"
    and "d \<in> set (ids_with Failed tm) \<or> d \<in> blocked_spec g tm"
  shows "t \<in> blocked_spec g tm"
proof -
  have "(d, t) \<in> dependents_via g (is_pending tm)" using assms by (simp add: dependents_via_def)
  with assms(3) show ?thesis unfolding blocked_spec_def by (auto intro: trancl_into_trancl)
qed

lemma skipped_step:
  assumes "(t, d) \<in> edges g" "is_pending tm t" "t \<notin> blocked_spec g tm"
    and "d \<in> set (ids_with Skipped tm) \<or> d \<in> skipped_spec g tm"
  shows "t \<in> skipped_spec g tm"
proof -
  have "(d, t) \<in> dependents_via g (\<lambda>t. is_pending tm t \<and> t \<notin> blocked_spec g tm)"
    using assms by (simp add: dependents_via_def)
  with assms(4) show ?thesis unfolding skipped_spec_def by (auto intro: trancl_into_trancl)
qed

text \<open>
  C29. \<open>computeBlockedAndSkipped\<close> computes two closures. \<open>blocked\<close> holds exactly the tasks that a
  failed task reaches along dependents that are all pending (the task itself too), and the pending tasks that
  are not in \<open>skipped\<close> and have a dependency that is no task of the workflow. \<open>skipped\<close> holds
  exactly the tasks that a skipped task reaches along dependents that are all pending and not reached from a
  failed task. So a pending task with a failed dependency is blocked and never skipped, whatever its other
  dependencies are: the comment of \<open>markBlockedTasks\<close>, that skip takes priority over block, and
  \<open>docs/workflow.md\<close>, that a pending task with any skipped dependency is skipped, are not what the
  function does for a task that has both. (The test of that name passes because the gate that says no
  marks its dependents itself, before the other dependency fails.) The graph is a map: each task has one entry.
\<close>

theorem computeBlockedAndSkipped_closures:
  assumes "map_ok g"
  shows "set (fst (computeBlockedAndSkipped g tm)) =
      (dependents_via g (is_pending tm))\<^sup>+ `` set (ids_with Failed tm) \<union>
      {i \<in> set (ids_with Pending tm). i \<notin> set (snd (computeBlockedAndSkipped g tm)) \<and> missing_deps g tm i}
    \<and> set (snd (computeBlockedAndSkipped g tm)) =
      (dependents_via g (\<lambda>t. is_pending tm t
         \<and> t \<notin> (dependents_via g (is_pending tm))\<^sup>+ `` set (ids_with Failed tm)))\<^sup>+ `` set (ids_with Skipped tm)
    \<and> (\<forall>t d. (t, d) \<in> edges g \<and> is_pending tm t \<and> d \<in> set (ids_with Failed tm) \<longrightarrow>
         t \<in> set (fst (computeBlockedAndSkipped g tm)) \<and> t \<notin> set (snd (computeBlockedAndSkipped g tm)))"
proof -
  note C = compute_spec [OF assms, of tm]
  have "t \<in> blocked_spec g tm" if "(t, d) \<in> edges g" "is_pending tm t" "d \<in> set (ids_with Failed tm)" for t d
    using that by (intro blocked_step) auto
  with C skipped_pending have "\<forall>t d. (t, d) \<in> edges g \<and> is_pending tm t \<and> d \<in> set (ids_with Failed tm) \<longrightarrow>
      t \<in> set (fst (computeBlockedAndSkipped g tm)) \<and> t \<notin> set (snd (computeBlockedAndSkipped g tm))" by blast
  with C show ?thesis unfolding skipped_spec_def blocked_spec_def by blast
qed

end
