(* ===== verification/Orchestrator.thy ===== *)
theory Orchestrator
  imports Blocking
begin

text \<open>
  The workflow orchestrator, \<open>packages/workflow/src/orchestrator.ts\<close>: the state of the class
  \<open>Orchestrator\<close>, \<open>start\<close>, \<open>tick\<close> with its phases, polling, \<open>restore\<close> and
  completion.

  An operation takes the adapters as a record \<open>config\<close> of their results during that
  operation, and one clock reading \<open>now\<close>; it returns the new state with the thrown error, if
  any. The calls it makes to the adapters are appended to \<open>trace\<close>. Operations are atomic:
  the source awaits adapter promises inside them, and another call into the same orchestrator
  between two awaits is not modelled. The phases of a tick work on a \<open>run\<close>, the part of the
  state they share; the task objects are shared with the task map, so a map lookup reads the
  current task list.
\<close>

section \<open>Adapters and state\<close>

record spawn_request =
  sr_taskId :: task_id
  sr_prompt :: string
  sr_replyTo :: string
  sr_timeoutMs :: int
  sr_workflowId :: string
  sr_responseSchema :: "json option"
  sr_modelOptions :: "string option option"
  sr_enableTools :: "string list option"
  sr_contract :: "contract_entry list option"
  sr_judge :: "string option"

datatype poll_status = PRunning | PDone | PFailed

record poll_result =
  p_status :: poll_status
  p_output :: "string option"
  p_error :: "string option"
  p_completedAt :: "int option"

datatype effect =
    EAbortTask string
  | EKill string
  | ESpawn spawn_request
  | EPost string string
  | EExecute string json
  | ESendNotification string string
  | ESave task_list
  | EInitialStatus task_list
  | EUpdateStatus task_list
  | ESummary task_list
  | ENotify string bool string

text \<open>
  A rejected promise is \<open>Inl\<close> of its message, or \<open>Some\<close> message where a call returns
  nothing. \<open>parse_json\<close> is \<open>JSON.parse\<close>, None when it throws.
\<close>

record status_results =
  initial_rejects :: "string option"
  update_rejects :: "string option"
  summary_rejects :: "string option"

record config =
  spawn :: "spawn_request \<Rightarrow> string + string"
  has_abortTask :: bool
  poll :: "string \<Rightarrow> string + poll_result"
  statusManager :: "status_results option"
  notifications :: "(string \<Rightarrow> string \<Rightarrow> string option) option"
  has_killer :: bool
  messagePoster :: "(string \<Rightarrow> string \<Rightarrow> string option) option"
  toolExecutor :: "(string \<Rightarrow> json \<Rightarrow> string + string) option"
  parse_json :: "string \<Rightarrow> json option"
  save_rejects :: "string option"

record orch_options =
  o_stateDir :: string
  o_currentDepth :: int
  o_maxDepth :: int
  o_replyTo :: string
  o_pollingIntervalMs :: int
  o_runtimeLimitMs :: int
  o_name :: "string option"
  o_concurrency :: "int option"

record orch =
  workflow :: "task_list option"
  opts :: "orch_options option"
  completed :: bool
  paused :: bool
  pollingTimer :: bool
  statusTimer :: bool
  dirty :: bool
  templateApplied :: "task_id list"
  trace :: "effect list"

definition new_orchestrator :: orch where
  "new_orchestrator =
     \<lparr> workflow = None, opts = None, completed = False, paused = False, pollingTimer = False,
       statusTimer = False, dirty = False, templateApplied = [], trace = [] \<rparr>"

record run =
  r_tasks :: "task_state list"
  r_dirty :: bool
  r_paused :: bool
  r_applied :: "task_id list"
  r_trace :: "effect list"

definition emit :: "effect list \<Rightarrow> run \<Rightarrow> run" where
  "emit es r = r\<lparr>r_trace := r_trace r @ es\<rparr>"

text \<open>A loop over the task objects whose body changes only the task it visits.\<close>

definition each_task :: "(task_state \<Rightarrow> task_state \<times> bool \<times> effect list) \<Rightarrow> run \<Rightarrow> run" where
  "each_task f r =
     r\<lparr>r_tasks := map (fst \<circ> f) (r_tasks r),
       r_dirty := (r_dirty r \<or> list_ex (fst \<circ> snd \<circ> f) (r_tasks r)),
       r_trace := r_trace r @ concat (map (snd \<circ> snd \<circ> f) (r_tasks r))\<rparr>"

definition untouched :: "task_state \<Rightarrow> task_state \<times> bool \<times> effect list" where
  "untouched t = (t, False, [])"

section \<open>Texts\<close>

definition formatFailureMessage :: "task_state \<Rightarrow> string" where
  "formatFailureMessage t =
     ''Task '' @ js_num_text (tid t) @ '' failed: '' @ [CHR 0x22]
       @ take 100 (getTaskPromptOrLabel (taskDef t)) @ [CHR 0x22, CHR '' '', CHR 0xE2, CHR 0x80, CHR 0x94, CHR '' '']
       @ nullish (error t) ''unknown error''"

definition token_type :: "token \<Rightarrow> string" where
  "token_type t =
     (case t of
        TaskRef i s \<Rightarrow> ''TASK_REF'' | TBool b \<Rightarrow> ''BOOL'' | TString s \<Rightarrow> ''STRING''
      | TContains \<Rightarrow> ''CONTAINS'' | TLParen \<Rightarrow> ''LPAREN'' | TRParen \<Rightarrow> ''RPAREN'' | TEof \<Rightarrow> ''EOF''
      | _ \<Rightarrow> ''OP'')"

definition token_value :: "token \<Rightarrow> string" where
  "token_value t =
     (case t of
        TaskRef i s \<Rightarrow> ''task.'' @ js_num_text i @ (if s then ''.success'' else ''.output'')
      | TString s \<Rightarrow> s
      | _ \<Rightarrow> print_token t)"

definition quoted :: "string \<Rightarrow> string" where
  "quoted s = CHR 0x22 # s @ [CHR 0x22]"

definition gate_error_text :: "gate_error \<Rightarrow> string" where
  "gate_error_text e =
     (case e of
        UnterminatedString \<Rightarrow> ''Unterminated string literal in gate condition''
      | UnknownIdentifier w \<Rightarrow> ''Unknown identifier in gate condition: '' @ quoted w
      | UnexpectedCharacter c i \<Rightarrow>
          ''Unexpected character in gate condition: '' @ quoted [c] @ '' at position '' @ show_nat i
      | NoResult i \<Rightarrow>
          ''Gate condition references task '' @ js_num_text i @ '' which has no result''
      | ExpectedRParen t \<Rightarrow>
          ''Expected RPAREN but got '' @ token_type t @ '' ('' @ quoted (token_value t) @ '')''
      | UnexpectedToken t \<Rightarrow>
          ''Unexpected token in gate condition: '' @ token_type t @ '' ('' @ quoted (token_value t) @ '')''
      | TrailingTokens t \<Rightarrow>
          ''Unexpected trailing tokens in gate condition: '' @ quoted (token_value t))"

definition getTemplateSources :: "task_def \<Rightarrow> string list" where
  "getTemplateSources td =
     (case kind td of
        KAgent a \<Rightarrow> [prompt a]
      | KTransform template \<Rightarrow> [template]
      | KMessage message channel \<Rightarrow> [message]
      | _ \<Rightarrow> [])"

section \<open>Polling and runtime limits\<close>

definition kill_effects :: "config \<Rightarrow> task_state \<Rightarrow> effect list" where
  "kill_effects cfg t =
     (if has_killer cfg \<and> truthy_str (sessionKey t) then [EKill (the (sessionKey t))] else [])"

definition fail_task :: "int \<Rightarrow> string option \<Rightarrow> task_state \<Rightarrow> task_state" where
  "fail_task t1 err t = t\<lparr>status := Failed, error := err, completedAt := Some t1\<rparr>"

definition poll_task :: "config \<Rightarrow> int \<Rightarrow> task_state \<Rightarrow> task_state \<times> bool \<times> effect list" where
  "poll_task cfg now t =
     (if \<not> (status t = InProgress \<and> truthy_str (sessionKey t)) then untouched t
      else (case poll cfg (the (sessionKey t)) of
              Inl reason \<Rightarrow> (fail_task now (Some (''poll error: '' @ reason)) t, True, kill_effects cfg t)
            | Inr result \<Rightarrow>
                (let t1 = nullish (p_completedAt result) now
                 in case p_status result of
                      PDone \<Rightarrow>
                        (if truthy_str (p_output result)
                            \<and> js_includes (the (p_output result)) ''ERROR:TASK_FAILED''
                         then (fail_task t1 (Some (''self-reported failure: '' @ the (p_output result))) t,
                               True, kill_effects cfg t)
                         else (t\<lparr>status := Done, task_output := p_output result, completedAt := Some t1\<rparr>,
                               True, kill_effects cfg t))
                    | PFailed \<Rightarrow> (fail_task t1 (p_error result) t, True, kill_effects cfg t)
                    | PRunning \<Rightarrow> untouched t)))"

definition pollInProgress :: "config \<Rightarrow> int \<Rightarrow> run \<Rightarrow> run" where
  "pollInProgress cfg now = each_task (poll_task cfg now)"

definition abort_effects :: "config \<Rightarrow> task_state \<Rightarrow> effect list" where
  "abort_effects cfg t = (if has_abortTask cfg then [EAbortTask (the (sessionKey t))] else [])"

definition limit_task ::
  "config \<Rightarrow> orch_options \<Rightarrow> int \<Rightarrow> task_state \<Rightarrow> task_state \<times> bool \<times> effect list" where
  "limit_task cfg o' now t =
     (if status t \<noteq> InProgress \<or> \<not> truthy_str (sessionKey t) \<or> \<not> truthy_num (startedAt t)
      then untouched t
      else (let limit = nullish (td_runtimeLimitMs (taskDef t)) (o_runtimeLimitMs o');
                elapsed = now - the (startedAt t)
            in if elapsed > limit
               then (fail_task now
                       (Some (''timeout: task exceeded runtime limit of '' @ show_int limit @ ''ms'')) t,
                     True, abort_effects cfg t @ kill_effects cfg t)
               else untouched t))"

definition enforceRuntimeLimits :: "config \<Rightarrow> orch_options \<Rightarrow> int \<Rightarrow> run \<Rightarrow> run" where
  "enforceRuntimeLimits cfg o' now = each_task (limit_task cfg o' now)"

section \<open>Failures\<close>

definition error_starts :: "string \<Rightarrow> task_state \<Rightarrow> bool" where
  "error_starts p t \<longleftrightarrow> (case error t of None \<Rightarrow> False | Some e \<Rightarrow> js_starts_with e p)"

definition newly_failed :: "task_state \<Rightarrow> bool" where
  "newly_failed t \<longleftrightarrow>
     status t = Failed \<and> completedAt t \<noteq> None \<and> \<not> failureHandled t
     \<and> \<not> error_starts ''blocked:'' t \<and> \<not> error_starts ''aborted:'' t"

text \<open>
  The loop over the newly failed tasks: the task list, whether an abort behaviour stopped the
  loop, whether a pause behaviour was met, and the tasks to notify about.
\<close>

fun handle_failed ::
  "task_state list \<Rightarrow> task_state list \<times> bool \<times> bool \<times> task_state list" where
  "handle_failed [] = ([], False, False, [])"
| "handle_failed (t # ts) =
     (if \<not> newly_failed t
      then (let (ts', ab, pa, nt) = handle_failed ts in (t # ts', ab, pa, nt))
      else (let t' = t\<lparr>failureHandled := True\<rparr> in
            if failureBehavior (taskDef t) = FbAbort then (t' # ts, True, False, [])
            else (let (ts', ab, pa, nt) = handle_failed ts
                  in (t' # ts', ab, pa \<or> failureBehavior (taskDef t) = FbPause, t' # nt))))"

definition abort_error :: string where
  "abort_error = ''aborted: workflow aborted due to task failure''"

definition abort_running :: "config \<Rightarrow> int \<Rightarrow> task_state \<Rightarrow> task_state \<times> bool \<times> effect list" where
  "abort_running cfg now t =
     (if status t = InProgress \<and> truthy_str (sessionKey t)
      then (fail_task now (Some abort_error) t, False, abort_effects cfg t @ kill_effects cfg t)
      else untouched t)"

definition abort_pending :: "int \<Rightarrow> task_state \<Rightarrow> task_state \<times> bool \<times> effect list" where
  "abort_pending now t =
     (if status t = Pending then (fail_task now (Some abort_error) t, False, []) else untouched t)"

definition abortWorkflow :: "config \<Rightarrow> int \<Rightarrow> run \<Rightarrow> run" where
  "abortWorkflow cfg now r = each_task (abort_pending now) (each_task (abort_running cfg now) r)"

definition handleFailures :: "config \<Rightarrow> int \<Rightarrow> run \<Rightarrow> run \<times> task_state list" where
  "handleFailures cfg now r =
     (let (ts, ab, pa, nt) = handle_failed (r_tasks r);
          r' = r\<lparr>r_tasks := ts, r_paused := (r_paused r \<or> pa)\<rparr>
      in if ab then (abortWorkflow cfg now r', []) else (r', nt))"

definition routeFailureNotification :: "config \<Rightarrow> orch_options \<Rightarrow> task_state \<Rightarrow> effect list" where
  "routeFailureNotification cfg o' t =
     (if notifications cfg = None then []
      else (case failureNotification (taskDef t) of
              FnSilent \<Rightarrow> []
            | FnParent \<Rightarrow> [ESendNotification (o_replyTo o') (formatFailureMessage t)]
            | FnTarget target \<Rightarrow> [ESendNotification target (formatFailureMessage t)]))"

section \<open>Blocked tasks\<close>

definition mark_task ::
  "task_id list \<times> task_id list \<Rightarrow> int \<Rightarrow> task_state \<Rightarrow> task_state \<times> bool \<times> effect list" where
  "mark_task bs now t =
     (if status t \<noteq> Pending then untouched t
      else if tid t \<in> set (snd bs) then (t\<lparr>status := Skipped, completedAt := Some now\<rparr>, True, [])
      else if tid t \<in> set (fst bs)
        then (fail_task now (Some ''blocked: dependency failed'') t, True, [])
      else untouched t)"

definition markBlockedTasks :: "task_id graph \<Rightarrow> int \<Rightarrow> run \<Rightarrow> run" where
  "markBlockedTasks g now r =
     each_task (mark_task (computeBlockedAndSkipped g (taskMap (r_tasks r))) now) r"

section \<open>Spawning\<close>

text \<open>How the body of the spawn loop ends: next task, leave the loop, or throw.\<close>

datatype flow = Next | Stop | Throw string

definition update_task :: "nat \<Rightarrow> task_state \<Rightarrow> run \<Rightarrow> run" where
  "update_task i t r = r\<lparr>r_tasks := (r_tasks r)[i := t]\<rparr>"

definition set_dirty :: "run \<Rightarrow> run" where
  "set_dirty r = r\<lparr>r_dirty := True\<rparr>"

definition lookup :: "run \<Rightarrow> task_id \<Rightarrow> task_state option" where
  "lookup r = task_get (r_tasks r)"

text \<open>A skipped gate skips every transitive dependent that is pending.\<close>

definition skip_dependent :: "int \<Rightarrow> task_id \<Rightarrow> task_state list \<Rightarrow> task_state list" where
  "skip_dependent now d ts =
     task_update d (\<lambda>t. if status t = Pending then t\<lparr>status := Skipped, completedAt := Some now\<rparr> else t) ts"

definition run_gate :: "task_id graph \<Rightarrow> int \<Rightarrow> string \<Rightarrow> nat \<Rightarrow> task_state \<Rightarrow> run \<Rightarrow> run" where
  "run_gate g now condition i t r =
     (let t0 = t\<lparr>startedAt := Some now\<rparr>;
          r0 = set_dirty (update_task i t0 r);
          done = (\<lambda>out. update_task i (t0\<lparr>task_output := Some out, status := Done, completedAt := Some now\<rparr>) r0)
      in case evaluateGateCondition condition (buildGateContext (lookup r0)) of
           Some (Inr True) \<Rightarrow> done ''pass''
         | Some (Inr False) \<Rightarrow>
             (let dependents = getTransitiveDependents (tid t) g (Some (buildReverseGraph g));
                  r1 = done ''skip''
              in r1\<lparr>r_tasks := fold (skip_dependent now) dependents (r_tasks r1)\<rparr>)
         | Some (Inl e) \<Rightarrow> update_task i (fail_task now (Some (gate_error_text e)) t0) r0
         | None \<Rightarrow> r0)"

definition run_transform :: "int \<Rightarrow> string \<Rightarrow> nat \<Rightarrow> task_state \<Rightarrow> run \<Rightarrow> run" where
  "run_transform now template i t r =
     set_dirty (update_task i
       (t\<lparr>startedAt := Some now, task_output := Some (resolveTemplates template (lookup r)),
          status := Done, completedAt := Some now\<rparr>) r)"

definition run_message ::
  "config \<Rightarrow> orch_options \<Rightarrow> int \<Rightarrow> string \<Rightarrow> string option \<Rightarrow> nat \<Rightarrow> task_state \<Rightarrow> run \<Rightarrow> run" where
  "run_message cfg o' now message channel i t r =
     (let t0 = t\<lparr>startedAt := Some now\<rparr> in
      case messagePoster cfg of
        None \<Rightarrow>
          set_dirty (update_task i
            (fail_task now (Some ''message task requires a MessagePoster but none was provided'') t0) r)
      | Some post \<Rightarrow>
          (let text' = resolveTemplates message (lookup r);
               target = nullish channel (o_replyTo o');
               r1 = emit [EPost target text'] r
           in set_dirty (update_task i
                (case post target text' of
                   None \<Rightarrow> t0\<lparr>task_output := Some text', status := Done, completedAt := Some now\<rparr>
                 | Some err \<Rightarrow> fail_task now (Some err) t0) r1)))"

fun resolveArgsDeep :: "(task_id \<Rightarrow> task_state option) \<Rightarrow> json \<Rightarrow> json" where
  "resolveArgsDeep get (JStr s) = JStr (resolveTemplates s get)"
| "resolveArgsDeep get (JArr js) = JArr (map (resolveArgsDeep get) js)"
| "resolveArgsDeep get (JObj kvs) = JObj (map (\<lambda>(k, v). (k, resolveArgsDeep get v)) kvs)"
| "resolveArgsDeep get j = j"

text \<open>\<open>parsed[name]\<close> when it is a string; other properties are of no interest here.\<close>

definition str_field :: "string \<Rightarrow> json \<Rightarrow> string option" where
  "str_field name j =
     (case j of
        JObj kvs \<Rightarrow> (case map_get kvs name of Some (JStr s) \<Rightarrow> Some s | _ \<Rightarrow> None)
      | _ \<Rightarrow> None)"

definition tool_outcome :: "config \<Rightarrow> int \<Rightarrow> string \<Rightarrow> task_state \<Rightarrow> task_state" where
  "tool_outcome cfg now resultJson t0 =
     (case parse_json cfg resultJson of
        None \<Rightarrow> fail_task now (Some (''Tool returned invalid JSON: '' @ take 200 resultJson)) t0
      | Some JNull \<Rightarrow>
          fail_task now (Some ''Cannot read properties of null (reading 'error')'') t0
      | Some parsed \<Rightarrow>
          (if truthy_str (str_field ''error'' parsed)
           then fail_task now (str_field ''error'' parsed) t0
           else t0\<lparr>task_output := Some (nullish (str_field ''output'' parsed) resultJson),
                   status := Done, completedAt := Some now\<rparr>))"

definition run_tool ::
  "config \<Rightarrow> int \<Rightarrow> string \<Rightarrow> (string \<times> json) list option \<Rightarrow> nat \<Rightarrow> task_state \<Rightarrow> run \<Rightarrow> run" where
  "run_tool cfg now tool args i t r =
     (let t0 = t\<lparr>startedAt := Some now\<rparr> in
      case toolExecutor cfg of
        None \<Rightarrow>
          set_dirty (update_task i
            (fail_task now (Some ''tool task requires a ToolExecutor but none was provided'') t0) r)
      | Some execute \<Rightarrow>
          (let resolved = resolveArgsDeep (lookup r) (JObj (nullish args []));
               r1 = emit [EExecute tool resolved] r
           in set_dirty (update_task i
                (case execute tool resolved of
                   Inl err \<Rightarrow> fail_task now (Some err) t0
                 | Inr resultJson \<Rightarrow> tool_outcome cfg now resultJson t0) r1)))"

definition spawn_request_for ::
  "orch_options \<Rightarrow> string \<Rightarrow> agent_spec \<Rightarrow> task_state \<Rightarrow> run \<Rightarrow> spawn_request" where
  "spawn_request_for o' wfid a t r =
     \<lparr> sr_taskId = tid t,
       sr_prompt = resolveTemplates (prompt a) (lookup r),
       sr_replyTo = o_replyTo o',
       sr_timeoutMs = nullish (td_runtimeLimitMs (taskDef t)) (o_runtimeLimitMs o'),
       sr_workflowId = wfid,
       sr_responseSchema = responseSchema a,
       sr_modelOptions = modelOptions a,
       sr_enableTools = enableTools a,
       sr_contract = contract a,
       sr_judge = (if truthy_str (judge a) then judge a else None) \<rparr>"

definition run_agent ::
  "config \<Rightarrow> orch_options \<Rightarrow> string \<Rightarrow> int \<Rightarrow> agent_spec \<Rightarrow> nat \<Rightarrow> task_state \<Rightarrow> run \<Rightarrow> run \<times> flow" where
  "run_agent cfg o' wfid now a i t r =
     (let req = spawn_request_for o' wfid a t r;
          r1 = emit [ESpawn req] r
      in case spawn cfg req of
           Inr key \<Rightarrow>
             (set_dirty (update_task i
                (t\<lparr>status := InProgress, sessionKey := Some key, startedAt := Some now\<rparr>) r1), Next)
         | Inl err \<Rightarrow>
             (let r2 = (set_dirty (update_task i (fail_task now (Some err) t) r1))\<lparr>r_paused := True\<rparr>;
                  message = ''Failed to spawn task '' @ js_num_text (tid t) @ '': '' @ err
              in case notifications cfg of
                   None \<Rightarrow> (r2, Stop)
                 | Some send \<Rightarrow>
                     (emit [ESendNotification (o_replyTo o') message] r2,
                      (case send (o_replyTo o') message of None \<Rightarrow> Stop | Some e \<Rightarrow> Throw e))))"

definition run_task ::
  "config \<Rightarrow> orch_options \<Rightarrow> string \<Rightarrow> task_id graph \<Rightarrow> int \<Rightarrow> nat \<Rightarrow> run \<Rightarrow> run \<times> flow" where
  "run_task cfg o' wfid g now i r =
     (let t = r_tasks r ! i in
      case kind (taskDef t) of
        KGate condition \<Rightarrow> (run_gate g now condition i t r, Next)
      | KTransform template \<Rightarrow> (run_transform now template i t r, Next)
      | KMessage message channel \<Rightarrow> (run_message cfg o' now message channel i t r, Next)
      | KTool tool args \<Rightarrow> (run_tool cfg now tool args i t r, Next)
      | KAgent a \<Rightarrow> run_agent cfg o' wfid now a i t r)"

definition in_progress_count :: "task_state list \<Rightarrow> nat" where
  "in_progress_count ts = length (filter (\<lambda>t. status t = InProgress) ts)"

definition at_cap :: "int option \<Rightarrow> task_state list \<Rightarrow> bool" where
  "at_cap cap ts \<longleftrightarrow> nullish cap 0 > 0 \<and> int (in_progress_count ts) \<ge> nullish cap 0"

definition all_deps_done :: "run \<Rightarrow> task_id list \<Rightarrow> bool" where
  "all_deps_done r deps =
     list_all (\<lambda>d. case lookup r d of None \<Rightarrow> False | Some t \<Rightarrow> status t = Done) deps"

text \<open>The loop over the tasks, by position: \<open>Some e\<close> is a thrown error.\<close>

fun spawn_loop ::
  "config \<Rightarrow> orch_options \<Rightarrow> string \<Rightarrow> task_id graph \<Rightarrow> int option \<Rightarrow> int \<Rightarrow> nat list \<Rightarrow> run \<Rightarrow> run \<times> string option" where
  "spawn_loop cfg o' wfid g cap now [] r = (r, None)"
| "spawn_loop cfg o' wfid g cap now (i # is) r =
     (if status (r_tasks r ! i) \<noteq> Pending then spawn_loop cfg o' wfid g cap now is r
      else if at_cap cap (r_tasks r) then (r, None)
      else (case map_get g (tid (r_tasks r ! i)) of
              None \<Rightarrow> (r, Some ''deps is not iterable'')
            | Some deps \<Rightarrow>
                (if \<not> all_deps_done r deps then spawn_loop cfg o' wfid g cap now is r
                 else (case run_task cfg o' wfid g now i r of
                         (r', Next) \<Rightarrow> spawn_loop cfg o' wfid g cap now is r'
                       | (r', Stop) \<Rightarrow> (r', None)
                       | (r', Throw e) \<Rightarrow> (r', Some e)))))"

definition spawnReadyTasks ::
  "config \<Rightarrow> orch_options \<Rightarrow> task_list \<Rightarrow> int \<Rightarrow> run \<Rightarrow> run \<times> string option" where
  "spawnReadyTasks cfg o' w now r =
     spawn_loop cfg o' (wf_id w) (graph w) (concurrency w) now [0..<length (r_tasks r)] r"

section \<open>The tick\<close>

fun apply_templates :: "task_state list \<Rightarrow> task_id list \<Rightarrow> task_state list \<times> task_id list" where
  "apply_templates [] applied = ([], applied)"
| "apply_templates (t # ts) applied =
     (let (t', applied') = applyOutputTemplate t applied;
          (ts', applied'') = apply_templates ts applied'
      in (t' # ts', applied''))"

definition run_of :: "task_list \<Rightarrow> orch \<Rightarrow> run" where
  "run_of w s =
     \<lparr> r_tasks = tasks w, r_dirty = dirty s, r_paused = paused s,
       r_applied = templateApplied s, r_trace = trace s \<rparr>"

definition put_run :: "task_list \<Rightarrow> run \<Rightarrow> orch \<Rightarrow> orch" where
  "put_run w r s =
     s\<lparr>workflow := Some (w\<lparr>tasks := r_tasks r\<rparr>), dirty := r_dirty r, paused := r_paused r,
       templateApplied := r_applied r, trace := r_trace r\<rparr>"

text \<open>The phases of a tick up to the spawn phase: the run and the tasks to notify about.\<close>

definition tick_settle :: "config \<Rightarrow> orch_options \<Rightarrow> task_list \<Rightarrow> int \<Rightarrow> run \<Rightarrow> run \<times> task_state list" where
  "tick_settle cfg o' w now r =
     (let r1 = enforceRuntimeLimits cfg o' now (pollInProgress cfg now r);
          (r2, pendingNotifications) = handleFailures cfg now r1
      in (markBlockedTasks (graph w) now r2, pendingNotifications))"

definition tick_spawn ::
  "config \<Rightarrow> orch_options \<Rightarrow> task_list \<Rightarrow> int \<Rightarrow> run \<Rightarrow> run \<times> string option" where
  "tick_spawn cfg o' w now r = (if r_paused r then (r, None) else spawnReadyTasks cfg o' w now r)"

definition tick_templates :: "run \<Rightarrow> run" where
  "tick_templates r =
     (let (ts, applied) = apply_templates (r_tasks r) (r_applied r)
      in r\<lparr>r_tasks := ts, r_applied := applied\<rparr>)"

definition stopPolling :: "orch \<Rightarrow> orch" where
  "stopPolling s = s\<lparr>pollingTimer := False, statusTimer := False\<rparr>"

definition completion_kills :: "config \<Rightarrow> task_list \<Rightarrow> effect list" where
  "completion_kills cfg w = concat (map (kill_effects cfg) (tasks w))"

definition was_aborted :: "task_list \<Rightarrow> bool" where
  "was_aborted w \<longleftrightarrow> list_ex (error_starts ''aborted:'') (tasks w)"

definition completion_notice :: "task_list \<Rightarrow> orch \<Rightarrow> effect list" where
  "completion_notice w s =
     (if was_aborted w then []
      else [ENotify (wf_id w) (list_all (\<lambda>t. status t = Done) (tasks w))
              (case opts s of None \<Rightarrow> [] | Some o' \<Rightarrow> o_replyTo o')])"

definition checkCompletion :: "config \<Rightarrow> task_list \<Rightarrow> orch \<Rightarrow> orch \<times> string option" where
  "checkCompletion cfg w s =
     (if paused s \<or> \<not> list_all (\<lambda>t. isTerminal (status t)) (tasks w) \<or> completed s then (s, None)
      else (let s1 = stopPolling (s\<lparr>completed := True\<rparr>);
                s2 = s1\<lparr>trace := trace s1 @ completion_kills cfg w\<rparr>;
                finish = (\<lambda>s'. (s'\<lparr>trace := trace s' @ completion_notice w s'\<rparr>, None))
            in case statusManager cfg of
                 None \<Rightarrow> finish s2
               | Some sm \<Rightarrow>
                   (let s3 = s2\<lparr>trace := trace s2 @ [EUpdateStatus w]\<rparr> in
                    case update_rejects sm of
                      Some e \<Rightarrow> (s3, Some e)
                    | None \<Rightarrow>
                        (let s4 = s3\<lparr>dirty := False, trace := trace s3 @ [ESummary w]\<rparr> in
                         case summary_rejects sm of
                           Some e \<Rightarrow> (s4, Some e)
                         | None \<Rightarrow> finish s4))))"

definition save_run :: "task_list \<Rightarrow> run \<Rightarrow> run" where
  "save_run w r = emit [ESave (w\<lparr>tasks := r_tasks r\<rparr>)] r"

definition tick_notify :: "config \<Rightarrow> orch_options \<Rightarrow> task_state list \<Rightarrow> run \<Rightarrow> run" where
  "tick_notify cfg o' nt r = emit (concat (map (routeFailureNotification cfg o') nt)) r"

definition tick :: "config \<Rightarrow> int \<Rightarrow> orch \<Rightarrow> orch \<times> string option" where
  "tick cfg now s =
     (case (workflow s, opts s) of
        (Some w, Some o') \<Rightarrow>
          (if completed s then (s, None)
           else (let (r1, nt) = tick_settle cfg o' w now (run_of w s) in
                 case tick_spawn cfg o' w now r1 of
                   (r2, Some e) \<Rightarrow> (put_run w r2 s, Some e)
                 | (r2, None) \<Rightarrow>
                     (let r3 = tick_templates r2 in
                      case save_rejects cfg of
                        Some e \<Rightarrow> (put_run w r3 s, Some e)
                      | None \<Rightarrow>
                          (let r4 = tick_notify cfg o' nt (save_run w r3)
                           in checkCompletion cfg (w\<lparr>tasks := r_tasks r4\<rparr>) (put_run w r4 s)))))
      | _ \<Rightarrow> (s, None))"

section \<open>Start\<close>

datatype start_error =
    DepthLimit
  | DuplicateTaskIds "task_id list"
  | GraphSyntax parse_error
  | GraphInvalid "task_id graph_error"
  | TemplateRef task_id template_ref
  | Threw string

fun duplicate_ids :: "task_id list \<Rightarrow> task_id list \<Rightarrow> task_id list" where
  "duplicate_ids seen [] = []"
| "duplicate_ids seen (i # is) =
     (if i \<in> set seen then i # duplicate_ids seen is else duplicate_ids (set_add i seen) is)"

fun bad_source :: "task_id graph \<Rightarrow> task_id \<Rightarrow> string list \<Rightarrow> template_ref option" where
  "bad_source g i [] = None"
| "bad_source g i (src # srcs) =
     (case validateTemplateRefs i (parseTemplateRefs src) g of
        Some r \<Rightarrow> Some r
      | None \<Rightarrow> bad_source g i srcs)"

fun bad_template :: "task_id graph \<Rightarrow> task_def list \<Rightarrow> start_error option" where
  "bad_template g [] = None"
| "bad_template g (td # tds) =
     (case bad_source g (td_id td) (getTemplateSources td) of
        Some r \<Rightarrow> Some (TemplateRef (td_id td) r)
      | None \<Rightarrow> bad_template g tds)"

definition new_workflow ::
  "int \<Rightarrow> string \<Rightarrow> task_def list \<Rightarrow> task_id graph \<Rightarrow> orch_options \<Rightarrow> task_list" where
  "new_workflow now uuid tds g o' =
     \<lparr> wf_id = uuid, wf_name = nullish (o_name o') (''workflow-'' @ show_int now),
       tasks = map pending_task tds, graph = g, pollingIntervalMs = o_pollingIntervalMs o',
       createdAt = now,
       concurrency = (if truthy_num (o_concurrency o') then o_concurrency o' else None),
       wf_runtimeLimitMs = (if o_runtimeLimitMs o' \<noteq> 0 then Some (o_runtimeLimitMs o') else None),
       currentDepth = Some (o_currentDepth o'), maxDepth = Some (o_maxDepth o'),
       wf_replyTo = Some (o_replyTo o') \<rparr>"

text \<open>The checks before any state changes; the outer None is the graph parser not returning.\<close>

definition start_checks ::
  "task_def list \<Rightarrow> string \<Rightarrow> orch_options \<Rightarrow> (start_error + task_id graph) option" where
  "start_checks tds dsl o' =
     (if \<not> canSpawn (o_currentDepth o') (o_maxDepth o') then Some (Inl DepthLimit)
      else if duplicate_ids [] (map td_id tds) \<noteq> []
        then Some (Inl (DuplicateTaskIds (remdups (duplicate_ids [] (map td_id tds)))))
      else (case parseGraph dsl of
              None \<Rightarrow> None
            | Some (Inl e) \<Rightarrow> Some (Inl (GraphSyntax e))
            | Some (Inr g) \<Rightarrow>
                (case validateGraph g (map td_id tds) of
                   Inl e \<Rightarrow> Some (Inl (GraphInvalid e))
                 | Inr warnings \<Rightarrow>
                     (case bad_template g tds of
                        Some e \<Rightarrow> Some (Inl e)
                      | None \<Rightarrow> Some (Inr g)))))"

definition start_run ::
  "config \<Rightarrow> int \<Rightarrow> task_list \<Rightarrow> orch_options \<Rightarrow> orch \<Rightarrow> (start_error + string) \<times> orch" where
  "start_run cfg now w o' s =
     (let s0 = s\<lparr>workflow := Some w, opts := Some o', completed := False, paused := False,
                 templateApplied := []\<rparr>;
          r0 = run_of w s0
      in case save_rejects cfg of
           Some e \<Rightarrow> (Inl (Threw e), s0)
         | None \<Rightarrow>
             (case spawnReadyTasks cfg o' w now (save_run w r0) of
                (r1, Some e) \<Rightarrow> (Inl (Threw e), put_run w r1 s0)
              | (r1, None) \<Rightarrow>
                  (let r2 = save_run w r1 in
                   case statusManager cfg of
                     None \<Rightarrow> (Inr (wf_id w), put_run w r2 s0)
                   | Some sm \<Rightarrow>
                       (let s1 = put_run w (emit [EInitialStatus (w\<lparr>tasks := r_tasks r2\<rparr>)] r2) s0 in
                        case initial_rejects sm of
                          Some e \<Rightarrow> (Inl (Threw e), s1)
                        | None \<Rightarrow> (Inr (wf_id w), s1)))))"

definition start ::
  "config \<Rightarrow> int \<Rightarrow> string \<Rightarrow> task_def list \<Rightarrow> string \<Rightarrow> orch_options \<Rightarrow> orch
     \<Rightarrow> ((start_error + string) \<times> orch) option" where
  "start cfg now uuid tds dsl o' s =
     (case start_checks tds dsl o' of
        None \<Rightarrow> None
      | Some (Inl e) \<Rightarrow> Some (Inl e, s)
      | Some (Inr g) \<Rightarrow> Some (start_run cfg now (new_workflow now uuid tds g o') o' s))"

section \<open>Timers, restore, setters\<close>

definition startStatusTimer :: "config \<Rightarrow> orch \<Rightarrow> orch" where
  "startStatusTimer cfg s =
     (if statusManager cfg = None \<or> workflow s = None \<or> opts s = None then s
      else s\<lparr>statusTimer := True\<rparr>)"

definition startPolling :: "config \<Rightarrow> orch \<Rightarrow> orch" where
  "startPolling cfg s =
     (if workflow s = None \<or> opts s = None then s
      else startStatusTimer cfg (s\<lparr>pollingTimer := True\<rparr>))"

text \<open>The timer callbacks; a throwing tick is logged and the loop goes on.\<close>

definition polling_fires :: "config \<Rightarrow> int \<Rightarrow> orch \<Rightarrow> orch" where
  "polling_fires cfg now s = (if pollingTimer s then fst (tick cfg now s) else s)"

definition status_fires :: "config \<Rightarrow> orch \<Rightarrow> orch" where
  "status_fires cfg s =
     (case workflow s of
        None \<Rightarrow> s
      | Some w \<Rightarrow>
          (if \<not> statusTimer s \<or> statusManager cfg = None then s
           else if \<not> dirty s \<and> \<not> list_ex (\<lambda>t. status t = InProgress) (tasks w) then s
           else s\<lparr>dirty := False, trace := trace s @ [EUpdateStatus w]\<rparr>))"

definition isPolling :: "orch \<Rightarrow> bool" where
  "isPolling s = pollingTimer s"

definition setPaused :: "bool \<Rightarrow> orch \<Rightarrow> orch" where
  "setPaused b s = s\<lparr>paused := b\<rparr>"

definition setCompleted :: "bool \<Rightarrow> orch \<Rightarrow> orch" where
  "setCompleted b s = s\<lparr>completed := b\<rparr>"

definition restore :: "task_list \<Rightarrow> orch_options \<Rightarrow> orch \<Rightarrow> orch" where
  "restore w o' s =
     stopPolling (s\<lparr>workflow := Some w, opts := Some o', completed := False, paused := False,
                    dirty := False, templateApplied := []\<rparr>)"

end
