(* ===== verification/Orchestrator_Safety.thy ===== *)
theory Orchestrator_Safety
  imports Orchestrator
begin

text \<open>
  Safety of the orchestrator: how a task may change (the transition guards of
  \<open>hardening.ts\<close>, which the orchestrator never calls, hold of every phase), the invariant of
  the reachable states (dependencies first, concurrency cap, validated templates) and what
  follows from it.
\<close>

section \<open>How task lists evolve\<close>

definition task_step :: "task_state \<Rightarrow> task_state \<Rightarrow> bool" where
  "task_step t t' \<longleftrightarrow> taskDef t' = taskDef t \<and> status_le (status t) (status t')
     \<and> (status t' = Pending \<longrightarrow> status t = Pending) \<and> (status t' = Paused \<longrightarrow> status t = Paused)"

text \<open>A step that starts nothing: no task becomes active that was not, and no session is assigned.\<close>

definition quiet_step :: "task_state \<Rightarrow> task_state \<Rightarrow> bool" where
  "quiet_step t t' \<longleftrightarrow> task_step t t' \<and> sessionKey t' = sessionKey t
     \<and> (status t' = InProgress \<longrightarrow> status t = InProgress)
     \<and> (status t' = Done \<longrightarrow> status t = InProgress \<or> status t = Done)"

abbreviation evolves :: "task_state list \<Rightarrow> task_state list \<Rightarrow> bool" where
  "evolves \<equiv> list_all2 task_step"

abbreviation settles :: "task_state list \<Rightarrow> task_state list \<Rightarrow> bool" where
  "settles \<equiv> list_all2 quiet_step"

lemma task_step_refl [simp]: "task_step t t" "quiet_step t t"
  by (simp_all add: task_step_def quiet_step_def)

lemma task_step_trans: "task_step a b \<Longrightarrow> task_step b c \<Longrightarrow> task_step a c"
  by (auto simp: task_step_def intro: status_le_trans)

lemma quiet_step_trans: "quiet_step a b \<Longrightarrow> quiet_step b c \<Longrightarrow> quiet_step a c"
  by (auto simp: quiet_step_def intro: task_step_trans)

lemma evolves_refl [simp]: "evolves ts ts" "settles ts ts"
  by (simp_all add: list_all2_same)

lemma evolves_trans: "evolves a b \<Longrightarrow> evolves b c \<Longrightarrow> evolves a c"
  by (rule list_all2_trans [OF task_step_trans])

lemma settles_trans: "settles a b \<Longrightarrow> settles b c \<Longrightarrow> settles a c"
  by (rule list_all2_trans [OF quiet_step_trans])

lemma settles_evolves: "settles a b \<Longrightarrow> evolves a b"
  by (erule list_all2_mono) (simp add: quiet_step_def)

lemma evolves_defs: "evolves ts ts' \<Longrightarrow> map taskDef ts' = map taskDef ts"
  by (induction rule: list_all2_induct) (simp_all add: task_step_def)

lemma evolves_tids: "evolves ts ts' \<Longrightarrow> map tid ts' = map tid ts"
  using evolves_defs [of ts ts'] by (metis (no_types, lifting) comp_apply map_eq_conv map_map)

lemma evolves_update: "task_step (ts ! i) t \<Longrightarrow> evolves ts (ts[i := t])"
  by (cases "i < length ts") (auto simp: list_all2_conv_all_nth nth_list_update)

lemma evolves_task_update: "(\<And>t. task_step t (f t)) \<Longrightarrow> evolves ts (task_update i f ts)"
  by (induction ts) (auto simp: list_all2_same)

lemma settles_task_update: "(\<And>t. quiet_step t (f t)) \<Longrightarrow> settles ts (task_update i f ts)"
  by (induction ts) (auto simp: list_all2_same)

lemma evolves_lookup:
  assumes "evolves ts ts'" and "task_get ts i = Some u"
  obtains u' where "task_get ts' i = Some u'" and "task_step u u'"
proof -
  have "list_all2 task_step (rev ts) (rev ts')" using assms(1) by simp
  then have "\<exists>u'. find (\<lambda>t. tid t = i) (rev ts') = Some u' \<and> task_step u u'"
    using assms(2) unfolding task_get_find
    by (induction rule: list_all2_induct) (auto simp: task_step_def split: if_splits)
  then show ?thesis using that by (auto simp: task_get_find)
qed

lemma evolves_lookup_back:
  assumes "evolves ts ts'" and "task_get ts' i = Some u'"
  obtains u where "task_get ts i = Some u" and "task_step u u'"
proof -
  have "list_all2 task_step (rev ts) (rev ts')" using assms(1) by simp
  then have "\<exists>u. find (\<lambda>t. tid t = i) (rev ts) = Some u \<and> task_step u u'"
    using assms(2) unfolding task_get_find
    by (induction rule: list_all2_induct) (auto simp: task_step_def split: if_splits)
  then show ?thesis using that by (auto simp: task_get_find)
qed

section \<open>Every phase evolves the task list\<close>

lemma each_task_tasks [simp]: "r_tasks (each_task f r) = map (fst \<circ> f) (r_tasks r)"
  and each_task_paused [simp]: "r_paused (each_task f r) = r_paused r"
  and each_task_applied [simp]: "r_applied (each_task f r) = r_applied r"
  by (simp_all add: each_task_def)

lemma each_task_settles: "(\<And>t. quiet_step t (fst (f t))) \<Longrightarrow> settles (r_tasks r) (r_tasks (each_task f r))"
  by (auto simp: list_all2_conv_all_nth)

lemma untouched_fst [simp]: "fst (untouched t) = t" "fst (snd (untouched t)) = False" "snd (snd (untouched t)) = []"
  by (simp_all add: untouched_def)

lemma fail_task_simps [simp]:
  "status (fail_task n e t) = Failed" "taskDef (fail_task n e t) = taskDef t"
  "error (fail_task n e t) = e" "completedAt (fail_task n e t) = Some n"
  "sessionKey (fail_task n e t) = sessionKey t" "failureHandled (fail_task n e t) = failureHandled t"
  by (simp_all add: fail_task_def)

lemma quiet_fail [simp]: "\<not> isTerminal (status t) \<Longrightarrow> quiet_step t (fail_task n e t)"
  by (cases "status t") (simp_all add: quiet_step_def task_step_def transition_defs)

lemma quiet_poll: "quiet_step t (fst (poll_task cfg now t))"
  by (auto simp: poll_task_def Let_def isTerminal_def quiet_step_def task_step_def
      split: sum.split poll_status.split)

lemma quiet_limit: "quiet_step t (fst (limit_task cfg o' now t))"
  by (auto simp: limit_task_def Let_def isTerminal_def)

lemma quiet_abort: "quiet_step t (fst (abort_running cfg now t))" "quiet_step t (fst (abort_pending now t))"
  by (auto simp: abort_running_def abort_pending_def isTerminal_def)

lemma quiet_mark: "quiet_step t (fst (mark_task bs now t))"
  by (auto simp: mark_task_def isTerminal_def quiet_step_def task_step_def)

lemma settles_handle_failed: "handle_failed ts = (ts', ab, pa, nt) \<Longrightarrow> settles ts ts'"
  by (induction ts arbitrary: ts' ab pa nt rule: handle_failed.induct)
    (auto simp: Let_def quiet_step_def task_step_def split: if_splits prod.splits)

lemma settles_abortWorkflow: "settles (r_tasks r) (r_tasks (abortWorkflow cfg now r))"
  unfolding abortWorkflow_def
  by (rule settles_trans) (rule each_task_settles, rule quiet_abort)+

lemma settles_handleFailures: "settles (r_tasks r) (r_tasks (fst (handleFailures cfg now r)))"
proof -
  obtain ts ab pa nt where h: "handle_failed (r_tasks r) = (ts, ab, pa, nt)"
    by (cases "handle_failed (r_tasks r)") auto
  let ?r = "r\<lparr>r_tasks := ts, r_paused := (r_paused r \<or> pa)\<rparr>"
  have "settles (r_tasks r) (r_tasks ?r)" using settles_handle_failed [OF h] by simp
  with settles_trans [OF this settles_abortWorkflow [of ?r cfg now]] h show ?thesis
    by (simp add: handleFailures_def Let_def)
qed

lemma settles_markBlocked: "settles (r_tasks r) (r_tasks (markBlockedTasks g now r))"
  unfolding markBlockedTasks_def by (rule each_task_settles) (rule quiet_mark)

lemma settles_tick_settle: "settles (r_tasks r) (r_tasks (fst (tick_settle cfg o' w now r)))"
proof -
  let ?r1 = "enforceRuntimeLimits cfg o' now (pollInProgress cfg now r)"
  have "settles (r_tasks r) (r_tasks ?r1)"
    unfolding enforceRuntimeLimits_def pollInProgress_def
    by (rule settles_trans) (rule each_task_settles, rule quiet_poll quiet_limit)+
  from settles_trans [OF this settles_handleFailures [of _ cfg now]]
  have "settles (r_tasks r) (r_tasks (fst (handleFailures cfg now ?r1)))" .
  from settles_trans [OF this settles_markBlocked] show ?thesis
    by (cases "handleFailures cfg now ?r1") (simp add: tick_settle_def Let_def)
qed

lemma settles_apply_templates: "settles ts (fst (apply_templates ts ap))"
proof (induction ts arbitrary: ap)
  case (Cons t ts)
  have "quiet_step t (fst (applyOutputTemplate t ap))"
    by (simp add: quiet_step_def task_step_def frame_simps)
  with Cons show ?case by (simp add: Let_def split: prod.split) (metis fst_conv)
qed simp

lemma settles_tick_templates: "settles (r_tasks r) (r_tasks (tick_templates r))"
  using settles_apply_templates [of "r_tasks r" "r_applied r"]
  by (simp add: tick_templates_def split: prod.split) (metis fst_conv)

subsection \<open>The spawn phase\<close>

lemma run_field_simps [simp]:
  "r_tasks (emit es r) = r_tasks r" "r_paused (emit es r) = r_paused r" "r_applied (emit es r) = r_applied r"
  "r_trace (emit es r) = r_trace r @ es"
  "r_tasks (set_dirty r) = r_tasks r" "r_paused (set_dirty r) = r_paused r" "r_trace (set_dirty r) = r_trace r"
  "r_applied (set_dirty r) = r_applied r"
  "r_tasks (update_task i t r) = (r_tasks r)[i := t]" "r_paused (update_task i t r) = r_paused r"
  "r_applied (update_task i t r) = r_applied r" "r_trace (update_task i t r) = r_trace r"
  by (simp_all add: emit_def set_dirty_def update_task_def)

lemma skip_quiet: "quiet_step t (if status t = Pending then t\<lparr>status := Skipped, completedAt := Some now\<rparr> else t)"
  by (simp add: quiet_step_def task_step_def)

lemma settles_skip: "settles ts (fold (skip_dependent now) ds ts)"
proof (induction ds arbitrary: ts)
  case (Cons d ds)
  have "settles ts (skip_dependent now d ts)"
    unfolding skip_dependent_def by (rule settles_task_update) (rule skip_quiet)
  from settles_trans [OF this Cons] show ?case by simp
qed simp

text \<open>Running a task puts it in a new status; a gate that says no may then skip dependents.\<close>

definition started :: "config \<Rightarrow> task_state \<Rightarrow> task_state \<Rightarrow> bool" where
  "started cfg t t' \<longleftrightarrow> taskDef t' = taskDef t
     \<and> (status t' = InProgress \<and> (\<exists>req key. spawn cfg req = Inr key \<and> sessionKey t' = Some key)
        \<or> status t' = Done \<or> status t' = Failed)"

definition dispatched :: "config \<Rightarrow> nat \<Rightarrow> run \<Rightarrow> run \<Rightarrow> bool" where
  "dispatched cfg i r r' \<longleftrightarrow> (\<exists>t'. started cfg (r_tasks r ! i) t' \<and> settles ((r_tasks r)[i := t']) (r_tasks r'))"

lemma started_step: "started cfg t t' \<Longrightarrow> status t = Pending \<Longrightarrow> task_step t t'"
  by (auto simp: started_def task_step_def)

lemma dispatchedI:
  "r_tasks r' = (r_tasks r)[i := t'] \<Longrightarrow> started cfg (r_tasks r ! i) t' \<Longrightarrow> dispatched cfg i r r'"
  by (auto simp: dispatched_def)

lemma dispatched_gate: "dispatched cfg i r (run_gate g now condition i (r_tasks r ! i) r)"
proof -
  let ?t = "(r_tasks r ! i)\<lparr>startedAt := Some now\<rparr>"
  obtain res where res: "evaluateGateCondition condition
      (buildGateContext (lookup (set_dirty (update_task i ?t r)))) = Some res"
    using evaluateGateCondition_returns by blast
  show ?thesis
  proof (cases res)
    case (Inl e)
    with res show ?thesis by (auto simp: run_gate_def Let_def started_def intro!: dispatchedI)
  next
    case (Inr b)
    show ?thesis
    proof (cases b)
      case True
      with res Inr show ?thesis by (auto simp: run_gate_def Let_def started_def intro!: dispatchedI)
    next
      case False
      let ?d = "?t\<lparr>task_output := Some ''skip'', status := Done, completedAt := Some now\<rparr>"
      have "started cfg (r_tasks r ! i) ?d" by (simp add: started_def)
      with False res Inr show ?thesis unfolding dispatched_def
        by (intro exI [of _ ?d]) (simp add: run_gate_def Let_def settles_skip)
    qed
  qed
qed

lemma dispatched_transform: "dispatched cfg i r (run_transform now template i (r_tasks r ! i) r)"
  by (auto simp: run_transform_def started_def intro!: dispatchedI)

lemma dispatched_message: "dispatched cfg i r (run_message cfg o' now message channel i (r_tasks r ! i) r)"
  by (auto simp: run_message_def Let_def started_def intro!: dispatchedI split: option.split)

lemma started_outcome:
  "taskDef t = taskDef u \<Longrightarrow> started cfg u (tool_outcome cfg now resultJson t)"
  by (auto simp: tool_outcome_def started_def split: option.split json.split)

lemma dispatched_tool: "dispatched cfg i r (run_tool cfg now tool args i (r_tasks r ! i) r)"
  by (auto simp: run_tool_def Let_def intro!: dispatchedI started_outcome split: option.split sum.split)
    (auto simp: started_def)

lemma dispatched_agent: "dispatched cfg i r (fst (run_agent cfg o' wfid now a i (r_tasks r ! i) r))"
  by (auto simp: run_agent_def Let_def started_def intro!: dispatchedI split: option.split sum.split)

lemma dispatched_task: "dispatched cfg i r (fst (run_task cfg o' wfid g now i r))"
  by (simp add: run_task_def Let_def dispatched_gate dispatched_transform dispatched_message
      dispatched_tool dispatched_agent split: task_kind.split)

lemma evolves_dispatched:
  assumes "dispatched cfg i r r'" and "status (r_tasks r ! i) = Pending"
  shows "evolves (r_tasks r) (r_tasks r')"
proof -
  from assms(1) obtain t' where t: "started cfg (r_tasks r ! i) t'" "settles ((r_tasks r)[i := t']) (r_tasks r')"
    by (auto simp: dispatched_def)
  with assms(2) have "task_step (r_tasks r ! i) t'" by (blast intro: started_step)
  from evolves_trans [OF evolves_update [OF this] settles_evolves [OF t(2)]] show ?thesis .
qed

text \<open>What holds of a run after each dispatch of a ready task holds after the loop.\<close>

lemma spawn_loop_induct:
  assumes "P r"
    and "\<And>r i deps. P r \<Longrightarrow> i \<in> set is \<Longrightarrow> status (r_tasks r ! i) = Pending \<Longrightarrow> \<not> at_cap cap (r_tasks r) \<Longrightarrow>
      map_get g (tid (r_tasks r ! i)) = Some deps \<Longrightarrow> all_deps_done r deps \<Longrightarrow>
      P (fst (run_task cfg o' wfid g now i r))"
  shows "P (fst (spawn_loop cfg o' wfid g cap now is r))"
  using assms
proof (induction "is" arbitrary: r)
  case Nil
  then show ?case by simp
next
  case (Cons i "is")
  have go: "P (fst (spawn_loop cfg o' wfid g cap now is r'))" if "P r'" for r'
    using Cons.IH [OF that] Cons.prems(2) by simp
  show ?case
    using Cons.prems(1) Cons.prems(2) [of r i]
    by (auto simp: go split: option.split prod.split flow.split)
qed

lemma evolves_spawn: "evolves (r_tasks r) (r_tasks (fst (spawnReadyTasks cfg o' w now r)))"
  unfolding spawnReadyTasks_def
  by (rule spawn_loop_induct [where P = "\<lambda>r'. evolves (r_tasks r) (r_tasks r')"])
    (auto intro: evolves_trans evolves_dispatched dispatched_task)

lemma evolves_tick_spawn: "evolves (r_tasks r) (r_tasks (fst (tick_spawn cfg o' w now r)))"
  by (simp add: tick_spawn_def evolves_spawn)

section \<open>The invariant of a workflow\<close>

definition templates_ok :: "task_id graph \<Rightarrow> task_def list \<Rightarrow> bool" where
  "templates_ok g tds \<longleftrightarrow>
     (\<forall>td \<in> set tds. \<forall>src \<in> set (getTemplateSources td). \<forall>r \<in> set (parseTemplateRefs src).
        (td_id td, ref_taskId r) \<in> (edges g)\<^sup>+)"

definition wf_valid :: "task_id graph \<Rightarrow> task_def list \<Rightarrow> bool" where
  "wf_valid g tds \<longleftrightarrow>
     distinct (map td_id tds) \<and> graph_ok g \<and> keys_of g = td_id ` set tds \<and> acyclic (edges g)
     \<and> templates_ok g tds"

definition done_in :: "task_state list \<Rightarrow> task_id \<Rightarrow> bool" where
  "done_in ts d \<longleftrightarrow> (\<exists>u. task_get ts d = Some u \<and> status u = Done)"

definition active :: "task_state \<Rightarrow> bool" where
  "active t \<longleftrightarrow> status t = InProgress \<or> status t = Done"

definition deps_first :: "task_id graph \<Rightarrow> task_state list \<Rightarrow> bool" where
  "deps_first g ts \<longleftrightarrow> (\<forall>t \<in> set ts. active t \<longrightarrow> (\<forall>d. (tid t, d) \<in> edges g \<longrightarrow> done_in ts d))"

definition within_cap :: "int option \<Rightarrow> task_state list \<Rightarrow> bool" where
  "within_cap cap ts \<longleftrightarrow> (nullish cap 0 > 0 \<longrightarrow> int (in_progress_count ts) \<le> nullish cap 0)"

definition wf_inv :: "task_list \<Rightarrow> bool" where
  "wf_inv w \<longleftrightarrow>
     wf_valid (graph w) (map taskDef (tasks w)) \<and> deps_first (graph w) (tasks w)
     \<and> within_cap (concurrency w) (tasks w)"

lemma done_in_evolves: "evolves ts ts' \<Longrightarrow> done_in ts d \<Longrightarrow> done_in ts' d"
  unfolding done_in_def
  by (metis evolves_lookup isTerminal_def status_le_terminal task_step_def)

lemma deps_first_settles:
  assumes "settles ts ts'" and "deps_first g ts"
  shows "deps_first g ts'"
  unfolding deps_first_def
proof (intro ballI impI allI)
  fix t' d assume t': "t' \<in> set ts'" "active t'" and d: "(tid t', d) \<in> edges g"
  from assms(1) t'(1) obtain t where t: "t \<in> set ts" "quiet_step t t'"
    by (metis in_set_conv_nth list_all2_conv_all_nth)
  with t'(2) have "active t" "tid t = tid t'" by (auto simp: quiet_step_def active_def task_step_def)
  with assms(2) t(1) d have "done_in ts d" by (simp add: deps_first_def)
  with settles_evolves [OF assms(1)] show "done_in ts' d" by (rule done_in_evolves)
qed

lemma deps_first_start:
  assumes "deps_first g ts" and "started cfg (ts ! i) t'" and "status (ts ! i) = Pending"
    and "\<forall>d. (tid (ts ! i), d) \<in> edges g \<longrightarrow> done_in ts d"
  shows "deps_first g (ts[i := t'])"
proof -
  have "task_step (ts ! i) t'" using assms(2,3) by (rule started_step)
  then have keep: "done_in ts d \<Longrightarrow> done_in (ts[i := t']) d" for d
    by (rule done_in_evolves [OF evolves_update])
  show ?thesis
    unfolding deps_first_def
  proof (intro ballI impI allI)
    fix t d assume t: "t \<in> set (ts[i := t'])" "active t" and d: "(tid t, d) \<in> edges g"
    consider "t = t'" | "t \<in> set ts" using t(1) set_update_subset_insert [of ts i t'] by blast
    then show "done_in (ts[i := t']) d"
      using assms(1,2,4) t(2) d keep by cases (auto simp: deps_first_def started_def)
  qed
qed

lemma count_settles: "settles ts ts' \<Longrightarrow> in_progress_count ts' \<le> in_progress_count ts"
  by (induction rule: list_all2_induct) (auto simp: in_progress_count_def quiet_step_def)

lemma count_update:
  "in_progress_count (ts[i := t']) \<le> Suc (in_progress_count ts)"
proof (induction ts arbitrary: i)
  case (Cons t ts)
  then show ?case
    by (cases i) (auto simp: in_progress_count_def le_SucI intro: le_SucI)
qed (simp add: in_progress_count_def)

lemma within_cap_settles: "settles ts ts' \<Longrightarrow> within_cap cap ts \<Longrightarrow> within_cap cap ts'"
  using count_settles [of ts ts'] by (auto simp: within_cap_def)

lemma within_cap_start: "\<not> at_cap cap ts \<Longrightarrow> within_cap cap (ts[i := t'])"
  using count_update [of ts i t'] by (auto simp: within_cap_def at_cap_def)

text \<open>The two parts of the invariant that depend on statuses, over one run.\<close>

definition run_inv :: "task_list \<Rightarrow> run \<Rightarrow> bool" where
  "run_inv w r \<longleftrightarrow> deps_first (graph w) (r_tasks r) \<and> within_cap (concurrency w) (r_tasks r)"

lemma run_inv_settles: "settles (r_tasks r) (r_tasks r') \<Longrightarrow> run_inv w r \<Longrightarrow> run_inv w r'"
  by (simp add: run_inv_def deps_first_settles within_cap_settles)

lemma all_deps_done_iff: "all_deps_done r deps \<longleftrightarrow> (\<forall>d \<in> set deps. done_in (r_tasks r) d)"
  by (auto simp: all_deps_done_def list_all_iff lookup_def done_in_def split: option.splits)

lemma run_inv_dispatch:
  assumes "run_inv w r" and "status (r_tasks r ! i) = Pending" and "\<not> at_cap (concurrency w) (r_tasks r)"
    and "map_get (graph w) (tid (r_tasks r ! i)) = Some deps" and "all_deps_done r deps"
    and "dispatched cfg i r r'"
  shows "run_inv w r'"
proof -
  from assms(6) obtain t' where t: "started cfg (r_tasks r ! i) t'"
    "settles ((r_tasks r)[i := t']) (r_tasks r')" by (auto simp: dispatched_def)
  have "\<forall>d. (tid (r_tasks r ! i), d) \<in> edges (graph w) \<longrightarrow> done_in (r_tasks r) d"
    using assms(4,5) by (simp add: edges_iff deps_of_def all_deps_done_iff)
  with assms(1,2,3) t(1) have "deps_first (graph w) ((r_tasks r)[i := t'])"
    "within_cap (concurrency w) ((r_tasks r)[i := t'])"
    by (auto simp: run_inv_def intro: deps_first_start within_cap_start)
  with t(2) show ?thesis by (simp add: run_inv_def deps_first_settles within_cap_settles)
qed

lemma run_inv_spawn: "run_inv w r \<Longrightarrow> run_inv w (fst (spawnReadyTasks cfg o' w now r))"
  unfolding spawnReadyTasks_def
  by (rule spawn_loop_induct [where P = "run_inv w"])
    (auto intro: run_inv_dispatch dispatched_task)

subsection \<open>One tick\<close>

text \<open>The tasks after a tick of an active orchestrator.\<close>

definition tick_tasks :: "config \<Rightarrow> int \<Rightarrow> orch_options \<Rightarrow> task_list \<Rightarrow> orch \<Rightarrow> task_state list" where
  "tick_tasks cfg now o' w s =
     (let (r, e) = tick_spawn cfg o' w now (fst (tick_settle cfg o' w now (run_of w s)))
      in r_tasks (if e = None then tick_templates r else r))"

lemma checkCompletion_frame [frame_simps]:
  "workflow (fst (checkCompletion cfg w s)) = workflow s"
  "opts (fst (checkCompletion cfg w s)) = opts s"
  "paused (fst (checkCompletion cfg w s)) = paused s"
  "templateApplied (fst (checkCompletion cfg w s)) = templateApplied s"
  by (simp_all add: checkCompletion_def stopPolling_def Let_def split: option.split)

lemma put_run_simps [simp]:
  "workflow (put_run w r s) = Some (w\<lparr>tasks := r_tasks r\<rparr>)" "opts (put_run w r s) = opts s"
  "completed (put_run w r s) = completed s" "paused (put_run w r s) = r_paused r"
  "trace (put_run w r s) = r_trace r" "templateApplied (put_run w r s) = r_applied r"
  by (simp_all add: put_run_def)

lemma run_of_simps [simp]:
  "r_tasks (run_of w s) = tasks w" "r_paused (run_of w s) = paused s" "r_trace (run_of w s) = trace s"
  by (simp_all add: run_of_def)

lemma tick_workflow:
  assumes "workflow s = Some w" "opts s = Some o'" "\<not> completed s"
  shows "workflow (fst (tick cfg now s)) = Some (w\<lparr>tasks := tick_tasks cfg now o' w s\<rparr>)"
    and "opts (fst (tick cfg now s)) = Some o'"
  using assms
  by (auto simp: tick_def tick_tasks_def Let_def frame_simps tick_notify_def save_run_def
      split: prod.split option.split)

lemma tick_inactive:
  "workflow s = None \<or> opts s = None \<or> completed s \<Longrightarrow> tick cfg now s = (s, None)"
  by (auto simp: tick_def split: option.split)

lemma evolves_tick_tasks: "evolves (tasks w) (tick_tasks cfg now o' w s)"
proof -
  let ?r = "run_of w s"
  let ?r1 = "fst (tick_settle cfg o' w now ?r)"
  let ?r2 = "fst (tick_spawn cfg o' w now ?r1)"
  have "evolves (tasks w) (r_tasks ?r2)"
    using evolves_trans [OF settles_evolves [OF settles_tick_settle [of ?r cfg o' w now]] evolves_tick_spawn]
    by simp
  with evolves_trans [OF this settles_evolves [OF settles_tick_templates]] show ?thesis
    by (auto simp: tick_tasks_def Let_def split: prod.split)
qed

lemma run_inv_tick_spawn: "run_inv w r \<Longrightarrow> run_inv w (fst (tick_spawn cfg o' w now r))"
  by (simp add: tick_spawn_def run_inv_spawn)

lemma wf_inv_tasks:
  assumes "wf_inv w" and "evolves (tasks w) ts" and "deps_first (graph w) ts" "within_cap (concurrency w) ts"
  shows "wf_inv (w\<lparr>tasks := ts\<rparr>)"
  using assms evolves_defs [OF assms(2)] by (simp add: wf_inv_def)

lemma wf_inv_tick_tasks:
  assumes "wf_inv w"
  shows "wf_inv (w\<lparr>tasks := tick_tasks cfg now o' w s\<rparr>)"
proof (rule wf_inv_tasks [OF assms evolves_tick_tasks])
  let ?r1 = "fst (tick_settle cfg o' w now (run_of w s))"
  let ?r2 = "fst (tick_spawn cfg o' w now ?r1)"
  have "run_inv w (run_of w s)" using assms by (simp add: wf_inv_def run_inv_def)
  then have "run_inv w ?r2"
    by (intro run_inv_tick_spawn run_inv_settles [OF settles_tick_settle])
  with run_inv_settles [OF settles_tick_templates this]
  show "deps_first (graph w) (tick_tasks cfg now o' w s)"
    "within_cap (concurrency w) (tick_tasks cfg now o' w s)"
    by (auto simp: tick_tasks_def Let_def run_inv_def split: prod.split)
qed

subsection \<open>Start\<close>

lemma duplicate_ids_Nil: "duplicate_ids seen ids = [] \<longleftrightarrow> distinct ids \<and> set ids \<inter> set seen = {}"
  by (induction seen ids rule: duplicate_ids.induct) auto

lemma bad_source_None:
  "bad_source g i srcs = None \<longleftrightarrow>
     (\<forall>src \<in> set srcs. \<forall>r \<in> set (parseTemplateRefs src). (i, ref_taskId r) \<in> (edges g)\<^sup>+)"
  by (induction g i srcs rule: bad_source.induct)
    (auto simp: validateTemplateRefs_None [symmetric] split: option.split)

lemma bad_template_None: "bad_template g tds = None \<longleftrightarrow> templates_ok g tds"
  by (induction g tds rule: bad_template.induct)
    (auto simp: templates_ok_def bad_source_None [symmetric] split: option.split)

lemma start_checks_ok:
  "start_checks tds dsl o' = Some (Inr g) \<longleftrightarrow>
     o_currentDepth o' < o_maxDepth o' \<and> parseGraph dsl = Some (Inr g) \<and> wf_valid g tds"
proof -
  have v: "(\<exists>e. validateGraph g ids = Inr e) \<longleftrightarrow> set ids = keys_of g \<and> acyclic (edges g)"
    if "graph_ok g" for ids
  proof -
    from that have "\<forall>e \<in> set g. set (snd e) \<subseteq> keys_of g" by (fastforce simp: graph_ok_def)
    with validateGraph_valid [of g ids] show ?thesis by simp
  qed
  have "start_checks tds dsl o' = Some (Inr g) \<longleftrightarrow>
      o_currentDepth o' < o_maxDepth o' \<and> distinct (map td_id tds) \<and> parseGraph dsl = Some (Inr g)
      \<and> (\<exists>e. validateGraph g (map td_id tds) = Inr e) \<and> templates_ok g tds"
    by (auto simp: start_checks_def canSpawn_def duplicate_ids_Nil bad_template_None [symmetric]
        split: option.split sum.split)
  then show ?thesis
    using v [of "map td_id tds"] parseGraph_graph_ok [of dsl g] by (auto simp: wf_valid_def)
qed

lemma wf_inv_new:
  assumes "wf_valid g tds"
  shows "wf_inv (new_workflow now uuid tds g o')"
proof -
  have "taskDef \<circ> pending_task = id" by (auto simp: pending_task_def)
  then have "map taskDef (map pending_task tds) = tds" by simp
  moreover have "deps_first g (map pending_task tds)"
    by (auto simp: deps_first_def active_def pending_task_def)
  moreover have "in_progress_count (map pending_task tds) = 0"
    by (auto simp: in_progress_count_def pending_task_def)
  ultimately show ?thesis using assms by (simp add: wf_inv_def new_workflow_def within_cap_def)
qed

lemma start_run_workflow:
  assumes "wf_inv w"
  shows "\<exists>ts. workflow (snd (start_run cfg now w o' s)) = Some (w\<lparr>tasks := ts\<rparr>) \<and> wf_inv (w\<lparr>tasks := ts\<rparr>)"
proof -
  let ?s0 = "s\<lparr>workflow := Some w, opts := Some o', completed := False, paused := False, templateApplied := []\<rparr>"
  let ?r = "save_run w (run_of w ?s0)"
  let ?r1 = "fst (spawnReadyTasks cfg o' w now ?r)"
  have r: "r_tasks ?r = tasks w" by (simp add: save_run_def)
  have "run_inv w ?r" using assms by (simp add: run_inv_def wf_inv_def r)
  then have "run_inv w ?r1" by (rule run_inv_spawn)
  with wf_inv_tasks [OF assms, of "r_tasks ?r1"] evolves_spawn [of ?r cfg o' w now] r
  have i: "wf_inv (w\<lparr>tasks := r_tasks ?r1\<rparr>)" by (simp add: run_inv_def)
  have "workflow (snd (start_run cfg now w o' s)) =
      (if save_rejects cfg = None then Some (w\<lparr>tasks := r_tasks ?r1\<rparr>) else Some (w\<lparr>tasks := tasks w\<rparr>))"
    by (simp add: start_run_def Let_def save_run_def split: option.split prod.split)
  with i assms show ?thesis
    by (cases "save_rejects cfg = None") (auto intro: exI [of _ "tasks w"])
qed

section \<open>Only ready tasks are started\<close>

text \<open>
  Between the two task lists, every task that became active has its dependencies done. Nothing
  is asked of the first list: it may come from a run, from the state file of an earlier process
  or from an operation of the control plane.
\<close>

definition launched_ready :: "task_id graph \<Rightarrow> task_state list \<Rightarrow> task_state list \<Rightarrow> bool" where
  "launched_ready g ts ts' \<longleftrightarrow> evolves ts ts' \<and>
     (\<forall>i < length ts. \<not> active (ts ! i) \<longrightarrow> active (ts' ! i) \<longrightarrow>
        (\<forall>d. (tid (ts ! i), d) \<in> edges g \<longrightarrow> done_in ts' d))"

lemma launched_ready_refl [simp]: "launched_ready g ts ts"
  by (simp add: launched_ready_def)

lemma launched_ready_settles:
  assumes "launched_ready g ts ts'" and "settles ts' ts''"
  shows "launched_ready g ts ts''"
proof -
  have "length ts' = length ts" using assms(1) by (auto simp: launched_ready_def dest: list_all2_lengthD)
  with assms(2) have "active (ts'' ! i) \<Longrightarrow> active (ts' ! i)" if "i < length ts" for i
    using that by (auto simp: list_all2_conv_all_nth quiet_step_def active_def)
  with assms show ?thesis
    unfolding launched_ready_def
    by (meson done_in_evolves evolves_trans settles_evolves)
qed

lemma launched_ready_start:
  assumes "launched_ready g ts ts'" and "started cfg (ts' ! i) t'" and "status (ts' ! i) = Pending"
    and "\<forall>d. (tid (ts' ! i), d) \<in> edges g \<longrightarrow> done_in ts' d"
  shows "launched_ready g ts (ts'[i := t'])"
proof -
  have e: "evolves ts' (ts'[i := t'])" using started_step [OF assms(2,3)] by (rule evolves_update)
  have same: "tid (ts' ! j) = tid (ts ! j)" if "j < length ts" for j
    using assms(1) that by (auto simp: launched_ready_def list_all2_conv_all_nth task_step_def)
  have "done_in (ts'[i := t']) d"
    if "j < length ts" "\<not> active (ts ! j)" "active (ts'[i := t'] ! j)" "(tid (ts ! j), d) \<in> edges g" for j d
  proof (cases "j = i")
    case True
    with that assms(4) same have "done_in ts' d" by simp
    with e show ?thesis by (rule done_in_evolves)
  next
    case False
    with that assms(1) have "done_in ts' d" by (simp add: launched_ready_def)
    with e show ?thesis by (rule done_in_evolves)
  qed
  moreover have "evolves ts (ts'[i := t'])"
    using assms(1) e unfolding launched_ready_def by (blast intro: evolves_trans)
  ultimately show ?thesis by (simp add: launched_ready_def)
qed

lemma launched_ready_dispatch:
  assumes "launched_ready g ts (r_tasks r)" and "status (r_tasks r ! i) = Pending"
    and "map_get g (tid (r_tasks r ! i)) = Some deps" and "all_deps_done r deps" and "dispatched cfg i r r'"
  shows "launched_ready g ts (r_tasks r')"
proof -
  from assms(5) obtain t' where t: "started cfg (r_tasks r ! i) t'"
    "settles ((r_tasks r)[i := t']) (r_tasks r')" by (auto simp: dispatched_def)
  have "\<forall>d. (tid (r_tasks r ! i), d) \<in> edges g \<longrightarrow> done_in (r_tasks r) d"
    using assms(3,4) by (simp add: edges_iff deps_of_def all_deps_done_iff)
  with assms(1,2) t show ?thesis by (blast intro: launched_ready_settles launched_ready_start)
qed

lemma launched_ready_spawn:
  "launched_ready (graph w) ts (r_tasks r) \<Longrightarrow>
     launched_ready (graph w) ts (r_tasks (fst (spawnReadyTasks cfg o' w now r)))"
  unfolding spawnReadyTasks_def
  by (rule spawn_loop_induct [where P = "\<lambda>r. launched_ready (graph w) ts (r_tasks r)"])
    (auto intro: launched_ready_dispatch dispatched_task)

lemma launched_ready_tick: "launched_ready (graph w) (tasks w) (tick_tasks cfg now o' w s)"
proof -
  let ?r1 = "fst (tick_settle cfg o' w now (run_of w s))"
  have "launched_ready (graph w) (tasks w) (r_tasks ?r1)"
    using launched_ready_settles [OF launched_ready_refl settles_tick_settle [of "run_of w s" cfg o' w now]] by simp
  then have "launched_ready (graph w) (tasks w) (r_tasks (fst (tick_spawn cfg o' w now ?r1)))"
    by (simp add: tick_spawn_def launched_ready_spawn)
  with launched_ready_settles [OF this settles_tick_templates] show ?thesis
    by (auto simp: tick_tasks_def Let_def split: prod.split)
qed

section \<open>Reachable states\<close>

text \<open>
  The states of an orchestrator that was created and driven by the operations of the class:
  every sequence of starts, ticks and timers, with any behaviour of the adapters. Two ways into
  another state are left out, because the invariant below does not hold after them:
  \<open>restore\<close> of a task list read from disk, which is taken as it is, and the control plane's
  \<open>retry\<close>, which without its cascade puts one task back to pending under dependents that
  are already done. The properties over \<open>reach\<close> say so.
\<close>

inductive reach :: "orch \<Rightarrow> bool" where
  fresh: "reach new_orchestrator"
| started_wf: "reach s \<Longrightarrow> start cfg now uuid tds dsl o' s = Some (res, s') \<Longrightarrow> reach s'"
| ticked: "reach s \<Longrightarrow> reach (fst (tick cfg now s))"
| poll_timer: "reach s \<Longrightarrow> reach (polling_fires cfg now s)"
| status_timer: "reach s \<Longrightarrow> reach (status_fires cfg s)"
| polling_on: "reach s \<Longrightarrow> reach (startPolling cfg s)"
| polling_off: "reach s \<Longrightarrow> reach (stopPolling s)"
| set_paused: "reach s \<Longrightarrow> reach (setPaused b s)"
| set_completed: "reach s \<Longrightarrow> reach (setCompleted b s)"

definition orch_inv :: "orch \<Rightarrow> bool" where
  "orch_inv s \<longleftrightarrow> (\<forall>w. workflow s = Some w \<longrightarrow> wf_inv w)"

lemma orch_inv_tick: "orch_inv s \<Longrightarrow> orch_inv (fst (tick cfg now s))"
proof -
  assume inv: "orch_inv s"
  show ?thesis
  proof (cases "workflow s = None \<or> opts s = None \<or> completed s")
    case True
    with inv show ?thesis by (simp add: tick_inactive)
  next
    case False
    then obtain w o' where "workflow s = Some w" "opts s = Some o'" "\<not> completed s" by auto
    with inv tick_workflow(1) [of s w o'] wf_inv_tick_tasks show ?thesis by (simp add: orch_inv_def)
  qed
qed

lemma orch_inv_start:
  assumes "orch_inv s" and "start cfg now uuid tds dsl o' s = Some (res, s')"
  shows "orch_inv s'"
proof (cases "start_checks tds dsl o'")
  case None
  with assms(2) show ?thesis by (simp add: start_def)
next
  case (Some c)
  show ?thesis
  proof (cases c)
    case (Inl e)
    with Some assms show ?thesis by (simp add: start_def)
  next
    case (Inr g)
    with Some have "wf_valid g tds" using start_checks_ok [of tds dsl o' g] by simp
    from start_run_workflow [OF wf_inv_new [OF this], of cfg now now uuid o' o' s]
    have "orch_inv (snd (start_run cfg now (new_workflow now uuid tds g o') o' s))"
      by (auto simp: orch_inv_def)
    with Some Inr assms(2) show ?thesis by (auto simp: start_def)
  qed
qed

lemma reach_inv: "reach s \<Longrightarrow> orch_inv s"
proof (induction rule: reach.induct)
  case fresh
  then show ?case by (simp add: orch_inv_def new_orchestrator_def)
next
  case (started_wf s cfg now uuid tds dsl o' res s')
  then show ?case by (blast intro: orch_inv_start)
next
  case (ticked s cfg now)
  then show ?case by (simp add: orch_inv_tick)
next
  case (poll_timer s cfg now)
  then show ?case by (simp add: polling_fires_def orch_inv_tick)
next
  case (status_timer s cfg)
  then show ?case by (auto simp: status_fires_def orch_inv_def split: option.split)
qed (simp_all add: orch_inv_def startPolling_def startStatusTimer_def stopPolling_def setPaused_def
    setCompleted_def)

lemma deps_first_trancl:
  assumes "deps_first g ts" and "t \<in> set ts" "active t" and "(tid t, d) \<in> (edges g)\<^sup>+"
  shows "done_in ts d"
  using assms(4)
proof (induction rule: trancl_induct)
  case (base y)
  with assms show ?case by (simp add: deps_first_def)
next
  case (step y z)
  from step.IH obtain u where "u \<in> set ts" "tid u = y" "status u = Done"
    using task_get_Some by (auto simp: done_in_def)
  with assms(1) step.hyps(2) show ?case by (auto simp: deps_first_def active_def)
qed

section \<open>Properties\<close>

text \<open>
  C1. Dependencies first: a tick starts a task only when its dependencies are done. Take any
  state of an orchestrator with a workflow, however it came about (a run, \<open>restore\<close> of a
  state file, a \<open>retry\<close> of the control plane that left dependents of a pending task done)
  and any behaviour of its adapters: every task that is in progress or done after the tick and
  was neither before it has each of its direct dependencies done after the tick.
\<close>

theorem dependencies_first:
  assumes "workflow s = Some w" and "workflow (fst (tick cfg now s)) = Some w'" and "i < length (tasks w)"
    and "status (tasks w ! i) \<notin> {InProgress, Done}" and "status (tasks w' ! i) \<in> {InProgress, Done}"
    and "(tid (tasks w ! i), d) \<in> edges (graph w)"
  shows "\<exists>u \<in> set (tasks w'). tid u = d \<and> status u = Done"
proof (cases "opts s = None \<or> completed s")
  case True
  with assms show ?thesis by (auto simp: tick_inactive)
next
  case False
  then obtain o' where o: "opts s = Some o'" "\<not> completed s" by auto
  have "launched_ready (graph w) (tasks w) (tasks w')"
    using launched_ready_tick [of w cfg now o' s] tick_workflow(1) [OF assms(1) o, of cfg now] assms(2) by auto
  with assms(3-6) have "done_in (tasks w') d" by (auto simp: launched_ready_def active_def)
  then show ?thesis using task_get_Some by (auto simp: done_in_def)
qed

text \<open>
  In a run of the class from its creation, each transitive dependency of a task that is in
  progress or done is done.
\<close>

theorem run_dependencies_done:
  assumes "reach s" and "workflow s = Some w" and "t \<in> set (tasks w)"
    and "status t = InProgress \<or> status t = Done" and "(tid t, d) \<in> (edges (graph w))\<^sup>+"
  shows "\<exists>u \<in> set (tasks w). tid u = d \<and> status u = Done"
proof -
  have "deps_first (graph w) (tasks w)" using reach_inv [OF assms(1)] assms(2)
    by (simp add: orch_inv_def wf_inv_def)
  with assms(3,4,5) have "done_in (tasks w) d" by (auto simp: active_def intro: deps_first_trancl)
  then show ?thesis using task_get_Some by (auto simp: done_in_def)
qed

text \<open>
  C2. Concurrency cap: in every state an orchestrator reaches from its creation by starts, ticks and
  timers (not after a \<open>restore\<close> or a \<open>retry\<close> of the control plane), with any behaviour
  of its adapters, a workflow with a positive \<open>concurrency\<close> has at most that many tasks in
  progress.
\<close>

theorem concurrency_cap:
  assumes "reach s" and "workflow s = Some w" and "concurrency w = Some n" "n > 0"
  shows "int (in_progress_count (tasks w)) \<le> n"
  using reach_inv [OF assms(1)] assms(2-4) by (simp add: orch_inv_def wf_inv_def within_cap_def)

text \<open>
  C3. A tick changes each task only by a transition that \<open>isValidTransition\<close> of
  \<open>hardening.ts\<close> allows, and changes no definition and no other part of the workflow; in
  particular a done, failed or skipped task keeps its status.
\<close>

theorem tick_transitions:
  assumes "workflow s = Some w"
  shows "\<exists>ts'. workflow (fst (tick cfg now s)) = Some (w\<lparr>tasks := ts'\<rparr>)
    \<and> list_all2 (\<lambda>t t'. taskDef t' = taskDef t
        \<and> (status t' = status t \<or> isValidTransition (status t) (status t'))) (tasks w) ts'"
proof (cases "opts s = None \<or> completed s")
  case True
  with assms show ?thesis
    by (intro exI [of _ "tasks w"]) (auto simp: tick_inactive list_all2_same)
next
  case False
  then obtain o' where o: "opts s = Some o'" "\<not> completed s" by auto
  have "list_all2 (\<lambda>t t'. taskDef t' = taskDef t
      \<and> (status t' = status t \<or> isValidTransition (status t) (status t'))) (tasks w) (tick_tasks cfg now o' w s)"
    using evolves_tick_tasks [of w cfg now o' s]
    by (rule list_all2_mono) (auto simp: task_step_def status_le_def)
  with tick_workflow(1) [OF assms o] show ?thesis by blast
qed

text \<open>
  \<open>start\<close> accepts a workflow exactly when the depth allows it, the graph parses, the
  ids are unique and are the nodes of an acyclic graph, and every template reference of a task
  names a transitive dependency of that task.
\<close>

theorem start_accepts:
  "start_checks tds dsl o' = Some (Inr g) \<longleftrightarrow>
     o_currentDepth o' < o_maxDepth o' \<and> parseGraph dsl = Some (Inr g)
     \<and> distinct (map td_id tds) \<and> graph_ok g \<and> keys_of g = td_id ` set tds \<and> acyclic (edges g)
     \<and> (\<forall>td \<in> set tds. \<forall>src \<in> set (getTemplateSources td). \<forall>r \<in> set (parseTemplateRefs src).
          (td_id td, ref_taskId r) \<in> (edges g)\<^sup>+)"
  unfolding start_checks_ok wf_valid_def templates_ok_def by simp

end
