(* ===== verification/Orchestrator_Progress.thy ===== *)
theory Orchestrator_Progress
  imports Orchestrator_Safety
begin

text \<open>
  What a tick achieves: doomed tasks are marked, limits are enforced, templates are resolved
  against finished tasks, a workflow that is not waiting for anything moves on, and a workflow
  whose polls settle completes within a bounded number of ticks. Completion is announced once
  and the saved state is the state in memory.
\<close>

section \<open>The task map of a list with unique ids\<close>

lemma taskMap_append: "taskMap (ts @ [t]) = map_set (tid t) t (taskMap ts)"
  by (simp add: taskMap_def)

lemma map_set_fresh: "k \<notin> keys_of m \<Longrightarrow> map_set k v m = m @ [(k, v)]"
  by (simp add: map_set_def keys_of_def AList.update_nonempty) (induction m; auto)

lemma keys_taskMap [simp]: "keys_of (taskMap ts) = tid ` set ts"
  by (induction ts rule: rev_induct) (simp_all add: taskMap_append, simp add: taskMap_def keys_of_def)

lemma taskMap_distinct: "ids_ok ts \<Longrightarrow> taskMap ts = map (\<lambda>t. (tid t, t)) ts"
proof (induction ts rule: rev_induct)
  case Nil
  then show ?case by (simp add: taskMap_def)
next
  case (snoc t ts)
  from snoc.prems have "tid t \<notin> keys_of (taskMap ts)" by simp
  from map_set_fresh [OF this, of t] snoc show ?case by (simp add: taskMap_append)
qed

lemma ids_with_taskMap:
  "ids_ok ts \<Longrightarrow> set (ids_with st (taskMap ts)) = {tid t |t. t \<in> set ts \<and> status t = st}"
  by (auto simp: ids_with_def taskMap_distinct image_iff)

lemma is_pending_taskMap:
  "ids_ok ts \<Longrightarrow> is_pending (taskMap ts) i \<longleftrightarrow> (\<exists>t \<in> set ts. tid t = i \<and> status t = Pending)"
proof -
  assume ok: "ids_ok ts"
  have "is_pending (taskMap ts) i \<longleftrightarrow> (\<exists>t. task_get ts i = Some t \<and> status t = Pending)"
    by (simp add: is_pending_def task_get_def split: option.split)
  with task_get_Some_iff [OF ok] show ?thesis by auto
qed

section \<open>Marking blocked tasks\<close>

lemma mark_task_cases:
  "status (fst (mark_task bs now t)) =
     (if status t \<noteq> Pending then status t
      else if tid t \<in> set (snd bs) then Skipped
      else if tid t \<in> set (fst bs) then Failed else Pending)"
  by (simp add: mark_task_def)

lemma mark_task_tid [simp]: "taskDef (fst (mark_task bs now t)) = taskDef t"
  by (simp add: mark_task_def)

lemma markBlocked_not_doomed:
  assumes ids: "ids_ok (r_tasks r)" and g: "graph_ok g" "keys_of g = tid ` set (r_tasks r)"
    and t: "t \<in> set (r_tasks (markBlockedTasks g now r))" "status t = Pending"
    and d: "(tid t, d) \<in> edges g"
  shows "\<exists>u \<in> set (r_tasks (markBlockedTasks g now r)). tid u = d \<and> status u \<noteq> Failed \<and> status u \<noteq> Skipped"
proof -
  let ?ts = "r_tasks r" and ?tm = "taskMap (r_tasks r)"
  let ?bs = "computeBlockedAndSkipped g ?tm"
  let ?mark = "\<lambda>t. fst (mark_task ?bs now t)"
  have ts: "r_tasks (markBlockedTasks g now r) = map ?mark ?ts" by (simp add: markBlockedTasks_def)
  have ok: "map_ok g" using g(1) by (simp add: graph_ok_def)
  have bs: "set (snd ?bs) = skipped_spec g ?tm" "set (fst ?bs) = blocked_spec g ?tm"
    using compute_spec [OF ok, of ?tm] missing_deps_none [OF g(1), of ?tm] g(2) by auto
  from t obtain t0 where t0: "t0 \<in> set ?ts" "t = ?mark t0" unfolding ts by auto
  with t(2) have p: "status t0 = Pending" "tid t0 \<notin> blocked_spec g ?tm" "tid t0 \<notin> skipped_spec g ?tm"
    by (auto simp: mark_task_cases bs split: if_splits)
  have e: "(tid t0, d) \<in> edges g" and pend: "is_pending ?tm (tid t0)"
    using d t0 p(1) ids by (auto simp: is_pending_taskMap)
  from e have "d \<in> keys_of g" using graph_ok_deps_keys [OF g(1)] by (auto simp: edges_iff)
  then obtain u0 where u0: "u0 \<in> set ?ts" "tid u0 = d" using g(2) by auto
  have "\<not> (d \<in> set (ids_with Failed ?tm) \<or> d \<in> blocked_spec g ?tm)"
    using blocked_step [OF e pend] p(2) by blast
  moreover have "\<not> (d \<in> set (ids_with Skipped ?tm) \<or> d \<in> skipped_spec g ?tm)"
    using skipped_step [OF e pend p(2)] p(3) by blast
  ultimately have "status (?mark u0) \<noteq> Failed" "status (?mark u0) \<noteq> Skipped"
    using u0 ids by (auto simp: mark_task_cases bs ids_with_taskMap)
  with u0 show ?thesis unfolding ts by (intro bexI [of _ "?mark u0"]) auto
qed

text \<open>
  After \<open>markBlockedTasks\<close> no pending task waits for a task that failed or was
  skipped: each of its dependencies is a task of the workflow that is pending, paused, in
  progress or done.
\<close>

theorem markBlockedTasks_complete:
  assumes "wf_valid g (map taskDef (r_tasks r))"
    and "t \<in> set (r_tasks (markBlockedTasks g now r))" "status t = Pending" and "(tid t, d) \<in> edges g"
  shows "\<exists>u \<in> set (r_tasks (markBlockedTasks g now r)). tid u = d \<and> status u \<noteq> Failed \<and> status u \<noteq> Skipped"
  using assms by (intro markBlocked_not_doomed) (auto simp: wf_valid_def comp_def)

section \<open>Templates of a ready task\<close>

definition finished_seg :: "(task_id \<Rightarrow> task_state option) \<Rightarrow> tpl_seg \<Rightarrow> string" where
  "finished_seg get seg =
     (case seg of
        Lit c \<Rightarrow> [c]
      | Ref ds RefOutput \<Rightarrow> nullish (task_output (the (get (js_Number ds)))) []
      | Ref ds RefSuccess \<Rightarrow> ''true'')"

lemma ready_refs_done:
  assumes inv: "wf_inv w" and t: "t \<in> set (tasks w)" "all_deps_done r (deps_of (graph w) (tid t))"
    "r_tasks r = tasks w"
    and src: "src \<in> set (getTemplateSources (taskDef t))" "ref \<in> set (parseTemplateRefs src)"
  shows "done_in (tasks w) (ref_taskId ref)"
proof -
  have "(tid t, ref_taskId ref) \<in> (edges (graph w))\<^sup>+"
    using inv t(1) src by (auto simp: wf_inv_def wf_valid_def templates_ok_def)
  then obtain y where y: "(tid t, y) \<in> edges (graph w)"
    "y = ref_taskId ref \<or> (y, ref_taskId ref) \<in> (edges (graph w))\<^sup>+"
    by (meson rtranclD tranclD)
  with t(2,3) have "done_in (tasks w) y" by (auto simp: all_deps_done_iff edges_iff)
  then obtain u where "u \<in> set (tasks w)" "tid u = y" "status u = Done"
    using task_get_Some by (auto simp: done_in_def)
  with y(2) inv \<open>done_in (tasks w) y\<close> show ?thesis
    by (auto simp: wf_inv_def active_def intro: deps_first_trancl)
qed

text \<open>
  When the dependencies of a task are done, the template references in its prompt,
  template or message are all resolved, against done tasks only: \<open>output\<close> gives the output
  of the referenced task, \<open>success\<close> gives true, and no placeholder is left in place.
\<close>

theorem ready_templates_resolved:
  assumes "reach s" and "workflow s = Some w" and "t \<in> set (tasks w)"
    and "all_deps_done (run_of w s) (deps_of (graph w) (tid t))"
    and "src \<in> set (getTemplateSources (taskDef t))"
  shows "resolveTemplates src (task_get (tasks w)) =
    concat (map (finished_seg (task_get (tasks w))) (tpl_scan src))"
proof -
  have inv: "wf_inv w" using reach_inv [OF assms(1)] assms(2) by (simp add: orch_inv_def)
  have "resolve_seg (task_get (tasks w)) seg = finished_seg (task_get (tasks w)) seg"
    if "seg \<in> set (tpl_scan src)" for seg
  proof (cases seg)
    case (Ref ds k)
    with seg_ref_mem [of ds k src] that
    have "done_in (tasks w) (js_Number ds)"
      using ready_refs_done [OF inv assms(3,4) _ assms(5), of "\<lparr> ref_kind = k, ref_taskId = js_Number ds \<rparr>"]
      by simp
    with Ref show ?thesis by (cases k) (auto simp: resolve_seg_def finished_seg_def done_in_def)
  qed (simp add: resolve_seg_def finished_seg_def)
  then have "map (resolve_seg (task_get (tasks w))) (tpl_scan src) =
      map (finished_seg (task_get (tasks w))) (tpl_scan src)" by simp
  then show ?thesis unfolding resolveTemplates_def by (rule arg_cong)
qed

section \<open>Runtime limits\<close>

text \<open>
  After \<open>enforceRuntimeLimits\<close> every task that is still in progress with a session and
  a start time is within its limit, and every task over its limit has failed.
\<close>

theorem enforceRuntimeLimits_bounds:
  assumes "t \<in> set (r_tasks r)" and "status t = InProgress" and "sessionKey t = Some key" "key \<noteq> []"
    and "startedAt t = Some t0" "t0 \<noteq> 0"
  shows "\<exists>t' \<in> set (r_tasks (enforceRuntimeLimits cfg o' now r)). taskDef t' = taskDef t
    \<and> (if now - t0 > nullish (td_runtimeLimitMs (taskDef t)) (o_runtimeLimitMs o')
       then status t' = Failed \<and> completedAt t' = Some now else t' = t)"
proof (rule bexI [of _ "fst (limit_task cfg o' now t)"])
  show "fst (limit_task cfg o' now t) \<in> set (r_tasks (enforceRuntimeLimits cfg o' now r))"
    using assms(1) by (simp add: enforceRuntimeLimits_def)
qed (use assms(2-) in \<open>simp add: limit_task_def truthy_str_def truthy_num_def Let_def\<close>)

section \<open>Progress\<close>

definition pending_count :: "task_state list \<Rightarrow> nat" where
  "pending_count ts = length (filter (\<lambda>t. status t = Pending) ts)"

text \<open>What is left to do: starting a task, then waiting for it.\<close>

definition work :: "task_state list \<Rightarrow> nat" where
  "work ts = 2 * pending_count ts + in_progress_count ts"

lemma pending_evolves: "evolves ts ts' \<Longrightarrow> pending_count ts' \<le> pending_count ts"
  by (induction rule: list_all2_induct) (auto simp: pending_count_def task_step_def)

lemma work_settles: "settles ts ts' \<Longrightarrow> work ts' \<le> work ts"
  using pending_evolves [OF settles_evolves, of ts ts'] count_settles [of ts ts'] by (simp add: work_def)

lemma pending_update:
  "i < length ts \<Longrightarrow> status (ts ! i) = Pending \<Longrightarrow> status t' \<noteq> Pending \<Longrightarrow>
     Suc (pending_count (ts[i := t'])) = pending_count ts"
proof (induction ts arbitrary: i)
  case (Cons t ts)
  then show ?case by (cases i) (auto simp: pending_count_def)
qed simp

lemma work_dispatch:
  assumes "dispatched cfg i r r'" and "status (r_tasks r ! i) = Pending" and "i < length (r_tasks r)"
  shows "work (r_tasks r') < work (r_tasks r)"
proof -
  from assms(1) obtain t' where t: "started cfg (r_tasks r ! i) t'"
    "settles ((r_tasks r)[i := t']) (r_tasks r')" by (auto simp: dispatched_def)
  have "status t' \<noteq> Pending" using t(1) by (auto simp: started_def)
  from pending_update [OF assms(3,2) this] count_update [of "r_tasks r" i t']
  have "work ((r_tasks r)[i := t']) < work (r_tasks r)" by (simp add: work_def)
  with work_settles [OF t(2)] show ?thesis by simp
qed

lemma length_evolves: "evolves ts ts' \<Longrightarrow> length ts' = length ts"
  by (simp add: list_all2_lengthD)

lemma work_spawn_loop:
  assumes "\<forall>i \<in> set is. i < length (r_tasks r)"
  shows "work (r_tasks (fst (spawn_loop cfg o' wfid g cap now is r))) \<le> work (r_tasks r)"
proof -
  let ?P = "\<lambda>r'. evolves (r_tasks r) (r_tasks r') \<and> work (r_tasks r') \<le> work (r_tasks r)"
  have "?P (fst (spawn_loop cfg o' wfid g cap now is r))"
  proof (rule spawn_loop_induct [where P = ?P], goal_cases)
    case (2 r' i deps)
    note d = dispatched_task [of cfg i r' o' wfid g now]
    have "i < length (r_tasks r')" using 2 assms length_evolves [of "r_tasks r" "r_tasks r'"] by auto
    from work_dispatch [OF d 2(3) this] evolves_dispatched [OF d 2(3)] 2(1) show ?case
      by (auto intro: evolves_trans)
  qed simp
  then show ?thesis by simp
qed

lemma spawn_loop_progress:
  assumes "\<forall>j \<in> set is. j < length (r_tasks r) \<and> tid (r_tasks r ! j) \<in> keys_of g"
    and "i \<in> set is" "status (r_tasks r ! i) = Pending" and "\<not> at_cap cap (r_tasks r)"
    and "all_deps_done r (deps_of g (tid (r_tasks r ! i)))"
  shows "work (r_tasks (fst (spawn_loop cfg o' wfid g cap now is r))) < work (r_tasks r)"
  using assms(1,2)
proof (induction "is")
  case (Cons j js)
  let ?t = "r_tasks r ! j"
  have j: "j < length (r_tasks r)" and "tid ?t \<in> keys_of g" using Cons.prems(1) by auto
  then obtain deps where deps: "map_get g (tid ?t) = Some deps"
    using map_get_None_iff [of g "tid ?t"] by auto
  show ?case
  proof (cases "status ?t = Pending \<and> all_deps_done r deps")
    case False
    with assms(3,5) deps have "i \<noteq> j" by (auto simp: deps_of_def)
    with Cons False assms(4) deps show ?thesis by auto
  next
    case True
    note d = dispatched_task [of cfg j r o' wfid g now]
    let ?r' = "fst (run_task cfg o' wfid g now j r)"
    have "work (r_tasks ?r') < work (r_tasks r)" using d True j by (intro work_dispatch) auto
    moreover have "\<forall>k \<in> set js. k < length (r_tasks ?r')"
      using Cons.prems(1) length_evolves [OF evolves_dispatched [OF d]] True by auto
    note work_spawn_loop [OF this, of cfg o' wfid g cap now]
    ultimately show ?thesis using True deps assms(4)
      by (auto split: prod.split flow.split)
  qed
qed simp

lemma ready_task_exists:
  assumes g: "finite (edges g)" "acyclic (edges g)"
    and p: "\<exists>t \<in> set ts. status t = Pending"
    and d: "\<And>t d. t \<in> set ts \<Longrightarrow> status t = Pending \<Longrightarrow> (tid t, d) \<in> edges g \<Longrightarrow>
      \<exists>u \<in> set ts. tid u = d \<and> (status u = Pending \<or> status u = Done)"
  shows "\<exists>t \<in> set ts. status t = Pending \<and> (\<forall>d. (tid t, d) \<in> edges g \<longrightarrow> (\<exists>u \<in> set ts. tid u = d \<and> status u = Done))"
proof -
  let ?Q = "{tid t |t. t \<in> set ts \<and> status t = Pending}"
  have "wf ((edges g)\<inverse>)" using g by (rule finite_acyclic_wf_converse)
  moreover obtain x where "x \<in> ?Q" using p by blast
  ultimately obtain z where z: "z \<in> ?Q" "\<And>y. (y, z) \<in> (edges g)\<inverse> \<Longrightarrow> y \<notin> ?Q" by (rule wfE_min) blast
  then obtain t where t: "t \<in> set ts" "status t = Pending" "z = tid t" by auto
  have "\<exists>u \<in> set ts. tid u = e \<and> status u = Done" if "(tid t, e) \<in> edges g" for e
    using d [OF t(1,2) that] z(2) [of e] that t(3) by blast
  with t show ?thesis by blast
qed

text \<open>No task is paused, and a task in progress has a session: what polling needs.\<close>

definition live_ok :: "task_state list \<Rightarrow> bool" where
  "live_ok ts \<longleftrightarrow> (\<forall>t \<in> set ts. status t \<noteq> Paused \<and> (status t = InProgress \<longrightarrow> truthy_str (sessionKey t)))"

text \<open>Adapters that answer: polls settle, sessions have a key, the state file can be written.\<close>

definition answers :: "config \<Rightarrow> bool" where
  "answers cfg \<longleftrightarrow>
     (\<forall>key result. poll cfg key = Inr result \<longrightarrow> p_status result \<noteq> PRunning)
     \<and> (\<forall>req. spawn cfg req \<noteq> Inr []) \<and> save_rejects cfg = None"

lemma live_settles:
  assumes "settles ts ts'" and "live_ok ts"
  shows "live_ok ts'"
  unfolding live_ok_def
proof
  fix t' assume "t' \<in> set ts'"
  with assms(1) obtain t where "t \<in> set ts" "quiet_step t t'"
    by (metis in_set_conv_nth list_all2_conv_all_nth)
  with assms(2) show "status t' \<noteq> Paused \<and> (status t' = InProgress \<longrightarrow> truthy_str (sessionKey t'))"
    by (auto simp: live_ok_def quiet_step_def task_step_def)
qed

lemma live_dispatched:
  assumes "dispatched cfg i r r'" and "live_ok (r_tasks r)" and "answers cfg"
  shows "live_ok (r_tasks r')"
proof -
  from assms(1) obtain t' where t: "started cfg (r_tasks r ! i) t'"
    "settles ((r_tasks r)[i := t']) (r_tasks r')" by (auto simp: dispatched_def)
  have "status t' \<noteq> Paused \<and> (status t' = InProgress \<longrightarrow> truthy_str (sessionKey t'))"
    using t(1) assms(3) by (auto simp: started_def answers_def truthy_str_def)
  with assms(2) have "live_ok ((r_tasks r)[i := t'])"
    using set_update_subset_insert [of "r_tasks r" i t'] by (auto simp: live_ok_def)
  with t(2) show ?thesis by (rule live_settles)
qed

lemma live_spawn:
  "live_ok (r_tasks r) \<Longrightarrow> answers cfg \<Longrightarrow> live_ok (r_tasks (fst (spawnReadyTasks cfg o' w now r)))"
  unfolding spawnReadyTasks_def
  by (rule spawn_loop_induct [where P = "\<lambda>r. live_ok (r_tasks r)"])
    (auto intro: live_dispatched dispatched_task)

lemma live_tick_tasks:
  assumes "live_ok (tasks w)" "answers cfg"
  shows "live_ok (tick_tasks cfg now o' w s)"
proof -
  let ?r1 = "fst (tick_settle cfg o' w now (run_of w s))"
  let ?r2 = "fst (tick_spawn cfg o' w now ?r1)"
  have "live_ok (r_tasks ?r1)" using live_settles [OF settles_tick_settle [of "run_of w s" cfg o' w now]] assms by simp
  then have "live_ok (r_tasks ?r2)" using live_spawn assms by (simp add: tick_spawn_def)
  with live_settles [OF settles_tick_templates this] show ?thesis
    by (auto simp: tick_tasks_def Let_def split: prod.split)
qed

text \<open>Polls that settle end every task in progress.\<close>

lemma poll_ends:
  assumes "answers cfg" and "status t = InProgress" "truthy_str (sessionKey t)"
  shows "status (fst (poll_task cfg now t)) \<noteq> InProgress"
  using assms by (auto simp: poll_task_def answers_def Let_def split: sum.split poll_status.split)

lemma poll_idle:
  assumes "answers cfg" "live_ok (r_tasks r)"
  shows "in_progress_count (r_tasks (pollInProgress cfg now r)) = 0"
proof -
  have "status (fst (poll_task cfg now t)) \<noteq> InProgress" if "t \<in> set (r_tasks r)" for t
  proof (cases "status t = InProgress")
    case True
    with assms that poll_ends show ?thesis by (auto simp: live_ok_def)
  next
    case False
    with quiet_poll [of t cfg now] show ?thesis by (auto simp: quiet_step_def)
  qed
  then show ?thesis by (simp add: pollInProgress_def in_progress_count_def filter_empty_conv)
qed

lemma tick_settle_shape:
  "\<exists>r2. fst (tick_settle cfg o' w now r) = markBlockedTasks (graph w) now r2
     \<and> settles (r_tasks (pollInProgress cfg now r)) (r_tasks r2)"
proof -
  let ?p = "pollInProgress cfg now r"
  let ?r1 = "enforceRuntimeLimits cfg o' now ?p"
  have "settles (r_tasks ?p) (r_tasks ?r1)"
    unfolding enforceRuntimeLimits_def by (rule each_task_settles) (rule quiet_limit)
  from settles_trans [OF this settles_handleFailures [of ?r1 cfg now]] show ?thesis
    by (intro exI [of _ "fst (handleFailures cfg now ?r1)"])
      (cases "handleFailures cfg now ?r1", simp add: tick_settle_def Let_def)
qed

lemma settle_idle:
  assumes "answers cfg" "live_ok (r_tasks r)"
  shows "in_progress_count (r_tasks (fst (tick_settle cfg o' w now r))) = 0"
    and "in_progress_count (r_tasks r) > 0 \<Longrightarrow> work (r_tasks (fst (tick_settle cfg o' w now r))) < work (r_tasks r)"
proof -
  obtain r2 where r2: "fst (tick_settle cfg o' w now r) = markBlockedTasks (graph w) now r2"
    "settles (r_tasks (pollInProgress cfg now r)) (r_tasks r2)" using tick_settle_shape by blast
  let ?p = "pollInProgress cfg now r" and ?m = "markBlockedTasks (graph w) now r2"
  have s: "settles (r_tasks ?p) (r_tasks ?m)" using settles_trans [OF r2(2) settles_markBlocked] .
  have "settles (r_tasks r) (r_tasks ?p)"
    unfolding pollInProgress_def by (rule each_task_settles) (rule quiet_poll)
  then have p: "pending_count (r_tasks ?p) \<le> pending_count (r_tasks r)"
    by (intro pending_evolves settles_evolves)
  show "in_progress_count (r_tasks (fst (tick_settle cfg o' w now r))) = 0"
    using count_settles [OF s] poll_idle [OF assms, of now] r2(1) by simp
  show "work (r_tasks (fst (tick_settle cfg o' w now r))) < work (r_tasks r)"
    if "in_progress_count (r_tasks r) > 0"
    using that work_settles [OF s] p poll_idle [OF assms, of now] r2(1) by (simp add: work_def)
qed

lemma in_progress_zero: "in_progress_count ts = 0 \<longleftrightarrow> (\<forall>t \<in> set ts. status t \<noteq> InProgress)"
  by (auto simp: in_progress_count_def filter_empty_conv)

lemma spawn_progress:
  assumes v: "wf_valid (graph w) (map taskDef (r_tasks r))" and r: "r = markBlockedTasks (graph w) now r2"
    and idle: "in_progress_count (r_tasks r) = 0" "live_ok (r_tasks r)"
    and p: "\<exists>t \<in> set (r_tasks r). status t = Pending"
  shows "work (r_tasks (fst (spawnReadyTasks cfg o' w now r))) < work (r_tasks r)"
proof -
  let ?g = "graph w" and ?ts = "r_tasks r"
  have "map taskDef (r_tasks r2) = map taskDef ?ts" by (simp add: r markBlockedTasks_def)
  then have v2: "wf_valid ?g (map taskDef (r_tasks r2))" using v by simp
  have ids: "ids_ok ?ts" and keys: "keys_of ?g = tid ` set ?ts" and ac: "acyclic (edges ?g)"
    using v by (auto simp: wf_valid_def comp_def)
  have ids2: "ids_ok (r_tasks r2)" and keys2: "graph_ok ?g" "keys_of ?g = tid ` set (r_tasks r2)"
    using v2 by (auto simp: wf_valid_def comp_def)
  have dep: "\<exists>u \<in> set ?ts. tid u = d \<and> (status u = Pending \<or> status u = Done)"
    if "t \<in> set ?ts" "status t = Pending" "(tid t, d) \<in> edges ?g" for t d
  proof -
    have "\<exists>u \<in> set ?ts. tid u = d \<and> status u \<noteq> Failed \<and> status u \<noteq> Skipped"
      using markBlocked_not_doomed [OF ids2 keys2, of t now d] that r by blast
    then obtain u where u: "u \<in> set ?ts" "tid u = d" "status u \<noteq> Failed" "status u \<noteq> Skipped" by blast
    then show ?thesis using idle by (cases "status u") (auto simp: live_ok_def in_progress_zero)
  qed
  have "\<exists>t \<in> set ?ts. status t = Pending
      \<and> (\<forall>d. (tid t, d) \<in> edges ?g \<longrightarrow> (\<exists>u \<in> set ?ts. tid u = d \<and> status u = Done))"
    by (rule ready_task_exists [OF finite_edges ac p]) (rule dep)
  then obtain t where t: "t \<in> set ?ts" "status t = Pending"
    and d: "\<forall>d. (tid t, d) \<in> edges ?g \<longrightarrow> (\<exists>u \<in> set ?ts. tid u = d \<and> status u = Done)" by blast
  from t obtain i where i: "i < length ?ts" "?ts ! i = t" by (auto simp: in_set_conv_nth)
  have "all_deps_done r (deps_of ?g (tid t))"
    using d ids by (auto simp: all_deps_done_iff edges_iff done_in_def task_get_Some_iff)
  moreover have "\<not> at_cap (concurrency w) ?ts" using idle(1) by (simp add: at_cap_def)
  moreover have "\<forall>j \<in> set [0..<length ?ts]. j < length ?ts \<and> tid (?ts ! j) \<in> keys_of ?g"
    using keys by auto
  ultimately show ?thesis unfolding spawnReadyTasks_def using i t(2)
    by (intro spawn_loop_progress [where i = i]) auto
qed

lemma spawn_nothing:
  "\<forall>i \<in> set is. status (r_tasks r ! i) \<noteq> Pending \<Longrightarrow> spawn_loop cfg o' wfid g cap now is r = (r, None)"
  by (induction "is") auto

lemma paused_templates [simp]: "r_paused (tick_templates r) = r_paused r"
  by (simp add: tick_templates_def split: prod.split)

lemma tick_paused:
  assumes "workflow s = Some w" "opts s = Some o'" "\<not> completed s"
    and "r_paused (fst (tick_settle cfg o' w now (run_of w s)))"
  shows "paused (fst (tick cfg now s))"
proof -
  obtain r1 nt where r1: "tick_settle cfg o' w now (run_of w s) = (r1, nt)" by fastforce
  with assms show ?thesis
    by (auto simp: tick_def tick_spawn_def Let_def frame_simps tick_notify_def save_run_def split: option.split)
qed

lemma checkCompletion_completes:
  assumes "\<not> paused s" "list_all (\<lambda>t. isTerminal (status t)) (tasks w)"
  shows "completed (fst (checkCompletion cfg w s))"
  using assms by (auto simp: checkCompletion_def Let_def stopPolling_def split: option.split)

lemma tick_completes:
  assumes "workflow s = Some w" "opts s = Some o'" "\<not> completed s" "save_rejects cfg = None"
    and "r1 = fst (tick_settle cfg o' w now (run_of w s))" "\<not> r_paused r1"
    and "list_all (\<lambda>t. isTerminal (status t)) (r_tasks r1)"
  shows "completed (fst (tick cfg now s))"
proof -
  obtain nt where r1: "tick_settle cfg o' w now (run_of w s) = (r1, nt)"
    using assms(5) by (cases "tick_settle cfg o' w now (run_of w s)") simp
  have "status (r_tasks r1 ! i) \<noteq> Pending" if "i < length (r_tasks r1)" for i
    using assms(7) that by (auto simp: list_all_length isTerminal_def)
  then have sp: "tick_spawn cfg o' w now r1 = (r1, None)"
    using assms(6) by (simp add: tick_spawn_def spawnReadyTasks_def spawn_nothing)
  let ?r = "tick_notify cfg o' nt (save_run w (tick_templates r1))"
  have "list_all (\<lambda>t. isTerminal (status t)) (r_tasks (tick_templates r1))"
    using settles_evolves [OF settles_tick_templates [of r1]] assms(7)
    by (auto simp: list_all_length list_all2_conv_all_nth task_step_def) (metis status_le_terminal)
  then have "completed (fst (checkCompletion cfg (w\<lparr>tasks := r_tasks ?r\<rparr>) (put_run w ?r s)))"
    using assms(6) by (intro checkCompletion_completes) (simp_all add: tick_notify_def save_run_def)
  with assms(1-4) r1 sp show ?thesis by (simp add: tick_def Let_def)
qed

lemma work_tick_spawn: "work (r_tasks (fst (tick_spawn cfg o' w now r))) \<le> work (r_tasks r)"
  by (simp add: tick_spawn_def spawnReadyTasks_def work_spawn_loop)

lemma work_tick_tasks:
  "work (tick_tasks cfg now o' w s) \<le> work (r_tasks (fst (tick_spawn cfg o' w now (fst (tick_settle cfg o' w now (run_of w s))))))"
  using work_settles [OF settles_tick_templates]
  by (simp add: tick_tasks_def Let_def split: prod.split)

lemma tick_progress:
  assumes s: "workflow s = Some w" "opts s = Some o'" "\<not> completed s"
    and inv: "wf_inv w" "live_ok (tasks w)" and a: "answers cfg"
  shows "completed (fst (tick cfg now s)) \<or> paused (fst (tick cfg now s))
    \<or> work (tick_tasks cfg now o' w s) < work (tasks w)"
proof -
  let ?r = "run_of w s"
  define r1 where "r1 = fst (tick_settle cfg o' w now ?r)"
  have set1: "settles (tasks w) (r_tasks r1)" using settles_tick_settle [of ?r cfg o' w now] by (simp add: r1_def)
  have idle: "in_progress_count (r_tasks r1) = 0" using settle_idle(1) [OF a, of ?r o' w now] inv(2) by (simp add: r1_def)
  have live: "live_ok (r_tasks r1)" by (rule live_settles [OF set1 inv(2)])
  have v: "wf_valid (graph w) (map taskDef (r_tasks r1))"
    using inv(1) evolves_defs [OF settles_evolves [OF set1]] by (simp add: wf_inv_def)
  obtain r2 where r2: "r1 = markBlockedTasks (graph w) now r2" using tick_settle_shape r1_def by blast
  have le: "work (tick_tasks cfg now o' w s) \<le> work (r_tasks (fst (tick_spawn cfg o' w now r1)))"
    using work_tick_tasks [of cfg now o' w s] by (simp add: r1_def)
  consider "r_paused r1" | "\<not> r_paused r1" "\<exists>t \<in> set (r_tasks r1). status t = Pending"
    | "\<not> r_paused r1" "\<forall>t \<in> set (r_tasks r1). status t \<noteq> Pending" by blast
  then show ?thesis
  proof cases
    case 1
    with tick_paused [OF s] show ?thesis by (simp add: r1_def)
  next
    case 2
    have "work (r_tasks (fst (tick_spawn cfg o' w now r1))) < work (r_tasks r1)"
      using spawn_progress [OF v r2 idle live 2(2)] 2(1) by (simp add: tick_spawn_def)
    with le work_settles [OF set1] show ?thesis by simp
  next
    case 3
    have "isTerminal (status t)" if "t \<in> set (r_tasks r1)" for t
      using that 3(2) idle live by (cases "status t") (auto simp: live_ok_def in_progress_zero isTerminal_def)
    then have "list_all (\<lambda>t. isTerminal (status t)) (r_tasks r1)" by (simp add: list_all_iff)
    with tick_completes [OF s _ r1_def 3(1)] a show ?thesis by (simp add: answers_def)
  qed
qed

section \<open>Sequences of ticks\<close>

definition ticks :: "(config \<times> int) list \<Rightarrow> orch \<Rightarrow> orch" where
  "ticks es s = fold (\<lambda>(cfg, now) s. fst (tick cfg now s)) es s"

lemma ticks_simps [simp]: "ticks [] s = s" "ticks ((cfg, now) # es) s = ticks es (fst (tick cfg now s))"
  by (simp_all add: ticks_def)

lemma paused_settle: "r_paused r \<Longrightarrow> r_paused (fst (tick_settle cfg o' w now r))"
  by (auto simp: tick_settle_def handleFailures_def abortWorkflow_def markBlockedTasks_def
      enforceRuntimeLimits_def pollInProgress_def Let_def split: prod.split)

lemma tick_keeps_paused: "paused s \<Longrightarrow> paused (fst (tick cfg now s))"
proof (cases "workflow s = None \<or> opts s = None \<or> completed s")
  case False
  assume "paused s"
  with False show ?thesis by (auto intro!: tick_paused paused_settle)
qed (simp add: tick_inactive)

lemma ticks_keep_paused: "paused s \<Longrightarrow> paused (ticks es s)"
  by (induction es arbitrary: s) (auto simp: tick_keeps_paused)

lemma ticks_completed: "completed s \<Longrightarrow> ticks es s = s"
  by (induction es arbitrary: s) (auto simp: tick_inactive)

lemma completion_terminal:
  assumes "workflow s = Some w" "\<not> completed s" "completed (fst (tick cfg now s))"
  shows "\<exists>w'. workflow (fst (tick cfg now s)) = Some w' \<and> list_all (\<lambda>t. isTerminal (status t)) (tasks w')"
proof -
  have c: "completed (fst (checkCompletion cfg w' s')) \<Longrightarrow> \<not> completed s' \<Longrightarrow>
      list_all (\<lambda>t. isTerminal (status t)) (tasks w')" for w' s'
    by (auto simp: checkCompletion_def split: if_splits)
  show ?thesis
  proof (cases "opts s")
    case None
    with assms show ?thesis by (simp add: tick_inactive)
  next
    case (Some o')
    with assms show ?thesis
      by (auto simp: tick_def Let_def frame_simps split: prod.splits option.splits dest!: c)
  qed
qed

lemma ticks_terminate:
  "workflow s = Some w \<Longrightarrow> opts s = Some o' \<Longrightarrow> \<not> completed s \<Longrightarrow> wf_inv w \<Longrightarrow> live_ok (tasks w) \<Longrightarrow>
   \<forall>(cfg, now) \<in> set es. answers cfg \<Longrightarrow> work (tasks w) < length es \<Longrightarrow>
     paused (ticks es s) \<or>
     (completed (ticks es s) \<and>
      (\<exists>w'. workflow (ticks es s) = Some w' \<and> list_all (\<lambda>t. isTerminal (status t)) (tasks w')))"
proof (induction es arbitrary: s w)
  case (Cons e es)
  obtain cfg now where e: "e = (cfg, now)" by (cases e)
  let ?s = "fst (tick cfg now s)" and ?w = "w\<lparr>tasks := tick_tasks cfg now o' w s\<rparr>"
  have a: "answers cfg" using Cons.prems(6) e by simp
  note tw = tick_workflow [OF Cons.prems(1-3), of cfg now]
  consider "paused ?s" | "completed ?s" | "\<not> completed ?s" "work (tasks ?w) < work (tasks w)"
    using tick_progress [OF Cons.prems(1-5) a, of now] by auto
  then show ?case
  proof cases
    case 1
    with ticks_keep_paused e show ?thesis by simp
  next
    case 2
    with completion_terminal [OF Cons.prems(1,3), of cfg now] ticks_completed e show ?thesis by simp
  next
    case 3
    have "live_ok (tasks ?w)" using live_tick_tasks [OF Cons.prems(5) a, of now o' s] by simp
    with Cons.IH [OF tw 3(1) wf_inv_tick_tasks [OF Cons.prems(4)]] Cons.prems(6,7) 3(2) e
    show ?thesis by simp
  qed
qed simp

lemma work_bound: "work ts \<le> 2 * length ts"
  by (induction ts) (auto simp: work_def pending_count_def in_progress_count_def)

text \<open>
  C4. Liveness: from a running state that an orchestrator reaches from its creation by starts, ticks
  and timers (not after a \<open>restore\<close> or a \<open>retry\<close> of the control plane), with adapters that answer (every poll settles,
  a spawned session has a key, the state can be saved), any sequence of more than twice as many
  ticks as there are tasks ends with the workflow completed and every task terminal, unless a
  failure pauses it on the way.
\<close>

theorem workflow_terminates:
  assumes "reach s" and "workflow s = Some w" "opts s = Some o'" "\<not> completed s"
    and "live_ok (tasks w)" and "\<forall>(cfg, now) \<in> set es. answers cfg" and "2 * length (tasks w) < length es"
  shows "paused (ticks es s) \<or>
    (completed (ticks es s) \<and>
     (\<exists>w'. workflow (ticks es s) = Some w' \<and> list_all (\<lambda>t. isTerminal (status t)) (tasks w')))"
proof -
  have "wf_inv w" using reach_inv [OF assms(1)] assms(2) by (simp add: orch_inv_def)
  moreover have "work (tasks w) < length es" using work_bound [of "tasks w"] assms(7) by simp
  ultimately show ?thesis using ticks_terminate assms(2-6) by blast
qed

end
