(* ===== verification/Orchestrator_Effects.thy ===== *)
theory Orchestrator_Effects
  imports Orchestrator_Progress
begin

text \<open>
  What the orchestrator tells the outside world: the completion notice is sent once, the saved
  workflow is the one in memory, a paused orchestrator starts nothing, and an abort leaves
  nothing running.
\<close>

section \<open>The effects of the phases\<close>

definition loud :: "effect \<Rightarrow> bool" where
  "loud e \<longleftrightarrow> (case e of ENotify i ok target \<Rightarrow> True | ESave w \<Rightarrow> True | _ \<Rightarrow> False)"

text \<open>A phase that appends only effects that are neither a notice nor a save.\<close>

definition hushed :: "run \<Rightarrow> run \<Rightarrow> bool" where
  "hushed r r' \<longleftrightarrow> (\<exists>es. r_trace r' = r_trace r @ es \<and> list_all (\<lambda>e. \<not> loud e) es)"

lemma hushed_refl [simp]: "r_trace r' = r_trace r \<Longrightarrow> hushed r r'"
  by (simp add: hushed_def)

lemma hushed_trans: "hushed a b \<Longrightarrow> hushed b c \<Longrightarrow> hushed a c"
  unfolding hushed_def by (metis (no_types, lifting) append.assoc list_all_append)

lemma hushed_each: "(\<And>t. list_all (\<lambda>e. \<not> loud e) (snd (snd (f t)))) \<Longrightarrow> hushed r (each_task f r)"
  by (auto simp: hushed_def each_task_def list_all_iff)

lemma kill_hushed [simp]: "list_all (\<lambda>e. \<not> loud e) (kill_effects cfg t)" "list_all (\<lambda>e. \<not> loud e) (abort_effects cfg t)"
  by (simp_all add: kill_effects_def abort_effects_def loud_def)

lemma hushed_poll: "hushed r (pollInProgress cfg now r)"
  unfolding pollInProgress_def
  by (rule hushed_each) (simp add: poll_task_def Let_def split: sum.split poll_status.split)

lemma hushed_limits: "hushed r (enforceRuntimeLimits cfg o' now r)"
  unfolding enforceRuntimeLimits_def by (rule hushed_each) (simp add: limit_task_def Let_def)

lemma hushed_failures: "hushed r (fst (handleFailures cfg now r))"
proof -
  have "hushed r' (abortWorkflow cfg now r')" for r'
    unfolding abortWorkflow_def
    by (rule hushed_trans [of _ "each_task (abort_running cfg now) r'"];
        rule hushed_each; simp add: abort_running_def abort_pending_def)
  then have "hushed r (abortWorkflow cfg now (r\<lparr>r_tasks := ts, r_paused := p\<rparr>))" for ts p
    by (rule hushed_trans [rotated]) simp
  then show ?thesis
    by (simp add: handleFailures_def Let_def split: prod.split)
qed

lemma hushed_mark: "hushed r (markBlockedTasks g now r)"
  unfolding markBlockedTasks_def by (rule hushed_each) (simp add: mark_task_def)

lemma hushed_settle: "hushed r (fst (tick_settle cfg o' w now r))"
  using hushed_trans [OF hushed_trans [OF hushed_trans [OF hushed_poll hushed_limits] hushed_failures] hushed_mark]
  by (simp add: tick_settle_def Let_def split: prod.split) (metis fst_conv)

lemma hushed_task: "hushed r (fst (run_task cfg o' wfid g now i r))"
  by (auto simp: run_task_def run_gate_def run_transform_def run_message_def run_tool_def run_agent_def
      Let_def hushed_def loud_def split: task_kind.split option.split sum.split bool.split)

lemma hushed_spawn: "hushed r (fst (spawnReadyTasks cfg o' w now r))"
  unfolding spawnReadyTasks_def
  by (rule spawn_loop_induct [where P = "hushed r"]) (auto intro: hushed_trans hushed_task)

lemma hushed_tick_spawn: "hushed r (fst (tick_spawn cfg o' w now r))"
  by (simp add: tick_spawn_def hushed_spawn)

lemma trace_templates [simp]: "r_trace (tick_templates r) = r_trace r"
  by (simp add: tick_templates_def split: prod.split)

lemma notify_hushed: "list_all (\<lambda>e. \<not> loud e) (concat (map (routeFailureNotification cfg o') nt))"
  by (induction nt) (auto simp: routeFailureNotification_def loud_def split: failure_notification.split)

section \<open>A tick, seen from outside\<close>

text \<open>
  The trace of a tick that runs: quiet effects, then the save, quiet effects again, and at most
  one completion notice as the last effect.
\<close>

lemma checkCompletion_trace:
  "\<exists>es. list_all (\<lambda>e. \<not> loud e) es \<and>
     (trace (fst (checkCompletion cfg w s)) = trace s @ es \<or>
      trace (fst (checkCompletion cfg w s)) = trace s @ es @ completion_notice w s
      \<and> completed (fst (checkCompletion cfg w s)) \<and> \<not> completed s)"
proof -
  have k: "list_all (\<lambda>e. \<not> loud e) (completion_kills cfg w)"
    by (auto simp: completion_kills_def list_all_iff dest: kill_hushed [unfolded list_all_iff, rule_format])
  show ?thesis
    using k
    by (auto simp: checkCompletion_def Let_def stopPolling_def completion_notice_def loud_def
        split: option.split intro: exI [of _ "[]"] exI [of _ "completion_kills cfg w"]
          exI [of _ "completion_kills cfg w @ [EUpdateStatus w]"]
          exI [of _ "completion_kills cfg w @ [EUpdateStatus w, ESummary w]"])
qed

lemma tick_trace:
  assumes "workflow s = Some w" "opts s = Some o'" "\<not> completed s"
  shows "(\<exists>es. trace (fst (tick cfg now s)) = trace s @ es \<and> list_all (\<lambda>e. \<not> loud e) es
      \<and> \<not> completed (fst (tick cfg now s)) \<and> snd (tick cfg now s) \<noteq> None)
    \<or> (\<exists>es fs ns w'. trace (fst (tick cfg now s)) = trace s @ es @ ESave w' # fs @ ns
      \<and> list_all (\<lambda>e. \<not> loud e) es \<and> list_all (\<lambda>e. \<not> loud e) fs
      \<and> workflow (fst (tick cfg now s)) = Some w'
      \<and> (ns = [] \<or> ns = completion_notice w' s \<and> completed (fst (tick cfg now s))))"
proof -
  obtain r1 nt where r1: "tick_settle cfg o' w now (run_of w s) = (r1, nt)" by fastforce
  obtain r2 e where r2: "tick_spawn cfg o' w now r1 = (r2, e)" by fastforce
  have "hushed (run_of w s) r2"
    using hushed_trans [OF hushed_settle [of "run_of w s" cfg o' w now] hushed_tick_spawn [of _ cfg o' w now]] r1 r2
    by simp
  then obtain es where es: "r_trace r2 = trace s @ es" "list_all (\<lambda>e. \<not> loud e) es"
    by (auto simp: hushed_def)
  show ?thesis
  proof (cases "e = None \<and> save_rejects cfg = None")
    case False
    then have "trace (fst (tick cfg now s)) = trace s @ es \<and> \<not> completed (fst (tick cfg now s))
        \<and> snd (tick cfg now s) \<noteq> None"
      using assms r1 r2 es by (auto simp: tick_def split: option.split)
    with es show ?thesis by blast
  next
    case True
    let ?r = "tick_notify cfg o' nt (save_run w (tick_templates r2))"
    let ?w = "w\<lparr>tasks := r_tasks ?r\<rparr>" and ?s = "put_run w ?r s"
    let ?f = "concat (map (routeFailureNotification cfg o') nt)"
    have t: "tick cfg now s = checkCompletion cfg ?w ?s" using True assms r1 r2 by (simp add: tick_def Let_def)
    have tr: "trace ?s = trace s @ es @ ESave ?w # ?f" using es by (simp add: tick_notify_def save_run_def)
    have n: "completion_notice ?w ?s = completion_notice ?w s" by (simp add: completion_notice_def)
    obtain gs where gs: "list_all (\<lambda>e. \<not> loud e) gs"
      "trace (fst (tick cfg now s)) = trace ?s @ gs \<or>
       trace (fst (tick cfg now s)) = trace ?s @ gs @ completion_notice ?w s \<and> completed (fst (tick cfg now s))"
      using checkCompletion_trace [of cfg ?w ?s] unfolding t n by blast
    have "workflow (fst (tick cfg now s)) = Some ?w" by (simp add: t frame_simps)
    moreover have "list_all (\<lambda>e. \<not> loud e) (?f @ gs)" using notify_hushed gs(1) by simp
    moreover have "\<exists>ns. trace (fst (tick cfg now s)) = trace s @ es @ ESave ?w # (?f @ gs) @ ns
        \<and> (ns = [] \<or> ns = completion_notice ?w s \<and> completed (fst (tick cfg now s)))"
      using gs(2) tr by (elim disjE) auto
    ultimately show ?thesis using es(2) by blast
  qed
qed

definition notices :: "orch \<Rightarrow> nat" where
  "notices s = length (filter (\<lambda>e. case e of ENotify i ok target \<Rightarrow> True | _ \<Rightarrow> False) (trace s))"

lemma filter_hushed: "list_all (\<lambda>e. \<not> loud e) es \<Longrightarrow>
    filter (\<lambda>e. case e of ENotify i ok target \<Rightarrow> True | _ \<Rightarrow> False) es = []"
  by (induction es) (auto simp: loud_def split: effect.splits)

lemma tick_notices:
  "notices (fst (tick cfg now s)) = notices s \<or>
     notices (fst (tick cfg now s)) = Suc (notices s) \<and> completed (fst (tick cfg now s)) \<and> \<not> completed s"
proof (cases "workflow s = None \<or> opts s = None \<or> completed s")
  case True
  then show ?thesis by (simp add: tick_inactive)
next
  case False
  then obtain w o' where "workflow s = Some w" "opts s = Some o'" "\<not> completed s" by auto
  from tick_trace [OF this, of cfg now] \<open>\<not> completed s\<close> show ?thesis
    by (auto simp: notices_def filter_hushed completion_notice_def split: if_splits)
qed

section \<open>Properties\<close>

text \<open>
  However often the orchestrator ticks, with whatever adapter behaviour, at most one
  completion notice is sent, and none while the workflow is not complete.
\<close>

theorem completion_once:
  "notices (ticks es s) \<le> Suc (notices s) \<and> (\<not> completed (ticks es s) \<longrightarrow> notices (ticks es s) = notices s)"
proof (induction es arbitrary: s)
  case (Cons e es)
  obtain cfg now where e: "e = (cfg, now)" by (cases e)
  let ?s = "fst (tick cfg now s)"
  show ?case
  proof (cases "completed ?s")
    case True
    with tick_notices [of cfg now s] show ?thesis by (auto simp: e ticks_completed)
  next
    case False
    with tick_notices [of cfg now s] Cons [of ?s] show ?thesis by (auto simp: e)
  qed
qed simp

text \<open>
  After a tick of a running orchestrator that does not throw, the last state written to disk
  is the workflow in memory.
\<close>

theorem tick_saves:
  assumes "workflow s = Some w" "opts s = Some o'" "\<not> completed s" and "snd (tick cfg now s) = None"
  shows "\<exists>w' before after. workflow (fst (tick cfg now s)) = Some w'
    \<and> trace (fst (tick cfg now s)) = before @ ESave w' # after \<and> (\<forall>v. ESave v \<notin> set after)"
proof -
  have n: "\<not> (\<exists>v. ESave v \<in> set es)" if "list_all (\<lambda>e. \<not> loud e) es" for es
    using that by (auto simp: list_all_iff loud_def)
  from tick_trace [OF assms(1-3), of cfg now] assms(4)
  obtain es fs ns w' where t: "trace (fst (tick cfg now s)) = trace s @ es @ ESave w' # fs @ ns"
    "list_all (\<lambda>e. \<not> loud e) fs" "workflow (fst (tick cfg now s)) = Some w'"
    "ns = [] \<or> ns = completion_notice w' s" by blast
  have "\<forall>v. ESave v \<notin> set (fs @ ns)" using n [OF t(2)] t(4) by (auto simp: completion_notice_def split: if_splits)
  with t(1,3) show ?thesis
    by (intro exI [of _ w'] exI [of _ "trace s @ es"] exI [of _ "fs @ ns"]) simp
qed

text \<open>
  A paused orchestrator starts nothing: a tick leaves each pending task pending, or marks it
  failed or skipped.
\<close>

theorem paused_starts_nothing:
  assumes "paused s" and "workflow s = Some w" "opts s = Some o'" "\<not> completed s"
  shows "\<exists>w'. workflow (fst (tick cfg now s)) = Some w'
    \<and> list_all2 (\<lambda>t t'. status t = Pending \<longrightarrow> status t' \<in> {Pending, Failed, Skipped}) (tasks w) (tasks w')"
proof -
  let ?r1 = "fst (tick_settle cfg o' w now (run_of w s))"
  have p: "r_paused ?r1" using assms(1) by (intro paused_settle) simp
  have s1: "settles (tasks w) (r_tasks ?r1)" using settles_tick_settle [of "run_of w s" cfg o' w now] by simp
  have "tick_tasks cfg now o' w s = r_tasks (tick_templates ?r1)"
    using p by (simp add: tick_tasks_def tick_spawn_def)
  then have "settles (tasks w) (tick_tasks cfg now o' w s)"
    using settles_trans [OF s1 settles_tick_templates] by simp
  then have "list_all2 (\<lambda>t t'. status t = Pending \<longrightarrow> status t' \<in> {Pending, Failed, Skipped})
      (tasks w) (tick_tasks cfg now o' w s)"
  proof (rule list_all2_mono)
    fix t t' assume "quiet_step t t'"
    then show "status t = Pending \<longrightarrow> status t' \<in> {Pending, Failed, Skipped}"
      by (cases "status t'") (auto simp: quiet_step_def task_step_def)
  qed
  with tick_workflow(1) [OF assms(2-4), of cfg now] show ?thesis by auto
qed

lemma handle_failed_abort:
  "handle_failed ts = (ts', ab, pa, nt) \<Longrightarrow> ab \<longleftrightarrow> (\<exists>t \<in> set ts. newly_failed t \<and> failureBehavior (taskDef t) = FbAbort)"
  by (induction ts arbitrary: ts' ab pa nt rule: handle_failed.induct)
    (auto simp: Let_def split: if_splits prod.splits)

lemma abortWorkflow_ends:
  "t \<in> set (r_tasks (abortWorkflow cfg now r)) \<Longrightarrow>
     status t \<noteq> Pending \<and> \<not> (status t = InProgress \<and> truthy_str (sessionKey t))"
  by (auto simp: abortWorkflow_def abort_running_def abort_pending_def split: if_splits)

text \<open>
  A new failure whose behaviour is \<open>abort\<close> ends the workflow at once: after
  \<open>handleFailures\<close> nothing is pending, nothing with a session is in progress, and no
  failure notification is sent.
\<close>

theorem abort_ends_workflow:
  assumes "t \<in> set (r_tasks r)" "newly_failed t" "failureBehavior (taskDef t) = FbAbort"
  shows "snd (handleFailures cfg now r) = [] \<and>
    (\<forall>u \<in> set (r_tasks (fst (handleFailures cfg now r))).
       status u \<noteq> Pending \<and> \<not> (status u = InProgress \<and> truthy_str (sessionKey u)))"
proof -
  obtain ts ab pa nt where h: "handle_failed (r_tasks r) = (ts, ab, pa, nt)"
    by (cases "handle_failed (r_tasks r)") auto
  with handle_failed_abort [OF h] assms have "ab" by blast
  with h abortWorkflow_ends show ?thesis by (simp add: handleFailures_def Let_def)
qed

end
