(* ===== verification/Workflow_Store.thy ===== *)
theory Workflow_Store
  imports Orchestrator_Effects
begin

text \<open>
  Persistence (\<open>packages/workflow/src/state.ts\<close>) and retention (\<open>retention.ts\<close>). The
  state directory is a map from file names to parsed file contents, \<open>None\<close> for a file that
  does not parse. \<open>JSON.stringify\<close> and \<open>JSON.parse\<close> are the identity on the fields of a
  task; the dependency graph, whose keys become property names, is modelled through its text
  form and the enumeration order of object properties.
\<close>

section \<open>Serialization\<close>

type_synonym serialized_graph = "(string, task_id list) jsmap"

text \<open>
  Property enumeration: array-index keys in ascending order, then the others in insertion order.
\<close>

definition array_index :: "string \<Rightarrow> bool" where
  "array_index k \<longleftrightarrow>
     k \<noteq> [] \<and> list_all is_digit k \<and> (k = ''0'' \<or> hd k \<noteq> CHR ''0'') \<and> dec_val k < 4294967295"

definition object_entries :: "(string, 'v) jsmap \<Rightarrow> (string \<times> 'v) list" where
  "object_entries m =
     sort_key (dec_val \<circ> fst) (filter (\<lambda>e. array_index (fst e)) m) @ filter (\<lambda>e. \<not> array_index (fst e)) m"

text \<open>\<open>new Set(xs)\<close>: the first occurrence of each element.\<close>

definition js_Set :: "'a list \<Rightarrow> 'a list" where
  "js_Set xs = rev (remdups (rev xs))"

definition serializeGraph :: "task_id graph \<Rightarrow> serialized_graph" where
  "serializeGraph g = fold (\<lambda>e. map_set (js_num_text (fst e)) (snd e)) g []"

definition deserializeGraph :: "serialized_graph \<Rightarrow> task_id graph" where
  "deserializeGraph raw = fold (\<lambda>e. map_set (js_Number (fst e)) (js_Set (snd e))) (object_entries raw) []"

record serialized =
  s_id :: string
  s_name :: string
  s_tasks :: "task_state list"
  s_graph :: serialized_graph
  s_pollingIntervalMs :: int
  s_createdAt :: int
  s_concurrency :: "int option"
  s_runtimeLimitMs :: "int option"
  s_currentDepth :: "int option"
  s_maxDepth :: "int option"
  s_replyTo :: "string option"

definition keep_truthy :: "int option \<Rightarrow> int option" where
  "keep_truthy x = (if truthy_num x then x else None)"

definition serialize :: "task_list \<Rightarrow> serialized" where
  "serialize w =
     \<lparr> s_id = wf_id w, s_name = wf_name w, s_tasks = tasks w, s_graph = serializeGraph (graph w),
       s_pollingIntervalMs = pollingIntervalMs w, s_createdAt = createdAt w,
       s_concurrency = keep_truthy (concurrency w), s_runtimeLimitMs = keep_truthy (wf_runtimeLimitMs w),
       s_currentDepth = currentDepth w, s_maxDepth = maxDepth w, s_replyTo = wf_replyTo w \<rparr>"

definition deserialize :: "serialized \<Rightarrow> task_list" where
  "deserialize raw =
     \<lparr> wf_id = s_id raw, wf_name = s_name raw, tasks = s_tasks raw,
       graph = deserializeGraph (s_graph raw), pollingIntervalMs = s_pollingIntervalMs raw,
       createdAt = s_createdAt raw, concurrency = keep_truthy (s_concurrency raw),
       wf_runtimeLimitMs = keep_truthy (s_runtimeLimitMs raw), currentDepth = s_currentDepth raw,
       maxDepth = s_maxDepth raw, wf_replyTo = s_replyTo raw \<rparr>"

section \<open>The state directory\<close>

type_synonym disk = "(string, serialized option) jsmap"

definition statePath :: "string \<Rightarrow> string" where
  "statePath workflowId = workflowId @ ''.json''"

definition saveWorkflow :: "task_list \<Rightarrow> disk \<Rightarrow> disk" where
  "saveWorkflow w d = map_set (statePath (wf_id w)) (Some (serialize w)) d"

definition loadWorkflow :: "disk \<Rightarrow> string \<Rightarrow> task_list option" where
  "loadWorkflow d i =
     (case map_get d (statePath i) of Some (Some raw) \<Rightarrow> Some (deserialize raw) | _ \<Rightarrow> None)"

definition deleteWorkflow :: "string \<Rightarrow> disk \<Rightarrow> disk" where
  "deleteWorkflow i d = map_delete (statePath i) d"

definition ends_with :: "string \<Rightarrow> string \<Rightarrow> bool" where
  "ends_with s p \<longleftrightarrow> js_starts_with (rev s) (rev p)"

definition listWorkflows :: "(task_list \<Rightarrow> bool) \<Rightarrow> disk \<Rightarrow> task_list list" where
  "listWorkflows keep d =
     filter keep (map (deserialize \<circ> the)
       (filter (\<lambda>raw. raw \<noteq> None) (map snd (filter (\<lambda>e. ends_with (fst e) ''.json'') d))))"

definition listIncompleteWorkflows :: "disk \<Rightarrow> task_list list" where
  "listIncompleteWorkflows d = listWorkflows (\<lambda>w. \<not> list_all (\<lambda>t. isTerminal (status t)) (tasks w)) d"

definition listAllWorkflows :: "disk \<Rightarrow> task_list list" where
  "listAllWorkflows d = listWorkflows (\<lambda>w. True) d"

section \<open>Round trip\<close>

lemma js_num_text_nat [simp]: "js_num_text (js_nat n) = show_nat n"
  by (simp add: js_num_text_def show_int_def)

lemma js_Number_text_nat: "js_Number (js_num_text (js_nat n)) = js_nat n"
  by (simp add: js_Number_show_nat)

lemma set_object_entries [simp]: "set (object_entries m) = set m"
  by (auto simp: object_entries_def)

lemma distinct_object_entries: "map_ok m \<Longrightarrow> map_ok (object_entries m)"
  by (auto simp: object_entries_def distinct_map inj_on_def distinct_sort)

lemma js_Set_distinct [simp]: "distinct xs \<Longrightarrow> js_Set xs = xs"
  by (simp add: js_Set_def distinct_remdups_id)

lemma find_key:
  "distinct (map (f \<circ> fst) es) \<Longrightarrow> (k, v) \<in> set es \<Longrightarrow> find (\<lambda>e. f (fst e) = f k) es = Some (k, v)"
  by (induction es) (auto simp: image_iff)

text \<open>Writing the entries of a map under renamed keys and reading one back.\<close>

lemma fold_set_distinct:
  assumes "distinct (map (f \<circ> fst) es)" and "(k, v) \<in> set es"
  shows "map_get (fold (\<lambda>e. map_set (f (fst e)) (h (snd e))) es m) (f k) = Some (h v)"
proof -
  have "find (\<lambda>e. f (fst e) = f k) (rev es) = Some (k, v)"
    using assms by (intro find_key) (simp_all add: rev_map [symmetric])
  then show ?thesis using js_map.fold_put_get [of "\<lambda>e. f (fst e)" "\<lambda>e. h (snd e)" es m "f k"] by simp
qed

lemma fold_set_absent:
  assumes "\<forall>e \<in> set es. f (fst e) \<noteq> k"
  shows "map_get (fold (\<lambda>e. map_set (f (fst e)) (h (snd e))) es []) k = None"
proof -
  have "find (\<lambda>e. f (fst e) = k) (rev es) = None" using assms by (auto simp: find_None_iff)
  then show ?thesis
    using js_map.fold_put_get [of "\<lambda>e. f (fst e)" "\<lambda>e. h (snd e)" es "[]" k]
    by (simp add: map_get_def)
qed

text \<open>Graphs whose nodes are the natural numbers a task list uses as ids.\<close>

definition nat_keys :: "task_id graph \<Rightarrow> bool" where
  "nat_keys g \<longleftrightarrow> (\<forall>k \<in> keys_of g. k = js_nat (ref_number k))"

lemma nat_key_text: "nat_keys g \<Longrightarrow> k \<in> keys_of g \<Longrightarrow> js_Number (js_num_text k) = k"
  by (metis js_Number_text_nat nat_keys_def)

lemma serializeGraph_set:
  assumes "map_ok g" "nat_keys g"
  shows "set (serializeGraph g) = (\<lambda>e. (js_num_text (fst e), snd e)) ` set g" and "map_ok (serializeGraph g)"
proof -
  show ok: "map_ok (serializeGraph g)"
    unfolding serializeGraph_def by (rule js_map.fold_put_ok) simp
  have inj: "inj_on (js_num_text \<circ> fst) (set g)"
    using assms unfolding inj_on_def
    by (metis comp_apply distinct_map fst_conv inj_onD keys_of_def list.set_map nat_key_text image_eqI)
  then have d: "distinct (map (js_num_text \<circ> fst) g)"
    using assms(1) by (auto simp: distinct_map)
  have "(s, ds) \<in> set (serializeGraph g) \<longleftrightarrow> (\<exists>k. (k, ds) \<in> set g \<and> s = js_num_text k)" for s ds
  proof (cases "\<exists>e \<in> set g. js_num_text (fst e) = s")
    case True
    then obtain k v where kv: "(k, v) \<in> set g" "s = js_num_text k" by auto
    from fold_set_distinct [OF d kv(1), where h = "\<lambda>x. x"]
    have "map_get (serializeGraph g) s = Some v" by (simp add: serializeGraph_def kv(2))
    then have "(s, ds) \<in> set (serializeGraph g) \<longleftrightarrow> ds = v"
      using map_get_iff [OF ok, of s ds] by auto
    moreover have "ds = v" if "(k', ds) \<in> set g" "s = js_num_text k'" for k'
    proof -
      have "(js_num_text \<circ> fst) (k', ds) = (js_num_text \<circ> fst) (k, v)"
        using that(2) kv(2) by (metis comp_apply fst_conv)
      from inj_onD [OF inj this that(1) kv(1)] show ?thesis by simp
    qed
    ultimately show ?thesis using kv by blast
  next
    case False
    then have "map_get (serializeGraph g) s = None"
      using fold_set_absent [of g js_num_text s "\<lambda>x. x"] by (auto simp: serializeGraph_def)
    then have "(s, ds) \<notin> set (serializeGraph g)" using map_get_iff [OF ok, of s ds] by simp
    with False show ?thesis by (metis fst_conv)
  qed
  note iff = this
  show "set (serializeGraph g) = (\<lambda>e. (js_num_text (fst e), snd e)) ` set g"
  proof (rule set_eqI)
    fix x :: "string \<times> task_id list"
    obtain t ds where x: "x = (t, ds)" by (cases x)
    show "x \<in> set (serializeGraph g) \<longleftrightarrow> x \<in> (\<lambda>e. (js_num_text (fst e), snd e)) ` set g"
      unfolding x iff image_iff by (metis fst_conv prod.collapse prod.inject snd_conv)
  qed
qed

lemma graph_round_trip:
  assumes "graph_ok g" "nat_keys g"
  shows "map_get (deserializeGraph (serializeGraph g)) k = map_get g k"
proof -
  let ?es = "object_entries (serializeGraph g)"
  have ok: "map_ok g" using assms(1) by (simp add: graph_ok_def)
  note ser = serializeGraph_set [OF ok assms(2)]
  have es: "set ?es = (\<lambda>e. (js_num_text (fst e), snd e)) ` set g" by (simp add: ser(1))
  have num: "js_Number (js_num_text (fst e)) = fst e" if "e \<in> set g" for e
    using that nat_key_text [OF assms(2), of "fst e"] by (simp add: keys_of_def)
  have "inj_on js_Number (fst ` set ?es)" unfolding es by (auto simp: inj_on_def num)
  then have d: "distinct (map (js_Number \<circ> fst) ?es)"
    using distinct_object_entries [OF ser(2)] by (simp add: distinct_map comp_inj_on)
  show ?thesis
  proof (cases "map_get g k")
    case (Some ds)
    then have k: "(k, ds) \<in> set g" "distinct ds" using assms(1)
      by (auto simp: graph_ok_def dest: map_get_in_set)
    then have "(js_num_text k, ds) \<in> set ?es" unfolding es by force
    from fold_set_distinct [OF d this, where h = js_Set] k num [OF k(1)] Some show ?thesis
      by (simp add: deserializeGraph_def)
  next
    case None
    then have "\<forall>e \<in> set ?es. js_Number (fst e) \<noteq> k"
      unfolding es by (auto simp: num map_get_None_iff keys_of_def)
    from fold_set_absent [OF this, of js_Set] None show ?thesis by (simp add: deserializeGraph_def)
  qed
qed

text \<open>
  C30. What is saved is loaded back: loading a workflow from the directory it was just saved to
  gives the same workflow, with the same dependencies for every task, when its ids are natural
  numbers and its optional limits are not zero (as in every workflow \<open>start\<close> creates from
  such ids).
\<close>

theorem save_load:
  assumes "graph_ok (graph w)" "nat_keys (graph w)" "concurrency w \<noteq> Some 0" "wf_runtimeLimitMs w \<noteq> Some 0"
  shows "\<exists>g. loadWorkflow (saveWorkflow w d) (wf_id w) = Some (w\<lparr>graph := g\<rparr>)
    \<and> map_get g = map_get (graph w) \<and> edges g = edges (graph w)"
proof -
  let ?g = "deserializeGraph (serializeGraph (graph w))"
  have k: "keep_truthy (keep_truthy x) = x" if "x \<noteq> Some 0" for x
    using that by (cases x) (auto simp: keep_truthy_def truthy_num_def)
  have g: "map_get ?g = map_get (graph w)" using graph_round_trip [OF assms(1,2)] by blast
  moreover have "loadWorkflow (saveWorkflow w d) (wf_id w) = Some (w\<lparr>graph := ?g\<rparr>)"
    using k assms(3,4) by (simp add: loadWorkflow_def saveWorkflow_def deserialize_def serialize_def)
  ultimately show ?thesis by (auto simp: edges_def deps_of_def)
qed

section \<open>Retention\<close>

definition COMPLETED_MAX_AGE_MS :: int where
  "COMPLETED_MAX_AGE_MS = 48 * 60 * 60 * 1000"

definition PAUSED_MAX_AGE_MS :: int where
  "PAUSED_MAX_AGE_MS = 7 * 24 * 60 * 60 * 1000"

record retention_options =
  completedMaxAgeMs :: "int option"
  pausedMaxAgeMs :: "int option"

definition isAllTerminal :: "task_list \<Rightarrow> bool" where
  "isAllTerminal w \<longleftrightarrow> list_all (\<lambda>t. status t = Done \<or> status t = Failed) (tasks w)"

definition isPaused :: "task_list \<Rightarrow> bool" where
  "isPaused w \<longleftrightarrow>
     list_ex (\<lambda>t. status t = Paused) (tasks w)
     \<or> (\<not> isAllTerminal w \<and> \<not> list_ex (\<lambda>t. status t = InProgress) (tasks w)
        \<and> list_ex (\<lambda>t. status t = Pending) (tasks w))"

definition workflowAgeRef :: "task_list \<Rightarrow> int" where
  "workflowAgeRef w =
     (if isAllTerminal w then
        (let maxCompleted = foldr max (map (\<lambda>t. nullish (completedAt t) 0) (tasks w)) 0
         in if maxCompleted > 0 then maxCompleted else createdAt w)
      else createdAt w)"

definition prunable :: "int \<Rightarrow> int \<Rightarrow> int \<Rightarrow> task_list \<Rightarrow> bool" where
  "prunable completedMaxAge pausedMaxAge now w =
     (let age = now - workflowAgeRef w
      in if isAllTerminal w \<and> age > completedMaxAge then True
         else isPaused w \<and> age > pausedMaxAge)"

definition retentionRun :: "retention_options \<Rightarrow> int \<Rightarrow> disk \<Rightarrow> disk \<times> string list" where
  "retentionRun o' now d =
     (let completedMaxAge = nullish (completedMaxAgeMs o') COMPLETED_MAX_AGE_MS;
          pausedMaxAge = nullish (pausedMaxAgeMs o') PAUSED_MAX_AGE_MS;
          prunedIds = map wf_id (filter (prunable completedMaxAge pausedMaxAge now) (listAllWorkflows d))
      in (fold deleteWorkflow prunedIds d, prunedIds))"

lemma fold_delete_get:
  "map_get (fold deleteWorkflow ids d) f = (if f \<in> statePath ` set ids then None else map_get d f)"
  by (induction ids arbitrary: d) (auto simp: deleteWorkflow_def)

text \<open>
  A retention run deletes exactly the files of the workflows that are over age: the file of
  a pruned id is gone, every other file is as before, and no workflow with a task in progress is
  pruned unless it also has a paused task.
\<close>

theorem retention_exact:
  assumes "retentionRun o' now d = (d', ids)"
  shows "map_get d' f = (if f \<in> statePath ` set ids then None else map_get d f)
    \<and> (\<forall>i \<in> set ids. \<exists>w \<in> set (listAllWorkflows d). wf_id w = i
         \<and> (list_ex (\<lambda>t. status t = InProgress) (tasks w) \<longrightarrow> list_ex (\<lambda>t. status t = Paused) (tasks w)))"
proof -
  have p: "list_ex (\<lambda>t. status t = InProgress) (tasks w) \<longrightarrow> list_ex (\<lambda>t. status t = Paused) (tasks w)"
    if "prunable a b now w" for a b w
    using that by (auto simp: prunable_def Let_def isAllTerminal_def isPaused_def list_all_iff list_ex_iff split: if_splits)
  let ?P = "prunable (nullish (completedMaxAgeMs o') COMPLETED_MAX_AGE_MS)
      (nullish (pausedMaxAgeMs o') PAUSED_MAX_AGE_MS) now"
  have d: "ids = map wf_id (filter ?P (listAllWorkflows d))" "d' = fold deleteWorkflow ids d"
    using assms by (auto simp: retentionRun_def Let_def)
  have "\<exists>w \<in> set (listAllWorkflows d). wf_id w = i \<and> ?P w" if "i \<in> set ids" for i
    using that by (auto simp: d(1))
  with p show ?thesis unfolding d(2) fold_delete_get by blast
qed

text \<open>
  A workflow whose tasks are all terminal, one of them skipped, is never pruned, however old
  it is: \<open>retention.ts\<close> does not count \<open>skipped\<close> as terminal, unlike
  \<open>isTerminal\<close> of \<open>types.ts\<close>.
\<close>

theorem retention_keeps_skipped:
  assumes "\<forall>t \<in> set (tasks w). isTerminal (status t)" and "\<exists>t \<in> set (tasks w). status t = Skipped"
  shows "\<not> prunable completedMaxAge pausedMaxAge now w"
proof -
  have "\<not> isAllTerminal w" using assms(2) by (force simp: isAllTerminal_def list_all_iff)
  moreover have "\<not> isPaused w" using assms(1)
    by (auto simp: isPaused_def list_ex_iff isTerminal_def)
  ultimately show ?thesis by (simp add: prunable_def)
qed

end
