(* ===== verification/Workflow_Control.thy ===== *)
theory Workflow_Control
  imports Workflow_Store
begin

text \<open>
  The control plane (\<open>packages/workflow/src/control.ts\<close>), the workflow server
  (\<open>server.ts\<close>) and orphan detection (\<open>hardening.ts\<close>). The plane holds the map of
  active orchestrators and the state directory; an operation takes the results of the status
  manager of the orchestrator it works on and whether the spawner can abort a turn, and returns
  an error or a result with the new plane.
\<close>

section \<open>State\<close>

record plane =
  orchestrators :: "(string, orch) jsmap"
  disk :: disk

datatype ctl_error =
    WorkflowNotFound string
  | TaskNotFound task_id string
  | TaskInProgress task_id
  | NotRetriable task_id task_status
  | NoStatusManager
  | WaitTimedOut int string
  | Rejected string

definition put_orch :: "string \<Rightarrow> orch \<Rightarrow> plane \<Rightarrow> plane" where
  "put_orch i s p = p\<lparr>orchestrators := map_set i s (orchestrators p)\<rparr>"

definition persist :: "task_list \<Rightarrow> plane \<Rightarrow> plane" where
  "persist w p = p\<lparr>disk := saveWorkflow w (disk p)\<rparr>"

definition resolveWorkflow :: "string \<Rightarrow> plane \<Rightarrow> ctl_error + task_list" where
  "resolveWorkflow i p =
     (case (case map_get (orchestrators p) i of Some s \<Rightarrow> workflow s | None \<Rightarrow> None) of
        Some w \<Rightarrow> Inr w
      | None \<Rightarrow>
          (case loadWorkflow (disk p) i of
             Some w \<Rightarrow> Inr w
           | None \<Rightarrow> Inl (WorkflowNotFound i)))"

text \<open>\<open>requireOrchestrator\<close> followed by \<open>getWorkflowStatus\<close>.\<close>

definition requireOrchestrator :: "string \<Rightarrow> plane \<Rightarrow> ctl_error + (orch \<times> task_list)" where
  "requireOrchestrator i p =
     (case map_get (orchestrators p) i of
        None \<Rightarrow> Inl (WorkflowNotFound i)
      | Some s \<Rightarrow> (case workflow s of None \<Rightarrow> Inl (WorkflowNotFound i) | Some w \<Rightarrow> Inr (s, w)))"

section \<open>Abort, pause, resume, post\<close>

definition ctl_kills :: "bool \<Rightarrow> task_list \<Rightarrow> effect list" where
  "ctl_kills canAbort w =
     concat (map (\<lambda>t. if truthy_str (sessionKey t)
                      then (if canAbort then [EAbortTask (the (sessionKey t))] else [])
                           @ [EKill (the (sessionKey t))]
                      else []) (tasks w))"

definition abort_task :: "int \<Rightarrow> task_state \<Rightarrow> task_state" where
  "abort_task now t =
     (if isTerminal (status t) then t
      else fail_task now (Some ''aborted: workflow aborted by control plane'') t)"

definition add_trace :: "effect list \<Rightarrow> orch \<Rightarrow> orch" where
  "add_trace es s = s\<lparr>trace := trace s @ es\<rparr>"

text \<open>The status calls of an operation: the effects made, and the rejection that stops it.\<close>

fun status_calls :: "(effect \<times> string option) list \<Rightarrow> effect list \<times> string option" where
  "status_calls [] = ([], None)"
| "status_calls ((e, Some err) # cs) = ([e], Some err)"
| "status_calls ((e, None) # cs) = (let (es, r) = status_calls cs in (e # es, r))"

definition finish_op ::
  "string \<Rightarrow> orch \<Rightarrow> task_list \<Rightarrow> (effect \<times> string option) list \<Rightarrow> plane \<Rightarrow> (ctl_error + unit) \<times> plane" where
  "finish_op i s w calls p =
     (let (es, err) = status_calls calls;
          p' = put_orch i (add_trace es s) p
      in case err of
           Some e \<Rightarrow> (Inl (Rejected e), p')
         | None \<Rightarrow> (Inr (), persist w p'))"

definition abort :: "status_results option \<Rightarrow> bool \<Rightarrow> int \<Rightarrow> string \<Rightarrow> plane \<Rightarrow> (ctl_error + unit) \<times> plane" where
  "abort sm canAbort now i p =
     (case requireOrchestrator i p of
        Inl e \<Rightarrow> (Inl e, p)
      | Inr (s, w) \<Rightarrow>
          (let w' = w\<lparr>tasks := map (abort_task now) (tasks w)\<rparr>;
               s' = setCompleted True (stopPolling (add_trace (ctl_kills canAbort w) (s\<lparr>workflow := Some w'\<rparr>)))
           in finish_op i s' w'
                (case sm of
                   None \<Rightarrow> []
                 | Some r \<Rightarrow> [(ESummary w', summary_rejects r), (EUpdateStatus w', update_rejects r)]) p))"

definition update_call :: "status_results option \<Rightarrow> task_list \<Rightarrow> (effect \<times> string option) list" where
  "update_call sm w = (case sm of None \<Rightarrow> [] | Some r \<Rightarrow> [(EUpdateStatus w, update_rejects r)])"

definition pause :: "status_results option \<Rightarrow> string \<Rightarrow> plane \<Rightarrow> (ctl_error + unit) \<times> plane" where
  "pause sm i p =
     (case requireOrchestrator i p of
        Inl e \<Rightarrow> (Inl e, p)
      | Inr (s, w) \<Rightarrow> finish_op i (setPaused True s) w (update_call sm w) p)"

definition resume :: "status_results option \<Rightarrow> string \<Rightarrow> plane \<Rightarrow> (ctl_error + unit) \<times> plane" where
  "resume sm i p =
     (case requireOrchestrator i p of
        Inl e \<Rightarrow> (Inl e, p)
      | Inr (s, w) \<Rightarrow> finish_op i (setPaused False s) w (update_call sm w) p)"

definition post :: "status_results option \<Rightarrow> string \<Rightarrow> plane \<Rightarrow> (ctl_error + unit) \<times> plane" where
  "post sm i p =
     (case requireOrchestrator i p of
        Inl e \<Rightarrow> (Inl e, p)
      | Inr (s, w) \<Rightarrow>
          (case sm of
             None \<Rightarrow> (Inl NoStatusManager, p)
           | Some r \<Rightarrow>
               (let p' = put_orch i (add_trace [EInitialStatus w] s) p in
                case initial_rejects r of
                  Some e \<Rightarrow> (Inl (Rejected e), p')
                | None \<Rightarrow> (Inr (), p'))))"

section \<open>Status, list, wait\<close>

definition countStatuses :: "task_list \<Rightarrow> task_status \<Rightarrow> nat" where
  "countStatuses w st = length (filter (\<lambda>t. status t = st) (tasks w))"

record workflow_summary =
  sum_id :: string
  sum_name :: string
  sum_counts :: "task_status \<Rightarrow> nat"
  sum_createdAt :: int

definition basename_json :: "string \<Rightarrow> string" where
  "basename_json f = take (length f - 5) f"

definition list_summaries :: "plane \<Rightarrow> workflow_summary list" where
  "list_summaries p =
     concat (map (\<lambda>f. case loadWorkflow (disk p) (basename_json f) of
                        None \<Rightarrow> []
                      | Some w \<Rightarrow> [\<lparr> sum_id = wf_id w, sum_name = wf_name w,
                                    sum_counts = countStatuses w, sum_createdAt = createdAt w \<rparr>])
       (filter (\<lambda>f. ends_with f ''.json'') (map fst (disk p))))"

text \<open>
  The wait loop over the workflow seen at each moment; a timer sleeps for at least a millisecond,
  and the clock stands still between the reads of one turn.
\<close>

function wait_loop ::
  "(int \<Rightarrow> ctl_error + task_list) \<Rightarrow> string \<Rightarrow> int \<Rightarrow> int \<Rightarrow> int \<Rightarrow> ctl_error + task_list" where
  "wait_loop seen i begun timeout now =
     (case seen now of
        Inl e \<Rightarrow> Inl e
      | Inr w \<Rightarrow>
          (if list_all (\<lambda>t. isTerminal (status t)) (tasks w) then Inr w
           else if now - begun \<ge> timeout then Inl (WaitTimedOut timeout i)
           else wait_loop seen i begun timeout
                  (now + max 1 (min (pollingIntervalMs w) (timeout - (now - begun))))))"
  by pat_completeness auto
termination
  by (relation "measure (\<lambda>(seen, i, begun, timeout, now). nat (timeout - (now - begun)))") auto

definition wait :: "(int \<Rightarrow> ctl_error + task_list) \<Rightarrow> string \<Rightarrow> int option \<Rightarrow> int \<Rightarrow> ctl_error + task_list" where
  "wait seen i timeoutMs begun = wait_loop seen i begun (nullish timeoutMs 600000) begun"

section \<open>Edit and retry\<close>

record task_updates =
  u_prompt :: "string option"
  u_failureBehavior :: "failure_behavior option"
  u_failureNotification :: "failure_notification option"
  u_runtimeLimitMs :: "int option"

definition edit_def :: "task_updates \<Rightarrow> task_def \<Rightarrow> task_def" where
  "edit_def u td =
     td\<lparr>kind := (case (kind td, u_prompt u) of
                   (KAgent a, Some pr) \<Rightarrow> KAgent (a\<lparr>prompt := pr\<rparr>)
                 | (k, _) \<Rightarrow> k),
        failureBehavior := nullish (u_failureBehavior u) (failureBehavior td),
        failureNotification := nullish (u_failureNotification u) (failureNotification td),
        td_runtimeLimitMs := (case u_runtimeLimitMs u of None \<Rightarrow> td_runtimeLimitMs td | Some l \<Rightarrow> Some l)\<rparr>"

text \<open>\<open>wf.tasks.find\<close>: the first task with the id, and its position.\<close>

fun find_task :: "task_id \<Rightarrow> task_state list \<Rightarrow> (nat \<times> task_state) option" where
  "find_task i [] = None"
| "find_task i (t # ts) =
     (if tid t = i then Some (0, t) else map_option (\<lambda>(n, u). (Suc n, u)) (find_task i ts))"

definition edit_tasks :: "string \<Rightarrow> task_id \<Rightarrow> task_updates \<Rightarrow> task_list \<Rightarrow> ctl_error + task_list" where
  "edit_tasks i taskId u w =
     (case find_task taskId (tasks w) of
        None \<Rightarrow> Inl (TaskNotFound taskId i)
      | Some (n, t) \<Rightarrow>
          (if status t = InProgress then Inl (TaskInProgress taskId)
           else Inr (w\<lparr>tasks := (tasks w)[n := t\<lparr>taskDef := edit_def u (taskDef t)\<rparr>]\<rparr>)))"

definition edit :: "string \<Rightarrow> task_id \<Rightarrow> task_updates \<Rightarrow> plane \<Rightarrow> (ctl_error + unit) \<times> plane" where
  "edit i taskId u p =
     (case map_get (orchestrators p) i of
        Some s \<Rightarrow>
          (case workflow s of
             None \<Rightarrow> (Inl (WorkflowNotFound i), p)
           | Some w \<Rightarrow>
               (case edit_tasks i taskId u w of
                  Inl e \<Rightarrow> (Inl e, p)
                | Inr w' \<Rightarrow> (Inr (), persist w' (put_orch i (s\<lparr>workflow := Some w'\<rparr>) p))))
      | None \<Rightarrow>
          (case loadWorkflow (disk p) i of
             None \<Rightarrow> (Inl (WorkflowNotFound i), p)
           | Some w \<Rightarrow>
               (case edit_tasks i taskId u w of
                  Inl e \<Rightarrow> (Inl e, p)
                | Inr w' \<Rightarrow> (Inr (), persist w' p))))"

definition resetTask :: "task_state \<Rightarrow> task_state" where
  "resetTask t =
     t\<lparr>status := Pending, error := None, task_output := None, startedAt := None, completedAt := None,
       sessionKey := None, failureHandled := False\<rparr>"

definition retry_downstream :: "task_id list \<Rightarrow> bool \<Rightarrow> task_state \<Rightarrow> task_state" where
  "retry_downstream downstreamIds cascade t =
     (if tid t \<notin> set downstreamIds then t
      else if status t = Failed then resetTask t
      else if cascade \<and> status t = Done then resetTask t
      else t)"

definition retry_tasks :: "string \<Rightarrow> task_id \<Rightarrow> bool \<Rightarrow> task_list \<Rightarrow> ctl_error + task_list" where
  "retry_tasks i taskId cascade w =
     (case find_task taskId (tasks w) of
        None \<Rightarrow> Inl (TaskNotFound taskId i)
      | Some (n, t) \<Rightarrow>
          (if status t \<noteq> Failed \<and> status t \<noteq> Done then Inl (NotRetriable taskId (status t))
           else (let downstreamIds =
                       getTransitiveDependents taskId (graph w) (Some (buildReverseGraph (graph w)))
                 in Inr (w\<lparr>tasks := map (retry_downstream downstreamIds cascade)
                                        ((tasks w)[n := resetTask t])\<rparr>))))"

definition retry ::
  "config \<Rightarrow> string \<Rightarrow> task_id \<Rightarrow> bool \<Rightarrow> plane \<Rightarrow> (ctl_error + unit) \<times> plane" where
  "retry cfg i taskId cascade p =
     (case requireOrchestrator i p of
        Inl e \<Rightarrow> (Inl e, p)
      | Inr (s, w) \<Rightarrow>
          (case retry_tasks i taskId cascade w of
             Inl e \<Rightarrow> (Inl e, p)
           | Inr w' \<Rightarrow>
               (let s1 = setCompleted False (setPaused False (s\<lparr>workflow := Some w'\<rparr>));
                    s2 = (if isPolling s1 then s1 else startPolling cfg s1)
                in finish_op i s2 w' (update_call (statusManager cfg) w') p)))"

definition drop_orchs :: "string list \<Rightarrow> (string, orch) jsmap \<Rightarrow> (string, orch) jsmap" where
  "drop_orchs ids m = fold map_delete ids m"

definition retention :: "retention_options \<Rightarrow> int \<Rightarrow> plane \<Rightarrow> string list \<times> plane" where
  "retention o' now p =
     (let (d, ids) = retentionRun o' now (disk p)
      in (ids, p\<lparr>disk := d, orchestrators := drop_orchs ids (orchestrators p)\<rparr>))"

section \<open>Orphans\<close>

definition orphaned :: "(string \<Rightarrow> string + poll_result) \<Rightarrow> task_state \<Rightarrow> bool" where
  "orphaned poller t \<longleftrightarrow>
     status t = InProgress \<and> truthy_str (sessionKey t)
     \<and> (case poller (the (sessionKey t)) of Inl e \<Rightarrow> True | Inr r \<Rightarrow> False)"

definition detectOrphans ::
  "(string \<Rightarrow> string + poll_result) \<Rightarrow> int \<Rightarrow> task_list \<Rightarrow> task_list \<times> task_id list" where
  "detectOrphans poller now w =
     (w\<lparr>tasks := map (\<lambda>t. if orphaned poller t
                          then fail_task now (Some ''orphaned: subagent session no longer exists'') t
                          else t) (tasks w)\<rparr>,
      map tid (filter (orphaned poller) (tasks w)))"

definition detectAndPersistOrphans ::
  "(string \<Rightarrow> string + poll_result) \<Rightarrow> int \<Rightarrow> task_list \<Rightarrow> disk \<Rightarrow> task_list \<times> task_id list \<times> disk" where
  "detectAndPersistOrphans poller now w d =
     (let (w', ids) = detectOrphans poller now w
      in (w', ids, if ids \<noteq> [] then saveWorkflow w' d else d))"

section \<open>The server\<close>

definition resumed_options :: "string \<Rightarrow> task_list \<Rightarrow> orch_options" where
  "resumed_options dir w =
     \<lparr> o_stateDir = dir, o_currentDepth = nullish (currentDepth w) 0, o_maxDepth = nullish (maxDepth w) 2,
       o_replyTo = nullish (wf_replyTo w) [], o_pollingIntervalMs = pollingIntervalMs w,
       o_runtimeLimitMs = nullish (wf_runtimeLimitMs w) 600000, o_name = None, o_concurrency = None \<rparr>"

definition resume_one :: "config \<Rightarrow> string \<Rightarrow> task_list \<Rightarrow> plane \<Rightarrow> plane" where
  "resume_one cfg dir w p =
     put_orch (wf_id w) (startPolling cfg (restore w (resumed_options dir w) new_orchestrator)) p"

definition server_resume :: "config \<Rightarrow> string \<Rightarrow> plane \<Rightarrow> plane \<times> string list" where
  "server_resume cfg dir p =
     (let incomplete = listIncompleteWorkflows (disk p)
      in (fold (resume_one cfg dir) incomplete p, map wf_id incomplete))"

definition server_start ::
  "config \<Rightarrow> int \<Rightarrow> string \<Rightarrow> task_def list \<Rightarrow> string \<Rightarrow> orch_options \<Rightarrow> plane
     \<Rightarrow> ((start_error + string) \<times> plane) option" where
  "server_start cfg now uuid tds dsl o' p =
     (case start cfg now uuid tds dsl o' new_orchestrator of
        None \<Rightarrow> None
      | Some (Inl e, s) \<Rightarrow> Some (Inl e, p)
      | Some (Inr i, s) \<Rightarrow> Some (Inr i, put_orch i (startPolling cfg s) p))"

definition server_stopAll :: "plane \<Rightarrow> plane" where
  "server_stopAll p = p\<lparr>orchestrators := []\<rparr>"

section \<open>Properties\<close>

lemma plane_get [simp]: "map_get (orchestrators (put_orch i s p)) j = (if j = i then Some s else map_get (orchestrators p) j)"
  by (simp add: put_orch_def)

lemma persist_orchs [simp]: "orchestrators (persist w p) = orchestrators p"
  by (simp add: persist_def)

lemma finish_op_orch:
  "map_get (orchestrators (snd (finish_op i s w calls p))) i = Some (add_trace (fst (status_calls calls)) s)"
  by (simp add: finish_op_def Let_def split: prod.split option.split)

lemma add_trace_frame [simp]:
  "workflow (add_trace es s) = workflow s" "completed (add_trace es s) = completed s"
  "paused (add_trace es s) = paused s" "opts (add_trace es s) = opts s"
  "pollingTimer (add_trace es s) = pollingTimer s" "statusTimer (add_trace es s) = statusTimer s"
  "templateApplied (add_trace es s) = templateApplied s"
  by (simp_all add: add_trace_def)

lemma requireOrchestrator_Inr:
  "requireOrchestrator i p = Inr (s, w) \<longleftrightarrow> map_get (orchestrators p) i = Some s \<and> workflow s = Some w"
  by (auto simp: requireOrchestrator_def split: option.split)

lemma abort_task_terminal: "isTerminal (status (abort_task now t))"
  by (simp add: abort_task_def) (simp add: isTerminal_def)

text \<open>
  Aborting a known workflow stops it for good: its orchestrator is complete with both timers
  off and every task terminal, whatever the status manager does, finished tasks keep their state,
  and any number of later ticks changes nothing.
\<close>

theorem abort_stops:
  assumes "map_get (orchestrators p) i = Some s" "workflow s = Some w"
  shows "\<exists>s'. map_get (orchestrators (snd (abort sm canAbort now i p))) i = Some s'
    \<and> completed s' \<and> \<not> pollingTimer s' \<and> \<not> statusTimer s' \<and> ticks es s' = s'
    \<and> (\<exists>w'. workflow s' = Some w' \<and> list_all (\<lambda>t. isTerminal (status t)) (tasks w')
         \<and> list_all2 (\<lambda>t t'. isTerminal (status t) \<longrightarrow> t' = t) (tasks w) (tasks w'))"
proof -
  let ?w = "w\<lparr>tasks := map (abort_task now) (tasks w)\<rparr>"
  have w: "list_all (\<lambda>t. isTerminal (status t)) (tasks ?w)"
    "list_all2 (\<lambda>t t'. isTerminal (status t) \<longrightarrow> t' = t) (tasks w) (tasks ?w)"
    by (simp add: list_all_iff abort_task_terminal, simp add: list_all2_conv_all_nth abort_task_def)
  have r: "requireOrchestrator i p = Inr (s, w)" using assms by (simp add: requireOrchestrator_Inr)
  define s1 where "s1 = setCompleted True (stopPolling (add_trace (ctl_kills canAbort w) (s\<lparr>workflow := Some ?w\<rparr>)))"
  have s1: "completed s1" "\<not> pollingTimer s1" "\<not> statusTimer s1" "workflow s1 = Some ?w"
    by (simp_all add: s1_def setCompleted_def stopPolling_def)
  obtain calls where a: "abort sm canAbort now i p = finish_op i s1 ?w calls p"
    using r by (simp add: abort_def Let_def s1_def)
  have "ticks es (add_trace (fst (status_calls calls)) s1) = add_trace (fst (status_calls calls)) s1"
    using s1(1) by (intro ticks_completed) simp
  with finish_op_orch [of i s1 ?w calls p] s1 w show ?thesis unfolding a by auto
qed

lemma find_task_Some:
  "find_task i ts = Some (n, t) \<Longrightarrow> n < length ts \<and> ts ! n = t \<and> tid t = i"
  by (induction ts arbitrary: n) (auto split: if_splits)

lemma find_task_mem: "ids_ok ts \<Longrightarrow> t \<in> set ts \<Longrightarrow> \<exists>n. find_task (tid t) ts = Some (n, t)"
proof (induction ts)
  case (Cons u ts)
  then show ?case by (cases "t = u") (fastforce simp: image_iff)+
qed simp

lemma resetTask_simps [simp]: "taskDef (resetTask t) = taskDef t" "status (resetTask t) = Pending"
  by (simp_all add: resetTask_def)

text \<open>
  Retrying a failed or done task of an acyclic workflow resets exactly the task, its failed
  transitive dependents and, when cascading, its done ones; every other task is unchanged. The
  orchestrator is neither paused nor complete afterwards and its polling loop runs.
\<close>

theorem retry_resets:
  assumes "map_get (orchestrators p) i = Some s" "workflow s = Some w" "opts s = Some o'"
    and "ids_ok (tasks w)" "map_ok (graph w)" "acyclic (edges (graph w))"
    and "t \<in> set (tasks w)" "status t = Failed \<or> status t = Done"
  shows "\<exists>s'. map_get (orchestrators (snd (retry cfg i (tid t) cascade p))) i = Some s'
    \<and> \<not> paused s' \<and> \<not> completed s' \<and> pollingTimer s'
    \<and> (\<exists>w'. workflow s' = Some w'
         \<and> tasks w' = map (\<lambda>u. if tid u = tid t
                \<or> (tid u, tid t) \<in> (edges (graph w))\<^sup>+ \<and> (status u = Failed \<or> cascade \<and> status u = Done)
              then resetTask u else u) (tasks w))"
proof -
  let ?down = "getTransitiveDependents (tid t) (graph w) (Some (buildReverseGraph (graph w)))"
  have down: "j \<in> set ?down \<longleftrightarrow> (j, tid t) \<in> (edges (graph w))\<^sup>+" for j
    using transitive_search.search_trancl [OF transitive_search_dependents [OF assms(5)], of "tid t"]
    by (auto simp: trancl_converse)
  obtain n where n: "find_task (tid t) (tasks w) = Some (n, t)" using find_task_mem [OF assms(4,7)] by blast
  have self: "tid t \<notin> set ?down" using assms(6) by (simp add: down acyclic_def)
  define ts where "ts = map (retry_downstream ?down cascade) ((tasks w)[n := resetTask t])"
  have ts: "ts = map (\<lambda>u. if tid u = tid t
        \<or> (tid u, tid t) \<in> (edges (graph w))\<^sup>+ \<and> (status u = Failed \<or> cascade \<and> status u = Done)
      then resetTask u else u) (tasks w)"
  proof (rule nth_equalityI)
    fix j assume "j < length ts"
    then have j: "j < length (tasks w)" by (simp add: ts_def)
    show "ts ! j = map (\<lambda>u. if tid u = tid t
        \<or> (tid u, tid t) \<in> (edges (graph w))\<^sup>+ \<and> (status u = Failed \<or> cascade \<and> status u = Done)
      then resetTask u else u) (tasks w) ! j"
    proof (cases "j = n")
      case True
      with j find_task_Some [OF n] self show ?thesis by (simp add: ts_def retry_downstream_def)
    next
      case False
      with j find_task_Some [OF n] assms(4) have "tid (tasks w ! j) \<noteq> tid t"
        by (metis distinct_conv_nth length_map nth_map)
      with False j show ?thesis by (simp add: ts_def retry_downstream_def down)
    qed
  qed (simp add: ts_def)
  have r: "requireOrchestrator i p = Inr (s, w)" using assms(1,2) by (simp add: requireOrchestrator_Inr)
  have w': "retry_tasks i (tid t) cascade w = Inr (w\<lparr>tasks := ts\<rparr>)"
    using n assms(8) by (auto simp: retry_tasks_def Let_def ts_def)
  define s1 where "s1 = setCompleted False (setPaused False (s\<lparr>workflow := Some (w\<lparr>tasks := ts\<rparr>)\<rparr>))"
  define s2 where "s2 = (if isPolling s1 then s1 else startPolling cfg s1)"
  have s2: "\<not> paused s2" "\<not> completed s2" "pollingTimer s2" "workflow s2 = Some (w\<lparr>tasks := ts\<rparr>)"
    using assms(3) by (auto simp: s2_def s1_def setCompleted_def setPaused_def isPolling_def startPolling_def startStatusTimer_def)
  have e: "retry cfg i (tid t) cascade p =
      finish_op i s2 (w\<lparr>tasks := ts\<rparr>) (update_call (statusManager cfg) (w\<lparr>tasks := ts\<rparr>)) p"
    using r w' by (simp add: retry_def Let_def s1_def s2_def)
  with finish_op_orch [of i s2] s2 ts show ?thesis unfolding e by auto
qed

lemma retry_known:
  "map_get (orchestrators p) i = Some s \<Longrightarrow> \<exists>s'. map_get (orchestrators (snd (retry cfg i j cascade p))) i = Some s'"
  by (auto simp: retry_def Let_def finish_op_orch split: sum.split)

text \<open>
  A retry does not forget which output templates were applied: a task whose template was
  applied before the retry keeps its raw output the next time it is done.
\<close>

theorem retry_keeps_template_marks:
  assumes "map_get (orchestrators p) i = Some s" "tid t \<in> set (templateApplied s)"
    and "map_get (orchestrators (snd (retry cfg i j cascade p))) i = Some s'"
  shows "templateApplied s' = templateApplied s
    \<and> applyOutputTemplate t (templateApplied s') = (t, templateApplied s')"
proof -
  have "templateApplied s' = templateApplied s"
    using assms(1,3)
    by (auto simp: retry_def Let_def finish_op_orch requireOrchestrator_def setCompleted_def setPaused_def
        startPolling_def startStatusTimer_def split: option.splits sum.splits if_splits)
  with assms(2) show ?thesis by (simp add: applyOutputTemplate_def)
qed

text \<open>
  An edit of a task in progress is refused and changes nothing; an accepted edit changes one
  definition only, never its id or kind of task, and never a status.
\<close>

theorem edit_guard:
  assumes "ids_ok (tasks w)" "t \<in> set (tasks w)"
  shows "if status t = InProgress
    then edit_tasks i (tid t) u w = Inl (TaskInProgress (tid t))
    else \<exists>w'. edit_tasks i (tid t) u w = Inr w'
      \<and> tasks w' = map (\<lambda>v. if tid v = tid t then v\<lparr>taskDef := edit_def u (taskDef v)\<rparr> else v) (tasks w)
      \<and> map tid (tasks w') = map tid (tasks w) \<and> map status (tasks w') = map status (tasks w)"
proof -
  obtain n where n: "find_task (tid t) (tasks w) = Some (n, t)" using find_task_mem [OF assms] by blast
  have id: "td_id (edit_def u td) = td_id td" for td by (simp add: edit_def_def)
  have e: "(tasks w)[n := t\<lparr>taskDef := edit_def u (taskDef t)\<rparr>] =
      map (\<lambda>v. if tid v = tid t then v\<lparr>taskDef := edit_def u (taskDef v)\<rparr> else v) (tasks w)"
  proof (rule nth_equalityI)
    fix j assume "j < length ((tasks w)[n := t\<lparr>taskDef := edit_def u (taskDef t)\<rparr>])"
    then have j: "j < length (tasks w)" by simp
    have "j \<noteq> n \<Longrightarrow> tid (tasks w ! j) \<noteq> tid t"
      using j find_task_Some [OF n] assms(1) by (metis distinct_conv_nth length_map nth_map)
    with j find_task_Some [OF n]
    show "(tasks w)[n := t\<lparr>taskDef := edit_def u (taskDef t)\<rparr>] ! j =
      map (\<lambda>v. if tid v = tid t then v\<lparr>taskDef := edit_def u (taskDef v)\<rparr> else v) (tasks w) ! j"
      by (cases "j = n") auto
  qed simp
  have "map tid (map (\<lambda>v. if tid v = tid t then v\<lparr>taskDef := edit_def u (taskDef v)\<rparr> else v) (tasks w)) = map tid (tasks w)"
    "map status (map (\<lambda>v. if tid v = tid t then v\<lparr>taskDef := edit_def u (taskDef v)\<rparr> else v) (tasks w)) = map status (tasks w)"
    by (simp_all add: id)
  with n show ?thesis by (simp add: edit_tasks_def e)
qed

definition open_at :: "(int \<Rightarrow> ctl_error + task_list) \<Rightarrow> int \<Rightarrow> bool" where
  "open_at seen m \<longleftrightarrow>
     (case seen m of Inl e \<Rightarrow> False | Inr w \<Rightarrow> \<not> list_all (\<lambda>t. isTerminal (status t)) (tasks w))"

definition wait_ok ::
  "(int \<Rightarrow> ctl_error + task_list) \<Rightarrow> string \<Rightarrow> int \<Rightarrow> int \<Rightarrow> int \<Rightarrow> ctl_error + task_list \<Rightarrow> bool" where
  "wait_ok seen i begun timeout now r \<longleftrightarrow>
     (\<exists>m. now \<le> m \<and> m \<le> max now (begun + timeout) \<and>
        (case r of
           Inr w \<Rightarrow> seen m = Inr w \<and> list_all (\<lambda>t. isTerminal (status t)) (tasks w)
         | Inl e \<Rightarrow> e = WaitTimedOut timeout i \<and> begun + timeout \<le> m \<and> open_at seen m))"

lemma wait_loop_ok:
  assumes "\<And>m. \<exists>w. seen m = Inr w"
  shows "wait_ok seen i begun timeout now (wait_loop seen i begun timeout now)"
  using assms
proof (induction seen i begun timeout now rule: wait_loop.induct)
  case (1 seen i begun timeout now)
  obtain w where w: "seen now = Inr w" using "1.prems" by blast
  let ?done = "list_all (\<lambda>t. isTerminal (status t)) (tasks w)"
  consider "?done" | "\<not> ?done" "now - begun \<ge> timeout" | "\<not> ?done" "now - begun < timeout" by linarith
  then show ?case
  proof cases
    case 1
    with w show ?thesis by (subst wait_loop.simps) (auto simp: wait_ok_def intro!: exI [of _ now])
  next
    case 2
    with w show ?thesis
      by (subst wait_loop.simps) (auto simp: wait_ok_def open_at_def intro!: exI [of _ now])
  next
    case 3
    let ?next = "now + max 1 (min (pollingIntervalMs w) (timeout - (now - begun)))"
    have n: "now \<le> ?next" "?next \<le> begun + timeout" using 3(2) by auto
    have "wait_ok seen i begun timeout ?next (wait_loop seen i begun timeout ?next)"
      using "1.IH" [OF w] 3 "1.prems" by simp
    then obtain m where m: "?next \<le> m" "m \<le> max ?next (begun + timeout)"
      "case wait_loop seen i begun timeout ?next of
           Inr w \<Rightarrow> seen m = Inr w \<and> list_all (\<lambda>t. isTerminal (status t)) (tasks w)
         | Inl e \<Rightarrow> e = WaitTimedOut timeout i \<and> begun + timeout \<le> m \<and> open_at seen m"
      unfolding wait_ok_def by blast
    have "wait_loop seen i begun timeout now = wait_loop seen i begun timeout ?next"
      using w 3 by (subst wait_loop.simps) simp
    with m n show ?thesis unfolding wait_ok_def by (intro exI [of _ m]) auto
  qed
qed

text \<open>
  Waiting for a workflow that stays known returns by the deadline: either with the workflow
  as it was at some moment when every task was terminal, or with the timeout error, at a moment
  past the deadline when a task was still open.
\<close>

theorem wait_returns:
  assumes "\<And>m. \<exists>w. seen m = Inr w"
  shows "\<exists>m. begun \<le> m \<and> m \<le> max begun (begun + nullish timeoutMs 600000) \<and>
    (case wait seen i timeoutMs begun of
       Inr w \<Rightarrow> seen m = Inr w \<and> list_all (\<lambda>t. isTerminal (status t)) (tasks w)
     | Inl e \<Rightarrow> e = WaitTimedOut (nullish timeoutMs 600000) i
         \<and> begun + nullish timeoutMs 600000 \<le> m \<and> open_at seen m)"
  using wait_loop_ok [of seen i begun "nullish timeoutMs 600000" begun, OF assms]
  by (simp add: wait_def wait_ok_def)

lemma fold_resume_get:
  "map_get (orchestrators (fold (resume_one cfg dir) ws p)) i =
     (case find (\<lambda>w. wf_id w = i) (rev ws) of
        Some w \<Rightarrow> Some (startPolling cfg (restore w (resumed_options dir w) new_orchestrator))
      | None \<Rightarrow> map_get (orchestrators p) i)"
  by (induction ws arbitrary: p) (auto simp: resume_one_def find_snoc split: option.splits)

text \<open>
  After a restart every workflow on disk with an open task is running again: it has an
  orchestrator that holds a workflow with its id as it was saved, not complete, not paused,
  with the polling loop on.
\<close>

theorem server_resume_running:
  assumes "w \<in> set (listIncompleteWorkflows (disk p))"
  shows "\<exists>s w'. map_get (orchestrators (fst (server_resume cfg dir p))) (wf_id w) = Some s
    \<and> w' \<in> set (listIncompleteWorkflows (disk p)) \<and> wf_id w' = wf_id w \<and> workflow s = Some w'
    \<and> pollingTimer s \<and> \<not> completed s \<and> \<not> paused s"
proof -
  let ?ws = "listIncompleteWorkflows (disk p)"
  obtain w' where w': "find (\<lambda>v. wf_id v = wf_id w) (rev ?ws) = Some w'"
    using assms by (cases "find (\<lambda>v. wf_id v = wf_id w) (rev ?ws)") (auto simp: find_None_iff)
  then have "w' \<in> set ?ws" "wf_id w' = wf_id w"
    by (auto simp: find_Some_iff) (metis length_rev nth_mem set_rev)
  with w' show ?thesis
    by (simp add: server_resume_def Let_def fold_resume_get startPolling_def startStatusTimer_def restore_def
        stopPolling_def)
qed

text \<open>
  Orphan detection fails exactly the tasks in progress whose session can no longer be
  polled, reports their ids, and leaves every other task alone.
\<close>

theorem detectOrphans_exact:
  "let (w', ids) = detectOrphans poller now w in
     list_all2 (\<lambda>t t'. if orphaned poller t then status t' = Failed \<and> taskDef t' = taskDef t else t' = t)
       (tasks w) (tasks w')
     \<and> set ids = {tid t |t. t \<in> set (tasks w) \<and> orphaned poller t}"
  by (auto simp: detectOrphans_def list_all2_conv_all_nth)

end
