(* ===== verification/Status_Manager.thy ===== *)
theory Status_Manager
  imports Workflow_Control
begin

text \<open>
  The status post of a workflow: its text (\<open>packages/workflow/src/status-message.ts\<close>) and the
  manager that posts and edits it (\<open>status-manager.ts\<close>, with the result types of
  \<open>message-adapter.ts\<close>). Emoji and the ellipsis are their UTF-8 bytes.
\<close>

section \<open>Texts\<close>

definition STATUS_EMOJI :: "task_status \<Rightarrow> string" where
  "STATUS_EMOJI st =
     (case st of
        Pending \<Rightarrow> [CHR 0xE2, CHR 0x8F, CHR 0xB3]
      | InProgress \<Rightarrow> [CHR 0xF0, CHR 0x9F, CHR 0x9A, CHR 0x80]
      | Paused \<Rightarrow> [CHR 0xE2, CHR 0x8F, CHR 0xB8, CHR 0xEF, CHR 0xB8, CHR 0x8F]
      | Done \<Rightarrow> [CHR 0xE2, CHR 0x9C, CHR 0x85]
      | Failed \<Rightarrow> [CHR 0xE2, CHR 0x9D, CHR 0x8C]
      | Skipped \<Rightarrow> [CHR 0xE2, CHR 0x8F, CHR 0xAD, CHR 0xEF, CHR 0xB8, CHR 0x8F])"

definition taskDisplayName :: "task_state \<Rightarrow> string" where
  "taskDisplayName t =
     (if truthy_str (title (taskDef t)) then the (title (taskDef t))
      else (let label = getTaskPromptOrLabel (taskDef t)
            in if length label > 57 then take 57 label @ [CHR 0xE2, CHR 0x80, CHR 0xA6] else label))"

definition taskDuration :: "int \<Rightarrow> task_state \<Rightarrow> string option" where
  "taskDuration now t =
     map_option (\<lambda>s. formatDuration (nullish (completedAt t) now - s)) (startedAt t)"

definition duration_suffix :: "int \<Rightarrow> task_state \<Rightarrow> string" where
  "duration_suffix now t = (case taskDuration now t of None \<Rightarrow> [] | Some d \<Rightarrow> '' ('' @ d @ '')'')"

text \<open>The sort key of a dependency id; ids are numbers, infinities sort to the ends.\<close>

definition num_le :: "jsnum \<Rightarrow> jsnum \<Rightarrow> bool" where
  "num_le x y =
     (case x of
        JsNegInf \<Rightarrow> True
      | JsNum a \<Rightarrow> (case y of JsNum b \<Rightarrow> a \<le> b | JsInf \<Rightarrow> True | _ \<Rightarrow> False)
      | JsInf \<Rightarrow> y = JsInf
      | JsNaN \<Rightarrow> True)"

fun insert_num :: "jsnum \<Rightarrow> jsnum list \<Rightarrow> jsnum list" where
  "insert_num x [] = [x]"
| "insert_num x (y # ys) = (if num_le x y then x # y # ys else y # insert_num x ys)"

definition sort_nums :: "jsnum list \<Rightarrow> jsnum list" where
  "sort_nums xs = foldr insert_num xs []"

definition formatTaskLine :: "int \<Rightarrow> task_id list \<Rightarrow> task_state \<Rightarrow> string" where
  "formatTaskLine now deps t =
     STATUS_EMOJI (status t) @ '' '' @ js_num_text (tid t)
       @ (if deps \<noteq> [] then '' ['' @ js_join '','' (map js_num_text (sort_nums deps)) @ '']'' else [])
       @ '' - '' @ taskDisplayName t @ duration_suffix now t"

definition newline :: string where
  "newline = [CHR 0x0A]"

definition formatStatusMessage :: "int \<Rightarrow> task_list \<Rightarrow> string" where
  "formatStatusMessage now w =
     js_join newline
       ([''**Task workflow:** '' @ wf_name w]
        @ (if truthy_num (concurrency w)
           then [''**Concurrency:** '' @ show_int (the (concurrency w))] else [])
        @ [[]]
        @ map (\<lambda>t. ''- '' @ formatTaskLine now (deps_of (graph w) (tid t)) t) (tasks w))"

definition completed_tally :: "task_list \<Rightarrow> int" where
  "completed_tally w =
     int (length (tasks w)) - int (length (filter (\<lambda>t. status t = Failed) (tasks w)))
       - int (length (filter (\<lambda>t. status t = Skipped) (tasks w)))"

definition tally :: "string \<Rightarrow> int \<Rightarrow> task_list \<Rightarrow> string" where
  "tally label n w = label @ show_int n @ ''/'' @ show_nat (length (tasks w))"

definition formatSummaryMessage :: "int \<Rightarrow> task_list \<Rightarrow> string" where
  "formatSummaryMessage now w =
     (let failed = filter (\<lambda>t. status t = Failed) (tasks w);
          skipped = filter (\<lambda>t. status t = Skipped) (tasks w);
          lastCompleted = (if tasks w = [] then 0 else Max (set (map (\<lambda>t. nullish (completedAt t) 0) (tasks w))))
      in js_join newline
           ([''**Task workflow complete:** '' @ wf_name w,
             [CHR 0xE2, CHR 0x8F, CHR 0xB1, CHR 0xEF, CHR 0xB8, CHR 0x8F] @ '' **Duration:** ''
               @ formatDuration (lastCompleted - createdAt w),
             tally (STATUS_EMOJI Done @ '' **Completed:** '') (completed_tally w) w]
            @ (if skipped \<noteq> []
               then [tally (STATUS_EMOJI Skipped @ '' **Skipped:** '') (int (length skipped)) w] else [])
            @ (if failed \<noteq> []
               then tally (STATUS_EMOJI Failed @ '' **Failed:** '') (int (length failed)) w
                    # map (\<lambda>t. ''- '' @ js_num_text (tid t) @ '' - '' @ taskDisplayName t @ duration_suffix now t) failed
               else [])))"

section \<open>The manager\<close>

datatype edit_failure = NotFound | Unsupported | Transient | Permanent

datatype edit_result = EditOk | EditFailed edit_failure

datatype message_call = PostMessage string | EditMessage string string | PinMessage string

text \<open>
  The adapter's answers; a rejected promise is Inl. Pin results do not matter: a failing pin is
  swallowed.
\<close>

record message_adapter =
  postMessage :: "string \<Rightarrow> string + string"
  editMessage :: "string \<Rightarrow> string \<Rightarrow> string + edit_result"
  can_pin :: bool

record status_manager =
  pinStatusPost :: bool
  messageId :: "string option"
  dead :: bool
  calls :: "message_call list"

definition call_made :: "message_call \<Rightarrow> status_manager \<Rightarrow> status_manager" where
  "call_made c m = m\<lparr>calls := calls m @ [c]\<rparr>"

definition pinIfSupported :: "message_adapter \<Rightarrow> string \<Rightarrow> status_manager \<Rightarrow> status_manager" where
  "pinIfSupported a i m =
     (if \<not> pinStatusPost m \<or> i = [] \<or> \<not> can_pin a then m else call_made (PinMessage i) m)"

definition post_status :: "message_adapter \<Rightarrow> string \<Rightarrow> status_manager \<Rightarrow> status_manager \<times> string option" where
  "post_status a content m =
     (let m1 = call_made (PostMessage content) m in
      case postMessage a content of
        Inl e \<Rightarrow> (m1, Some e)
      | Inr i \<Rightarrow> (pinIfSupported a i (m1\<lparr>messageId := Some i\<rparr>), None))"

definition postInitialStatus ::
  "message_adapter \<Rightarrow> int \<Rightarrow> task_list \<Rightarrow> status_manager \<Rightarrow> status_manager \<times> string option" where
  "postInitialStatus a now w m = post_status a (formatStatusMessage now w) m"

definition updateStatus ::
  "message_adapter \<Rightarrow> int \<Rightarrow> task_list \<Rightarrow> status_manager \<Rightarrow> status_manager \<times> string option" where
  "updateStatus a now w m =
     (if dead m \<or> \<not> truthy_str (messageId m) then (m, None)
      else (let content = formatStatusMessage now w;
                i = the (messageId m);
                m1 = call_made (EditMessage i content) m
            in case editMessage a i content of
                 Inl e \<Rightarrow> (m1, Some e)
               | Inr EditOk \<Rightarrow> (m1, None)
               | Inr (EditFailed Transient) \<Rightarrow> (m1, None)
               | Inr (EditFailed Permanent) \<Rightarrow> (m1\<lparr>dead := True\<rparr>, None)
               | Inr (EditFailed f) \<Rightarrow> post_status a content m1))"

definition postSummary ::
  "message_adapter \<Rightarrow> int \<Rightarrow> task_list \<Rightarrow> status_manager \<Rightarrow> status_manager \<times> string option" where
  "postSummary a now w m =
     (let content = formatSummaryMessage now w; m1 = call_made (PostMessage content) m in
      case postMessage a content of Inl e \<Rightarrow> (m1, Some e) | Inr i \<Rightarrow> (m1, None))"

section \<open>Properties\<close>

lemma post_status_dead [simp]: "dead (fst (post_status a c m)) = dead m"
  by (simp add: post_status_def Let_def pinIfSupported_def call_made_def split: sum.split)

definition updates :: "(message_adapter \<times> int \<times> task_list) list \<Rightarrow> status_manager \<Rightarrow> status_manager" where
  "updates us m = fold (\<lambda>(a, now, w) m. fst (updateStatus a now w m)) us m"

lemma updates_dead: "dead m \<Longrightarrow> updates us m = m"
  by (induction us arbitrary: m) (auto simp: updates_def updateStatus_def)

text \<open>
  A permanent edit failure latches the manager: that update makes one edit call and no post,
  and no later update, whatever the adapter would answer, calls the platform again.
\<close>

theorem permanent_latches:
  assumes "\<not> dead m" "messageId m = Some i" "i \<noteq> []"
    and "editMessage a i (formatStatusMessage now w) = Inr (EditFailed Permanent)"
  shows "calls (updates us (fst (updateStatus a now w m))) =
      calls m @ [EditMessage i (formatStatusMessage now w)]"
proof -
  have m1: "fst (updateStatus a now w m) = (call_made (EditMessage i (formatStatusMessage now w)) m)\<lparr>dead := True\<rparr>"
    using assms by (simp add: updateStatus_def truthy_str_def Let_def)
  show ?thesis unfolding m1 by (subst updates_dead) (simp_all add: call_made_def)
qed

text \<open>
  The manager posts a new status message only when the old one cannot be edited any more
  (not found, or editing unsupported): after a successful edit or a transient failure it has made
  the one edit call and keeps the message id.
\<close>

theorem repost_only_when_gone:
  assumes "\<not> dead m" "messageId m = Some i" "i \<noteq> []"
    and "editMessage a i (formatStatusMessage now w) = Inr r"
  shows "(r = EditOk \<or> r = EditFailed Transient \<longrightarrow>
      updateStatus a now w m = (m\<lparr>calls := calls m @ [EditMessage i (formatStatusMessage now w)]\<rparr>, None))
    \<and> (r = EditFailed NotFound \<or> r = EditFailed Unsupported \<longrightarrow>
      updateStatus a now w m =
        post_status a (formatStatusMessage now w)
          (m\<lparr>calls := calls m @ [EditMessage i (formatStatusMessage now w)]\<rparr>))"
  using assms by (auto simp: updateStatus_def truthy_str_def Let_def call_made_def)

text \<open>
  In the summary of a finished workflow the completed tally is the number of tasks that are
  done.
\<close>

theorem completed_tally_done:
  assumes "\<forall>t \<in> set (tasks w). isTerminal (status t)"
  shows "completed_tally w = int (length (filter (\<lambda>t. status t = Done) (tasks w)))"
proof -
  have "int (length ts) = int (length (filter (\<lambda>t. status t = Done) ts))
      + int (length (filter (\<lambda>t. status t = Failed) ts)) + int (length (filter (\<lambda>t. status t = Skipped) ts))"
    if "\<forall>t \<in> set ts. isTerminal (status t)" for ts
    using that by (induction ts) (auto simp: isTerminal_def)
  from this [OF assms] show ?thesis by (simp add: completed_tally_def)
qed

end
