(* ===== verification/Turn_Queue.thy ===== *)
theory Turn_Queue
  imports Prelude "HOL-Library.Multiset"
begin

text \<open>
  The two-tier turn queue of a session, \<open>packages/daemon/src/sessions/session-turn-queue.ts\<close>.
  A turn is identified by its id (the source compares entry objects); what the queue does to the
  outside, starting a turn, settling the promise of \<open>enqueue\<close>, calling a hook, is an event of
  the log \<open>q_log\<close>. Promise callbacks are operations of their own: \<open>settle\<close> is the
  \<open>then/catch/finally\<close> chain of a started turn.
\<close>

section \<open>State\<close>

datatype turn_priority = SystemTurn | UserTurn

record queue_entry =
  qe_id :: string
  qe_priority :: turn_priority
  qe_label :: string
  qe_enqueuedAt :: int
  qe_onQueued :: bool
  qe_onDequeued :: bool
  qe_dequeued :: bool

record session_queue =
  high :: "queue_entry list"
  normal :: "queue_entry list"
  running :: bool
  runningEntry :: "queue_entry option"
  runningSince :: "int option"
  consecutiveHighTurns :: nat

datatype queue_event =
    Accepted string string
  | QueueFull string turn_priority nat
  | OnQueued string string
  | OnDequeued string string
  | Started string string
  | Dropped string string \<comment> \<open>a waiting entry, rejected with \<open>TurnDroppedError\<close>\<close>
  | Released string string \<comment> \<open>the running entry, rejected by a forced release\<close>
  | Settled string string bool \<comment> \<open>resolved, or rejected with the turn's error\<close>
  | TurnEnd string

record turn_queue =
  q_sessions :: "(string, session_queue) jsmap"
  starvationThreshold :: nat
  q_maxDepth :: nat
  q_blocked :: "string list"
  q_log :: "queue_event list"

definition new_turn_queue :: "nat \<Rightarrow> nat \<Rightarrow> turn_queue" where
  "new_turn_queue threshold depth =
     \<lparr> q_sessions = [], starvationThreshold = threshold, q_maxDepth = depth, q_blocked = [], q_log = [] \<rparr>"

definition empty_session :: session_queue where
  "empty_session =
     \<lparr> high = [], normal = [], running = False, runningEntry = None, runningSince = None,
       consecutiveHighTurns = 0 \<rparr>"

definition log_events :: "queue_event list \<Rightarrow> turn_queue \<Rightarrow> turn_queue" where
  "log_events es q = q\<lparr>q_log := q_log q @ es\<rparr>"

definition put_session :: "string \<Rightarrow> session_queue \<Rightarrow> turn_queue \<Rightarrow> turn_queue" where
  "put_session s sq q = q\<lparr>q_sessions := map_set s sq (q_sessions q)\<rparr>"

definition getOrCreate :: "string \<Rightarrow> turn_queue \<Rightarrow> session_queue" where
  "getOrCreate s q = nullish (map_get (q_sessions q) s) empty_session"

definition cleanup :: "string \<Rightarrow> session_queue \<Rightarrow> turn_queue \<Rightarrow> turn_queue" where
  "cleanup s sq q =
     (if \<not> running sq \<and> high sq = [] \<and> normal sq = []
      then q\<lparr>q_sessions := map_delete s (q_sessions q)\<rparr> else q)"

text \<open>The hook fires once per entry: the flag is set when the entry leaves the queue.\<close>

definition dequeue_events :: "string \<Rightarrow> queue_entry \<Rightarrow> queue_event list" where
  "dequeue_events s e = (if qe_dequeued e \<or> \<not> qe_onDequeued e then [] else [OnDequeued s (qe_id e)])"

section \<open>Choosing and starting the next turn\<close>

definition pickNext :: "nat \<Rightarrow> session_queue \<Rightarrow> queue_entry option \<times> session_queue" where
  "pickNext threshold sq =
     (if high sq = [] \<and> normal sq = [] then (None, sq)
      else if normal sq \<noteq> [] \<and> consecutiveHighTurns sq \<ge> threshold \<and> high sq \<noteq> []
        then (Some (hd (normal sq)), sq\<lparr>consecutiveHighTurns := 0, normal := tl (normal sq)\<rparr>)
      else if high sq \<noteq> []
        then (Some (hd (high sq)),
              sq\<lparr>consecutiveHighTurns := consecutiveHighTurns sq + 1, high := tl (high sq)\<rparr>)
      else (Some (hd (normal sq)), sq\<lparr>consecutiveHighTurns := 0, normal := tl (normal sq)\<rparr>))"

definition pump :: "int \<Rightarrow> string \<Rightarrow> turn_queue \<Rightarrow> turn_queue" where
  "pump now s q =
     (if s \<in> set (q_blocked q) then q
      else (case map_get (q_sessions q) s of
              None \<Rightarrow> q
            | Some sq \<Rightarrow>
                (if running sq then q
                 else (case pickNext (starvationThreshold q) sq of
                         (None, sq') \<Rightarrow> cleanup s sq' q
                       | (Some e, sq') \<Rightarrow>
                           log_events (dequeue_events s e @ [Started s (qe_id e)])
                             (put_session s
                               (sq'\<lparr>running := True, runningEntry := Some (e\<lparr>qe_dequeued := True\<rparr>),
                                    runningSince := Some now\<rparr>) q)))))"

text \<open>
  The promise of a started turn settles. Only the entry that owns the running slot releases it;
  \<open>throws\<close> says whether the \<open>onTurnEnd\<close> callback throws, which leaves the slot held.
\<close>

definition settle :: "int \<Rightarrow> bool \<Rightarrow> bool \<Rightarrow> string \<Rightarrow> string \<Rightarrow> turn_queue \<Rightarrow> turn_queue" where
  "settle now ok throws s i q =
     (let q1 = log_events [Settled s i ok] q in
      case map_get (q_sessions q) s of
        None \<Rightarrow> q1
      | Some sq \<Rightarrow>
          (if map_option qe_id (runningEntry sq) \<noteq> Some i then q1
           else (let q2 = log_events [TurnEnd s] (q1\<lparr>q_blocked := removeAll s (q_blocked q1)\<rparr>) in
                 if throws then q2
                 else pump now s
                        (put_session s (sq\<lparr>running := False, runningEntry := None, runningSince := None\<rparr>) q2))))"

section \<open>Operations\<close>

definition enqueue ::
  "int \<Rightarrow> string \<Rightarrow> string \<Rightarrow> turn_priority \<Rightarrow> string \<Rightarrow> bool \<Rightarrow> bool \<Rightarrow> turn_queue \<Rightarrow> turn_queue" where
  "enqueue now i s priority label onQ onD q =
     (let sq = getOrCreate s q;
          arr = (if priority = SystemTurn then high sq else normal sq);
          q0 = put_session s sq q
      in if length arr \<ge> q_maxDepth q then log_events [QueueFull s priority (length arr)] q0
         else (let e = \<lparr> qe_id = i, qe_priority = priority, qe_label = label, qe_enqueuedAt = now,
                         qe_onQueued = onQ, qe_onDequeued = onD, qe_dequeued = False \<rparr>;
                   sq1 = (if priority = SystemTurn then sq\<lparr>high := high sq @ [e]\<rparr>
                          else sq\<lparr>normal := normal sq @ [e]\<rparr>)
               in pump now s
                    (log_events (Accepted s i # (if onQ \<and> running sq then [OnQueued s i] else []))
                      (put_session s sq1 q0))))"

definition beginTurnQueueBlock :: "string \<Rightarrow> turn_queue \<Rightarrow> bool \<times> turn_queue" where
  "beginTurnQueueBlock s q =
     (if (case map_get (q_sessions q) s of None \<Rightarrow> True | Some sq \<Rightarrow> \<not> running sq) \<or> s \<in> set (q_blocked q)
      then (False, q)
      else (True, q\<lparr>q_blocked := set_add s (q_blocked q)\<rparr>))"

definition endTurnQueueBlock :: "int \<Rightarrow> string \<Rightarrow> turn_queue \<Rightarrow> turn_queue" where
  "endTurnQueueBlock now s q =
     (if s \<notin> set (q_blocked q) then q
      else pump now s (q\<lparr>q_blocked := removeAll s (q_blocked q)\<rparr>))"

definition drop_events :: "string \<Rightarrow> queue_entry list \<Rightarrow> queue_event list" where
  "drop_events s es = concat (map (\<lambda>e. dequeue_events s e @ [Dropped s (qe_id e)]) es)"

text \<open>\<open>removeMatching\<close> scans from the end; the events are in that order.\<close>

definition removeMatching :: "(queue_entry \<Rightarrow> bool) \<Rightarrow> queue_entry list \<Rightarrow> queue_entry list \<times> queue_entry list" where
  "removeMatching P arr = (filter (\<lambda>e. \<not> P e) arr, rev (filter P arr))"

definition remove_both :: "(queue_entry \<Rightarrow> bool) \<Rightarrow> string \<Rightarrow> session_queue \<Rightarrow> turn_queue \<Rightarrow> nat \<times> turn_queue" where
  "remove_both P s sq q =
     (let (h, dh) = removeMatching P (high sq);
          (n, dn) = removeMatching P (normal sq);
          sq' = sq\<lparr>high := h, normal := n\<rparr>
      in (length dh + length dn,
          cleanup s sq' (log_events (drop_events s (dh @ dn)) (put_session s sq' q))))"

definition removeById :: "string \<Rightarrow> string list \<Rightarrow> turn_queue \<Rightarrow> nat \<times> turn_queue" where
  "removeById s ids q =
     (case map_get (q_sessions q) s of
        None \<Rightarrow> (0, q)
      | Some sq \<Rightarrow> remove_both (\<lambda>e. qe_id e \<in> set ids) s sq q)"

text \<open>
  \<open>Array.prototype.slice\<close>: its positions are numbers, truncated towards zero and counted
  from the end when they are negative.
\<close>

definition js_trunc :: "rat \<Rightarrow> int" where
  "js_trunc r = (if r < 0 then \<lceil>r\<rceil> else \<lfloor>r\<rfloor>)"

definition js_slice :: "'a list \<Rightarrow> rat \<Rightarrow> rat \<Rightarrow> 'a list" where
  "js_slice xs from to =
     (let n = int (length xs);
          a = (if js_trunc from < 0 then max 0 (n + js_trunc from) else min (js_trunc from) n);
          b = (if js_trunc to < 0 then max 0 (n + js_trunc to) else min (js_trunc to) n)
      in take (nat (b - a)) (drop (nat a) xs))"

text \<open>
  \<open>arr.filter((_, i) => i < start || i > end)\<close>, from position \<open>i\<close> on: here the numbers
  are compared as they are, without the truncation.
\<close>

fun outside_from :: "int \<Rightarrow> rat \<Rightarrow> rat \<Rightarrow> 'a list \<Rightarrow> 'a list" where
  "outside_from i start end' [] = []"
| "outside_from i start end' (x # xs) =
     (if of_int i < start \<or> of_int i > end' then x # outside_from (i + 1) start end' xs
      else outside_from (i + 1) start end' xs)"

definition outside :: "rat \<Rightarrow> rat \<Rightarrow> 'a list \<Rightarrow> 'a list" where
  "outside start end' xs = outside_from 0 start end' xs"

text \<open>
  The priority \<open>None\<close> is the string \<open>all\<close>. The positions are any finite numbers:
  \<open>integration-ops.ts\<close> passes on what the request holds once it is at least 1.
\<close>

definition removeByRange :: "string \<Rightarrow> turn_priority option \<Rightarrow> rat \<Rightarrow> rat \<Rightarrow> turn_queue \<Rightarrow> nat \<times> turn_queue" where
  "removeByRange s priority start end' q =
     (case map_get (q_sessions q) s of
        None \<Rightarrow> (0, q)
      | Some sq \<Rightarrow>
          (case priority of
             None \<Rightarrow>
               (let toRemove = map qe_id (js_slice (high sq @ normal sq) start (end' + 1))
                in remove_both (\<lambda>e. qe_id e \<in> set toRemove) s sq q)
           | Some pr \<Rightarrow>
               (let arr = (if pr = SystemTurn then high sq else normal sq);
                    dropped = js_slice arr start (end' + 1);
                    sq' = (if pr = SystemTurn then sq\<lparr>high := outside start end' arr\<rparr>
                           else sq\<lparr>normal := outside start end' arr\<rparr>)
                in (length dropped,
                    cleanup s sq' (log_events (drop_events s dropped) (put_session s sq' q))))))"

definition removeByCount :: "string \<Rightarrow> turn_priority option \<Rightarrow> rat \<Rightarrow> turn_queue \<Rightarrow> nat \<times> turn_queue" where
  "removeByCount s priority n q = removeByRange s priority 0 (n - 1) q"

definition clear :: "string \<Rightarrow> turn_priority option \<Rightarrow> turn_queue \<Rightarrow> nat \<times> turn_queue" where
  "clear s priority q =
     (case map_get (q_sessions q) s of
        None \<Rightarrow> (0, q)
      | Some sq \<Rightarrow>
          (let dh = (if priority \<noteq> Some UserTurn then high sq else []);
               dn = (if priority \<noteq> Some SystemTurn then normal sq else []);
               sq' = sq\<lparr>high := (if priority \<noteq> Some UserTurn then [] else high sq),
                        normal := (if priority \<noteq> Some SystemTurn then [] else normal sq)\<rparr>
           in (length dh + length dn,
               cleanup s sq' (log_events (drop_events s (dh @ dn)) (put_session s sq' q)))))"

definition forceReleaseRunning :: "int \<Rightarrow> string \<Rightarrow> turn_queue \<Rightarrow> bool \<times> turn_queue" where
  "forceReleaseRunning now s q =
     (case map_get (q_sessions q) s of
        None \<Rightarrow> (False, q)
      | Some sq \<Rightarrow>
          (if \<not> running sq then (False, q)
           else (True,
                 pump now s
                   (log_events (case runningEntry sq of None \<Rightarrow> [] | Some e \<Rightarrow> [Released s (qe_id e)])
                     (put_session s (sq\<lparr>running := False, runningEntry := None, runningSince := None\<rparr>) q)))))"

section \<open>Queries\<close>

definition getDepth :: "string \<Rightarrow> turn_queue \<Rightarrow> nat \<times> nat" where
  "getDepth s q =
     (case map_get (q_sessions q) s of None \<Rightarrow> (0, 0) | Some sq \<Rightarrow> (length (high sq), length (normal sq)))"

definition listQueued :: "string \<Rightarrow> turn_priority option \<Rightarrow> turn_queue \<Rightarrow> (string \<times> turn_priority \<times> string \<times> int) list" where
  "listQueued s priority q =
     (case map_get (q_sessions q) s of
        None \<Rightarrow> []
      | Some sq \<Rightarrow>
          map (\<lambda>e. (qe_id e, qe_priority e, qe_label e, qe_enqueuedAt e))
            (case priority of
               Some SystemTurn \<Rightarrow> high sq
             | Some UserTurn \<Rightarrow> normal sq
             | None \<Rightarrow> high sq @ normal sq))"

definition isRunning :: "string \<Rightarrow> turn_queue \<Rightarrow> bool" where
  "isRunning s q \<longleftrightarrow> (case map_get (q_sessions q) s of None \<Rightarrow> False | Some sq \<Rightarrow> running sq)"

definition getRunning :: "string \<Rightarrow> turn_queue \<Rightarrow> (queue_entry \<times> int) option" where
  "getRunning s q =
     (case map_get (q_sessions q) s of
        None \<Rightarrow> None
      | Some sq \<Rightarrow>
          (case runningEntry sq of
             None \<Rightarrow> None
           | Some e \<Rightarrow> if running sq then Some (e, nullish (runningSince sq) (qe_enqueuedAt e)) else None))"

section \<open>The invariant\<close>

definition session_ok :: "nat \<Rightarrow> session_queue \<Rightarrow> bool" where
  "session_ok depth sq \<longleftrightarrow>
     length (high sq) \<le> depth \<and> length (normal sq) \<le> depth
     \<and> (running sq \<longleftrightarrow> runningEntry sq \<noteq> None)
     \<and> (\<forall>e \<in> set (high sq). qe_priority e = SystemTurn \<and> \<not> qe_dequeued e)
     \<and> (\<forall>e \<in> set (normal sq). qe_priority e = UserTurn \<and> \<not> qe_dequeued e)"

definition idle_empty :: "session_queue \<Rightarrow> bool" where
  "idle_empty sq \<longleftrightarrow> (\<not> running sq \<longrightarrow> high sq = [] \<and> normal sq = [])"

text \<open>Every session but \<open>s\<close> keeps its slot busy; a pump of \<open>s\<close> restores the invariant.\<close>

definition inv_but :: "string option \<Rightarrow> turn_queue \<Rightarrow> bool" where
  "inv_but s q \<longleftrightarrow>
     (\<forall>k sq. map_get (q_sessions q) k = Some sq \<longrightarrow>
        session_ok (q_maxDepth q) sq \<and> (Some k \<noteq> s \<longrightarrow> k \<notin> set (q_blocked q) \<longrightarrow> idle_empty sq))"

abbreviation queue_inv :: "turn_queue \<Rightarrow> bool" where
  "queue_inv \<equiv> inv_but None"

lemma log_events_simps [simp]:
  "q_sessions (log_events es q) = q_sessions q" "q_blocked (log_events es q) = q_blocked q"
  "q_maxDepth (log_events es q) = q_maxDepth q" "q_log (log_events es q) = q_log q @ es"
  "starvationThreshold (log_events es q) = starvationThreshold q"
  by (simp_all add: log_events_def)

lemma put_session_simps [simp]:
  "map_get (q_sessions (put_session s sq q)) k = (if k = s then Some sq else map_get (q_sessions q) k)"
  "q_blocked (put_session s sq q) = q_blocked q" "q_maxDepth (put_session s sq q) = q_maxDepth q"
  "q_log (put_session s sq q) = q_log q" "starvationThreshold (put_session s sq q) = starvationThreshold q"
  by (simp_all add: put_session_def)

lemma cleanup_simps [simp]:
  "q_blocked (cleanup s sq q) = q_blocked q" "q_maxDepth (cleanup s sq q) = q_maxDepth q"
  "q_log (cleanup s sq q) = q_log q"
  "map_get (q_sessions (cleanup s sq q)) k =
     (if k = s \<and> \<not> running sq \<and> high sq = [] \<and> normal sq = [] then None else map_get (q_sessions q) k)"
  by (simp_all add: cleanup_def)

lemma inv_but_log [simp]: "inv_but s (log_events es q) = inv_but s q"
  by (simp add: inv_but_def)

lemma inv_but_put:
  assumes "inv_but o1 q" "o1 = None \<or> o1 = Some s" and "session_ok (q_maxDepth q) sq"
    and "Some s \<noteq> o2 \<longrightarrow> s \<notin> set (q_blocked q) \<longrightarrow> idle_empty sq"
  shows "inv_but o2 (put_session s sq q)"
  using assms by (auto simp: inv_but_def)

lemma inv_but_cleanup: "inv_but o1 q \<Longrightarrow> inv_but o1 (cleanup s sq q)"
  by (auto simp: inv_but_def)

lemma inv_but_weaken: "queue_inv q \<Longrightarrow> inv_but o1 q"
  by (auto simp: inv_but_def)

lemma pickNext_cases:
  obtains "pickNext n sq = (None, sq)" "high sq = []" "normal sq = []"
  | e h where "high sq = e # h"
      "pickNext n sq = (Some e, sq\<lparr>consecutiveHighTurns := consecutiveHighTurns sq + 1, high := h\<rparr>)"
      "normal sq = [] \<or> consecutiveHighTurns sq < n"
  | e m where "normal sq = e # m"
      "pickNext n sq = (Some e, sq\<lparr>consecutiveHighTurns := 0, normal := m\<rparr>)"
      "high sq = [] \<or> n \<le> consecutiveHighTurns sq"
  by (cases "high sq"; cases "normal sq"; cases "n \<le> consecutiveHighTurns sq")
    (auto simp: pickNext_def)

lemma session_ok_pick:
  "session_ok d sq \<Longrightarrow> pickNext n sq = (Some e, sq') \<Longrightarrow>
     session_ok d (sq'\<lparr>running := True, runningEntry := Some x, runningSince := y\<rparr>)"
  by (rule pickNext_cases [of n sq]) (auto simp: session_ok_def)

lemma pump_inv:
  assumes "inv_but (Some s) q"
  shows "queue_inv (pump now s q)"
proof (cases "s \<in> set (q_blocked q)")
  case True
  with assms show ?thesis by (auto simp: pump_def inv_but_def)
next
  case False
  show ?thesis
  proof (cases "map_get (q_sessions q) s")
    case None
    with assms False show ?thesis by (fastforce simp: pump_def inv_but_def)
  next
    case (Some sq)
    with assms have ok: "session_ok (q_maxDepth q) sq" by (simp add: inv_but_def)
    show ?thesis
    proof (cases "running sq")
      case True
      with assms False Some show ?thesis by (fastforce simp: pump_def inv_but_def idle_empty_def)
    next
      case idle: False
      obtain p sq' where p: "pickNext (starvationThreshold q) sq = (p, sq')" by fastforce
      show ?thesis
      proof (cases p)
        case None
        with p have "sq' = sq" "high sq = []" "normal sq = []"
          by (auto simp: pickNext_def split: if_splits)
        with None p idle False Some assms show ?thesis by (auto simp: pump_def inv_but_def)
      next
        case (Some e)
        with p ok have "session_ok (q_maxDepth q) (sq'\<lparr>running := True, runningEntry := Some (e\<lparr>qe_dequeued := True\<rparr>),
            runningSince := Some now\<rparr>)" by (auto intro: session_ok_pick)
        with assms have "queue_inv (put_session s (sq'\<lparr>running := True,
            runningEntry := Some (e\<lparr>qe_dequeued := True\<rparr>), runningSince := Some now\<rparr>) q)"
          by (intro inv_but_put [of "Some s"]) (auto simp: idle_empty_def)
        with Some p idle False \<open>map_get (q_sessions q) s = Some sq\<close> show ?thesis by (simp add: pump_def)
      qed
    qed
  qed
qed

lemma getOrCreate_ok: "queue_inv q \<Longrightarrow> session_ok (q_maxDepth q) (getOrCreate s q)"
  by (cases "map_get (q_sessions q) s")
    (auto simp: getOrCreate_def inv_but_def session_ok_def empty_session_def)

lemma getOrCreate_idle: "queue_inv q \<Longrightarrow> s \<notin> set (q_blocked q) \<Longrightarrow> idle_empty (getOrCreate s q)"
  by (cases "map_get (q_sessions q) s")
    (auto simp: getOrCreate_def inv_but_def idle_empty_def empty_session_def)

lemma enqueue_inv:
  assumes "queue_inv q"
  shows "queue_inv (enqueue now i s pr label onQ onD q)"
proof -
  let ?sq = "getOrCreate s q"
  let ?arr = "if pr = SystemTurn then high ?sq else normal ?sq"
  let ?e = "\<lparr> qe_id = i, qe_priority = pr, qe_label = label, qe_enqueuedAt = now, qe_onQueued = onQ,
    qe_onDequeued = onD, qe_dequeued = False \<rparr>"
  let ?sq1 = "if pr = SystemTurn then ?sq\<lparr>high := high ?sq @ [?e]\<rparr> else ?sq\<lparr>normal := normal ?sq @ [?e]\<rparr>"
  have ok: "session_ok (q_maxDepth q) ?sq" using assms by (rule getOrCreate_ok)
  have i0: "queue_inv (put_session s ?sq q)"
    using assms ok getOrCreate_idle [OF assms] by (intro inv_but_put) auto
  show ?thesis
  proof (cases "length ?arr \<ge> q_maxDepth q")
    case True
    with i0 show ?thesis by (simp add: enqueue_def Let_def split: if_splits)
  next
    case False
    then have "session_ok (q_maxDepth q) ?sq1"
      using ok by (cases pr) (auto simp: session_ok_def)
    with i0 have "inv_but (Some s) (put_session s ?sq1 (put_session s ?sq q))"
      using inv_but_put [of None "put_session s ?sq q" s ?sq1 "Some s"] by simp
    with False show ?thesis by (auto simp: enqueue_def Let_def intro!: pump_inv split: if_splits)
  qed
qed

lemma session_ok_released:
  "session_ok d sq \<Longrightarrow> session_ok d (sq\<lparr>running := False, runningEntry := None, runningSince := None\<rparr>)"
  by (simp add: session_ok_def)

lemma settle_inv:
  assumes "queue_inv q"
  shows "queue_inv (settle now ok throws s i q)"
proof (cases "map_get (q_sessions q) s")
  case None
  with assms show ?thesis by (simp add: settle_def Let_def)
next
  case (Some sq)
  show ?thesis
  proof (cases "map_option qe_id (runningEntry sq) = Some i")
    case False
    with Some assms show ?thesis by (simp add: settle_def Let_def)
  next
    case True
    let ?q1 = "log_events [Settled s i ok] q"
    let ?q2 = "log_events [TurnEnd s] (?q1\<lparr>q_blocked := removeAll s (q_blocked ?q1)\<rparr>)"
    have sq: "session_ok (q_maxDepth q) sq" "running sq"
      using assms Some True by (auto simp: inv_but_def session_ok_def)
    have "queue_inv (q\<lparr>q_blocked := removeAll s (q_blocked q)\<rparr>)"
      using assms sq(2) Some by (auto simp: inv_but_def idle_empty_def)
    then have i2: "queue_inv ?q2" by (simp add: log_events_def inv_but_def)
    have "inv_but (Some s) (put_session s (sq\<lparr>running := False, runningEntry := None, runningSince := None\<rparr>) ?q2)"
      using i2 session_ok_released [OF sq(1)] by (intro inv_but_put [of None]) (auto simp: log_events_def)
    with i2 True Some show ?thesis by (simp add: settle_def Let_def pump_inv)
  qed
qed

text \<open>Operations that only remove waiting entries.\<close>

lemma shrink_inv:
  assumes "queue_inv q" "map_get (q_sessions q) s = Some sq"
    and "set (high sq') \<subseteq> set (high sq)" "set (normal sq') \<subseteq> set (normal sq)"
    and "length (high sq') \<le> length (high sq)" "length (normal sq') \<le> length (normal sq)"
    and "running sq' = running sq" "runningEntry sq' = runningEntry sq"
  shows "queue_inv (cleanup s sq' (log_events es (put_session s sq' q)))"
proof -
  have "session_ok (q_maxDepth q) sq" "s \<notin> set (q_blocked q) \<longrightarrow> idle_empty sq"
    using assms(1,2) by (auto simp: inv_but_def)
  with assms have "session_ok (q_maxDepth q) sq'" "s \<notin> set (q_blocked q) \<longrightarrow> idle_empty sq'"
    by (auto simp: session_ok_def idle_empty_def)
  with assms(1) show ?thesis
    by (intro inv_but_cleanup) (simp, intro inv_but_put [of None], auto)
qed

lemma outside_from_set: "set (outside_from i a b xs) \<subseteq> set xs"
  and outside_from_length [simp]: "length (outside_from i a b xs) \<le> length xs"
  by (induction xs arbitrary: i) (auto simp: le_SucI)

lemma remove_both_inv:
  "queue_inv q \<Longrightarrow> map_get (q_sessions q) s = Some sq \<Longrightarrow> queue_inv (snd (remove_both P s sq q))"
  by (auto simp: remove_both_def removeMatching_def Let_def intro!: shrink_inv)

lemma removeById_inv: "queue_inv q \<Longrightarrow> queue_inv (snd (removeById s ids q))"
  by (simp add: removeById_def remove_both_inv split: option.split)

lemma removeByRange_inv: "queue_inv q \<Longrightarrow> queue_inv (snd (removeByRange s pr a b q))"
  using outside_from_set [THEN subsetD]
  by (auto simp: removeByRange_def Let_def remove_both_inv outside_def split: option.split intro!: shrink_inv)

lemma clear_inv: "queue_inv q \<Longrightarrow> queue_inv (snd (clear s pr q))"
  by (auto simp: clear_def Let_def split: option.split intro!: shrink_inv)

lemma begin_inv: "queue_inv q \<Longrightarrow> queue_inv (snd (beginTurnQueueBlock s q))"
  by (auto simp: beginTurnQueueBlock_def inv_but_def)

lemma end_inv: "queue_inv q \<Longrightarrow> queue_inv (endTurnQueueBlock now s q)"
proof -
  assume "queue_inv q"
  then have "inv_but (Some s) (q\<lparr>q_blocked := removeAll s (q_blocked q)\<rparr>)" by (auto simp: inv_but_def)
  with \<open>queue_inv q\<close> show ?thesis by (simp add: endTurnQueueBlock_def pump_inv)
qed

lemma force_inv:
  assumes "queue_inv q"
  shows "queue_inv (snd (forceReleaseRunning now s q))"
proof (cases "map_get (q_sessions q) s")
  case None
  with assms show ?thesis by (simp add: forceReleaseRunning_def)
next
  case (Some sq)
  with assms have "session_ok (q_maxDepth q) sq" by (simp add: inv_but_def)
  with assms have "inv_but (Some s)
      (put_session s (sq\<lparr>running := False, runningEntry := None, runningSince := None\<rparr>) q)"
    by (intro inv_but_put [of None] session_ok_released) auto
  with Some assms show ?thesis by (simp add: forceReleaseRunning_def pump_inv)
qed

section \<open>The ledger\<close>

text \<open>The ids a session accepted, the ids that left its queue, and the ids that wait.\<close>

fun accepted_id :: "string \<Rightarrow> queue_event \<Rightarrow> string multiset" where
  "accepted_id s (Accepted k i) = (if k = s then {#i#} else {#})"
| "accepted_id s e = {#}"

fun left_id :: "string \<Rightarrow> queue_event \<Rightarrow> string multiset" where
  "left_id s (Started k i) = (if k = s then {#i#} else {#})"
| "left_id s (Dropped k i) = (if k = s then {#i#} else {#})"
| "left_id s e = {#}"

definition accepted_ids :: "string \<Rightarrow> queue_event list \<Rightarrow> string multiset" where
  "accepted_ids s es = sum_list (map (accepted_id s) es)"

definition left_ids :: "string \<Rightarrow> queue_event list \<Rightarrow> string multiset" where
  "left_ids s es = sum_list (map (left_id s) es)"

definition waiting_in :: "session_queue option \<Rightarrow> string multiset" where
  "waiting_in x = (case x of None \<Rightarrow> {#} | Some sq \<Rightarrow> image_mset qe_id (mset (high sq) + mset (normal sq)))"

abbreviation waiting_ids :: "string \<Rightarrow> turn_queue \<Rightarrow> string multiset" where
  "waiting_ids s q \<equiv> waiting_in (map_get (q_sessions q) s)"

definition balanced :: "turn_queue \<Rightarrow> bool" where
  "balanced q \<longleftrightarrow> (\<forall>s. accepted_ids s (q_log q) = waiting_ids s q + left_ids s (q_log q))"

lemma ids_append [simp]:
  "accepted_ids s (es @ fs) = accepted_ids s es + accepted_ids s fs"
  "left_ids s (es @ fs) = left_ids s es + left_ids s fs"
  by (simp_all add: accepted_ids_def left_ids_def)

lemma ids_Cons [simp]:
  "accepted_ids s (e # es) = accepted_id s e + accepted_ids s es"
  "left_ids s (e # es) = left_id s e + left_ids s es"
  "accepted_ids s [] = {#}" "left_ids s [] = {#}"
  by (simp_all add: accepted_ids_def left_ids_def)

lemma dequeue_events_ids [simp]:
  "accepted_ids k (dequeue_events s e) = {#}" "left_ids k (dequeue_events s e) = {#}"
  by (simp_all add: dequeue_events_def)

lemma drop_events_ids [simp]:
  "accepted_ids k (drop_events s es) = {#}"
  "left_ids k (drop_events s es) = (if k = s then image_mset qe_id (mset es) else {#})"
  by (induction es) (simp_all add: drop_events_def)

lemma waiting_cleanup [simp]:
  "map_get (q_sessions q) s = Some sq \<Longrightarrow> waiting_ids k (cleanup s sq q) = waiting_ids k q"
  by (auto simp: waiting_in_def)

lemma waiting_simps [simp]:
  "waiting_in None = {#}"
  "waiting_in (Some sq) = image_mset qe_id (mset (high sq) + mset (normal sq))"
  by (simp_all add: waiting_in_def)

lemma pump_balanced:
  assumes "balanced q"
  shows "balanced (pump now s q)"
proof (cases "map_get (q_sessions q) s")
  case None
  with assms show ?thesis by (simp add: pump_def)
next
  case (Some sq)
  show ?thesis
  proof (cases rule: pickNext_cases [of "starvationThreshold q" sq])
    case 1
    with Some assms show ?thesis by (auto simp: pump_def balanced_def)
  next
    case (2 e h)
    with Some assms show ?thesis by (auto simp: pump_def balanced_def)
  next
    case (3 e m)
    with Some assms show ?thesis by (auto simp: pump_def balanced_def)
  qed
qed

lemma balanced_sessions:
  "q_sessions q' = q_sessions q \<Longrightarrow> q_log q' = q_log q @ es \<Longrightarrow>
     (\<And>s. accepted_ids s es = {#} \<and> left_ids s es = {#}) \<Longrightarrow> balanced q \<Longrightarrow> balanced q'"
  by (simp add: balanced_def)

lemma balanced_log: "(\<And>s. accepted_ids s es = {#} \<and> left_ids s es = {#}) \<Longrightarrow> balanced q \<Longrightarrow> balanced (log_events es q)"
  by (rule balanced_sessions [of _ q es]) auto

lemma balanced_blocked: "balanced q \<Longrightarrow> balanced (q\<lparr>q_blocked := b\<rparr>)"
  by (simp add: balanced_def)

lemma balanced_put:
  "balanced q \<Longrightarrow> waiting_in (Some sq) = waiting_ids s q \<Longrightarrow> balanced (put_session s sq q)"
  by (auto simp: balanced_def)

lemma settle_balanced: "balanced q \<Longrightarrow> balanced (settle now ok throws s i q)"
  by (auto simp: settle_def Let_def split: option.split
      intro!: pump_balanced balanced_put balanced_log balanced_blocked)

lemma force_balanced: "balanced q \<Longrightarrow> balanced (snd (forceReleaseRunning now s q))"
  by (auto simp: forceReleaseRunning_def split: option.split
      intro!: pump_balanced balanced_put balanced_log)

lemma enqueue_balanced:
  assumes "balanced q"
  shows "balanced (enqueue now i s pr label onQ onD q)"
proof -
  let ?sq = "getOrCreate s q"
  have w: "waiting_in (Some ?sq) = waiting_ids s q"
    by (cases "map_get (q_sessions q) s") (simp_all add: getOrCreate_def empty_session_def)
  have b: "balanced (put_session s ?sq q)" using assms w by (rule balanced_put)
  then show ?thesis
    by (auto simp: enqueue_def Let_def balanced_def intro!: pump_balanced [unfolded balanced_def, rule_format] split: if_splits)
qed

lemma drop_balanced:
  assumes "balanced q" "map_get (q_sessions q) s = Some sq"
    and "mset (high sq) + mset (normal sq) = mset (high sq') + mset (normal sq') + mset es"
  shows "balanced (cleanup s sq' (log_events (drop_events s es) (put_session s sq' q)))"
proof -
  have "image_mset qe_id (mset (high sq)) + image_mset qe_id (mset (normal sq)) =
      image_mset qe_id (mset (high sq')) + image_mset qe_id (mset (normal sq')) + image_mset qe_id (mset es)"
    using arg_cong [OF assms(3), of "image_mset qe_id"] by simp
  with assms(1,2) show ?thesis by (auto simp: balanced_def)
qed

lemma remove_both_balanced:
  assumes "balanced q" "map_get (q_sessions q) s = Some sq"
  shows "balanced (snd (remove_both P s sq q))"
proof -
  have "mset (high sq) + mset (normal sq) =
      mset (filter (\<lambda>e. \<not> P e) (high sq)) + mset (filter (\<lambda>e. \<not> P e) (normal sq))
      + mset (rev (filter P (high sq)) @ rev (filter P (normal sq)))"
    by (rule multiset_eqI) simp
  with assms show ?thesis
    by (auto simp: remove_both_def removeMatching_def Let_def intro!: drop_balanced)
qed

lemma removeById_balanced: "balanced q \<Longrightarrow> balanced (snd (removeById s ids q))"
  by (simp add: removeById_def remove_both_balanced split: option.split)

lemma begin_balanced: "balanced q \<Longrightarrow> balanced (snd (beginTurnQueueBlock s q))"
  by (simp add: beginTurnQueueBlock_def balanced_blocked)

lemma end_balanced: "balanced q \<Longrightarrow> balanced (endTurnQueueBlock now s q)"
  by (simp add: endTurnQueueBlock_def balanced_blocked pump_balanced)

lemma outside_slice:
  "0 \<le> a \<Longrightarrow> 0 \<le> i \<Longrightarrow> b = \<lfloor>e\<rfloor> \<Longrightarrow>
     mset xs = mset (outside_from i (of_int a) e xs) + mset (take (nat (b + 1 - max a i)) (drop (nat (a - i)) xs))"
proof (induction xs arbitrary: i)
  case (Cons x xs)
  have e: "e < of_int i \<longleftrightarrow> b < i" using Cons.prems(3) by (simp add: floor_less_iff)
  consider "i < a" | "a \<le> i" "i \<le> b" | "a \<le> i" "b < i" by linarith
  then show ?case
  proof cases
    case 1
    then have "nat (a - i) = Suc (nat (a - (i + 1)))" "max a i = a" "max a (i + 1) = a" by auto
    with 1 Cons.IH [of "i + 1"] Cons.prems show ?thesis by simp
  next
    case 2
    then have "nat (b + 1 - max a i) = Suc (nat (b + 1 - max a (i + 1)))" "nat (a - i) = 0" "nat (a - (i + 1)) = 0"
      by auto
    with 2 e Cons.IH [of "i + 1"] Cons.prems show ?thesis by simp
  next
    case 3
    then have "nat (b + 1 - max a i) = 0" "nat (b + 1 - max a (i + 1)) = 0" by auto
    with 3 e Cons.IH [of "i + 1"] Cons.prems show ?thesis by simp
  qed
qed simp

lemma js_trunc_simps [simp]: "js_trunc (of_int a) = a" "0 \<le> r \<Longrightarrow> js_trunc r = \<lfloor>r\<rfloor>"
  by (simp_all add: js_trunc_def)

lemma js_trunc_values: "js_trunc 0 = 0" "js_trunc (- 1) = - 1" "js_trunc (1 / 2) = 0" "js_trunc (3 / 2) = 1"
  by (simp_all add: js_trunc_def floor_eq_iff ceiling_eq_iff)

lemma js_slice_nonneg:
  assumes "0 \<le> a" "0 \<le> c"
  shows "js_slice xs (of_int a) c = take (nat (\<lfloor>c\<rfloor> - a)) (drop (nat a) xs)"
proof (cases "a \<le> int (length xs)")
  case True
  with assms show ?thesis
    by (cases "\<lfloor>c\<rfloor> \<le> int (length xs)") (auto simp: js_slice_def Let_def)
next
  case False
  with assms show ?thesis by (simp add: js_slice_def Let_def)
qed

lemma range_split:
  assumes "0 \<le> a" "- 1 \<le> e"
  shows "mset xs = mset (outside (of_int a) e xs) + mset (js_slice xs (of_int a) (e + 1))"
  using outside_slice [of a 0 "\<lfloor>e\<rfloor>" e xs] assms by (simp add: outside_def js_slice_nonneg)

text \<open>
  The positions for which what is rejected is what is removed: any at all when both tiers are
  meant, where the rejected entries are found again by their ids; for one tier an integral start
  that is not negative, and an end that is not below -1.
\<close>

definition exact_range :: "turn_priority option \<Rightarrow> rat \<Rightarrow> rat \<Rightarrow> bool" where
  "exact_range priority start end' \<longleftrightarrow> priority = None \<or> (of_int \<lfloor>start\<rfloor> = start \<and> 0 \<le> start \<and> - 1 \<le> end')"

lemma removeByRange_balanced:
  assumes "balanced q" "exact_range pr start e"
  shows "balanced (snd (removeByRange s pr start e q))"
proof (cases "map_get (q_sessions q) s")
  case (Some sq)
  show ?thesis
  proof (cases pr)
    case None
    with Some assms(1) show ?thesis by (simp add: removeByRange_def remove_both_balanced)
  next
    case (Some p)
    with assms(2) obtain a where a: "start = of_int a" "0 \<le> a" "- 1 \<le> e"
      by (metis exact_range_def of_int_0_le_iff option.distinct(1))
    from range_split [OF a(2,3)] have "mset (high sq) = mset (outside start e (high sq)) + mset (js_slice (high sq) start (e + 1))"
      "mset (normal sq) = mset (outside start e (normal sq)) + mset (js_slice (normal sq) start (e + 1))"
      by (simp_all add: a(1))
    with Some assms(1) \<open>map_get (q_sessions q) s = Some sq\<close> show ?thesis
      by (auto simp: removeByRange_def Let_def intro!: drop_balanced)
  qed
qed (use assms in \<open>simp add: removeByRange_def\<close>)

lemma clear_balanced: "balanced q \<Longrightarrow> balanced (snd (clear s pr q))"
  by (cases "map_get (q_sessions q) s") (auto simp: clear_def Let_def intro!: drop_balanced)

section \<open>Reachable queues\<close>

text \<open>Every operation of the class, with the positions of a removal in an exact range.\<close>

inductive queue_step :: "turn_queue \<Rightarrow> turn_queue \<Rightarrow> bool" where
  step_enqueue: "queue_step q (enqueue now i s pr label onQ onD q)"
| step_settle: "queue_step q (settle now ok throws s i q)"
| step_begin: "queue_step q (snd (beginTurnQueueBlock s q))"
| step_end: "queue_step q (endTurnQueueBlock now s q)"
| step_remove: "queue_step q (snd (removeById s ids q))"
| step_range: "exact_range pr' a b \<Longrightarrow> queue_step q (snd (removeByRange s pr' a b q))"
| step_count: "pr' = None \<or> 0 \<le> n \<Longrightarrow> queue_step q (snd (removeByCount s pr' n q))"
| step_clear: "queue_step q (snd (clear s pr' q))"
| step_force: "queue_step q (snd (forceReleaseRunning now s q))"

definition fresh_queue :: "turn_queue \<Rightarrow> bool" where
  "fresh_queue q \<longleftrightarrow> q_sessions q = [] \<and> q_blocked q = [] \<and> q_log q = []"

definition queue_good :: "turn_queue \<Rightarrow> bool" where
  "queue_good q \<longleftrightarrow> queue_inv q \<and> balanced q"

interpretation turn_queue_system: transition_system fresh_queue queue_step queue_good
proof (unfold_locales, goal_cases)
  case (1 q)
  then show ?case by (simp add: fresh_queue_def queue_good_def inv_but_def balanced_def map_get_def)
next
  case (2 q q')
  from 2(2,1) show ?case
    by (induction rule: queue_step.induct)
      (simp_all add: queue_good_def removeByCount_def exact_range_def begin_inv end_inv enqueue_inv settle_inv
        removeById_inv removeByRange_inv clear_inv force_inv enqueue_balanced settle_balanced
        removeById_balanced removeByRange_balanced clear_balanced force_balanced begin_balanced end_balanced)
qed

section \<open>Properties\<close>

text \<open>
  C6. The queue never leaves work waiting for nothing, loses nothing and exceeds no depth. Take
  any sequence of its operations in which a removal by positions from one tier has an integral
  start that is not negative and an end that is at least -1, and a removal by count from one tier
  a count that is not negative (a removal from both tiers may have any numbers). Then each tier of
  a session holds at most \<open>maxDepth\<close> entries, a session with a free slot and no block has no
  waiting entry, and the accepted ids are, as a multiset, those that wait together with those that
  were started or dropped. The conditions on the numbers are needed for the last part:
  \<open>fractional_index\<close> and \<open>negative_count\<close> show what happens without them.
\<close>

theorem queue_sound:
  assumes "queue_step\<^sup>*\<^sup>* (new_turn_queue threshold depth) q"
  shows "accepted_ids s (q_log q) = waiting_ids s q + left_ids s (q_log q)
    \<and> (\<forall>sq. map_get (q_sessions q) s = Some sq \<longrightarrow>
         length (high sq) \<le> q_maxDepth q \<and> length (normal sq) \<le> q_maxDepth q
         \<and> (\<not> running sq \<and> s \<notin> set (q_blocked q) \<longrightarrow> high sq = [] \<and> normal sq = []))"
proof -
  have "fresh_queue (new_turn_queue threshold depth)" by (simp add: fresh_queue_def new_turn_queue_def)
  from turn_queue_system.reachable_inv [OF this assms] have "queue_inv q" "balanced q"
    by (simp_all add: queue_good_def)
  then show ?thesis by (auto simp: inv_but_def session_ok_def idle_empty_def balanced_def)
qed

text \<open>
  A late finalization is harmless: when a turn that no longer owns the running slot settles,
  no session and no block changes.
\<close>

theorem stale_settle:
  assumes "\<forall>sq. map_get (q_sessions q) s = Some sq \<longrightarrow> map_option qe_id (runningEntry sq) \<noteq> Some i"
  shows "settle now ok throws s i q = q\<lparr>q_log := q_log q @ [Settled s i ok]\<rparr>"
  using assms by (cases "map_get (q_sessions q) s") (simp_all add: settle_def log_events_def Let_def)

text \<open>Successive picks, with system turns arriving before each of them.\<close>

fun picks :: "nat \<Rightarrow> queue_entry list list \<Rightarrow> session_queue \<Rightarrow> queue_entry option list" where
  "picks n [] sq = []"
| "picks n (arrivals # as) sq =
     (let (e, sq') = pickNext n (sq\<lparr>high := high sq @ arrivals\<rparr>) in e # picks n as sq')"

lemma picks_normal:
  assumes "normal sq = e # m" "length as = Suc (n - consecutiveHighTurns sq)"
  shows "Some e \<in> set (picks n as sq)"
  using assms
proof (induction as arbitrary: sq)
  case (Cons a as)
  let ?sq = "sq\<lparr>high := high sq @ a\<rparr>"
  show ?case
  proof (cases rule: pickNext_cases [of n ?sq])
    case 1
    with Cons.prems show ?thesis by simp
  next
    case (2 f h)
    from 2(3) Cons.prems have c: "consecutiveHighTurns sq < n" by simp
    let ?sq' = "?sq\<lparr>consecutiveHighTurns := consecutiveHighTurns ?sq + 1, high := h\<rparr>"
    have "Some e \<in> set (picks n as ?sq')" using Cons.prems c by (intro Cons.IH) simp_all
    with 2(2) show ?thesis by simp
  next
    case (3 f k)
    with Cons.prems show ?thesis by simp
  qed
qed simp

lemma picks_take: "picks n (take k as) sq = take k (picks n as sq)"
proof (induction as arbitrary: k sq)
  case (Cons a as)
  then show ?case by (cases k) (auto simp: Let_def split: prod.split)
qed simp

text \<open>
  C18. Anti-starvation: however many system turns arrive, a waiting user turn at the head of its
  tier is picked within \<open>starvationThreshold + 1\<close> picks.
\<close>

theorem no_starvation:
  assumes "normal sq = e # m" "n < length as"
  shows "Some e \<in> set (picks n as sq)"
proof -
  have "Some e \<in> set (picks n (take (Suc (n - consecutiveHighTurns sq)) as) sq)"
    using assms by (intro picks_normal [OF assms(1)]) simp
  then show ?thesis unfolding picks_take by (rule in_set_takeD)
qed

text \<open>
  A block outlives a forced release: when a blocked session's running turn is force-released
  and then settles, the session is still blocked, so that no entry starts until the owner of the
  block ends it. The turn end does not clear the block, because the settled turn is stale.
\<close>

theorem release_keeps_block:
  assumes "s \<in> set (q_blocked q)" "map_get (q_sessions q) s = Some sq" "running sq"
  shows "s \<in> set (q_blocked (settle now ok throws s i (snd (forceReleaseRunning now s q))))
    \<and> \<not> isRunning s (settle now ok throws s i (snd (forceReleaseRunning now s q)))"
proof -
  let ?sq = "sq\<lparr>running := False, runningEntry := None, runningSince := None\<rparr>"
  obtain es where q': "snd (forceReleaseRunning now s q) = log_events es (put_session s ?sq q)"
    using assms by (auto simp: forceReleaseRunning_def pump_def)
  show ?thesis unfolding q' using assms(1) by (simp add: settle_def isRunning_def)
qed

text \<open>
  A throwing \<open>onTurnEnd\<close> callback wedges the session: the settled turn keeps the running
  slot, and no later enqueue or settle of another turn starts anything.
\<close>

theorem turn_end_throw_wedges:
  assumes "map_get (q_sessions q) s = Some sq" "runningEntry sq = Some e" "running sq"
  shows "map_get (q_sessions (settle now ok True s (qe_id e) q)) s = Some sq
    \<and> isRunning s (enqueue now' j s pr label onQ onD (settle now ok True s (qe_id e) q))"
  using assms
  by (auto simp: settle_def Let_def log_events_def enqueue_def getOrCreate_def isRunning_def pump_def put_session_def)

text \<open>
  \<open>removeByCount\<close> with a negative count rejects waiting entries that stay in the queue:
  a count of \<open>-1\<close> on a tier of three entries reports two removals and rejects the first two
  callers, and removes none.
\<close>

theorem negative_count:
  assumes "map_get (q_sessions q) s = Some sq" "high sq = [a, b, c]"
  shows "fst (removeByCount s (Some SystemTurn) (- 1) q) = 2
    \<and> map_get (q_sessions (snd (removeByCount s (Some SystemTurn) (- 1) q))) s = Some sq
    \<and> Dropped s (qe_id a) \<in> set (q_log (snd (removeByCount s (Some SystemTurn) (- 1) q)))"
  using assms
  by (auto simp: removeByCount_def removeByRange_def js_slice_def js_trunc_values outside_def Let_def drop_events_def
      cleanup_def)

text \<open>
  A fractional position, which \<open>integration-ops.ts\<close> accepts (it asks for a finite number of
  at least 1): removing index 1.5 from a tier rejects the caller of the entry at index 1 and reports
  one removal, because \<open>slice\<close> truncates, but the filter keeps the entry. It still waits and
  is run later, although its caller was told that it was dropped.
\<close>

theorem fractional_index:
  assumes "map_get (q_sessions q) s = Some sq" "high sq = a # es"
  shows "fst (removeByRange s (Some SystemTurn) (1 / 2) (1 / 2) q) = 1
    \<and> map_get (q_sessions (snd (removeByRange s (Some SystemTurn) (1 / 2) (1 / 2) q))) s = Some sq
    \<and> Dropped s (qe_id a) \<in> set (q_log (snd (removeByRange s (Some SystemTurn) (1 / 2) (1 / 2) q)))"
proof -
  have "outside_from i (1 / 2) (1 / 2) xs = xs" for i and xs :: "queue_entry list"
  proof (induction xs arbitrary: i)
    case (Cons x xs)
    have "of_int i < (1 / 2 :: rat) \<or> (1 / 2 :: rat) < of_int i" by (cases "i \<le> 0") auto
    with Cons show ?case by simp
  qed simp
  moreover have "js_slice (a # es) (1 / 2) (1 / 2 + 1) = [a]"
    by (simp add: js_slice_def js_trunc_values Let_def)
  ultimately show ?thesis using assms
    by (auto simp: removeByRange_def outside_def Let_def drop_events_def cleanup_def)
qed

end
