(* ===== verification/Scenario.thy ===== *)
theory Scenario
  imports Status_Manager Turn_Queue
begin

text \<open>
  Concrete runs of the model, and the properties of the workflow engine applied to them: a
  workflow of a transform task and an agent task that uses its output, started, ticked, paused,
  aborted, retried, saved and resumed.
\<close>

section \<open>A workflow of two tasks\<close>

definition demo_def :: "nat \<Rightarrow> task_kind \<Rightarrow> task_def" where
  "demo_def i k =
     \<lparr> td_id = js_nat i, title = None, failureBehavior = FbContinue, failureNotification = FnParent,
       td_runtimeLimitMs = None, outputTemplate = None, kind = k \<rparr>"

definition demo_agent :: "string \<Rightarrow> agent_spec" where
  "demo_agent p =
     \<lparr> prompt = p, responseSchema = None, modelOptions = None, enableTools = None, contract = None,
       judge = None \<rparr>"

definition demo_tasks :: "task_def list" where
  "demo_tasks = [demo_def 1 (KTransform ''one''), demo_def 2 (KAgent (demo_agent ''use {{task:1:output}}''))]"

definition demo_result :: poll_result where
  "demo_result = \<lparr> p_status = PDone, p_output = Some ''fine'', p_error = None, p_completedAt = None \<rparr>"

definition demo_config :: config where
  "demo_config =
     \<lparr> spawn = (\<lambda>req. Inr ''s1''), has_abortTask = True, poll = (\<lambda>key. Inr demo_result),
       statusManager = None, notifications = None, has_killer = True, messagePoster = None,
       toolExecutor = None, parse_json = (\<lambda>s. None), save_rejects = None \<rparr>"

definition demo_options :: orch_options where
  "demo_options =
     \<lparr> o_stateDir = ''state'', o_currentDepth = 0, o_maxDepth = 2, o_replyTo = ''me'',
       o_pollingIntervalMs = 10, o_runtimeLimitMs = 1000, o_name = Some ''demo'',
       o_concurrency = Some 2 \<rparr>"

definition demo_graph :: "task_id graph" where
  "demo_graph = [(js_nat 1, []), (js_nat 2, [js_nat 1])]"

definition demo_start :: "((start_error + string) \<times> orch) option" where
  "demo_start = start demo_config 5 ''w1'' demo_tasks ''1-2'' demo_options new_orchestrator"

definition demo_state :: orch where
  "demo_state = snd (the demo_start)"

definition demo_wf :: task_list where
  "demo_wf = the (workflow demo_state)"

definition demo_first :: task_state where
  "demo_first = tasks demo_wf ! 0"

definition demo_second :: task_state where
  "demo_second = tasks demo_wf ! 1"

lemma demo_started: "start demo_config 5 ''w1'' demo_tasks ''1-2'' demo_options new_orchestrator = Some (Inr ''w1'', demo_state)"
  unfolding demo_state_def demo_start_def by code_simp

lemma demo_reach: "reach demo_state"
  using reach.started_wf [OF reach.fresh demo_started] .

lemma demo_facts:
  "workflow demo_state = Some demo_wf" "opts demo_state = Some demo_options" "\<not> completed demo_state"
  "map status (tasks demo_wf) = [Done, InProgress]" "graph demo_wf = demo_graph" "length (tasks demo_wf) = 2"
  "tid demo_first = js_nat 1" "tid demo_second = js_nat 2" "status demo_first = Done"
  "status demo_second = InProgress" "concurrency demo_wf = Some 2" "live_ok (tasks demo_wf)"
  by code_simp+

lemma demo_mem: "demo_first \<in> set (tasks demo_wf)" "demo_second \<in> set (tasks demo_wf)"
  using demo_facts(6) by (simp_all add: demo_first_def demo_second_def)

lemma demo_edge: "(js_nat 2, js_nat 1) \<in> edges (graph demo_wf)"
  unfolding edges_iff demo_facts(5) by code_simp

section \<open>Safety\<close>

text \<open>The state file of the workflow before its second task was started, restored.\<close>

definition demo_restored :: orch where
  "demo_restored =
     restore (demo_wf\<lparr>tasks := [demo_first, demo_second\<lparr>status := Pending, sessionKey := None\<rparr>]\<rparr>)
       demo_options new_orchestrator"

theorem dependencies_first_witness:
  "\<exists>w w'. workflow demo_restored = Some w \<and> workflow (fst (tick demo_config 20 demo_restored)) = Some w'
    \<and> map status (tasks w) = [Done, Pending] \<and> map status (tasks w') = [Done, InProgress]
    \<and> (\<exists>u \<in> set (tasks w'). tid u = js_nat 1 \<and> status u = Done)"
proof -
  let ?w = "demo_wf\<lparr>tasks := [demo_first, demo_second\<lparr>status := Pending, sessionKey := None\<rparr>]\<rparr>"
  let ?w' = "the (workflow (fst (tick demo_config 20 demo_restored)))"
  have w: "workflow demo_restored = Some ?w" by (simp add: demo_restored_def restore_def stopPolling_def)
  have w': "workflow (fst (tick demo_config 20 demo_restored)) = Some ?w'"
    "map status (tasks ?w') = [Done, InProgress]" by code_simp+
  from w'(2) have "length (tasks ?w') = 2" "status (tasks ?w' ! 1) = InProgress"
    by (metis length_map length_Cons list.size(3) numeral_2_eq_2, 
        metis One_nat_def length_Cons length_map lessI list.size(3) nth_Cons_0 nth_Cons_Suc nth_map)
  with dependencies_first [OF w w'(1), of 1 "js_nat 1"] w w' demo_edge show ?thesis
    by (intro exI [of _ ?w] exI [of _ ?w']) (simp add: demo_facts)
qed

theorem run_dependencies_done_witness:
  "reach demo_state \<and> status demo_second = InProgress
    \<and> (\<exists>u \<in> set (tasks demo_wf). tid u = js_nat 1 \<and> status u = Done)"
  using run_dependencies_done [OF demo_reach demo_facts(1) demo_mem(2), of "js_nat 1"] demo_reach demo_edge
  by (simp add: demo_facts r_into_trancl)

theorem concurrency_cap_witness:
  "reach demo_state \<and> concurrency demo_wf = Some 2 \<and> int (in_progress_count (tasks demo_wf)) \<le> 2"
  using concurrency_cap [OF demo_reach demo_facts(1,11)] demo_reach by (simp add: demo_facts)

theorem tick_transitions_witness:
  "\<exists>ts'. workflow (fst (tick demo_config 20 demo_state)) = Some (demo_wf\<lparr>tasks := ts'\<rparr>)
    \<and> list_all2 (\<lambda>t t'. taskDef t' = taskDef t
        \<and> (status t' = status t \<or> isValidTransition (status t) (status t'))) (tasks demo_wf) ts'"
  using tick_transitions [OF demo_facts(1), of demo_config 20] .

theorem start_accepts_witness:
  "start_checks demo_tasks ''1-2'' demo_options = Some (Inr demo_graph) \<and> acyclic (edges demo_graph)"
proof -
  have "start_checks demo_tasks ''1-2'' demo_options = Some (Inr demo_graph)" by code_simp
  with start_accepts [of demo_tasks "''1-2''" demo_options demo_graph] show ?thesis by blast
qed

section \<open>Progress\<close>

lemma demo_valid: "wf_valid demo_graph (map taskDef (tasks demo_wf))"
  using reach_inv [OF demo_reach] demo_facts(1,5) by (simp add: orch_inv_def wf_inv_def)

definition failed_run :: run where
  "failed_run =
     \<lparr> r_tasks = [fail_task 7 (Some ''boom'') demo_first, demo_second\<lparr>status := Pending, sessionKey := None\<rparr>],
       r_dirty = False, r_paused = False, r_applied = [], r_trace = [] \<rparr>"

definition waiting_run :: run where
  "waiting_run =
     \<lparr> r_tasks = [demo_first, demo_second\<lparr>status := Pending, sessionKey := None\<rparr>],
       r_dirty = False, r_paused = False, r_applied = [], r_trace = [] \<rparr>"

theorem markBlockedTasks_complete_witness:
  "(\<exists>u \<in> set (r_tasks (markBlockedTasks demo_graph 9 waiting_run)).
      tid u = js_nat 1 \<and> status u \<noteq> Failed \<and> status u \<noteq> Skipped)
    \<and> map status (r_tasks (markBlockedTasks demo_graph 9 failed_run)) = [Failed, Failed]"
proof -
  let ?t = "demo_second\<lparr>status := Pending, sessionKey := None\<rparr>"
  have "map taskDef (r_tasks waiting_run) = map taskDef (tasks demo_wf)" by code_simp
  with demo_valid have v: "wf_valid demo_graph (map taskDef (r_tasks waiting_run))" by simp
  have t: "r_tasks (markBlockedTasks demo_graph 9 waiting_run) = [demo_first, ?t]" by code_simp
  have "map status (r_tasks (markBlockedTasks demo_graph 9 failed_run)) = [Failed, Failed]" by code_simp
  with markBlockedTasks_complete [OF v, of ?t 9 "js_nat 1"] t demo_edge demo_facts show ?thesis by simp
qed

theorem ready_templates_resolved_witness:
  "resolveTemplates ''use {{task:1:output}}'' (task_get (tasks demo_wf)) = ''use one''
    \<and> concat (map (finished_seg (task_get (tasks demo_wf))) (tpl_scan ''use {{task:1:output}}'')) = ''use one''"
proof -
  have "resolveTemplates ''use {{task:1:output}}'' (task_get (tasks demo_wf)) = ''use one''" by code_simp
  moreover have "all_deps_done (run_of demo_wf demo_state) (deps_of (graph demo_wf) (tid demo_second))" by code_simp
  moreover have "getTemplateSources (taskDef demo_second) = [''use {{task:1:output}}'']" by code_simp
  ultimately show ?thesis
    using ready_templates_resolved [OF demo_reach demo_facts(1) demo_mem(2), of "''use {{task:1:output}}''"] by simp
qed

theorem enforceRuntimeLimits_bounds_witness:
  "\<exists>t' \<in> set (r_tasks (enforceRuntimeLimits demo_config demo_options 2000 (run_of demo_wf demo_state))).
     taskDef t' = taskDef demo_second \<and> status t' = Failed \<and> completedAt t' = Some 2000"
proof -
  have "sessionKey demo_second = Some ''s1''" "startedAt demo_second = Some 5"
    "td_runtimeLimitMs (taskDef demo_second) = None" "o_runtimeLimitMs demo_options = 1000" by code_simp+
  with enforceRuntimeLimits_bounds [of "demo_second" "run_of demo_wf demo_state" "''s1''" 5 demo_config demo_options 2000]
  show ?thesis using demo_mem(2) demo_facts(10) by simp
qed

lemma demo_answers: "answers demo_config"
  by (simp add: answers_def demo_config_def demo_result_def)

theorem workflow_terminates_witness:
  "let s = ticks (replicate 5 (demo_config, 20)) demo_state in
     completed s \<and> (\<exists>w'. workflow s = Some w' \<and> list_all (\<lambda>t. isTerminal (status t)) (tasks w'))"
proof -
  have "\<not> paused (ticks (replicate 5 (demo_config, 20)) demo_state)" by code_simp
  with workflow_terminates [OF demo_reach demo_facts(1-3,12), of "replicate 5 (demo_config, 20)"] demo_answers
  show ?thesis by (simp add: demo_facts Let_def)
qed

section \<open>Effects\<close>

theorem completion_once_witness:
  "completed (ticks (replicate 3 (demo_config, 20)) demo_state)
    \<and> notices (ticks (replicate 3 (demo_config, 20)) demo_state) \<le> Suc (notices demo_state)
    \<and> notices (ticks [] demo_state) = notices demo_state"
proof -
  have "completed (ticks (replicate 3 (demo_config, 20)) demo_state)" by code_simp
  with completion_once [of "replicate 3 (demo_config, 20)" demo_state] completion_once [of "[]" demo_state]
  show ?thesis by simp
qed

theorem tick_saves_witness:
  "\<exists>w' before after. workflow (fst (tick demo_config 20 demo_state)) = Some w'
    \<and> trace (fst (tick demo_config 20 demo_state)) = before @ ESave w' # after \<and> (\<forall>v. ESave v \<notin> set after)"
proof -
  have "snd (tick demo_config 20 demo_state) = None" by code_simp
  with tick_saves [OF demo_facts(1-3)] show ?thesis by blast
qed

definition demo_paused :: orch where
  "demo_paused = new_orchestrator\<lparr>workflow := Some (demo_wf\<lparr>tasks := r_tasks waiting_run\<rparr>),
     opts := Some demo_options, paused := True\<rparr>"

theorem paused_starts_nothing_witness:
  "\<exists>w'. workflow (fst (tick demo_config 20 demo_paused)) = Some w'
    \<and> list_all2 (\<lambda>t t'. status t = Pending \<longrightarrow> status t' \<in> {Pending, Failed, Skipped})
        (r_tasks waiting_run) (tasks w')"
  using paused_starts_nothing [of demo_paused "demo_wf\<lparr>tasks := r_tasks waiting_run\<rparr>" demo_options demo_config 20]
  by (simp add: demo_paused_def new_orchestrator_def)

definition abort_run :: run where
  "abort_run = waiting_run\<lparr>r_tasks :=
     [fail_task 7 (Some ''boom'') (demo_first\<lparr>taskDef := (taskDef demo_first)\<lparr>failureBehavior := FbAbort\<rparr>\<rparr>),
      demo_second]\<rparr>"

theorem abort_ends_workflow_witness:
  "snd (handleFailures demo_config 9 abort_run) = []
    \<and> list_all (\<lambda>u. status u \<noteq> Pending \<and> \<not> (status u = InProgress \<and> truthy_str (sessionKey u)))
         (r_tasks (fst (handleFailures demo_config 9 abort_run)))"
proof -
  have "hd (r_tasks abort_run) \<in> set (r_tasks abort_run)" by (simp add: abort_run_def)
  moreover have "newly_failed (hd (r_tasks abort_run))"
    "failureBehavior (taskDef (hd (r_tasks abort_run))) = FbAbort"
    by code_simp+
  ultimately show ?thesis
    using abort_ends_workflow [of "hd (r_tasks abort_run)" abort_run demo_config 9]
    by (simp add: list_all_iff)
qed

section \<open>Persistence, control, server\<close>

lemma demo_graph_ok: "graph_ok (graph demo_wf)"
  using demo_valid demo_facts(5) by (simp add: wf_valid_def)

theorem save_load_witness:
  "\<exists>g. loadWorkflow (saveWorkflow demo_wf []) (wf_id demo_wf) = Some (demo_wf\<lparr>graph := g\<rparr>)
    \<and> map_get g = map_get (graph demo_wf) \<and> edges g = edges (graph demo_wf)"
proof -
  have k: "nat_keys (graph demo_wf)" by (simp add: nat_keys_def demo_facts demo_graph_def keys_of_def ref_number_def)
  have "concurrency demo_wf \<noteq> Some 0" "wf_runtimeLimitMs demo_wf \<noteq> Some 0" by code_simp+
  from save_load [OF demo_graph_ok k this] show ?thesis .
qed

definition plain_wf :: "string \<Rightarrow> task_status \<Rightarrow> task_list" where
  "plain_wf i st =
     \<lparr> wf_id = i, wf_name = i, tasks = [(pending_task (demo_def 1 (KTransform ''x'')))\<lparr>status := st\<rparr>],
       graph = [], pollingIntervalMs = 10, createdAt = 0, concurrency = None, wf_runtimeLimitMs = None,
       currentDepth = None, maxDepth = None, wf_replyTo = None \<rparr>"

definition demo_disk :: disk where
  "demo_disk = [(''w1.json'', Some (serialize (plain_wf ''w1'' InProgress))),
     (''w2.json'', Some (serialize (plain_wf ''w2'' Done)))]"

definition demo_retention :: retention_options where
  "demo_retention = \<lparr> completedMaxAgeMs = None, pausedMaxAgeMs = None \<rparr>"

theorem retention_exact_witness:
  "let (d', ids) = retentionRun demo_retention 200000000 demo_disk in
     ids = [''w2''] \<and> map_get d' ''w2.json'' = None \<and> map_get d' ''w1.json'' = map_get demo_disk ''w1.json''"
proof -
  have e: "snd (retentionRun demo_retention 200000000 demo_disk) = [''w2'']" by code_simp
  obtain d' where r: "retentionRun demo_retention 200000000 demo_disk = (d', [''w2''])"
    using e by (cases "retentionRun demo_retention 200000000 demo_disk") simp
  from retention_exact [OF r, of "''w2.json''"] retention_exact [OF r, of "''w1.json''"] show ?thesis
    unfolding r by (simp add: statePath_def)
qed

theorem retention_keeps_skipped_witness:
  "\<not> prunable COMPLETED_MAX_AGE_MS PAUSED_MAX_AGE_MS 999999999999
     (demo_wf\<lparr>tasks := [demo_first, demo_second\<lparr>status := Skipped\<rparr>]\<rparr>)"
  by (rule retention_keeps_skipped) (simp_all add: demo_facts isTerminal_def)

definition demo_plane :: plane where
  "demo_plane = \<lparr> orchestrators = [(''w1'', demo_state)], disk = demo_disk \<rparr>"

lemma demo_plane_get: "map_get (orchestrators demo_plane) ''w1'' = Some demo_state"
  by (simp add: demo_plane_def map_get_def)

theorem abort_stops_witness:
  "\<exists>s'. map_get (orchestrators (snd (abort None True 30 ''w1'' demo_plane))) ''w1'' = Some s'
    \<and> completed s' \<and> \<not> pollingTimer s' \<and> \<not> statusTimer s' \<and> ticks [(demo_config, 40)] s' = s'
    \<and> (\<exists>w'. workflow s' = Some w' \<and> list_all (\<lambda>t. isTerminal (status t)) (tasks w')
         \<and> list_all2 (\<lambda>t t'. isTerminal (status t) \<longrightarrow> t' = t) (tasks demo_wf) (tasks w'))"
  by (rule abort_stops [OF demo_plane_get demo_facts(1)])

lemma demo_ids: "ids_ok (tasks demo_wf)" "map_ok (graph demo_wf)" "acyclic (edges (graph demo_wf))"
  using demo_valid demo_graph_ok demo_facts(5) by (auto simp: wf_valid_def graph_ok_def comp_def)

theorem retry_resets_witness:
  "\<exists>s' w'. map_get (orchestrators (snd (retry demo_config ''w1'' (tid demo_first) False demo_plane))) ''w1'' = Some s'
    \<and> \<not> paused s' \<and> \<not> completed s' \<and> pollingTimer s' \<and> workflow s' = Some w'
    \<and> (\<forall>u \<in> set (tasks w'). tid u = tid demo_first \<longrightarrow> status u = Pending)"
proof -
  from retry_resets [OF demo_plane_get demo_facts(1,2) demo_ids demo_mem(1), of demo_config False]
  obtain s' w' where s: "map_get (orchestrators (snd (retry demo_config ''w1'' (tid demo_first) False demo_plane))) ''w1'' = Some s'"
    "\<not> paused s'" "\<not> completed s'" "pollingTimer s'" "workflow s' = Some w'"
    and t: "tasks w' = map (\<lambda>u. if tid u = tid demo_first \<or>
        (tid u, tid demo_first) \<in> (edges (graph demo_wf))\<^sup>+ \<and> (status u = Failed \<or> False \<and> status u = Done)
        then resetTask u else u) (tasks demo_wf)"
    using demo_facts(9) by blast
  have "\<forall>u \<in> set (tasks w'). tid u = tid demo_first \<longrightarrow> status u = Pending" unfolding t by auto
  with s show ?thesis by blast
qed

definition demo_marked :: orch where
  "demo_marked = demo_state\<lparr>templateApplied := [tid demo_first]\<rparr>"

theorem retry_keeps_template_marks_witness:
  "\<exists>s'. map_get (orchestrators (snd (retry demo_config ''w1'' (tid demo_first) False
        (demo_plane\<lparr>orchestrators := [(''w1'', demo_marked)]\<rparr>)))) ''w1'' = Some s'
    \<and> applyOutputTemplate demo_first (templateApplied s') = (demo_first, templateApplied s')"
proof -
  let ?p = "demo_plane\<lparr>orchestrators := [(''w1'', demo_marked)]\<rparr>"
  have g: "map_get (orchestrators ?p) ''w1'' = Some demo_marked" by (simp add: map_get_def)
  obtain s' where s: "map_get (orchestrators (snd (retry demo_config ''w1'' (tid demo_first) False ?p))) ''w1'' = Some s'"
    using retry_known [OF g] by blast
  have "tid demo_first \<in> set (templateApplied demo_marked)" by (simp add: demo_marked_def)
  from retry_keeps_template_marks [OF g this s] s show ?thesis by blast
qed

definition demo_updates :: task_updates where
  "demo_updates =
     \<lparr> u_prompt = Some ''new'', u_failureBehavior = None, u_failureNotification = None, u_runtimeLimitMs = Some 7 \<rparr>"

theorem edit_guard_witness:
  "edit_tasks ''w1'' (tid demo_second) demo_updates demo_wf = Inl (TaskInProgress (tid demo_second))
    \<and> (\<exists>w'. edit_tasks ''w1'' (tid demo_first) demo_updates demo_wf = Inr w'
         \<and> map status (tasks w') = map status (tasks demo_wf))"
  using edit_guard [OF demo_ids(1) demo_mem(2), of "''w1''" demo_updates]
    edit_guard [OF demo_ids(1) demo_mem(1), of "''w1''" demo_updates]
  by (auto simp: demo_facts(9,10))

definition demo_seen :: "int \<Rightarrow> ctl_error + task_list" where
  "demo_seen m = Inr (plain_wf ''w1'' (if m < 35 then InProgress else Done))"

theorem wait_returns_witness:
  "\<exists>m. 0 \<le> m \<and> m \<le> 100 \<and> demo_seen m = Inr (plain_wf ''w1'' Done)
    \<and> wait demo_seen ''w1'' (Some 100) 0 = Inr (plain_wf ''w1'' Done)"
proof -
  have w: "wait demo_seen ''w1'' (Some 100) 0 = Inr (plain_wf ''w1'' Done)" by code_simp
  have "\<exists>w. demo_seen m = Inr w" for m by (simp add: demo_seen_def)
  from wait_returns [of demo_seen 0 "Some 100" "''w1''", OF this] w show ?thesis by auto
qed

theorem server_resume_running_witness:
  "\<exists>s w'. map_get (orchestrators (fst (server_resume demo_config ''state'' demo_plane))) ''w1'' = Some s
    \<and> w' \<in> set (listIncompleteWorkflows (disk demo_plane)) \<and> wf_id w' = ''w1'' \<and> workflow s = Some w'
    \<and> pollingTimer s \<and> \<not> completed s \<and> \<not> paused s"
proof -
  have i: "listIncompleteWorkflows demo_disk = [plain_wf ''w1'' InProgress]" by code_simp
  have "plain_wf ''w1'' InProgress \<in> set (listIncompleteWorkflows (disk demo_plane))"
    by (simp add: demo_plane_def i)
  from server_resume_running [OF this, of demo_config "''state''"] show ?thesis by (simp add: plain_wf_def)
qed

section \<open>Status posts\<close>

definition broken_adapter :: message_adapter where
  "broken_adapter =
     \<lparr> postMessage = (\<lambda>c. Inr ''m2''), editMessage = (\<lambda>i c. Inr (EditFailed Permanent)), can_pin = True \<rparr>"

definition gone_adapter :: message_adapter where
  "gone_adapter = broken_adapter\<lparr>editMessage := (\<lambda>i c. Inr (EditFailed NotFound))\<rparr>"

definition demo_manager :: status_manager where
  "demo_manager = \<lparr> pinStatusPost = True, messageId = Some ''m1'', dead = False, calls = [] \<rparr>"

theorem permanent_latches_witness:
  "calls (updates [(gone_adapter, 9, plain_wf ''w1'' Done)]
      (fst (updateStatus broken_adapter 8 (plain_wf ''w1'' InProgress) demo_manager))) =
     [EditMessage ''m1'' (formatStatusMessage 8 (plain_wf ''w1'' InProgress))]"
  using permanent_latches [of demo_manager "''m1''" broken_adapter 8 "plain_wf ''w1'' InProgress"]
  by (simp add: demo_manager_def broken_adapter_def)

theorem repost_only_when_gone_witness:
  "messageId (fst (updateStatus gone_adapter 8 (plain_wf ''w1'' InProgress) demo_manager)) = Some ''m2''"
  using repost_only_when_gone [of demo_manager "''m1''" gone_adapter 8 "plain_wf ''w1'' InProgress" "EditFailed NotFound"]
  by (simp add: demo_manager_def gone_adapter_def broken_adapter_def post_status_def Let_def pinIfSupported_def call_made_def)

theorem completed_tally_done_witness: "completed_tally (plain_wf ''w1'' Done) = 1"
  using completed_tally_done [of "plain_wf ''w1'' Done"] by (simp add: plain_wf_def isTerminal_def)

section \<open>Gates and blocking\<close>

definition demo_cond :: cond where
  "demo_cond = CAnd (CRef 1 True) (CContains (CRef 1 False) (CStr ''ok''))"

definition demo_context :: gate_context where
  "demo_context i = (if i = js_nat 1 then Some \<lparr> ge_output = ''all ok'', ge_success = True \<rparr> else None)"

theorem evaluateGateCondition_sem_witness:
  "plain_cond demo_cond \<and> evaluateGateCondition (print_cond demo_cond) demo_context = Some (Inr True)"
proof -
  have p: "plain_cond demo_cond" by (simp add: demo_cond_def plain_str_def)
  have "(case sem demo_context demo_cond of Inl err \<Rightarrow> Inl err | Inr v \<Rightarrow> Inr (toBool v)) = Inr True" by code_simp
  with evaluateGateCondition_sem [OF p, of demo_context] p show ?thesis by simp
qed

text \<open>A task whose two dependencies have failed and been skipped.\<close>

definition mixed_graph :: "task_id graph" where
  "mixed_graph = [(js_nat 1, []), (js_nat 2, []), (js_nat 3, [js_nat 1, js_nat 2])]"

definition mixed_tasks :: "(task_id, task_state) jsmap" where
  "mixed_tasks = taskMap (map (\<lambda>(i, st). (pending_task (demo_def i (KTransform ''x'')))\<lparr>status := st\<rparr>)
     [(1, Failed), (2, Skipped), (3, Pending)])"

theorem computeBlockedAndSkipped_closures_witness:
  "map_ok mixed_graph \<and> js_nat 3 \<in> set (fst (computeBlockedAndSkipped mixed_graph mixed_tasks))
    \<and> js_nat 3 \<notin> set (snd (computeBlockedAndSkipped mixed_graph mixed_tasks))"
proof -
  have m: "map_ok mixed_graph" by (simp add: mixed_graph_def)
  have "(js_nat 3, js_nat 1) \<in> edges mixed_graph" unfolding edges_iff by code_simp
  moreover have "is_pending mixed_tasks (js_nat 3)" "List.member (ids_with Failed mixed_tasks) (js_nat 1)" by code_simp+
  ultimately show ?thesis
    using computeBlockedAndSkipped_closures [OF m, of mixed_tasks, THEN conjunct2, THEN conjunct2] m
    unfolding List.member_iff by blast
qed

section \<open>A turn queue\<close>

definition turn :: "string \<Rightarrow> turn_priority \<Rightarrow> queue_entry" where
  "turn i pr =
     \<lparr> qe_id = i, qe_priority = pr, qe_label = i, qe_enqueuedAt = 0, qe_onQueued = False,
       qe_onDequeued = False, qe_dequeued = False \<rparr>"

definition busy_queue :: turn_queue where
  "busy_queue =
     enqueue 2 ''b'' ''s'' SystemTurn ''b'' True True (enqueue 1 ''a'' ''s'' UserTurn ''a'' True True (new_turn_queue 2 6))"

lemma busy_reach: "queue_step\<^sup>*\<^sup>* (new_turn_queue 2 6) busy_queue"
  unfolding busy_queue_def
  by (rule rtranclp.rtrancl_into_rtrancl [OF rtranclp.rtrancl_into_rtrancl [OF rtranclp.rtrancl_refl]])
    (rule queue_step.step_enqueue)+

lemma busy_session:
  "\<exists>sq. map_get (q_sessions busy_queue) ''s'' = Some sq \<and> running sq
     \<and> runningEntry sq = Some ((turn ''a'' UserTurn)\<lparr>qe_enqueuedAt := 1, qe_onQueued := True, qe_onDequeued := True, qe_dequeued := True\<rparr>)"
  by (rule exI [of _ "the (map_get (q_sessions busy_queue) ''s'')"]) code_simp

theorem queue_sound_witness:
  "waiting_ids ''s'' busy_queue = {#''b''#} \<and> left_ids ''s'' (q_log busy_queue) = {#''a''#}
    \<and> accepted_ids ''s'' (q_log busy_queue) = {#''b'', ''a''#}"
proof -
  have w: "map (\<lambda>e. fst e) (listQueued ''s'' None busy_queue) = [''b'']"
    "q_log busy_queue = [Accepted ''s'' ''a'', OnDequeued ''s'' ''a'', Started ''s'' ''a'', Accepted ''s'' ''b'', OnQueued ''s'' ''b'']"
    by code_simp+
  obtain sq where sq: "map_get (q_sessions busy_queue) ''s'' = Some sq" using busy_session by blast
  have "map qe_id (high sq @ normal sq) = [''b'']" using w(1) sq by (simp add: listQueued_def comp_def)
  moreover have "waiting_ids ''s'' busy_queue = mset (map qe_id (high sq @ normal sq))" by (simp add: sq)
  ultimately have "waiting_ids ''s'' busy_queue = {#''b''#}" by (simp only: mset.simps)
  with queue_sound [OF busy_reach, of "''s''"] w(2) show ?thesis by simp
qed

theorem stale_settle_witness:
  "settle 3 True False ''s'' ''old'' busy_queue = busy_queue\<lparr>q_log := q_log busy_queue @ [Settled ''s'' ''old'' True]\<rparr>"
  using busy_session by (intro stale_settle) (auto simp: turn_def)

theorem no_starvation_witness:
  "Some (turn ''u'' UserTurn) \<in> set (picks 2 (replicate 3 [turn ''x'' SystemTurn])
     (empty_session\<lparr>normal := [turn ''u'' UserTurn]\<rparr>))"
  by (rule no_starvation) simp_all

definition blocked_queue :: turn_queue where
  "blocked_queue = snd (beginTurnQueueBlock ''s'' busy_queue)"

theorem release_keeps_block_witness:
  "''s'' \<in> set (q_blocked (settle 5 True False ''s'' ''a'' (snd (forceReleaseRunning 5 ''s'' blocked_queue))))
    \<and> \<not> isRunning ''s'' (settle 5 True False ''s'' ''a'' (snd (forceReleaseRunning 5 ''s'' blocked_queue)))"
proof -
  obtain sq where sq: "map_get (q_sessions busy_queue) ''s'' = Some sq" "running sq" using busy_session by blast
  moreover have "q_blocked busy_queue = []" by code_simp
  ultimately have "''s'' \<in> set (q_blocked blocked_queue)" "map_get (q_sessions blocked_queue) ''s'' = Some sq"
    by (simp_all add: blocked_queue_def beginTurnQueueBlock_def)
  from release_keeps_block [OF this sq(2)] show ?thesis .
qed

theorem turn_end_throw_wedges_witness:
  "isRunning ''s'' (enqueue 9 ''c'' ''s'' UserTurn ''c'' False False (settle 8 True True ''s'' ''a'' busy_queue))"
proof -
  obtain sq e where sq: "map_get (q_sessions busy_queue) ''s'' = Some sq" "runningEntry sq = Some e" "running sq" "qe_id e = ''a''"
    using busy_session by (auto simp: turn_def)
  from turn_end_throw_wedges [OF sq(1-3)] sq(4) show ?thesis by simp
qed

theorem negative_count_witness:
  "fst (removeByCount ''s'' (Some SystemTurn) (- 1)
     (put_session ''s'' (empty_session\<lparr>high := [turn ''a'' SystemTurn, turn ''b'' SystemTurn, turn ''c'' SystemTurn]\<rparr>)
       (new_turn_queue 2 6))) = 2"
  using negative_count [of "put_session ''s'' (empty_session\<lparr>high := [turn ''a'' SystemTurn, turn ''b'' SystemTurn,
      turn ''c'' SystemTurn]\<rparr>) (new_turn_queue 2 6)" "''s''"] by simp

theorem fractional_index_witness:
  "fst (removeByRange ''s'' (Some SystemTurn) (1 / 2) (1 / 2)
     (put_session ''s'' (empty_session\<lparr>high := [turn ''a'' SystemTurn]\<rparr>) (new_turn_queue 2 6))) = 1"
  using fractional_index [of "put_session ''s'' (empty_session\<lparr>high := [turn ''a'' SystemTurn]\<rparr>) (new_turn_queue 2 6)"
      "''s''"] by simp

end
