(* ===== verification/Session_Urn.thy ===== *)
theory Session_Urn
  imports Prelude
begin

text \<open>
  Session identifiers, from \<open>shared/src/session-urn.ts\<close>: validation of the agent id and of the
  tail segments, parsing, formatting, and the identifiers minted for subagents. Regular
  expressions are character-class checks; \<open>urn_text\<close> is the canonical text of a parsed
  identifier, and a parse always gives components that print back to themselves.
\<close>

section \<open>Segments\<close>

definition is_alnum :: "char \<Rightarrow> bool" where
  "is_alnum c \<longleftrightarrow>
     (let n = (of_char c :: nat)
      in (48 \<le> n \<and> n \<le> 57) \<or> (65 \<le> n \<and> n \<le> 90) \<or> (97 \<le> n \<and> n \<le> 122))"

text \<open>The class \<open>[A-Za-z0-9._-]\<close>.\<close>

definition is_seg_char :: "char \<Rightarrow> bool" where
  "is_seg_char c \<longleftrightarrow> is_alnum c \<or> c \<in> {CHR ''.'', CHR ''_'', CHR ''-''}"

text \<open>The class \<open>[0-9a-f]\<close> under the flag \<open>i\<close>.\<close>

definition is_hex :: "char \<Rightarrow> bool" where
  "is_hex c \<longleftrightarrow>
     (let n = (of_char c :: nat)
      in (48 \<le> n \<and> n \<le> 57) \<or> (65 \<le> n \<and> n \<le> 70) \<or> (97 \<le> n \<and> n \<le> 102))"

definition uuid_shape :: "(char \<Rightarrow> bool) list" where
  "uuid_shape =
     replicate 8 is_hex @ (\<lambda>c. c = CHR ''-'') # replicate 4 is_hex @ (\<lambda>c. c = CHR ''-'')
     # (\<lambda>c. c \<in> set ''12345678'') # replicate 3 is_hex @ (\<lambda>c. c = CHR ''-'')
     # (\<lambda>c. c \<in> set ''89abAB'') # replicate 3 is_hex @ (\<lambda>c. c = CHR ''-'') # replicate 12 is_hex"

definition SHOGGOTH_SESSION_UUID_RE :: "string \<Rightarrow> bool" where
  "SHOGGOTH_SESSION_UUID_RE s = list_all2 (\<lambda>p c. p c) uuid_shape s"

definition SHOGGOTH_SESSION_URN_TAIL_SEGMENT_RE :: "string \<Rightarrow> bool" where
  "SHOGGOTH_SESSION_URN_TAIL_SEGMENT_RE s \<longleftrightarrow>
     list_all is_seg_char s \<and> 1 \<le> length s \<and> length s \<le> 128"

abbreviation toLowerCase :: "string \<Rightarrow> string" where
  "toLowerCase \<equiv> map lower_char"

datatype urn_error =
    EmptyAgentId
  | InvalidAgentId string
  | AgentIdCharset string
  | EmptyPlatform
  | BadResourceType string
  | BadSessionLeaf string
  | InvalidParentUrn string
  | InvalidSubUuid

definition assertValidAgentId :: "string \<Rightarrow> urn_error + unit" where
  "assertValidAgentId agentId =
     (let t = js_trim agentId
      in if t = [] then Inl EmptyAgentId
         else if t = ''.'' \<or> t = ''..'' then Inl (InvalidAgentId agentId)
         else if \<not> list_all is_seg_char t then Inl (AgentIdCharset agentId)
         else Inr ())"

definition isValidSessionUrnTailSegment :: "string \<Rightarrow> bool" where
  "isValidSessionUrnTailSegment seg = SHOGGOTH_SESSION_URN_TAIL_SEGMENT_RE (js_trim seg)"

definition normalizeSessionUrnTailSegment :: "string \<Rightarrow> string" where
  "normalizeSessionUrnTailSegment seg =
     (let s = js_trim seg in if SHOGGOTH_SESSION_UUID_RE s then toLowerCase s else s)"

section \<open>Parsing, formatting, minting\<close>

record parsed_urn =
  u_agentId :: string
  u_platform :: string
  u_resourceType :: string
  uuidChain :: "string list"

definition parseAgentSessionUrn :: "string \<Rightarrow> parsed_urn option" where
  "parseAgentSessionUrn ident =
     (let t = js_trim ident
      in if \<not> js_starts_with t ''agent:'' then None
         else (case js_split (CHR '':'') (drop (length ''agent:'') t) of
                 agentId # platform # resourceType # leaf # tails \<Rightarrow>
                   (if agentId = [] \<or> platform = [] \<or> resourceType = [] then None
                    else (case assertValidAgentId agentId of
                            Inl e \<Rightarrow> None
                          | Inr _ \<Rightarrow>
                              (if js_trim platform = [] then None
                               else if \<not> isValidSessionUrnTailSegment resourceType then None
                               else if \<not> list_all isValidSessionUrnTailSegment (leaf # tails) then None
                               else Some \<lparr> u_agentId = js_trim agentId, u_platform = js_trim platform,
                                           u_resourceType = js_trim resourceType,
                                           uuidChain = map normalizeSessionUrnTailSegment (leaf # tails) \<rparr>)))
               | _ \<Rightarrow> None))"

definition isValidAgentSessionUrn :: "string \<Rightarrow> bool" where
  "isValidAgentSessionUrn ident \<longleftrightarrow> parseAgentSessionUrn ident \<noteq> None"

definition isSubagentSessionUrn :: "string \<Rightarrow> bool" where
  "isSubagentSessionUrn ident =
     (case parseAgentSessionUrn ident of None \<Rightarrow> False | Some p \<Rightarrow> length (uuidChain p) > 1)"

definition urn_text :: "string \<Rightarrow> string \<Rightarrow> string \<Rightarrow> string list \<Rightarrow> string" where
  "urn_text agentId platform resourceType chain =
     ''agent:'' @ js_join '':'' (agentId # platform # resourceType # chain)"

definition resolveTopLevelSessionUrn :: "string \<Rightarrow> string option" where
  "resolveTopLevelSessionUrn ident =
     (case parseAgentSessionUrn ident of
        None \<Rightarrow> None
      | Some p \<Rightarrow>
          (if length (uuidChain p) \<le> 1 then None
           else Some (urn_text (u_agentId p) (u_platform p) (u_resourceType p) [hd (uuidChain p)])))"

definition formatAgentSessionUrn ::
  "string \<Rightarrow> string \<Rightarrow> string \<Rightarrow> string \<Rightarrow> urn_error + string" where
  "formatAgentSessionUrn agentId platform resourceType sessionLeaf =
     (case assertValidAgentId agentId of
        Inl e \<Rightarrow> Inl e
      | Inr _ \<Rightarrow>
          (let plat = js_trim platform; rt = js_trim resourceType; leaf = js_trim sessionLeaf
           in if plat = [] then Inl EmptyPlatform
              else if \<not> isValidSessionUrnTailSegment rt then Inl (BadResourceType resourceType)
              else if \<not> isValidSessionUrnTailSegment leaf then Inl (BadSessionLeaf sessionLeaf)
              else Inr (urn_text (js_trim agentId) plat rt [normalizeSessionUrnTailSegment leaf])))"

text \<open>\<open>random\<close> is the result of \<open>randomUUID()\<close>, used when no identifier is given.\<close>

definition mintSubagentSessionUrnFromParent ::
  "string \<Rightarrow> string \<Rightarrow> string option \<Rightarrow> urn_error + string" where
  "mintSubagentSessionUrnFromParent random parentSessionId subUuid =
     (case parseAgentSessionUrn parentSessionId of
        None \<Rightarrow> Inl (InvalidParentUrn parentSessionId)
      | Some p \<Rightarrow>
          (let subRaw = js_trim (nullish subUuid random)
           in if \<not> SHOGGOTH_SESSION_UUID_RE subRaw then Inl InvalidSubUuid
              else Inr (urn_text (u_agentId p) (u_platform p) (u_resourceType p)
                          [last (uuidChain p), toLowerCase subRaw])))"

definition mintAgentSessionUrn :: "string \<Rightarrow> string \<Rightarrow> string \<Rightarrow> string \<Rightarrow> urn_error + string" where
  "mintAgentSessionUrn random agentId platform resourceType =
     formatAgentSessionUrn agentId platform resourceType random"

definition SHOGGOTH_DEFAULT_PRIMARY_SESSION_UUID :: string where
  "SHOGGOTH_DEFAULT_PRIMARY_SESSION_UUID = ''00000000-0000-4000-8000-000000000001''"

definition defaultPrimarySessionUrnForAgent :: "string \<Rightarrow> string \<Rightarrow> string \<Rightarrow> urn_error + string" where
  "defaultPrimarySessionUrnForAgent agentId platform resourceType =
     formatAgentSessionUrn agentId platform resourceType SHOGGOTH_DEFAULT_PRIMARY_SESSION_UUID"

definition resolveAgentIdFromSessionId :: "string \<Rightarrow> string option" where
  "resolveAgentIdFromSessionId sessionId = map_option u_agentId (parseAgentSessionUrn sessionId)"

section \<open>Trimming and splitting\<close>

lemma js_trim_unpadded: "s = [] \<or> (\<not> is_ws (hd s) \<and> \<not> is_ws (last s)) \<Longrightarrow> js_trim s = s"
proof (cases "s = []")
  case False
  assume "s = [] \<or> (\<not> is_ws (hd s) \<and> \<not> is_ws (last s))"
  with False have "dropWhile is_ws s = s" "dropWhile is_ws (rev s) = rev s"
    by (simp_all add: dropWhile_eq_self_iff hd_rev)
  then show ?thesis by (simp add: js_trim_def)
qed (simp add: js_trim_def)

lemma js_trim_ends: "js_trim s = [] \<or> (\<not> is_ws (hd (js_trim s)) \<and> \<not> is_ws (last (js_trim s)))"
proof (cases "js_trim s = []")
  case False
  let ?t = "dropWhile is_ws s" and ?u = "dropWhile is_ws (rev (dropWhile is_ws s))"
  from False have u: "?u \<noteq> []" by (simp add: js_trim_def)
  have l: "\<not> is_ws (last (js_trim s))"
    using hd_dropWhile [OF u] u by (simp add: js_trim_def last_rev)
  have t: "?t \<noteq> []" using u by (metis dropWhile.simps(1) rev.simps(1))
  have "rev ?t = takeWhile is_ws (rev ?t) @ ?u" by simp
  then have "?t = rev ?u @ rev (takeWhile is_ws (rev ?t))" by (metis rev_append rev_rev_ident)
  then have "hd ?t = hd (rev ?u)" using u by (metis hd_append2 rev_is_Nil_conv)
  with hd_dropWhile [OF t] l show ?thesis by (simp add: js_trim_def)
qed simp

lemma js_trim_unpaddedem [simp]: "js_trim (js_trim s) = js_trim s"
  by (rule js_trim_unpadded) (rule js_trim_ends)

lemma set_js_trim: "set (js_trim s) \<subseteq> set s"
  by (metis js_trim_def set_dropWhileD set_rev subsetI)

lemma js_trim_keeps: "c \<in> set s \<Longrightarrow> \<not> is_ws c \<Longrightarrow> c \<in> set (js_trim s)"
proof -
  have keep: "\<And>u. c \<in> set u \<Longrightarrow> \<not> is_ws c \<Longrightarrow> c \<in> set (dropWhile is_ws u)"
    by (metis (full_types) UnE set_append set_takeWhileD takeWhile_dropWhile_id)
  assume "c \<in> set s" "\<not> is_ws c"
  then show ?thesis by (auto simp: js_trim_def keep)
qed

lemma js_split_of_join:
  "ps \<noteq> [] \<Longrightarrow> list_all (\<lambda>p. c \<notin> set p) ps \<Longrightarrow> js_split c (js_join [c] ps) = ps"
  by (induction "[c]" ps rule: js_join.induct) (auto simp: js_split_clean js_split_append)

section \<open>Parsed identifiers are canonical\<close>

lemma seg_char_clean: "is_seg_char c \<Longrightarrow> \<not> is_ws c \<and> c \<noteq> CHR '':''"
  by (auto simp: is_seg_char_def is_alnum_def is_ws_def Let_def)

lemma seg_trim: "list_all is_seg_char s \<Longrightarrow> js_trim s = s"
  by (rule js_trim_unpadded) (metis list.pred_set hd_in_set last_in_set seg_char_clean)

lemma seg_no_colon: "list_all is_seg_char s \<Longrightarrow> CHR '':'' \<notin> set s"
  by (auto simp: list_all_iff dest: seg_char_clean)

lemma hex_seg: "is_hex c \<Longrightarrow> is_seg_char c"
  by (auto simp: is_hex_def is_seg_char_def is_alnum_def Let_def)

lemma of_char_char_of_small: "n < 256 \<Longrightarrow> of_char (char_of (n :: nat)) = n"
  by (simp add: of_char_of)

lemma lower_hex [simp]: "is_hex (lower_char c) = is_hex c"
proof -
  have "(of_char c :: nat) < 256" by (metis nat_of_char_less_256)
  then show ?thesis
    by (auto simp: lower_char_def is_hex_def Let_def of_char_char_of_small)
qed

lemma lower_lower [simp]: "lower_char (lower_char c) = lower_char c"
proof -
  have "(of_char c :: nat) < 256" by (metis nat_of_char_less_256)
  then show ?thesis by (auto simp: lower_char_def Let_def of_char_char_of_small)
qed

lemma lower_dash [simp]: "lower_char c = CHR ''-'' \<longleftrightarrow> c = CHR ''-''"
  by (rule iffI; cases "65 \<le> (of_char c :: nat) \<and> (of_char c :: nat) \<le> 90")
     (auto simp: lower_char_def Let_def dest!: arg_cong [where f = "of_char :: char \<Rightarrow> nat"])

lemma shape_mono:
  "list_all2 (\<lambda>p c. p c) ps s \<Longrightarrow> list_all (\<lambda>p. \<forall>c. p c \<longrightarrow> p (lower_char c)) ps \<Longrightarrow>
     list_all2 (\<lambda>p c. p c) ps (toLowerCase s)"
  by (induction ps s rule: list_all2_induct) auto

lemma shape_seg:
  "list_all2 (\<lambda>p c. p c) ps s \<Longrightarrow> list_all (\<lambda>p. \<forall>c. p c \<longrightarrow> is_seg_char c) ps \<Longrightarrow>
     list_all is_seg_char s"
  by (induction ps s rule: list_all2_induct) auto

lemma lower_table:
  "list_all (\<lambda>c. lower_char c \<in> set ''12345678'') ''12345678''"
  "list_all (\<lambda>c. lower_char c \<in> set ''89abAB'') ''89abAB''"
  "list_all is_seg_char ''12345678-89abAB''"
  by code_simp+

lemma lower_sets:
  "c \<in> set ''12345678'' \<Longrightarrow> lower_char c \<in> set ''12345678''"
  "c \<in> set ''89abAB'' \<Longrightarrow> lower_char c \<in> set ''89abAB''"
  using lower_table(1,2) unfolding list_all_iff by blast+

lemma set_seg: "c \<in> set ''12345678-89abAB'' \<Longrightarrow> is_seg_char c"
  using lower_table(3) unfolding list_all_iff by blast

lemma uuid_lower: "SHOGGOTH_SESSION_UUID_RE s \<Longrightarrow> SHOGGOTH_SESSION_UUID_RE (toLowerCase s)"
  unfolding SHOGGOTH_SESSION_UUID_RE_def
  by (erule shape_mono) (simp add: uuid_shape_def list_all_iff lower_sets [simplified])

lemma uuid_seg: "SHOGGOTH_SESSION_UUID_RE s \<Longrightarrow> list_all is_seg_char s"
  unfolding SHOGGOTH_SESSION_UUID_RE_def
  by (erule shape_seg) (auto simp: uuid_shape_def list_all_iff intro: hex_seg set_seg)

lemma uuid_length: "SHOGGOTH_SESSION_UUID_RE s \<Longrightarrow> length s = 36"
  unfolding SHOGGOTH_SESSION_UUID_RE_def by (drule list_all2_lengthD) (simp add: uuid_shape_def)

lemma uuid_tail: "SHOGGOTH_SESSION_UUID_RE s \<Longrightarrow> SHOGGOTH_SESSION_URN_TAIL_SEGMENT_RE s"
  by (simp add: SHOGGOTH_SESSION_URN_TAIL_SEGMENT_RE_def uuid_seg uuid_length)

lemma tail_seg: "SHOGGOTH_SESSION_URN_TAIL_SEGMENT_RE s \<Longrightarrow> list_all is_seg_char s"
  by (simp add: SHOGGOTH_SESSION_URN_TAIL_SEGMENT_RE_def)

lemma tail_trim [simp]: "SHOGGOTH_SESSION_URN_TAIL_SEGMENT_RE s \<Longrightarrow> js_trim s = s"
  by (simp add: seg_trim tail_seg)

lemma normalize_uuid [simp]:
  "SHOGGOTH_SESSION_UUID_RE s \<Longrightarrow> normalizeSessionUrnTailSegment s = toLowerCase s"
  by (simp add: normalizeSessionUrnTailSegment_def uuid_tail)

lemma normalize_valid:
  assumes "isValidSessionUrnTailSegment s"
  shows "SHOGGOTH_SESSION_URN_TAIL_SEGMENT_RE (normalizeSessionUrnTailSegment s)
    \<and> normalizeSessionUrnTailSegment (normalizeSessionUrnTailSegment s) = normalizeSessionUrnTailSegment s"
proof (cases "SHOGGOTH_SESSION_UUID_RE (js_trim s)")
  case True
  then have "normalizeSessionUrnTailSegment s = toLowerCase (js_trim s)"
    by (simp add: normalizeSessionUrnTailSegment_def)
  moreover have "SHOGGOTH_SESSION_UUID_RE (toLowerCase (js_trim s))" using True by (rule uuid_lower)
  ultimately show ?thesis by (simp add: uuid_tail del: map_map) (simp add: o_def)
next
  case False
  with assms show ?thesis
    by (simp add: normalizeSessionUrnTailSegment_def isValidSessionUrnTailSegment_def)
qed

definition canonical :: "parsed_urn \<Rightarrow> bool" where
  "canonical u \<longleftrightarrow>
     assertValidAgentId (u_agentId u) = Inr () \<and> list_all is_seg_char (u_agentId u)
     \<and> js_trim (u_platform u) = u_platform u \<and> u_platform u \<noteq> [] \<and> CHR '':'' \<notin> set (u_platform u)
     \<and> SHOGGOTH_SESSION_URN_TAIL_SEGMENT_RE (u_resourceType u) \<and> uuidChain u \<noteq> []
     \<and> list_all (\<lambda>s. SHOGGOTH_SESSION_URN_TAIL_SEGMENT_RE s \<and> normalizeSessionUrnTailSegment s = s)
         (uuidChain u)"

abbreviation text_of :: "parsed_urn \<Rightarrow> string" where
  "text_of u \<equiv> urn_text (u_agentId u) (u_platform u) (u_resourceType u) (uuidChain u)"

lemma valid_agent_seg: "assertValidAgentId a = Inr () \<Longrightarrow> list_all is_seg_char (js_trim a)"
  by (simp add: assertValidAgentId_def Let_def split: if_splits)

lemma valid_agent_trim: "assertValidAgentId a = Inr () \<Longrightarrow> assertValidAgentId (js_trim a) = Inr ()"
  by (simp add: assertValidAgentId_def Let_def split: if_splits)

lemma parse_canonical:
  assumes "parseAgentSessionUrn ident = Some u"
  shows "canonical u"
proof -
  let ?segs = "js_split (CHR '':'') (drop (length ''agent:'') (js_trim ident))"
  obtain a pl r l ls where segs: "?segs = a # pl # r # l # ls"
    and a: "assertValidAgentId a = Inr ()" and pl: "js_trim pl \<noteq> []"
    and r: "isValidSessionUrnTailSegment r" and l: "list_all isValidSessionUrnTailSegment (l # ls)"
    and u: "u = \<lparr> u_agentId = js_trim a, u_platform = js_trim pl, u_resourceType = js_trim r,
                   uuidChain = map normalizeSessionUrnTailSegment (l # ls) \<rparr>"
    using assms
    by (auto simp: parseAgentSessionUrn_def Let_def split: if_splits list.splits sum.splits)
  have "CHR '':'' \<notin> set pl" using js_split_no_sep [of pl "CHR '':''"] segs by (metis list.set_intros)
  then have "CHR '':'' \<notin> set (js_trim pl)" using set_js_trim by blast
  then show ?thesis
    using a pl r l
    by (simp add: u canonical_def valid_agent_seg valid_agent_trim
          isValidSessionUrnTailSegment_def [of r] normalize_valid list.pred_map)
       (auto simp: list_all_iff normalize_valid)
qed

lemma join_last:
  "xs \<noteq> [] \<Longrightarrow> list_all (\<lambda>s. s \<noteq> []) xs \<Longrightarrow> last (js_join sep xs) = last (last xs)"
proof (induction sep xs rule: js_join.induct)
  case (3 sep x y xs)
  have "js_join sep (y # xs) \<noteq> []" using 3 by (cases xs) auto
  with 3 show ?case by (simp add: last_append)
qed auto

lemma canonical_nonempty:
  "canonical u \<Longrightarrow> list_all (\<lambda>s. s \<noteq> []) (u_agentId u # u_platform u # u_resourceType u # uuidChain u)"
  by (auto simp: canonical_def list_all_iff assertValidAgentId_def js_trim_def
        SHOGGOTH_SESSION_URN_TAIL_SEGMENT_RE_def split: if_splits)

lemma canonical_no_colon:
  assumes "canonical u"
  shows "list_all (\<lambda>s. CHR '':'' \<notin> set s) (u_agentId u # u_platform u # u_resourceType u # uuidChain u)"
proof -
  have "list_all (\<lambda>s. CHR '':'' \<notin> set s) (uuidChain u)"
    using assms unfolding canonical_def list_all_iff [of _ "uuidChain u"]
    by (meson seg_no_colon tail_seg)
  with assms show ?thesis by (simp add: canonical_def seg_no_colon tail_seg)
qed

lemma canonical_trim:
  assumes "canonical u"
  shows "js_trim (text_of u) = text_of u"
proof -
  let ?l = "last (uuidChain u)"
  have l: "?l \<in> set (uuidChain u)" using assms by (simp add: canonical_def)
  with assms have "?l \<noteq> []" "list_all is_seg_char ?l"
    using canonical_nonempty [OF assms] by (auto simp: canonical_def list_all_iff [of _ "uuidChain u"] tail_seg)
  then have "is_seg_char (last ?l)" by (simp add: list_all_iff)
  then have "\<not> is_ws (last ?l)" by (simp add: seg_char_clean)
  moreover have "last (text_of u) = last ?l"
  proof -
    let ?j = "js_join '':'' (u_agentId u # u_platform u # u_resourceType u # uuidChain u)"
    have "last ?j = last ?l"
      using join_last [OF _ canonical_nonempty [OF assms], of "'':''"] assms
      by (simp del: js_join.simps add: canonical_def)
    moreover have "?j \<noteq> []" by simp
    ultimately show ?thesis by (simp del: js_join.simps add: urn_text_def last_append)
  qed
  ultimately show ?thesis
    by (intro js_trim_unpadded) (simp add: urn_text_def is_ws_def)
qed

lemma canonical_parse:
  assumes "canonical u"
  shows "parseAgentSessionUrn (text_of u) = Some u"
proof -
  let ?segs = "u_agentId u # u_platform u # u_resourceType u # uuidChain u"
  have split: "js_split (CHR '':'') (js_join '':'' ?segs) = ?segs"
    by (rule js_split_of_join [OF _ canonical_no_colon [OF assms]]) simp
  obtain l ls where chain: "uuidChain u = l # ls" using assms by (auto simp: canonical_def neq_Nil_conv)
  have valid: "list_all isValidSessionUrnTailSegment (l # ls)"
    using assms by (auto simp: canonical_def chain list_all_iff isValidSessionUrnTailSegment_def)
  have norm: "map normalizeSessionUrnTailSegment (l # ls) = l # ls"
    using assms by (auto simp: canonical_def chain list_all_iff intro: map_idI)
  have "isValidSessionUrnTailSegment (u_resourceType u)" "js_trim (u_resourceType u) = u_resourceType u"
    "js_trim (u_agentId u) = u_agentId u" "assertValidAgentId (u_agentId u) = Inr ()"
    "js_trim (u_platform u) = u_platform u"
    using assms by (simp_all add: canonical_def isValidSessionUrnTailSegment_def seg_trim)
  with valid norm canonical_nonempty [OF assms] split show ?thesis
    unfolding parseAgentSessionUrn_def canonical_trim [OF assms] Let_def
    by (simp add: urn_text_def chain)
qed

section \<open>Properties\<close>

lemma format_canonical:
  assumes "formatAgentSessionUrn a p r l = Inr x" and "CHR '':'' \<notin> set p"
  shows "canonical \<lparr> u_agentId = js_trim a, u_platform = js_trim p, u_resourceType = js_trim r,
            uuidChain = [normalizeSessionUrnTailSegment l] \<rparr>
    \<and> x = urn_text (js_trim a) (js_trim p) (js_trim r) [normalizeSessionUrnTailSegment l]"
proof -
  have ok: "assertValidAgentId a = Inr ()" "js_trim p \<noteq> []"
    "isValidSessionUrnTailSegment r" "isValidSessionUrnTailSegment l"
    and x: "x = urn_text (js_trim a) (js_trim p) (js_trim r) [normalizeSessionUrnTailSegment l]"
    using assms(1)
    by (auto simp: formatAgentSessionUrn_def Let_def isValidSessionUrnTailSegment_def
          normalizeSessionUrnTailSegment_def split: if_splits sum.splits)
  have "CHR '':'' \<notin> set (js_trim p)" using assms(2) set_js_trim by blast
  with ok x show ?thesis
    by (simp add: canonical_def valid_agent_seg valid_agent_trim normalize_valid
          isValidSessionUrnTailSegment_def [of r])
qed

text \<open>
  C31. A formatted session identifier parses back to its trimmed components, the leaf normalised,
  exactly when the platform contains no colon: the formatter validates every component except
  the platform.
\<close>

theorem urn_round_trip:
  assumes "formatAgentSessionUrn a p r l = Inr x"
  shows "parseAgentSessionUrn x =
           Some \<lparr> u_agentId = js_trim a, u_platform = js_trim p, u_resourceType = js_trim r,
                  uuidChain = [normalizeSessionUrnTailSegment l] \<rparr>
         \<longleftrightarrow> CHR '':'' \<notin> set p"
proof (cases "CHR '':'' \<in> set p")
  case False
  with format_canonical [OF assms] canonical_parse show ?thesis by fastforce
next
  case True
  then have "CHR '':'' \<in> set (js_trim p)" by (rule js_trim_keeps) (simp add: is_ws_def)
  with True parse_canonical [of x] show ?thesis by (auto simp: canonical_def)
qed

lemma mint_canonical:
  assumes "mintSubagentSessionUrnFromParent random parent sub = Inr x"
    and "parseAgentSessionUrn parent = Some u"
  shows "canonical (u\<lparr>uuidChain := [last (uuidChain u), toLowerCase (js_trim (nullish sub random))]\<rparr>)
    \<and> x = urn_text (u_agentId u) (u_platform u) (u_resourceType u)
            [last (uuidChain u), toLowerCase (js_trim (nullish sub random))]"
proof -
  have uuid: "SHOGGOTH_SESSION_UUID_RE (js_trim (nullish sub random))"
    and x: "x = urn_text (u_agentId u) (u_platform u) (u_resourceType u)
             [last (uuidChain u), toLowerCase (js_trim (nullish sub random))]"
    using assms by (auto simp: mintSubagentSessionUrnFromParent_def Let_def split: if_splits)
  note low = uuid_lower [OF uuid]
  have c: "canonical u" using assms(2) by (rule parse_canonical)
  then have "last (uuidChain u) \<in> set (uuidChain u)" by (simp add: canonical_def)
  with c low x show ?thesis by (auto simp: canonical_def list_all_iff uuid_tail comp_def)
qed

text \<open>
  A subagent's identifier keeps the agent, platform and resource type of its parent and is a
  subagent identifier. Its top-level session is the parent, by the text of its last segment: for
  a parent that is a subagent itself this is not the session at the root of the chain.
\<close>

theorem subagent_urn:
  assumes "mintSubagentSessionUrnFromParent random parent sub = Inr x"
    and "parseAgentSessionUrn parent = Some u"
  shows "parseAgentSessionUrn x =
           Some (u\<lparr>uuidChain := [last (uuidChain u), toLowerCase (js_trim (nullish sub random))]\<rparr>)
    \<and> isSubagentSessionUrn x
    \<and> resolveTopLevelSessionUrn x =
        Some (urn_text (u_agentId u) (u_platform u) (u_resourceType u) [last (uuidChain u)])"
proof -
  have "parseAgentSessionUrn x =
      Some (u\<lparr>uuidChain := [last (uuidChain u), toLowerCase (js_trim (nullish sub random))]\<rparr>)"
    using mint_canonical [OF assms] canonical_parse by fastforce
  then show ?thesis by (simp add: isSubagentSessionUrn_def resolveTopLevelSessionUrn_def)
qed

lemma mint_agent:
  assumes "mintSubagentSessionUrnFromParent random parent sub = Inr x"
  shows "resolveAgentIdFromSessionId x = resolveAgentIdFromSessionId parent"
proof (cases "parseAgentSessionUrn parent")
  case None
  with assms show ?thesis by (simp add: mintSubagentSessionUrnFromParent_def)
next
  case (Some u)
  have "parseAgentSessionUrn x =
      Some (u\<lparr>uuidChain := [last (uuidChain u), toLowerCase (js_trim (nullish sub random))]\<rparr>)"
    using mint_canonical [OF assms Some] canonical_parse by fastforce
  with Some show ?thesis by (simp add: resolveAgentIdFromSessionId_def)
qed

end
