(* ===== verification/Policy.thy ===== *)
theory Policy
  imports Session_Urn Workflow_Types
begin

text \<open>
  Authorization: the policy engine (\<open>daemon/src/policy/engine.ts\<close>), the compound resources of
  tool calls (\<open>sub-resource.ts\<close>), the tool-id globs (\<open>sessions/tool-id-glob.ts\<close>), the
  default policy (\<open>shared/src/schema/policy.ts\<close>), the principals (\<open>authn/src/principal.ts\<close>)
  and the MCP server rules of \<open>shared/src/effective-agent-for-session.ts\<close>. The matcher of a rule
  list is shown equal to a declarative \<open>covers\<close>, the glob matcher to the decompositions a
  pattern describes.
\<close>

section \<open>Globs\<close>

text \<open>
  \<open>toolIdGlobMatches\<close> builds the source of a regular expression by three replacements: the
  characters of \<open>REGEX_SPECIALS\<close> get a backslash, then \<open>*\<close> becomes \<open>.*\<close>, then \<open>?\<close>
  becomes \<open>.\<close>.
\<close>

definition REGEX_SPECIALS :: "char list" where
  "REGEX_SPECIALS = ''.+^${}()|[]'' @ [CHR 0x5C]"

definition glob_source :: "string \<Rightarrow> string" where
  "glob_source pattern =
     concat (map (\<lambda>c. if c = CHR ''?'' then ''.'' else [c])
       (concat (map (\<lambda>c. if c = CHR ''*'' then ''.*'' else [c])
         (concat (map (\<lambda>c. if c \<in> set REGEX_SPECIALS then [CHR 0x5C, c] else [c]) pattern)))))"

text \<open>
  The regular expressions that this needs: escaped syntax characters, the dot, the dot repeated, and
  characters that stand for themselves. \<open>None\<close> is every other source: a bare syntax character, another
  quantifier, a class escape.
\<close>

datatype glob_atom = GLit char | GOne | GMany

fun parse_source :: "string \<Rightarrow> glob_atom list option" where
  "parse_source [] = Some []"
| "parse_source (c # cs) =
     (if c = CHR 0x5C
      then (case cs of
              [] \<Rightarrow> None
            | e # r \<Rightarrow> (if e \<in> set REGEX_SPECIALS then map_option ((#) (GLit e)) (parse_source r) else None))
      else if c = CHR ''.''
      then (case cs of
              [] \<Rightarrow> Some [GOne]
            | e # r \<Rightarrow> (if e = CHR ''*'' then map_option ((#) GMany) (parse_source r)
                         else map_option ((#) GOne) (parse_source (e # r))))
      else if c \<in> set REGEX_SPECIALS \<or> c = CHR ''*'' \<or> c = CHR ''?'' then None
      else map_option ((#) (GLit c)) (parse_source cs))"

definition line_end :: "char \<Rightarrow> bool" where
  "line_end c \<longleftrightarrow> c = CHR 0x0A \<or> c = CHR 0x0D"

text \<open>The anchored match; without the \<open>s\<close> flag a dot does not match a line terminator.\<close>

fun glob_match :: "glob_atom list \<Rightarrow> string \<Rightarrow> bool" where
  "glob_match [] s = (s = [])"
| "glob_match (GLit a # r) s = (case s of [] \<Rightarrow> False | c # cs \<Rightarrow> c = a \<and> glob_match r cs)"
| "glob_match (GOne # r) s = (case s of [] \<Rightarrow> False | c # cs \<Rightarrow> \<not> line_end c \<and> glob_match r cs)"
| "glob_match (GMany # r) [] = glob_match r []"
| "glob_match (GMany # r) (c # cs) =
     (glob_match r (c # cs) \<or> (\<not> line_end c \<and> glob_match (GMany # r) cs))"

definition isGlobPattern :: "string \<Rightarrow> bool" where
  "isGlobPattern pattern \<longleftrightarrow> CHR ''*'' \<in> set pattern \<or> CHR ''?'' \<in> set pattern"

definition toolIdGlobMatches :: "string \<Rightarrow> string \<Rightarrow> bool" where
  "toolIdGlobMatches pattern toolId =
     (if \<not> isGlobPattern pattern then pattern = toolId
      else (case parse_source (glob_source pattern) of None \<Rightarrow> False | Some as \<Rightarrow> glob_match as toolId))"

definition matchToolIds :: "string \<Rightarrow> string list \<Rightarrow> string list" where
  "matchToolIds pattern toolIds = filter (toolIdGlobMatches pattern) toolIds"

section \<open>Rules\<close>

text \<open>\<open>None\<close> is a tier list missing from a partial configuration.\<close>

record tool_rules =
  r_allow :: "string list option"
  r_deny :: "string list option"
  r_review :: "string list option"

datatype deny_reason = ExplicitDeny | RequiresReview | DefaultDeny | UnknownAction | UnknownPrincipal

datatype decision = Allow | Deny deny_reason

definition matchesRule :: "string \<Rightarrow> string list option \<Rightarrow> bool" where
  "matchesRule resource rs =
     (case rs of
        None \<Rightarrow> False
      | Some rules \<Rightarrow>
          (if ''*'' \<in> set rules then True
           else if resource \<in> set rules then True
           else (let toolBase = takeWhile (\<lambda>c. c \<noteq> CHR '':'') resource
                 in if length toolBase < length resource \<and> 0 < length toolBase
                    then toolBase @ '':*'' \<in> set rules \<or> toolBase \<in> set rules
                    else False)))"

definition matchesAllow :: "string \<Rightarrow> string list option \<Rightarrow> bool" where
  "matchesAllow resource allow = matchesRule resource allow"

definition matchesGlobRule :: "string \<Rightarrow> string list option \<Rightarrow> bool" where
  "matchesGlobRule resource rs =
     (case rs of
        None \<Rightarrow> False
      | Some rules \<Rightarrow> list_ex (\<lambda>rule. isGlobPattern rule \<and> toolIdGlobMatches rule resource) rules)"

definition matchesDeny :: "string \<Rightarrow> string list option \<Rightarrow> bool" where
  "matchesDeny resource deny \<longleftrightarrow> matchesRule resource deny \<or> matchesGlobRule resource deny"

definition matchesReview :: "string \<Rightarrow> string list option \<Rightarrow> bool" where
  "matchesReview resource review =
     (if review = None \<or> review = Some [] then False
      else matchesRule resource review \<or> matchesGlobRule resource review)"

definition evaluateRules :: "string \<Rightarrow> tool_rules \<Rightarrow> decision" where
  "evaluateRules resource rules =
     (if matchesDeny resource (r_deny rules) then Deny ExplicitDeny
      else if matchesReview resource (r_review rules) then Deny RequiresReview
      else if matchesAllow resource (r_allow rules) then Allow
      else Deny DefaultDeny)"

section \<open>The engine\<close>

datatype principal =
    OperatorPrincipal string "string list"
  | AgentPrincipal string "string option"
  | SystemPrincipal string
  | OtherPrincipal string

datatype policy_action = ControlInvoke | ToolInvoke | OtherAction string

record policy_config =
  operator_controlOps :: tool_rules
  operator_tools :: tool_rules
  agent_controlOps :: tool_rules
  agent_tools :: tool_rules
  redact_jsonPaths :: "string list"
  redact_toolPaths :: "(string, string list) jsmap option"

text \<open>\<open>agents.list\<close> restricted to \<open>policy.tools\<close> of each entry.\<close>

type_synonym agents_config = "(string, tool_rules option) jsmap option"

definition resolveEffectiveToolRules :: "tool_rules \<Rightarrow> tool_rules option \<Rightarrow> tool_rules" where
  "resolveEffectiveToolRules global perAgent =
     (case perAgent of
        None \<Rightarrow> global
      | Some p \<Rightarrow>
          \<lparr> r_allow = (if r_allow p = None then r_allow global else r_allow p),
            r_deny = (if r_deny p = None then r_deny global else r_deny p),
            r_review = (if r_review p = None then r_review global else r_review p) \<rparr>)"

definition agent_rules :: "agents_config \<Rightarrow> string option \<Rightarrow> tool_rules option" where
  "agent_rules agents agentId =
     (case (agents, agentId) of
        (Some l, Some i) \<Rightarrow> (if i = [] then None else Option.bind (map_get l i) (\<lambda>r. r))
      | _ \<Rightarrow> None)"

definition policy_check ::
  "policy_config \<Rightarrow> agents_config \<Rightarrow> principal \<Rightarrow> policy_action \<Rightarrow> string \<Rightarrow> decision" where
  "policy_check config agents who action resource =
     (case who of
        SystemPrincipal _ \<Rightarrow> Allow
      | OperatorPrincipal _ _ \<Rightarrow>
          (case action of
             ControlInvoke \<Rightarrow> evaluateRules resource (operator_controlOps config)
           | ToolInvoke \<Rightarrow> evaluateRules resource (operator_tools config)
           | OtherAction _ \<Rightarrow> Deny UnknownAction)
      | AgentPrincipal sessionId _ \<Rightarrow>
          (case action of
             ControlInvoke \<Rightarrow> evaluateRules resource (agent_controlOps config)
           | ToolInvoke \<Rightarrow>
               (let perAgent = agent_rules agents (resolveAgentIdFromSessionId sessionId)
                in evaluateRules resource (resolveEffectiveToolRules (agent_tools config) perAgent))
           | OtherAction _ \<Rightarrow> Deny UnknownAction)
      | OtherPrincipal _ \<Rightarrow> Deny UnknownPrincipal)"

definition EMPTY_RULES :: tool_rules where
  "EMPTY_RULES = \<lparr> r_allow = Some [], r_deny = Some [], r_review = Some [] \<rparr>"

definition emptyPolicyConfig :: policy_config where
  "emptyPolicyConfig =
     \<lparr> operator_controlOps = EMPTY_RULES, operator_tools = EMPTY_RULES,
       agent_controlOps = EMPTY_RULES, agent_tools = EMPTY_RULES,
       redact_jsonPaths = [], redact_toolPaths = None \<rparr>"

definition DEFAULT_POLICY_CONFIG :: policy_config where
  "DEFAULT_POLICY_CONFIG =
     \<lparr> operator_controlOps = \<lparr> r_allow = Some [''*''], r_deny = Some [], r_review = Some [] \<rparr>,
       operator_tools = \<lparr> r_allow = Some [''*''], r_deny = Some [], r_review = Some [] \<rparr>,
       agent_controlOps =
         \<lparr> r_allow = Some
             [''agent_ping'', ''acpx_bind_get'', ''subagent_spawn'', ''subagent_result'',
              ''subagent_wait'', ''session_compact'', ''session_context_status'', ''session_inspect'',
              ''session_list'', ''session_stats'', ''session_send'', ''session_steer'', ''prompt'',
              ''prompt_list'', ''session_abort'', ''session_kill'', ''config_request'', ''config_show'',
              ''media_generate'', ''media_generate_poll'', ''decision_evaluate'', ''rerank_documents''],
           r_deny = Some [], r_review = Some [] \<rparr>,
       agent_tools = \<lparr> r_allow = Some [''*''], r_deny = Some [], r_review = Some [] \<rparr>,
       redact_jsonPaths = [''password'', ''token'', ''apiKey'', ''api_key'', ''authorization'', ''secret''],
       redact_toolPaths = Some [(''builtin-vault'', [''value''])] \<rparr>"

definition DEFINED_CONTROL_OPS :: "string list" where
  "DEFINED_CONTROL_OPS =
     [''ping'', ''version'', ''health'', ''agent_ping'', ''acpx_bind_get'', ''acpx_bind_set'',
      ''acpx_bind_delete'', ''acpx_bind_list'', ''acpx_agent_start'', ''acpx_agent_stop'',
      ''acpx_agent_list'', ''hitl_pending_list'', ''hitl_pending_get'', ''hitl_pending_approve'',
      ''hitl_pending_deny'', ''hitl_clear'', ''hitl_cruise_control'', ''mcp_http_cancel_request'',
      ''session_compact'', ''session_context_new'', ''session_context_reset'',
      ''session_context_status'', ''session_stats'', ''subagent_spawn'', ''session_inspect'',
      ''session_list'', ''session_send'', ''session_steer'', ''prompt'', ''prompt_list'',
      ''session_abort'', ''session_kill'', ''session_model'', ''session_queue_manage'',
      ''elevation_grant'', ''elevation_revoke'', ''elevation_list'', ''yolo_mode'', ''media_generate'',
      ''media_generate_poll'', ''decision_evaluate'', ''rerank_documents'', ''config_show'',
      ''config_request'', ''procman_list'', ''procman_restart'', ''procman_stop'', ''vault.set'',
      ''vault.get'', ''vault.delete'', ''vault.list'', ''vault.import'', ''vault.rotate-key'',
      ''service.list'', ''service.requests'', ''service.request'', ''service.approve'',
      ''service.revoke'', ''service.rotate-key'']"

definition isDefinedControlOp :: "string \<Rightarrow> bool" where
  "isDefinedControlOp op \<longleftrightarrow> op \<in> set DEFINED_CONTROL_OPS"

section \<open>Compound resources\<close>

text \<open>\<open>String(v)\<close> of a JSON value; \<open>null\<close> inside an array prints as nothing.\<close>

fun json_String :: "json \<Rightarrow> string" where
  "json_String JNull = ''null''"
| "json_String (JBool b) = (if b then ''true'' else ''false'')"
| "json_String (JNum n) = js_num_text n"
| "json_String (JStr s) = s"
| "json_String (JArr vs) = js_join '','' (map (\<lambda>v. if v = JNull then [] else json_String v) vs)"
| "json_String (JObj fs) = ''[object Object]''"

type_synonym tool_args = "(string, json) jsmap"

definition execSubResourceExtractor :: "tool_args \<Rightarrow> string" where
  "execSubResourceExtractor args =
     (let firstToken =
        (case map_get args ''argv'' of
           Some (JArr (v # vs)) \<Rightarrow> js_trim (json_String v)
         | _ \<Rightarrow>
             (let cmd = js_trim (case map_get args ''command'' of
                                   None \<Rightarrow> [] | Some JNull \<Rightarrow> [] | Some v \<Rightarrow> json_String v)
              in hd (js_split_ws cmd)));
          base = (if CHR ''/'' \<in> set firstToken
                  then rev (takeWhile (\<lambda>c. c \<noteq> CHR ''/'') (rev firstToken)) else firstToken)
      in if base = [] then ''unknown'' else base)"

type_synonym extractor_registry = "(string, tool_args \<Rightarrow> string option) jsmap"

definition resolveCompoundResource :: "string \<Rightarrow> tool_args \<Rightarrow> extractor_registry \<Rightarrow> string" where
  "resolveCompoundResource toolName args registry =
     (case map_get registry toolName of
        None \<Rightarrow> toolName
      | Some extractor \<Rightarrow>
          (case extractor args of None \<Rightarrow> toolName | Some sub \<Rightarrow> toolName @ '':'' @ sub))"

definition createDefaultSubResourceRegistry :: extractor_registry where
  "createDefaultSubResourceRegistry =
     map_set ''builtin-exec'' (\<lambda>args. Some (execSubResourceExtractor args)) []"

section \<open>MCP server rules\<close>

record mcp_rules =
  m_allow :: "string list"
  m_deny :: "string list"

text \<open>Rules of a narrower scope: \<open>None\<close> is an absent field.\<close>

record mcp_overlay =
  o_allow :: "string list option"
  o_deny :: "string list option"

record mcp_agent =
  entry_mcp :: "mcp_overlay option"
  entry_subagentMcp :: "mcp_overlay option"

record mcp_config =
  global_mcp :: "mcp_overlay option"
  global_subagentMcp :: "mcp_overlay option"
  mcp_agents :: "(string, mcp_agent) jsmap option"

definition DEFAULT_MCP_SERVER_RULES :: mcp_rules where
  "DEFAULT_MCP_SERVER_RULES = \<lparr> m_allow = [''*''], m_deny = [] \<rparr>"

definition evaluateMcpServerRules :: "string \<Rightarrow> mcp_rules \<Rightarrow> bool \<Rightarrow> bool" where
  "evaluateMcpServerRules serverId rules explicit =
     (if serverId \<in> set (m_deny rules) \<or> ''*'' \<in> set (m_deny rules) then False
      else if serverId \<in> set (m_allow rules) then True
      else if \<not> explicit \<and> ''*'' \<in> set (m_allow rules) then True
      else False)"

definition findAgentEntry :: "mcp_config \<Rightarrow> string \<Rightarrow> mcp_agent option" where
  "findAgentEntry cfg agentId = Option.bind (mcp_agents cfg) (\<lambda>l. map_get l (js_trim agentId))"

definition overlay :: "mcp_overlay option \<Rightarrow> mcp_rules \<Rightarrow> mcp_rules" where
  "overlay narrower effective =
     (case narrower of
        None \<Rightarrow> effective
      | Some p \<Rightarrow>
          \<lparr> m_allow = nullish (o_allow p) (m_allow effective),
            m_deny = nullish (o_deny p) (m_deny effective) \<rparr>)"

definition resolveEffectiveMcpServerRules :: "mcp_config \<Rightarrow> string \<Rightarrow> bool \<Rightarrow> mcp_rules" where
  "resolveEffectiveMcpServerRules config agentId isSubagent =
     (let entry = findAgentEntry config agentId;
          effective = overlay (global_mcp config) DEFAULT_MCP_SERVER_RULES;
          effective = overlay (Option.bind entry entry_mcp) effective
      in if isSubagent
         then overlay (Option.bind entry entry_subagentMcp)
                (overlay (global_subagentMcp config) effective)
         else effective)"

section \<open>Rules mean what they cover\<close>

definition atom_lang :: "glob_atom \<Rightarrow> string \<Rightarrow> bool" where
  "atom_lang a s =
     (case a of
        GLit c \<Rightarrow> s = [c]
      | GOne \<Rightarrow> length s = 1 \<and> \<not> list_ex line_end s
      | GMany \<Rightarrow> \<not> list_ex line_end s)"

text \<open>
  What a pattern describes, character by character: the string falls into one part per character of the
  pattern, a part without line terminators for \<open>*\<close>, one character other than a line terminator
  for \<open>?\<close>, and the character itself for any other.
\<close>

definition glob_lang :: "string \<Rightarrow> string \<Rightarrow> bool" where
  "glob_lang pattern s \<longleftrightarrow>
     (\<exists>parts. s = concat parts \<and>
        list_all2 (\<lambda>c part.
          if c = CHR ''*'' then \<not> list_ex line_end part
          else if c = CHR ''?'' then length part = 1 \<and> \<not> list_ex line_end part
          else part = [c]) pattern parts)"

definition covers :: "string \<Rightarrow> string \<Rightarrow> bool" where
  "covers rule resource \<longleftrightarrow>
     rule = ''*'' \<or> rule = resource
     \<or> (\<exists>base sub. base \<noteq> [] \<and> CHR '':'' \<notin> set base \<and> resource = base @ '':'' @ sub
          \<and> (rule = base \<or> rule = base @ '':*''))"

definition blocks :: "string \<Rightarrow> string \<Rightarrow> bool" where
  "blocks rule resource \<longleftrightarrow> covers rule resource \<or> (isGlobPattern rule \<and> glob_lang rule resource)"

definition entries :: "string list option \<Rightarrow> string set" where
  "entries rs = (case rs of None \<Rightarrow> {} | Some rules \<Rightarrow> set rules)"

definition decomposes :: "glob_atom list \<Rightarrow> string \<Rightarrow> bool" where
  "decomposes as s \<longleftrightarrow> (\<exists>parts. s = concat parts \<and> list_all2 atom_lang as parts)"

lemma decomposes_Nil [simp]: "decomposes [] s \<longleftrightarrow> s = []"
  by (auto simp: decomposes_def)

lemma decomposes_Cons:
  "decomposes (a # r) s \<longleftrightarrow> (\<exists>p t. s = p @ t \<and> atom_lang a p \<and> decomposes r t)"
  unfolding decomposes_def list_all2_Cons1 by (metis concat.simps(2))

lemma atom_lang_simps [simp]:
  "atom_lang (GLit c) s \<longleftrightarrow> s = [c]"
  "atom_lang GOne s \<longleftrightarrow> length s = 1 \<and> \<not> list_ex line_end s"
  "atom_lang GMany s \<longleftrightarrow> \<not> list_ex line_end s"
  by (simp_all add: atom_lang_def)

lemma many_Cons:
  "(\<exists>p t. c # cs = p @ t \<and> \<not> list_ex line_end p \<and> Q t) \<longleftrightarrow>
     Q (c # cs) \<or> (\<not> line_end c \<and> (\<exists>p t. cs = p @ t \<and> \<not> list_ex line_end p \<and> Q t))"
  (is "?l \<longleftrightarrow> ?r")
proof
  assume ?l
  then obtain p t where pt: "c # cs = p @ t" "\<not> list_ex line_end p" "Q t" by blast
  then show ?r by (cases p) auto
next
  assume ?r
  then show ?l
  proof
    assume "Q (c # cs)" then show ?l by (intro exI [of _ "[]"] exI [of _ "c # cs"]) simp
  next
    assume "\<not> line_end c \<and> (\<exists>p t. cs = p @ t \<and> \<not> list_ex line_end p \<and> Q t)"
    then obtain p t where "\<not> line_end c" "cs = p @ t" "\<not> list_ex line_end p" "Q t" by blast
    then show ?l by (intro exI [of _ "c # p"] exI [of _ t]) simp
  qed
qed

lemma glob_match_iff: "glob_match as s \<longleftrightarrow> decomposes as s"
proof (induction as s rule: glob_match.induct)
  case (3 r s)
  have "decomposes (GOne # r) (c # cs) \<longleftrightarrow> \<not> line_end c \<and> decomposes r cs" for c cs
  proof
    assume "decomposes (GOne # r) (c # cs)"
    then show "\<not> line_end c \<and> decomposes r cs" by (auto simp: decomposes_Cons length_Suc_conv)
  next
    assume "\<not> line_end c \<and> decomposes r cs"
    then show "decomposes (GOne # r) (c # cs)"
      unfolding decomposes_Cons by (intro exI [of _ "[c]"] exI [of _ cs]) simp
  qed
  moreover have "\<not> decomposes (GOne # r) []" by (auto simp: decomposes_Cons)
  ultimately show ?case using 3 by (cases s) simp_all
next
  case (5 r c cs)
  then show ?case by (simp add: decomposes_Cons many_Cons)
qed (auto simp: decomposes_Cons split: list.split)

text \<open>The escaping is right: the generated source means the pattern, and none is outside the fragment.\<close>

definition glob_atom_of :: "char \<Rightarrow> glob_atom" where
  "glob_atom_of c = (if c = CHR ''*'' then GMany else if c = CHR ''?'' then GOne else GLit c)"

lemma special_chars [simp]: "CHR ''*'' \<notin> set REGEX_SPECIALS" "CHR ''?'' \<notin> set REGEX_SPECIALS"
  "CHR ''.'' \<in> set REGEX_SPECIALS" "CHR 0x5C \<in> set REGEX_SPECIALS"
  by (simp_all add: REGEX_SPECIALS_def)

lemma glob_source_simps [simp]:
  "glob_source [] = []"
  "glob_source (c # cs) =
     (if c = CHR ''*'' then ''.*'' else if c = CHR ''?'' then ''.''
      else if c \<in> set REGEX_SPECIALS then [CHR 0x5C, c] else [c]) @ glob_source cs"
  by (auto simp: glob_source_def)

lemma parse_glob_source: "parse_source (glob_source p) = Some (map glob_atom_of p)"
proof (induction p)
  case (Cons c p)
  have "hd (glob_source p) \<noteq> CHR ''*''" if "glob_source p \<noteq> []" using that by (cases p) auto
  then have dot: "parse_source (CHR ''.'' # glob_source p) = map_option ((#) GOne) (parse_source (glob_source p))"
    by (cases "glob_source p") auto
  show ?case
  proof (cases "c = CHR ''?''")
    case True
    then show ?thesis using Cons dot by (simp add: glob_atom_of_def)
  next
    case False
    then show ?thesis using Cons special_chars(3,4) by (auto simp: glob_atom_of_def)
  qed
qed simp

lemma toolIdGlobMatches_glob: "isGlobPattern p \<Longrightarrow> toolIdGlobMatches p s \<longleftrightarrow> glob_lang p s"
proof -
  have "atom_lang (glob_atom_of c) = (\<lambda>part. if c = CHR ''*'' then \<not> list_ex line_end part
      else if c = CHR ''?'' then length part = 1 \<and> \<not> list_ex line_end part else part = [c])" for c
    by (simp add: glob_atom_of_def fun_eq_iff)
  then have "decomposes (map glob_atom_of p) s \<longleftrightarrow> glob_lang p s"
    by (simp add: decomposes_def glob_lang_def list_all2_map1)
  then show "isGlobPattern p \<Longrightarrow> toolIdGlobMatches p s \<longleftrightarrow> glob_lang p s"
    by (simp add: toolIdGlobMatches_def parse_glob_source glob_match_iff)
qed

lemma base_of_compound:
  "base \<noteq> [] \<and> CHR '':'' \<notin> set base \<and> resource = base @ '':'' @ sub \<longleftrightarrow>
     base = takeWhile (\<lambda>c. c \<noteq> CHR '':'') resource \<and> base \<noteq> [] \<and> length base < length resource
     \<and> sub = drop (Suc (length base)) resource"
proof safe
  assume "CHR '':'' \<notin> set base" and r: "resource = base @ '':'' @ sub"
  then have "takeWhile (\<lambda>c. c \<noteq> CHR '':'') (base @ CHR '':'' # sub) = base"
    by (subst takeWhile_append2) auto
  with r show "base = takeWhile (\<lambda>c. c \<noteq> CHR '':'') (base @ '':'' @ sub)" by simp
next
  assume "length (takeWhile (\<lambda>c. c \<noteq> CHR '':'') resource) < length resource"
  then show "resource = takeWhile (\<lambda>c. c \<noteq> CHR '':'') resource @ '':''
      @ drop (Suc (length (takeWhile (\<lambda>c. c \<noteq> CHR '':'') resource))) resource"
    using nth_length_takeWhile [of "\<lambda>c. c \<noteq> CHR '':''" resource]
    by (metis Cons_nth_drop_Suc append_Cons append_Nil append_take_drop_id takeWhile_eq_take)
qed (auto dest: set_takeWhileD)

lemma matchesRule_iff: "matchesRule resource rs \<longleftrightarrow> (\<exists>r \<in> entries rs. covers r resource)"
proof (cases rs)
  case (Some rules)
  let ?b = "takeWhile (\<lambda>c. c \<noteq> CHR '':'') resource"
  have "covers r resource \<longleftrightarrow> r = ''*'' \<or> r = resource
      \<or> (?b \<noteq> [] \<and> length ?b < length resource \<and> (r = ?b \<or> r = ?b @ '':*''))" for r
  proof -
    have "(\<exists>base sub. base \<noteq> [] \<and> CHR '':'' \<notin> set base \<and> resource = base @ '':'' @ sub
          \<and> (r = base \<or> r = base @ '':*'')) \<longleftrightarrow>
        (\<exists>base sub. (base \<noteq> [] \<and> CHR '':'' \<notin> set base \<and> resource = base @ '':'' @ sub)
          \<and> (r = base \<or> r = base @ '':*''))"
      by blast
    also have "\<dots> \<longleftrightarrow> ?b \<noteq> [] \<and> length ?b < length resource \<and> (r = ?b \<or> r = ?b @ '':*'')"
      unfolding base_of_compound by blast
    finally show ?thesis unfolding covers_def by blast
  qed
  then show ?thesis by (auto simp: matchesRule_def entries_def Some Let_def)
qed (simp add: matchesRule_def entries_def)

lemma matchesGlobRule_iff:
  "matchesGlobRule resource rs \<longleftrightarrow> (\<exists>r \<in> entries rs. isGlobPattern r \<and> glob_lang r resource)"
  by (auto simp: matchesGlobRule_def entries_def list_ex_iff toolIdGlobMatches_glob split: option.splits)

lemma matchesDeny_iff: "matchesDeny resource rs \<longleftrightarrow> (\<exists>r \<in> entries rs. blocks r resource)"
  by (auto simp: matchesDeny_def matchesRule_iff matchesGlobRule_iff blocks_def)

lemma matchesReview_iff: "matchesReview resource rs \<longleftrightarrow> (\<exists>r \<in> entries rs. blocks r resource)"
  by (auto simp: matchesReview_def matchesRule_iff matchesGlobRule_iff blocks_def entries_def)

lemma evaluateRules_tiers:
  "evaluateRules resource rules =
     (if \<exists>r \<in> entries (r_deny rules). blocks r resource then Deny ExplicitDeny
      else if \<exists>r \<in> entries (r_review rules). blocks r resource then Deny RequiresReview
      else if \<exists>r \<in> entries (r_allow rules). covers r resource then Allow
      else Deny DefaultDeny)"
  by (simp add: evaluateRules_def matchesDeny_iff matchesReview_iff matchesAllow_def matchesRule_iff)

section \<open>Commands\<close>

lemma default_registry_exec:
  "resolveCompoundResource ''builtin-exec'' args createDefaultSubResourceRegistry =
     ''builtin-exec:'' @ execSubResourceExtractor args"
  by (simp add: resolveCompoundResource_def createDefaultSubResourceRegistry_def)

lemma covers_compound:
  "base \<noteq> [] \<Longrightarrow> CHR '':'' \<notin> set base \<Longrightarrow> rule \<in> {base, base @ '':*''} \<Longrightarrow> covers rule (base @ '':'' @ sub)"
  unfolding covers_def by blast

lemma js_trim_path:
  assumes "name \<noteq> []" "js_trim name = name"
  shows "js_trim (dir @ CHR ''/'' # name) = dropWhile is_ws (dir @ ''/'') @ name"
proof -
  have l: "\<not> is_ws (last name)" using js_trim_ends [of name] assms by simp
  have slash: "\<not> is_ws (CHR ''/'')" by (simp add: is_ws_def)
  have "dropWhile is_ws ((dir @ ''/'') @ name) = dropWhile is_ws (dir @ ''/'') @ name"
    using slash by (subst dropWhile_append1 [of "CHR ''/''"]) auto
  moreover have "dropWhile is_ws (rev (u @ name)) = rev (u @ name)" for u
    using l assms by (simp add: dropWhile_eq_self_iff hd_append hd_rev)
  ultimately show ?thesis by (simp add: js_trim_def)
qed

lemma exec_basename:
  assumes "map_get args ''argv'' = Some (JArr (JStr (dir @ CHR ''/'' # name) # more'))"
    and "name \<noteq> []" "js_trim name = name" "CHR ''/'' \<notin> set name"
  shows "execSubResourceExtractor args = name"
proof -
  have "CHR ''/'' \<in> set (dropWhile is_ws (dir @ ''/''))"
    by (induction dir) (auto simp: is_ws_def)
  moreover have "\<exists>u. dropWhile is_ws (dir @ ''/'') = u @ ''/''"
    by (induction dir) (auto simp: is_ws_def)
  ultimately obtain u where u: "dropWhile is_ws (dir @ ''/'') = u @ ''/''" by blast
  have "takeWhile (\<lambda>c. c \<noteq> CHR ''/'') (rev name @ CHR ''/'' # rev u) = rev name"
    using assms(4) by (subst takeWhile_append2) auto
  then show ?thesis
    using assms by (simp add: execSubResourceExtractor_def js_trim_path u)
qed

lemma exec_plain:
  assumes "map_get args ''argv'' = Some (JArr (JStr name # more'))"
    and "name \<noteq> []" "js_trim name = name" "CHR ''/'' \<notin> set name"
  shows "execSubResourceExtractor args = name"
  using assms by (simp add: execSubResourceExtractor_def)

section \<open>Properties\<close>

text \<open>
  C16. A resource is allowed exactly when some allow entry covers it and no deny or review entry covers it or
  describes it as a glob; a review is demanded exactly when a review entry covers or describes it and no deny
  entry does. An entry covers a resource when it is \<open>*\<close>, the resource itself, or the tool of a
  compound resource, bare or with \<open>:*\<close>; it describes a resource when it has a wildcard and the
  resource falls into a part without line terminators for each \<open>*\<close>, one character other than a line
  terminator for each \<open>?\<close>, and the other characters of the entry as they are. Line terminators are
  excluded although the comment of \<open>tool-id-glob.ts\<close> calls \<open>*\<close> any sequence: the generated
  expression has no \<open>s\<close> flag.
\<close>

theorem allow_exactly:
  "(evaluateRules resource rules = Allow \<longleftrightarrow>
      (\<exists>a \<in> entries (r_allow rules). covers a resource)
      \<and> \<not> (\<exists>e \<in> entries (r_deny rules) \<union> entries (r_review rules).
             covers e resource \<or> isGlobPattern e \<and> glob_lang e resource))
   \<and> (evaluateRules resource rules = Deny RequiresReview \<longleftrightarrow>
      (\<exists>e \<in> entries (r_review rules). covers e resource \<or> isGlobPattern e \<and> glob_lang e resource)
      \<and> \<not> (\<exists>e \<in> entries (r_deny rules). covers e resource \<or> isGlobPattern e \<and> glob_lang e resource))"
  by (auto simp: evaluateRules_tiers blocks_def)

text \<open>
  A line terminator gets past every glob: a resource that contains one is allowed under an allow entry \<open>*\<close>
  although deny globs are in force, unless an entry covers it or has a line terminator itself.
\<close>

theorem newline_escapes_globs:
  assumes "list_ex line_end resource" "''*'' \<in> entries (r_allow rules)"
    and "\<forall>e \<in> entries (r_deny rules) \<union> entries (r_review rules). \<not> list_ex line_end e \<and> \<not> covers e resource"
  shows "evaluateRules resource rules = Allow"
proof -
  have "\<not> glob_lang e resource" if "\<not> list_ex line_end e" for e
  proof
    assume "glob_lang e resource"
    then obtain parts where r: "resource = concat parts" and l: "list_all2 (\<lambda>c part.
          if c = CHR ''*'' then \<not> list_ex line_end part
          else if c = CHR ''?'' then length part = 1 \<and> \<not> list_ex line_end part
          else part = [c]) e parts"
      by (auto simp: glob_lang_def)
    from l that have "\<not> list_ex line_end (concat parts)"
      by (induction rule: list_all2_induct) (auto split: if_splits)
    with r assms(1) show False by simp
  qed
  moreover have "covers ''*'' resource" by (simp add: covers_def)
  ultimately show ?thesis using assms(2,3) by (auto simp: evaluateRules_tiers blocks_def)
qed

text \<open>
  C32. Denying the exec tool denies every command: with the bare tool or \<open>builtin-exec:*\<close> in the deny
  list in force for an agent's session, each call of the tool is explicitly denied, whatever its
  arguments are, and denying one command denies it under every directory it is called from.
\<close>

theorem exec_deny_complete:
  assumes "r_deny (resolveEffectiveToolRules (agent_tools config)
             (agent_rules agents (resolveAgentIdFromSessionId session))) = Some deny"
    and "set deny \<inter> {''builtin-exec'', ''builtin-exec:*''} \<noteq> {}
      \<or> ''builtin-exec:'' @ name \<in> set deny
        \<and> map_get args ''argv'' = Some (JArr (JStr (dir @ CHR ''/'' # name) # rest))
        \<and> name \<noteq> [] \<and> js_trim name = name \<and> CHR ''/'' \<notin> set name"
  shows "policy_check config agents (AgentPrincipal session a) ToolInvoke
      (resolveCompoundResource ''builtin-exec'' args createDefaultSubResourceRegistry) = Deny ExplicitDeny"
proof -
  let ?res = "resolveCompoundResource ''builtin-exec'' args createDefaultSubResourceRegistry"
  from assms(2) have "\<exists>r \<in> set deny. covers r ?res"
  proof
    assume "set deny \<inter> {''builtin-exec'', ''builtin-exec:*''} \<noteq> {}"
    then obtain r where r: "r \<in> set deny" "r \<in> {''builtin-exec'', ''builtin-exec'' @ '':*''}" by auto
    have "covers r (''builtin-exec'' @ '':'' @ execSubResourceExtractor args)"
      using r(2) by (intro covers_compound) simp_all
    with r(1) show ?thesis by (auto simp: default_registry_exec)
  next
    assume "''builtin-exec:'' @ name \<in> set deny
        \<and> map_get args ''argv'' = Some (JArr (JStr (dir @ CHR ''/'' # name) # rest))
        \<and> name \<noteq> [] \<and> js_trim name = name \<and> CHR ''/'' \<notin> set name"
    then show ?thesis
      by (auto simp: default_registry_exec exec_basename covers_def intro!: bexI [of _ "''builtin-exec:'' @ name"])
  qed
  with assms(1) show ?thesis
    by (auto simp: policy_check_def Let_def evaluateRules_tiers entries_def blocks_def)
qed

text \<open>
  A subagent is subject to the policy of its parent: for a session minted from a parent session,
  the decision on every action and resource is the one the parent gets.
\<close>

theorem subagent_same_policy:
  assumes "mintSubagentSessionUrnFromParent random parent sub = Inr child"
  shows "policy_check config agents (AgentPrincipal child a) action resource =
         policy_check config agents (AgentPrincipal parent b) action resource"
  unfolding policy_check_def principal.simps mint_agent [OF assms] ..

text \<open>
  Under the default policy an agent may invoke exactly twenty of the defined control operations;
  all others, among them every vault, service, elevation, approval and process operation, are
  denied by default.
\<close>

theorem default_agent_operations:
  "filter (\<lambda>op. policy_check DEFAULT_POLICY_CONFIG agents (AgentPrincipal session a) ControlInvoke op = Allow)
     DEFINED_CONTROL_OPS =
   [''agent_ping'', ''acpx_bind_get'', ''session_compact'', ''session_context_status'', ''session_stats'',
    ''subagent_spawn'', ''session_inspect'', ''session_list'', ''session_send'', ''session_steer'',
    ''prompt'', ''prompt_list'', ''session_abort'', ''session_kill'', ''media_generate'',
    ''media_generate_poll'', ''decision_evaluate'', ''rerank_documents'', ''config_show'', ''config_request'']"
  unfolding policy_check_def by code_simp

text \<open>
  MCP access of subagents: with no subagent rules configured a subagent has exactly the effective
  rules of its agent, and a server marked explicit is reachable only when it is named in the allow
  list and no deny entry names it or everything.
\<close>

theorem mcp_subagent_inherits:
  assumes "global_subagentMcp config = None"
    and "Option.bind (findAgentEntry config agentId) entry_subagentMcp = None"
  shows "resolveEffectiveMcpServerRules config agentId True =
         resolveEffectiveMcpServerRules config agentId False
    \<and> (evaluateMcpServerRules server (resolveEffectiveMcpServerRules config agentId True) True \<longleftrightarrow>
       server \<in> set (m_allow (resolveEffectiveMcpServerRules config agentId False))
       \<and> set (m_deny (resolveEffectiveMcpServerRules config agentId False)) \<inter> {server, ''*''} = {})"
  using assms
  by (auto simp: resolveEffectiveMcpServerRules_def evaluateMcpServerRules_def overlay_def Let_def)

end
