(* ===== verification/Resilience.thy ===== *)
theory Resilience
  imports Prelude
begin

text \<open>
  Model-provider resilience: \<open>models/src/resilience/\<close> (backoff, error classification, rate-limit
  headers, the per-provider manager and the retrying gate) and \<open>models/src/failover.ts\<close> with
  \<open>classify.ts\<close> and \<open>errors.ts\<close>. Times and delays are rationals; \<open>Math.random()\<close>,
  \<open>Date.now()\<close> and \<open>Date.parse\<close> are arguments. A caught value is a \<open>js_error\<close>: its class,
  its message and the fields the code reads, each absent or of the right type.
\<close>

section \<open>Errors\<close>

datatype error_class = ModelHttpError | TypeErr | ModelRequestAbortedError | OtherObject | NotAnObject

record js_error =
  e_class :: error_class
  e_message :: string
  e_status :: "int option"
  e_statusCode :: "int option"
  e_code :: "string option"
  e_retryAfterMs :: "rat option"
  e_retryAfter :: "rat option"

definition http_error :: "int \<Rightarrow> string \<Rightarrow> js_error" where
  "http_error st msg =
     \<lparr> e_class = ModelHttpError, e_message = msg, e_status = Some st, e_statusCode = None,
       e_code = None, e_retryAfterMs = None, e_retryAfter = None \<rparr>"

definition EmptyModelResponseError :: js_error where
  "EmptyModelResponseError = http_error 502 ''missing assistant content and tool_calls''"

datatype error_classification = Retryable | RateLimited | NonRetryable

definition RETRYABLE_STATUSES :: "int list" where
  "RETRYABLE_STATUSES = [408, 500, 502, 503, 504]"

definition RETRYABLE_NETWORK_CODES :: "string list" where
  "RETRYABLE_NETWORK_CODES = [''ECONNRESET'', ''ETIMEDOUT'', ''ECONNREFUSED'', ''FETCH_FAILED'']"

definition classifyModelError :: "int \<Rightarrow> string option \<Rightarrow> error_classification" where
  "classifyModelError st code =
     (if truthy_str code \<and> the code \<in> set RETRYABLE_NETWORK_CODES then Retryable
      else if st = 429 then RateLimited
      else if st \<in> set RETRYABLE_STATUSES then Retryable
      else NonRetryable)"

definition ascii_lower :: "char \<Rightarrow> char" where
  "ascii_lower c = (let n = (of_char c :: nat) in if 65 \<le> n \<and> n \<le> 90 then char_of (n + 32) else c)"

definition mentions_fetch :: "js_error \<Rightarrow> bool" where
  "mentions_fetch err \<longleftrightarrow> js_includes (map ascii_lower (e_message err)) ''fetch''"

definition extractErrorInfo :: "js_error \<Rightarrow> int \<times> string option" where
  "extractErrorInfo err =
     (if e_class err = TypeErr \<and> mentions_fetch err then (0, Some ''FETCH_FAILED'')
      else if e_class err \<noteq> NotAnObject
        then (nullish (e_status err) (nullish (e_statusCode err) 0), e_code err)
      else (0, None))"

definition extractRetryAfter :: "js_error \<Rightarrow> rat option" where
  "extractRetryAfter err =
     (if e_class err = NotAnObject then None
      else if e_retryAfterMs err \<noteq> None then e_retryAfterMs err
      else map_option (\<lambda>s. s * 1000) (e_retryAfter err))"

definition FAILOVER_STATUSES :: "int list" where
  "FAILOVER_STATUSES = RETRYABLE_STATUSES @ [429]"

definition isFailoverEligibleError :: "js_error \<Rightarrow> bool" where
  "isFailoverEligibleError err =
     (case e_class err of
        ModelHttpError \<Rightarrow>
          (case e_status err of None \<Rightarrow> False | Some st \<Rightarrow> st \<in> set FAILOVER_STATUSES)
      | TypeErr \<Rightarrow> mentions_fetch err
      | _ \<Rightarrow> False)"

section \<open>Backoff\<close>

record backoff_config =
  baseDelayMs :: rat
  maxDelayMs :: rat
  jitterMs :: rat
  maxRetries :: int

definition DEFAULT_BACKOFF_CONFIG :: backoff_config where
  "DEFAULT_BACKOFF_CONFIG =
     \<lparr> baseDelayMs = 1000, maxDelayMs = 60000, jitterMs = 500, maxRetries = 3 \<rparr>"

definition computeBackoffDelay :: "rat \<Rightarrow> nat \<Rightarrow> backoff_config \<Rightarrow> rat option \<Rightarrow> rat" where
  "computeBackoffDelay random attempt config retryAfterMs =
     (let exponential = min (maxDelayMs config) (baseDelayMs config * 2 ^ attempt);
          jitter = random * jitterMs config;
          delay = exponential + jitter
      in case retryAfterMs of
           None \<Rightarrow> delay
         | Some ra \<Rightarrow> (if ra > delay then ra else delay))"

record backoff_state =
  bo_config :: backoff_config
  bo_attempt :: nat
  lastFailureTime :: "rat option"
  cooldownUntil :: "rat option"
  lastDelay :: rat

definition new_backoff :: "backoff_config \<Rightarrow> backoff_state" where
  "new_backoff cfg =
     \<lparr> bo_config = cfg, bo_attempt = 0, lastFailureTime = None, cooldownUntil = None, lastDelay = 0 \<rparr>"

definition bo_recordFailure :: "rat \<Rightarrow> rat \<Rightarrow> rat option \<Rightarrow> backoff_state \<Rightarrow> rat \<times> backoff_state" where
  "bo_recordFailure now random retryAfterMs b =
     (let delay = computeBackoffDelay random (bo_attempt b) (bo_config b) retryAfterMs
      in (delay, b\<lparr>lastFailureTime := Some now, cooldownUntil := Some (now + delay),
                   lastDelay := delay, bo_attempt := bo_attempt b + 1\<rparr>))"

definition bo_recordSuccess :: "backoff_state \<Rightarrow> backoff_state" where
  "bo_recordSuccess b =
     b\<lparr>bo_attempt := 0, lastFailureTime := None, cooldownUntil := None, lastDelay := 0\<rparr>"

definition shouldRetry :: "backoff_state \<Rightarrow> bool" where
  "shouldRetry b \<longleftrightarrow> int (bo_attempt b) < maxRetries (bo_config b)"

definition getRemainingDelay :: "rat \<Rightarrow> backoff_state \<Rightarrow> rat" where
  "getRemainingDelay now b =
     (case cooldownUntil b of None \<Rightarrow> 0 | Some u \<Rightarrow> max 0 (u - now))"

definition bo_isInCooldown :: "rat \<Rightarrow> backoff_state \<Rightarrow> bool" where
  "bo_isInCooldown now b = (case cooldownUntil b of None \<Rightarrow> False | Some u \<Rightarrow> now < u)"

section \<open>Rate-limit headers\<close>

record rate_headers =
  requestLimit :: "rat option"
  requestsRemaining :: "rat option"
  requestResetMs :: "rat option"
  tokenLimit :: "rat option"
  tokensRemaining :: "rat option"
  tokenResetMs :: "rat option"
  h_retryAfterMs :: "rat option"

type_synonym headers = "(string, string) jsmap"

definition header_num :: "string option \<Rightarrow> rat option" where
  "header_num value =
     (case value of
        None \<Rightarrow> None
      | Some v \<Rightarrow> (case js_Number v of JsNum n \<Rightarrow> Some n | _ \<Rightarrow> None))"

definition date_to_ms :: "(string \<Rightarrow> rat option) \<Rightarrow> rat \<Rightarrow> string \<Rightarrow> rat option" where
  "date_to_ms date_parse now v = map_option (\<lambda>d. max 0 (d - now)) (date_parse v)"

definition parseRetryAfter :: "(string \<Rightarrow> rat option) \<Rightarrow> rat \<Rightarrow> string option \<Rightarrow> rat option" where
  "parseRetryAfter date_parse now value =
     (case value of
        None \<Rightarrow> None
      | Some v \<Rightarrow>
          (case js_Number v of
             JsNum seconds \<Rightarrow> Some (seconds * 1000)
           | _ \<Rightarrow> date_to_ms date_parse now v))"

definition parseResetToMs :: "(string \<Rightarrow> rat option) \<Rightarrow> rat \<Rightarrow> string option \<Rightarrow> rat option" where
  "parseResetToMs date_parse now value =
     (case value of
        None \<Rightarrow> None
      | Some v \<Rightarrow>
          (case js_Number v of
             JsNum n \<Rightarrow>
               (if n > 946684800 then Some (max 0 (n * 1000 - now)) else Some (n * 1000))
           | _ \<Rightarrow> date_to_ms date_parse now v))"

definition parseAnthropicOpenAI :: "(string \<Rightarrow> rat option) \<Rightarrow> rat \<Rightarrow> headers \<Rightarrow> rate_headers" where
  "parseAnthropicOpenAI dp now h =
     \<lparr> requestLimit = header_num (map_get h ''x-ratelimit-limit-requests''),
       requestsRemaining = header_num (map_get h ''x-ratelimit-remaining-requests''),
       requestResetMs = parseResetToMs dp now (map_get h ''x-ratelimit-reset-requests''),
       tokenLimit = header_num (map_get h ''x-ratelimit-limit-tokens''),
       tokensRemaining = header_num (map_get h ''x-ratelimit-remaining-tokens''),
       tokenResetMs = parseResetToMs dp now (map_get h ''x-ratelimit-reset-tokens''),
       h_retryAfterMs = parseRetryAfter dp now (map_get h ''retry-after'') \<rparr>"

definition parseGemini :: "(string \<Rightarrow> rat option) \<Rightarrow> rat \<Rightarrow> headers \<Rightarrow> rate_headers" where
  "parseGemini dp now h =
     \<lparr> requestLimit = header_num (map_get h ''x-ratelimit-limit''),
       requestsRemaining = header_num (map_get h ''x-ratelimit-remaining''),
       requestResetMs = parseResetToMs dp now (map_get h ''x-ratelimit-reset''),
       tokenLimit = None, tokensRemaining = None, tokenResetMs = None,
       h_retryAfterMs = parseRetryAfter dp now (map_get h ''retry-after'') \<rparr>"

definition or_else :: "'a option \<Rightarrow> 'a option \<Rightarrow> 'a option" where
  "or_else x y = (if x = None then y else x)"

definition parseGeneric :: "(string \<Rightarrow> rat option) \<Rightarrow> rat \<Rightarrow> headers \<Rightarrow> rate_headers" where
  "parseGeneric dp now h =
     \<lparr> requestLimit = or_else (header_num (map_get h ''x-ratelimit-limit-requests''))
                       (header_num (map_get h ''x-ratelimit-limit'')),
       requestsRemaining = or_else (header_num (map_get h ''x-ratelimit-remaining-requests''))
                            (header_num (map_get h ''x-ratelimit-remaining'')),
       requestResetMs = or_else (parseResetToMs dp now (map_get h ''x-ratelimit-reset-requests''))
                         (parseResetToMs dp now (map_get h ''x-ratelimit-reset'')),
       tokenLimit = header_num (map_get h ''x-ratelimit-limit-tokens''),
       tokensRemaining = header_num (map_get h ''x-ratelimit-remaining-tokens''),
       tokenResetMs = parseResetToMs dp now (map_get h ''x-ratelimit-reset-tokens''),
       h_retryAfterMs = parseRetryAfter dp now (map_get h ''retry-after'') \<rparr>"

definition parseRateLimitHeaders ::
  "(string \<Rightarrow> rat option) \<Rightarrow> rat \<Rightarrow> headers \<Rightarrow> string option \<Rightarrow> rate_headers" where
  "parseRateLimitHeaders dp now h providerKind =
     (case providerKind of
        Some k \<Rightarrow>
          (if k \<in> {''anthropic'', ''openai'', ''openai-compatible''} then parseAnthropicOpenAI dp now h
           else if k = ''gemini'' then parseGemini dp now h
           else parseGeneric dp now h)
      | None \<Rightarrow> parseGeneric dp now h)"

section \<open>The provider manager\<close>

record provider_config =
  pc_maxRetries :: "int option"
  pc_baseDelayMs :: "rat option"
  pc_maxDelayMs :: "rat option"
  pc_jitterMs :: "rat option"
  pc_concurrency :: "int option"

definition DEFAULT_CONCURRENCY :: int where
  "DEFAULT_CONCURRENCY = 5"

definition RATE_WINDOW_MS :: rat where
  "RATE_WINDOW_MS = 60000"

text \<open>The wait queue holds the callers whose promise is not resolved yet.\<close>

record manager =
  backoff :: backoff_state
  maxConcurrent :: int
  inFlight :: int
  waitQueue :: "nat list"
  timestamps :: "rat list"
  learnedCapacity :: "rat option"

definition new_manager :: "provider_config \<Rightarrow> manager" where
  "new_manager cfg =
     \<lparr> backoff = new_backoff
         \<lparr> baseDelayMs = nullish (pc_baseDelayMs cfg) (baseDelayMs DEFAULT_BACKOFF_CONFIG),
           maxDelayMs = nullish (pc_maxDelayMs cfg) (maxDelayMs DEFAULT_BACKOFF_CONFIG),
           jitterMs = nullish (pc_jitterMs cfg) (jitterMs DEFAULT_BACKOFF_CONFIG),
           maxRetries = nullish (pc_maxRetries cfg) (maxRetries DEFAULT_BACKOFF_CONFIG) \<rparr>,
       maxConcurrent = nullish (pc_concurrency cfg) DEFAULT_CONCURRENCY, inFlight = 0,
       waitQueue = [], timestamps = [], learnedCapacity = None \<rparr>"

text \<open>\<open>acquire\<close> by caller \<open>w\<close>: whether the slot is granted at once. \<open>release\<close> gives the caller woken.\<close>

definition acquire :: "nat \<Rightarrow> manager \<Rightarrow> bool \<times> manager" where
  "acquire w m =
     (if inFlight m < maxConcurrent m then (True, m\<lparr>inFlight := inFlight m + 1\<rparr>)
      else (False, m\<lparr>waitQueue := waitQueue m @ [w]\<rparr>))"

definition release :: "manager \<Rightarrow> nat option \<times> manager" where
  "release m =
     (let m1 = m\<lparr>inFlight := inFlight m - 1\<rparr>
      in case waitQueue m1 of
           [] \<Rightarrow> (None, m1)
         | next # rest \<Rightarrow> (Some next, m1\<lparr>waitQueue := rest, inFlight := inFlight m1 + 1\<rparr>))"

definition recordRequest :: "rat \<Rightarrow> manager \<Rightarrow> manager" where
  "recordRequest now m = m\<lparr>timestamps := timestamps m @ [now]\<rparr>"

definition pruneTimestamps :: "rat \<Rightarrow> manager \<Rightarrow> manager" where
  "pruneTimestamps now m =
     (let cutoff = now - RATE_WINDOW_MS;
          idx = length (takeWhile (\<lambda>t. \<not> t \<ge> cutoff) (timestamps m))
      in if idx = length (timestamps m) then m\<lparr>timestamps := []\<rparr>
         else m\<lparr>timestamps := drop idx (timestamps m)\<rparr>)"

definition getRequestsInWindow :: "rat \<Rightarrow> manager \<Rightarrow> nat \<times> manager" where
  "getRequestsInWindow now m =
     (let m1 = pruneTimestamps now m in (length (timestamps m1), m1))"

definition isNearCapacity :: "rat \<Rightarrow> rat \<Rightarrow> manager \<Rightarrow> bool \<times> manager" where
  "isNearCapacity now threshold m =
     (case learnedCapacity m of
        None \<Rightarrow> (False, m)
      | Some cap \<Rightarrow>
          (let (n, m1) = getRequestsInWindow now m in (of_nat n \<ge> cap * threshold, m1)))"

definition updateCapacity :: "rate_headers \<Rightarrow> manager \<Rightarrow> manager" where
  "updateCapacity parsed m =
     (if requestLimit parsed \<noteq> None then m\<lparr>learnedCapacity := requestLimit parsed\<rparr> else m)"

definition recordFailure :: "rat \<Rightarrow> rat \<Rightarrow> rat option \<Rightarrow> manager \<Rightarrow> rat \<times> manager" where
  "recordFailure now random retryAfterMs m =
     (let (d, b) = bo_recordFailure now random retryAfterMs (backoff m) in (d, m\<lparr>backoff := b\<rparr>))"

definition recordSuccess :: "manager \<Rightarrow> manager" where
  "recordSuccess m = m\<lparr>backoff := bo_recordSuccess (backoff m)\<rparr>"

text \<open>\<open>waitForCooldown\<close>: the time \<open>acquireSlot\<close> sleeps before it asks for a slot.\<close>

definition waitForCooldown :: "rat \<Rightarrow> manager \<Rightarrow> rat" where
  "waitForCooldown now m =
     (if \<not> bo_isInCooldown now (backoff m) then 0 else getRemainingDelay now (backoff m))"

section \<open>The retrying gate\<close>

record gate =
  managers :: "(string, manager) jsmap"
  globalDefaults :: provider_config
  providerOverrides :: "(string, provider_config) jsmap"

definition effective_config :: "string \<Rightarrow> gate \<Rightarrow> provider_config" where
  "effective_config providerId g =
     (let field = (\<lambda>f. or_else (Option.bind (map_get (providerOverrides g) providerId) f)
                              (f (globalDefaults g)));
          ifield = (\<lambda>f. or_else (Option.bind (map_get (providerOverrides g) providerId) f)
                              (f (globalDefaults g)))
      in \<lparr> pc_maxRetries = ifield pc_maxRetries, pc_baseDelayMs = field pc_baseDelayMs,
           pc_maxDelayMs = field pc_maxDelayMs, pc_jitterMs = field pc_jitterMs,
           pc_concurrency = ifield pc_concurrency \<rparr>)"

definition getOrCreateManager :: "string \<Rightarrow> gate \<Rightarrow> manager \<times> gate" where
  "getOrCreateManager providerId g =
     (case map_get (managers g) providerId of
        Some m \<Rightarrow> (m, g)
      | None \<Rightarrow>
          (let m = new_manager (effective_config providerId g)
           in (m, g\<lparr>managers := map_set providerId m (managers g)\<rparr>)))"

text \<open>
  The calls of \<open>executeWithResilience\<close> on one provider, and where each of them is: in the wait of
  \<open>acquireSlot\<close> for the end of the cooldown it saw, in the queue of \<open>acquire\<close>, in \<open>fn\<close> with a
  slot, in the delay after a failure, or ended. \<open>rl_outcomes\<close> are the outcomes that \<open>fn\<close> has had.
  A call has no bound on its wait for a slot: it waits as long as the holders of the slots stay in \<open>fn\<close>.
\<close>

datatype 'a rl_phase =
    RlCooling rat
  | RlQueued
  | RlCalling
  | RlDelaying rat
  | RlDone "js_error + 'a"
  | RlAborted js_error

record 'a resilient_call =
  rl_attempt :: nat
  rl_phase :: "'a rl_phase"
  rl_outcomes :: "(js_error + 'a) list"

record 'a provider_calls =
  pv_manager :: manager
  pv_maxRetries :: int
  pv_now :: rat
  pv_calls :: "'a resilient_call list"

definition open_provider :: "string \<Rightarrow> gate \<Rightarrow> rat \<Rightarrow> 'a provider_calls" where
  "open_provider providerId g now =
     \<lparr> pv_manager = fst (getOrCreateManager providerId g),
       pv_maxRetries = nullish (pc_maxRetries (effective_config providerId g)) (maxRetries DEFAULT_BACKOFF_CONFIG),
       pv_now = now, pv_calls = [] \<rparr>"

definition set_call :: "nat \<Rightarrow> 'a resilient_call \<Rightarrow> 'a provider_calls \<Rightarrow> 'a provider_calls" where
  "set_call c call s = s\<lparr>pv_calls := (pv_calls s)[c := call]\<rparr>"

text \<open>The beginning of \<open>acquireSlot\<close>: \<open>waitForCooldown\<close> sleeps for what is left of the cooldown.\<close>

definition cooling :: "'a provider_calls \<Rightarrow> 'a rl_phase" where
  "cooling s = RlCooling (pv_now s + waitForCooldown (pv_now s) (pv_manager s))"

definition executeWithResilience :: "'a provider_calls \<Rightarrow> 'a provider_calls" where
  "executeWithResilience s =
     s\<lparr>pv_calls := pv_calls s @ [\<lparr> rl_attempt = 0, rl_phase = cooling s, rl_outcomes = [] \<rparr>]\<rparr>"

text \<open>The end of that sleep, and \<open>acquire\<close>: the slot at once, or a place in the queue.\<close>

definition ask_slot :: "nat \<Rightarrow> 'a provider_calls \<Rightarrow> 'a provider_calls" where
  "ask_slot c s =
     (case rl_phase (pv_calls s ! c) of
        RlCooling t \<Rightarrow>
          (if t \<le> pv_now s
           then (case acquire c (pv_manager s) of
                   (granted, m) \<Rightarrow>
                     set_call c ((pv_calls s ! c)\<lparr>rl_phase := (if granted then RlCalling else RlQueued)\<rparr>)
                       (s\<lparr>pv_manager := m\<rparr>))
           else s)
      | _ \<Rightarrow> s)"

text \<open>\<open>release\<close> resolves the promise of the first caller in the queue, which goes on into its \<open>fn\<close>.\<close>

definition release_slot :: "'a provider_calls \<Rightarrow> 'a provider_calls" where
  "release_slot s =
     (case release (pv_manager s) of
        (None, m) \<Rightarrow> s\<lparr>pv_manager := m\<rparr>
      | (Some w, m) \<Rightarrow> set_call w ((pv_calls s ! w)\<lparr>rl_phase := RlCalling\<rparr>) (s\<lparr>pv_manager := m\<rparr>))"

definition retryable :: "js_error \<Rightarrow> bool" where
  "retryable err \<longleftrightarrow> (case extractErrorInfo err of (st, code) \<Rightarrow> classifyModelError st code \<noteq> NonRetryable)"

definition retry_after :: "js_error \<Rightarrow> rat option" where
  "retry_after err =
     (case extractErrorInfo err of (st, code) \<Rightarrow>
        if classifyModelError st code = RateLimited then extractRetryAfter err else None)"

text \<open>
  \<open>fn\<close> has settled: success, the retry with its delay, or the error that is thrown on. \<open>random\<close> is the
  jitter's random number; \<open>aborted\<close> the reason of the abort signal when it is set already, with which
  \<open>abortableDelay\<close> rejects at once.
\<close>

definition fn_settled :: "nat \<Rightarrow> js_error + 'a \<Rightarrow> rat \<Rightarrow> js_error option \<Rightarrow> 'a provider_calls \<Rightarrow> 'a provider_calls" where
  "fn_settled c outcome random aborted s =
     (let call = (pv_calls s ! c)\<lparr>rl_outcomes := rl_outcomes (pv_calls s ! c) @ [outcome]\<rparr> in
      case rl_phase call of
        RlCalling \<Rightarrow>
          (case outcome of
             Inr v \<Rightarrow>
               release_slot (set_call c (call\<lparr>rl_phase := RlDone outcome\<rparr>)
                 (s\<lparr>pv_manager := recordSuccess (pv_manager s)\<rparr>))
           | Inl err \<Rightarrow>
               (if retryable err \<and> int (rl_attempt call) < pv_maxRetries s
                then (case recordFailure (pv_now s) random (retry_after err) (pv_manager s) of
                        (delay, m) \<Rightarrow>
                          release_slot (set_call c
                            (call\<lparr>rl_attempt := rl_attempt call + 1,
                                  rl_phase := (case aborted of Some reason \<Rightarrow> RlAborted reason
                                               | None \<Rightarrow> RlDelaying (pv_now s + delay))\<rparr>)
                            (s\<lparr>pv_manager := m\<rparr>)))
                else release_slot (set_call c (call\<lparr>rl_phase := RlDone outcome\<rparr>) s)))
      | _ \<Rightarrow> s)"

definition delay_over :: "nat \<Rightarrow> 'a provider_calls \<Rightarrow> 'a provider_calls" where
  "delay_over c s =
     (case rl_phase (pv_calls s ! c) of
        RlDelaying t \<Rightarrow> (if t \<le> pv_now s then set_call c ((pv_calls s ! c)\<lparr>rl_phase := cooling s\<rparr>) s else s)
      | _ \<Rightarrow> s)"

definition abort_delay :: "nat \<Rightarrow> js_error \<Rightarrow> 'a provider_calls \<Rightarrow> 'a provider_calls" where
  "abort_delay c reason s =
     (case rl_phase (pv_calls s ! c) of
        RlDelaying t \<Rightarrow> set_call c ((pv_calls s ! c)\<lparr>rl_phase := RlAborted reason\<rparr>) s
      | _ \<Rightarrow> s)"

text \<open>Any interleaving of any number of calls; the rate tracking goes on beside them.\<close>

inductive calls_step :: "'a provider_calls \<Rightarrow> 'a provider_calls \<Rightarrow> bool" where
  enter: "calls_step s (executeWithResilience s)"
| ask: "c < length (pv_calls s) \<Longrightarrow> calls_step s (ask_slot c s)"
| settled: "c < length (pv_calls s) \<Longrightarrow> calls_step s (fn_settled c outcome random aborted s)"
| delayed: "c < length (pv_calls s) \<Longrightarrow> calls_step s (delay_over c s)"
| abort_signal: "c < length (pv_calls s) \<Longrightarrow> calls_step s (abort_delay c reason s)"
| time: "0 \<le> d \<Longrightarrow> calls_step s (s\<lparr>pv_now := pv_now s + d\<rparr>)"
| request: "calls_step s (s\<lparr>pv_manager := recordRequest now (pv_manager s)\<rparr>)"
| window: "calls_step s (s\<lparr>pv_manager := snd (isNearCapacity now threshold (pv_manager s))\<rparr>)"
| capacity: "calls_step s (s\<lparr>pv_manager := updateCapacity parsed (pv_manager s)\<rparr>)"

section \<open>The failover chain\<close>

record chain_entry =
  provider_id :: string
  entry_model :: string
  entry_thinking :: "string option"
  provider_thinking :: "string option"

datatype hook_event =
    ProviderSuccess string
  | ProviderExhausted string string "string option"

text \<open>
  \<open>isFailed\<close> is the skip hook, with what it answers when it is asked at a position of the chain (reports
  of exhausted providers may change it on the way); \<open>call\<close> is the provider call at a position with the thinking
  format in force. The value is what is thrown, \<open>None\<close> for \<open>undefined\<close>, or the result with its
  position and format.
\<close>

datatype thrown = EmptyChain | ThrownError js_error | ThrownUndefined

fun failover_loop ::
  "(nat \<Rightarrow> string \<Rightarrow> bool) \<Rightarrow> (nat \<Rightarrow> string option \<Rightarrow> js_error + 'a) \<Rightarrow> string option \<Rightarrow> nat \<Rightarrow>
   chain_entry list \<Rightarrow> js_error option \<Rightarrow> (thrown + 'a \<times> nat \<times> string option) \<times> hook_event list" where
  "failover_loop isFailed call fmt i [] lastErr =
     (Inl (case lastErr of None \<Rightarrow> ThrownUndefined | Some e \<Rightarrow> ThrownError e), [])"
| "failover_loop isFailed call fmt i (entry # rest) lastErr =
     (if isFailed i (provider_id entry) then failover_loop isFailed call fmt (i + 1) rest lastErr
      else (let thinkingFormat = or_else fmt (or_else (entry_thinking entry) (provider_thinking entry))
            in case call i thinkingFormat of
                 Inr v \<Rightarrow> (Inr (v, i, thinkingFormat), [ProviderSuccess (provider_id entry)])
               | Inl e \<Rightarrow>
                   (case rest of
                      nxt # _ \<Rightarrow>
                        (if isFailoverEligibleError e
                         then (let (r, evs) = failover_loop isFailed call fmt (i + 1) rest (Some e)
                               in (r, ProviderExhausted (provider_id entry) (e_message e)
                                        (Some (provider_id nxt @ ''/'' @ entry_model nxt)) # evs))
                         else (Inl (ThrownError e), []))
                    | [] \<Rightarrow>
                        (Inl (ThrownError e),
                         if isFailoverEligibleError e
                         then [ProviderExhausted (provider_id entry) (e_message e) None] else []))))"

definition iterateFailoverChain ::
  "(nat \<Rightarrow> string \<Rightarrow> bool) \<Rightarrow> (nat \<Rightarrow> string option \<Rightarrow> js_error + 'a) \<Rightarrow> string option \<Rightarrow>
   chain_entry list \<Rightarrow> (thrown + 'a \<times> nat \<times> string option) \<times> hook_event list" where
  "iterateFailoverChain isFailed call fmt chain =
     (if chain = [] then (Inl EmptyChain, []) else failover_loop isFailed call fmt 0 chain None)"

record 'a failover_output =
  fo_result :: 'a
  usedProviderId :: string
  usedModel :: string
  degraded :: bool
  fo_thinkingFormat :: "string option"

definition failover_complete ::
  "(nat \<Rightarrow> string \<Rightarrow> bool) \<Rightarrow> (nat \<Rightarrow> string option \<Rightarrow> js_error + 'a) \<Rightarrow> string option \<Rightarrow>
   chain_entry list \<Rightarrow> (thrown + 'a failover_output) \<times> hook_event list" where
  "failover_complete isFailed call fmt chain =
     (case iterateFailoverChain isFailed call fmt chain of
        (Inl e, evs) \<Rightarrow> (Inl e, evs)
      | (Inr (v, i, tf), evs) \<Rightarrow>
          (Inr \<lparr> fo_result = v, usedProviderId = provider_id (chain ! i),
                 usedModel = entry_model (chain ! i), degraded = (i > 0), fo_thinkingFormat = tf \<rparr>, evs))"

section \<open>Slots\<close>

text \<open>
  What a client of a counting gate relies on: a slot is granted at once exactly below the limit,
  a caller is queued otherwise, and a release hands its slot to the first waiting caller.
\<close>

locale slot_gate =
  fixes acq :: "'w \<Rightarrow> 's \<Rightarrow> bool \<times> 's" and rel :: "'s \<Rightarrow> 'w option \<times> 's"
    and held :: "'s \<Rightarrow> int" and waiting :: "'s \<Rightarrow> 'w list" and cap :: "'s \<Rightarrow> int"
  assumes acq_now: "held s < cap s \<Longrightarrow>
      fst (acq w s) \<and> held (snd (acq w s)) = held s + 1 \<and> waiting (snd (acq w s)) = waiting s"
    and acq_wait: "\<not> held s < cap s \<Longrightarrow>
      \<not> fst (acq w s) \<and> held (snd (acq w s)) = held s \<and> waiting (snd (acq w s)) = waiting s @ [w]"
    and rel_idle: "waiting s = [] \<Longrightarrow>
      fst (rel s) = None \<and> held (snd (rel s)) = held s - 1 \<and> waiting (snd (rel s)) = []"
    and rel_hand: "waiting s = w # ws \<Longrightarrow>
      fst (rel s) = Some w \<and> held (snd (rel s)) = held s \<and> waiting (snd (rel s)) = ws"
    and cap_acq: "cap (snd (acq w s)) = cap s"
    and cap_rel: "cap (snd (rel s)) = cap s"
begin

lemma acq_bounded:
  assumes "0 \<le> held s" "held s \<le> cap s" "waiting s = [] \<or> held s = cap s"
  shows "0 \<le> held (snd (acq w s)) \<and> held (snd (acq w s)) \<le> cap s
    \<and> (waiting (snd (acq w s)) = [] \<or> held (snd (acq w s)) = cap s)"
  using assms acq_now [of s w] acq_wait [of s w] by (cases "held s < cap s") auto

lemma rel_bounded:
  assumes "0 < held s" "held s \<le> cap s" "waiting s = [] \<or> held s = cap s"
  shows "0 \<le> held (snd (rel s)) \<and> held (snd (rel s)) \<le> cap s
    \<and> (waiting (snd (rel s)) = [] \<or> held (snd (rel s)) = cap s)"
  using assms rel_idle [of s] rel_hand [of s] by (cases "waiting s") auto

lemma rel_conserves:
  "held (snd (rel s)) + int (length (waiting (snd (rel s)))) = held s + int (length (waiting s)) - 1"
  using rel_idle [of s] rel_hand [of s] by (cases "waiting s") auto

end

interpretation provider_gate: slot_gate acquire release inFlight waitQueue maxConcurrent
  by unfold_locales (auto simp: acquire_def release_def Let_def split: list.split)

text \<open>The operations on a manager, in any order; a slot is released by a caller that holds one.\<close>

inductive manager_step :: "manager \<Rightarrow> manager \<Rightarrow> bool" where
  Acquire: "manager_step m (snd (acquire w m))"
| Release: "0 < inFlight m \<Longrightarrow> manager_step m (snd (release m))"
| Request: "manager_step m (recordRequest now m)"
| Window: "manager_step m (snd (getRequestsInWindow now m))"
| Near: "manager_step m (snd (isNearCapacity now threshold m))"
| Capacity: "manager_step m (updateCapacity parsed m)"
| Failure: "manager_step m (snd (recordFailure now random ra m))"
| Success: "manager_step m (recordSuccess m)"

definition fresh_manager :: "manager \<Rightarrow> bool" where
  "fresh_manager m \<longleftrightarrow> inFlight m = 0 \<and> waitQueue m = [] \<and> 0 \<le> maxConcurrent m"

definition manager_ok :: "manager \<Rightarrow> bool" where
  "manager_ok m \<longleftrightarrow> 0 \<le> inFlight m \<and> inFlight m \<le> maxConcurrent m
     \<and> (waitQueue m = [] \<or> inFlight m = maxConcurrent m)"

lemma manager_ok_same:
  "inFlight m' = inFlight m \<Longrightarrow> waitQueue m' = waitQueue m \<Longrightarrow> maxConcurrent m' = maxConcurrent m \<Longrightarrow>
     manager_ok m' = manager_ok m"
  by (simp add: manager_ok_def)

lemmas manager_defs = recordRequest_def getRequestsInWindow_def pruneTimestamps_def isNearCapacity_def
  updateCapacity_def recordFailure_def recordSuccess_def Let_def

lemma manager_step_ok:
  assumes "manager_step m m'" "manager_ok m"
  shows "manager_ok m'"
  using assms
proof (induction rule: manager_step.induct)
  case (Acquire m w)
  then show ?case
    using provider_gate.acq_bounded [of m w] provider_gate.cap_acq [of w m]
    by (simp add: manager_ok_def)
next
  case (Release m)
  then show ?case
    using provider_gate.rel_bounded [of m] provider_gate.cap_rel [of m]
    by (simp add: manager_ok_def)
qed (simp_all add: manager_defs manager_ok_def split: option.splits prod.splits)

interpretation manager_system: transition_system fresh_manager manager_step manager_ok
proof unfold_locales
  show "fresh_manager m \<Longrightarrow> manager_ok m" for m by (simp add: fresh_manager_def manager_ok_def)
qed (rule manager_step_ok)

section \<open>Retries\<close>

definition in_fn :: "'a provider_calls \<Rightarrow> nat" where
  "in_fn s = length (filter (\<lambda>call. rl_phase call = RlCalling) (pv_calls s))"

definition all_retryable :: "(js_error + 'a) list \<Rightarrow> bool" where
  "all_retryable os \<longleftrightarrow> (\<forall>o' \<in> set os. \<exists>e. o' = Inl e \<and> retryable e)"

text \<open>What the books of one call say: how often it has called \<open>fn\<close>, and with what outcomes.\<close>

definition call_books :: "int \<Rightarrow> 'a resilient_call \<Rightarrow> bool" where
  "call_books mx call \<longleftrightarrow>
     (case rl_phase call of
        RlDone r \<Rightarrow>
          (\<exists>before. rl_outcomes call = before @ [r] \<and> all_retryable before \<and> int (length before) \<le> max 0 mx
             \<and> (all_retryable [r] \<longrightarrow> \<not> int (length before) < mx))
      | _ \<Rightarrow> rl_attempt call = length (rl_outcomes call) \<and> all_retryable (rl_outcomes call)
             \<and> int (rl_attempt call) \<le> max 0 mx)"

definition queue_books :: "'a provider_calls \<Rightarrow> bool" where
  "queue_books s \<longleftrightarrow>
     distinct (waitQueue (pv_manager s))
     \<and> (\<forall>c. c \<in> set (waitQueue (pv_manager s)) \<longleftrightarrow> c < length (pv_calls s) \<and> rl_phase (pv_calls s ! c) = RlQueued)"

text \<open>With \<open>k\<close> slots that a call has just left and not yet released.\<close>

definition slots_but :: "int \<Rightarrow> 'a provider_calls \<Rightarrow> bool" where
  "slots_but k s \<longleftrightarrow>
     manager_ok (pv_manager s) \<and> inFlight (pv_manager s) = int (in_fn s) + k \<and> queue_books s
     \<and> list_all (call_books (pv_maxRetries s)) (pv_calls s)"

lemma slot_count_update:
  "c < length xs \<Longrightarrow> int (length (filter P (xs[c := x]))) =
     int (length (filter P xs)) - (if P (xs ! c) then 1 else 0) + (if P x then 1 else 0)"
proof (induction xs arbitrary: c)
  case (Cons y ys)
  show ?case
  proof (cases c)
    case (Suc n)
    then show ?thesis using Cons.IH [of n] Cons.prems by auto
  qed auto
qed simp

lemma set_call_simps [simp]:
  "pv_manager (set_call c call s) = pv_manager s" "pv_maxRetries (set_call c call s) = pv_maxRetries s"
  "pv_now (set_call c call s) = pv_now s" "length (pv_calls (set_call c call s)) = length (pv_calls s)"
  "pv_calls (set_call c call s) = (pv_calls s)[c := call]"
  by (simp_all add: set_call_def)

lemma in_fn_set:
  "c < length (pv_calls s) \<Longrightarrow> int (in_fn (set_call c call s)) =
     int (in_fn s) - (if rl_phase (pv_calls s ! c) = RlCalling then 1 else 0) + (if rl_phase call = RlCalling then 1 else 0)"
  unfolding in_fn_def set_call_simps(5) by (rule slot_count_update)

lemma in_fn_manager [simp]: "in_fn (s\<lparr>pv_manager := m\<rparr>) = in_fn s"
  by (simp add: in_fn_def)

lemma queue_books_set:
  assumes "queue_books s" "rl_phase (pv_calls s ! c) \<noteq> RlQueued" "rl_phase call \<noteq> RlQueued"
  shows "queue_books (set_call c call s)"
proof -
  have "j < length (pv_calls s) \<and> rl_phase ((pv_calls s)[c := call] ! j) = RlQueued \<longleftrightarrow>
      j < length (pv_calls s) \<and> rl_phase (pv_calls s ! j) = RlQueued" for j
    using assms(2,3) by (cases "j = c") auto
  with assms(1) show ?thesis by (simp add: queue_books_def)
qed

lemma queue_books_manager: "waitQueue m = waitQueue (pv_manager s) \<Longrightarrow> queue_books (s\<lparr>pv_manager := m\<rparr>) = queue_books s"
  by (simp add: queue_books_def)

lemma slots_manager:
  "slots_but k s \<Longrightarrow> inFlight m = inFlight (pv_manager s) \<Longrightarrow> waitQueue m = waitQueue (pv_manager s) \<Longrightarrow>
     maxConcurrent m = maxConcurrent (pv_manager s) \<Longrightarrow> slots_but k (s\<lparr>pv_manager := m\<rparr>)"
  by (auto simp: slots_but_def queue_books_manager manager_ok_def)

lemma list_all_set:
  "list_all P xs \<Longrightarrow> P x \<Longrightarrow> list_all P (xs[c := x])"
  by (auto simp: list_all_iff dest: set_update_subset_insert [THEN subsetD])

text \<open>A call moves on without touching a slot.\<close>

lemma slots_move:
  assumes "slots_but k s" "c < length (pv_calls s)" "rl_phase (pv_calls s ! c) \<notin> {RlCalling, RlQueued}"
    "rl_phase call \<notin> {RlCalling, RlQueued}" "call_books (pv_maxRetries s) call"
  shows "slots_but k (set_call c call s)"
  using assms in_fn_set [OF assms(2), of call] unfolding slots_but_def
  by (auto intro: queue_books_set list_all_set)

text \<open>A call leaves \<open>fn\<close>; its slot is not released yet.\<close>

lemma slots_leave:
  assumes "slots_but 0 s" "c < length (pv_calls s)" "rl_phase (pv_calls s ! c) = RlCalling"
    "rl_phase call \<notin> {RlCalling, RlQueued}" "call_books (pv_maxRetries s) call"
    "manager_ok m" "inFlight m = inFlight (pv_manager s)" "waitQueue m = waitQueue (pv_manager s)"
  shows "slots_but 1 (set_call c call (s\<lparr>pv_manager := m\<rparr>))"
proof -
  let ?s = "s\<lparr>pv_manager := m\<rparr>"
  have "queue_books ?s" using assms(1,8) by (simp add: slots_but_def queue_books_manager)
  then have "queue_books (set_call c call ?s)" using assms(3,4) by (intro queue_books_set) auto
  moreover have "int (in_fn (set_call c call ?s)) = int (in_fn s) - 1"
    using in_fn_set [of c ?s call] assms(2,3,4) by auto
  ultimately show ?thesis
    using assms by (auto simp: slots_but_def intro: list_all_set)
qed

lemma slots_release:
  assumes "slots_but 1 s"
  shows "slots_but 0 (release_slot s)"
proof -
  let ?m = "pv_manager s"
  have ok: "manager_ok ?m" and fl: "inFlight ?m = int (in_fn s) + 1" and q: "queue_books s"
    and b: "list_all (call_books (pv_maxRetries s)) (pv_calls s)" using assms by (simp_all add: slots_but_def)
  have m: "manager_ok (snd (release ?m))" using fl by (intro manager_step_ok [OF _ ok] manager_step.Release) simp
  show ?thesis
  proof (cases "waitQueue ?m")
    case Nil
    then have "release_slot s = s\<lparr>pv_manager := snd (release ?m)\<rparr>"
      using provider_gate.rel_idle [OF Nil] by (simp add: release_slot_def case_prod_beta)
    moreover have "queue_books (s\<lparr>pv_manager := snd (release ?m)\<rparr>)"
      using provider_gate.rel_idle [OF Nil] Nil q by (simp add: queue_books_manager)
    ultimately show ?thesis
      using provider_gate.rel_idle [OF Nil] fl m b by (simp add: slots_but_def)
  next
    case (Cons w ws)
    note r = provider_gate.rel_hand [OF Cons]
    let ?call = "(pv_calls s ! w)\<lparr>rl_phase := RlCalling\<rparr>" and ?s = "s\<lparr>pv_manager := snd (release ?m)\<rparr>"
    have w: "w < length (pv_calls s)" "rl_phase (pv_calls s ! w) = RlQueued" "w \<notin> set ws" "distinct ws"
      and ws: "\<And>c. c \<in> set ws \<longleftrightarrow> c \<noteq> w \<and> c < length (pv_calls s) \<and> rl_phase (pv_calls s ! c) = RlQueued"
      using q Cons by (auto simp: queue_books_def)
    have s': "release_slot s = set_call w ?call ?s"
      using r by (simp add: release_slot_def case_prod_beta)
    have "queue_books (set_call w ?call ?s)"
      using r w ws by (auto simp: queue_books_def nth_list_update)
    moreover have "call_books (pv_maxRetries s) (pv_calls s ! w)" using b w(1) by (simp add: list_all_length)
    then have "call_books (pv_maxRetries s) ?call" using w(2) by (simp add: call_books_def)
    moreover have "int (in_fn (set_call w ?call ?s)) = int (in_fn s) + 1"
      using in_fn_set [of w ?s ?call] w(1,2) by simp
    ultimately show ?thesis
      unfolding s' using fl m r b by (simp add: slots_but_def list_all_set)
  qed
qed

lemma books_at: "slots_but k s \<Longrightarrow> c < length (pv_calls s) \<Longrightarrow> call_books (pv_maxRetries s) (pv_calls s ! c)"
  by (simp add: slots_but_def list_all_length)

lemma slots_ask:
  assumes "slots_but 0 s" "c < length (pv_calls s)"
  shows "slots_but 0 (ask_slot c s)"
proof (cases "\<exists>t. rl_phase (pv_calls s ! c) = RlCooling t \<and> t \<le> pv_now s")
  case False
  then show ?thesis using assms(1) by (auto simp: ask_slot_def split: rl_phase.splits)
next
  case True
  then obtain t where t: "rl_phase (pv_calls s ! c) = RlCooling t" "t \<le> pv_now s" by blast
  let ?m = "pv_manager s"
  let ?call = "(pv_calls s ! c)\<lparr>rl_phase := (if fst (acquire c ?m) then RlCalling else RlQueued)\<rparr>"
  let ?s = "s\<lparr>pv_manager := snd (acquire c ?m)\<rparr>"
  have s': "ask_slot c s = set_call c ?call ?s" using t by (simp add: ask_slot_def case_prod_beta)
  have q: "queue_books s" and ok: "manager_ok (snd (acquire c ?m))"
    using assms(1) manager_step_ok [OF manager_step.Acquire] by (simp_all add: slots_but_def)
  have "call_books (pv_maxRetries s) ?call" using books_at [OF assms] t(1) by (simp add: call_books_def)
  moreover have "queue_books (set_call c ?call ?s)"
    using q t(1) assms(2) provider_gate.acq_now [of ?m c] provider_gate.acq_wait [of ?m c]
    by (cases "inFlight ?m < maxConcurrent ?m") (auto simp: queue_books_def nth_list_update)
  moreover have "int (in_fn (set_call c ?call ?s)) = int (in_fn s) + (if fst (acquire c ?m) then 1 else 0)"
    using in_fn_set [of c ?s ?call] assms(2) t(1) by simp
  moreover have "inFlight (snd (acquire c ?m)) = inFlight ?m + (if fst (acquire c ?m) then 1 else 0)"
    using provider_gate.acq_now [of ?m c] provider_gate.acq_wait [of ?m c]
    by (cases "inFlight ?m < maxConcurrent ?m") auto
  ultimately show ?thesis
    unfolding s' using assms(1) ok by (simp add: slots_but_def list_all_set)
qed

lemma all_retryable_simps [simp]:
  "all_retryable []" "all_retryable (os @ [o']) \<longleftrightarrow> all_retryable os \<and> all_retryable [o']"
  "all_retryable [Inl e] \<longleftrightarrow> retryable e" "\<not> all_retryable [Inr v]"
  by (auto simp: all_retryable_def)

lemma manager_kept:
  "manager_ok (recordSuccess m) = manager_ok m" "manager_ok (snd (recordFailure now random ra m)) = manager_ok m"
  "inFlight (recordSuccess m) = inFlight m" "inFlight (snd (recordFailure now random ra m)) = inFlight m"
  "waitQueue (recordSuccess m) = waitQueue m" "waitQueue (snd (recordFailure now random ra m)) = waitQueue m"
  by (simp_all add: manager_defs manager_ok_def split: prod.splits)

lemma slots_settled:
  assumes inv: "slots_but 0 s" and c: "c < length (pv_calls s)"
  shows "slots_but 0 (fn_settled c outcome random aborted s)"
proof (cases "rl_phase (pv_calls s ! c) = RlCalling")
  case False
  then show ?thesis using inv by (auto simp: fn_settled_def Let_def split: rl_phase.splits)
next
  case True
  let ?call = "(pv_calls s ! c)\<lparr>rl_outcomes := rl_outcomes (pv_calls s ! c) @ [outcome]\<rparr>"
  have B: "rl_attempt (pv_calls s ! c) = length (rl_outcomes (pv_calls s ! c))"
    "all_retryable (rl_outcomes (pv_calls s ! c))" "int (rl_attempt (pv_calls s ! c)) \<le> max 0 (pv_maxRetries s)"
    using books_at [OF inv c] True by (simp_all add: call_books_def)
  have ok: "manager_ok (pv_manager s)" using inv by (simp add: slots_but_def)
  have ended: "slots_but 1 (set_call c (?call\<lparr>rl_phase := RlDone outcome\<rparr>) (s\<lparr>pv_manager := m\<rparr>))"
    if "all_retryable [outcome] \<Longrightarrow> \<not> int (rl_attempt (pv_calls s ! c)) < pv_maxRetries s"
      "manager_ok m" "inFlight m = inFlight (pv_manager s)" "waitQueue m = waitQueue (pv_manager s)" for m
    using B that by (intro slots_leave [OF inv c True]) (auto simp: call_books_def)
  show ?thesis
  proof (cases outcome)
    case (Inr v)
    then show ?thesis
      using slots_release [OF ended [of "recordSuccess (pv_manager s)"]] True ok by (simp add: fn_settled_def manager_kept)
  next
    case (Inl err)
    show ?thesis
    proof (cases "retryable err \<and> int (rl_attempt (pv_calls s ! c)) < pv_maxRetries s")
      case False
      then show ?thesis
        using slots_release [OF ended [of "pv_manager s"]] True ok Inl by (auto simp: fn_settled_def)
    next
      case retry: True
      obtain delay m where m: "recordFailure (pv_now s) random (retry_after err) (pv_manager s) = (delay, m)" by fastforce
      let ?ph = "case aborted of Some reason \<Rightarrow> RlAborted reason | None \<Rightarrow> RlDelaying (pv_now s + delay)"
      let ?next = "?call\<lparr>rl_attempt := rl_attempt (pv_calls s ! c) + 1, rl_phase := ?ph\<rparr>"
      have "slots_but 1 (set_call c ?next (s\<lparr>pv_manager := m\<rparr>))"
        using B retry Inl ok m manager_kept(2,4,6) [of "pv_now s" random "retry_after err" "pv_manager s"]
        by (intro slots_leave [OF inv c True]) (auto simp: call_books_def split: option.splits)
      from slots_release [OF this] show ?thesis using True Inl retry m by (simp add: fn_settled_def)
    qed
  qed
qed

definition fresh_calls :: "'a provider_calls \<Rightarrow> bool" where
  "fresh_calls s \<longleftrightarrow> fresh_manager (pv_manager s) \<and> pv_calls s = []"

lemma slots_step:
  assumes "calls_step s s'" "slots_but 0 s"
  shows "slots_but 0 s'"
  using assms
proof (induction rule: calls_step.induct)
  case (enter s)
  then have "queue_books (executeWithResilience s)"
    by (auto simp: queue_books_def slots_but_def executeWithResilience_def nth_append cooling_def split: if_splits)
  then show ?case
    using enter by (simp add: slots_but_def executeWithResilience_def in_fn_def cooling_def call_books_def)
next
  case (delayed c s)
  then show ?case
    using books_at [OF delayed(2,1)]
    by (auto simp: delay_over_def cooling_def call_books_def split: rl_phase.splits intro!: slots_move)
next
  case (abort_signal c s reason)
  then show ?case
    using books_at [OF abort_signal(2,1)]
    by (auto simp: abort_delay_def call_books_def split: rl_phase.splits intro!: slots_move)
next
  case (ask c s)
  then show ?case by (simp add: slots_ask)
next
  case (settled c s outcome random aborted)
  then show ?case by (simp add: slots_settled)
next
  case (time d s)
  then show ?case by (simp add: slots_but_def queue_books_def in_fn_def)
qed (erule slots_manager; simp add: manager_defs split: option.splits)+

interpretation calls_system: transition_system fresh_calls calls_step "slots_but 0"
proof unfold_locales
  show "slots_but 0 s" if "fresh_calls s" for s :: "'a provider_calls"
    using that manager_system.init_inv
    by (auto simp: fresh_calls_def slots_but_def fresh_manager_def queue_books_def in_fn_def)
qed (rule slots_step)

section \<open>Properties\<close>

text \<open>
  Backoff bounds: with a random number in the unit interval the delay is at least the capped
  exponential and at least the time the provider asked for, and it exceeds the configured maximum
  plus jitter only when the provider asked for more; a later attempt never waits less.
\<close>

theorem backoff_bounds:
  assumes "0 \<le> random" "random \<le> 1" "0 \<le> jitterMs c" "0 \<le> baseDelayMs c"
  shows "min (maxDelayMs c) (baseDelayMs c * 2 ^ n) \<le> computeBackoffDelay random n c ra
    \<and> nullish ra (computeBackoffDelay random n c ra) \<le> computeBackoffDelay random n c ra
    \<and> computeBackoffDelay random n c ra \<le>
        max (nullish ra (maxDelayMs c + jitterMs c)) (maxDelayMs c + jitterMs c)
    \<and> computeBackoffDelay random n c ra \<le> computeBackoffDelay random (Suc n) c ra"
proof -
  have j: "0 \<le> random * jitterMs c" "random * jitterMs c \<le> jitterMs c"
    using assms mult_right_mono [of random 1 "jitterMs c"] by simp_all
  have "baseDelayMs c * 2 ^ n \<le> baseDelayMs c * 2 ^ Suc n"
    using assms(4) by (intro mult_left_mono) simp_all
  with j show ?thesis
    by (cases ra) (auto simp: computeBackoffDelay_def Let_def min_def max_def)
qed

text \<open>
  C33. The concurrency gate of a provider: whatever operations run, in any interleaving of callers that
  release only what they hold, the slots in flight stay between zero and the limit, and a caller
  waits only while all slots are taken.
\<close>

theorem provider_gate_sound:
  assumes "0 \<le> nullish (pc_concurrency cfg) DEFAULT_CONCURRENCY"
    and "manager_step\<^sup>*\<^sup>* (new_manager cfg) m"
  shows "0 \<le> inFlight m \<and> inFlight m \<le> maxConcurrent m
    \<and> (waitQueue m \<noteq> [] \<longrightarrow> inFlight m = maxConcurrent m)"
proof -
  have "fresh_manager (new_manager cfg)"
    using assms(1) by (simp add: fresh_manager_def new_manager_def)
  then have "manager_ok m" using assms(2) by (rule manager_system.reachable_inv)
  then show ?thesis by (auto simp: manager_ok_def)
qed

text \<open>
  C34. Any number of resilient calls on a provider whose manager is new, in any interleaving, with the
  cooldown, the queue and the limit of the manager: the calls that are inside \<open>fn\<close> are exactly as many as
  the slots in flight and never more than the limit; a call waits in the queue only while that many others are
  inside \<open>fn\<close>, so that no slot is lost on success, retry, failure or abort, nor given back
  twice; a call has called \<open>fn\<close> at most once more than there are retries (a negative number of retries counts
  as none); and a call ends only with the outcome of its last attempt, after attempts that all failed with
  retryable errors, when that outcome is a success, an error that is not retryable or comes after the last
  retry, or with an abort. How long a call waits for a slot is not bounded: that depends on the others.
\<close>

theorem resilient_calls_sound:
  assumes "map_get (managers g) provider = None"
    and "0 \<le> nullish (pc_concurrency (effective_config provider g)) DEFAULT_CONCURRENCY"
    and "calls_step\<^sup>*\<^sup>* (open_provider provider g now) s"
  shows "int (in_fn s) = inFlight (pv_manager s) \<and> inFlight (pv_manager s) \<le> maxConcurrent (pv_manager s)
    \<and> (\<forall>call \<in> set (pv_calls s).
         (rl_phase call = RlQueued \<longrightarrow> int (in_fn s) = maxConcurrent (pv_manager s))
         \<and> int (length (rl_outcomes call)) + (if rl_phase call = RlCalling then 1 else 0) \<le> max 0 (pv_maxRetries s) + 1
         \<and> (\<forall>r. rl_phase call = RlDone r \<longrightarrow>
              (\<exists>before. rl_outcomes call = before @ [r] \<and> (\<forall>o' \<in> set before. \<exists>e. o' = Inl e \<and> retryable e)
                 \<and> (\<forall>e. r = Inl e \<and> retryable e \<longrightarrow> pv_maxRetries s \<le> int (length before)))))"
proof -
  have "fresh_calls (open_provider provider g now)"
    using assms(1,2) by (simp add: fresh_calls_def open_provider_def getOrCreateManager_def Let_def fresh_manager_def new_manager_def)
  from calls_system.reachable_inv [OF this assms(3)] have inv: "slots_but 0 s" .
  then have ok: "manager_ok (pv_manager s)" "inFlight (pv_manager s) = int (in_fn s)" and q: "queue_books s"
    and b: "list_all (call_books (pv_maxRetries s)) (pv_calls s)" by (simp_all add: slots_but_def)
  have "int (in_fn s) = maxConcurrent (pv_manager s)" if "call \<in> set (pv_calls s)" "rl_phase call = RlQueued" for call
  proof -
    from that obtain c where "c < length (pv_calls s)" "rl_phase (pv_calls s ! c) = RlQueued" by (auto simp: in_set_conv_nth)
    with q have "waitQueue (pv_manager s) \<noteq> []" by (metis empty_iff list.set(1) queue_books_def)
    with ok show ?thesis by (simp add: manager_ok_def)
  qed
  moreover have "int (length (rl_outcomes call)) + (if rl_phase call = RlCalling then 1 else 0) \<le> max 0 (pv_maxRetries s) + 1"
    if "call \<in> set (pv_calls s)" for call
  proof -
    have "call_books (pv_maxRetries s) call" using that b by (simp add: list_all_iff)
    then show ?thesis by (cases "rl_phase call") (auto simp: call_books_def)
  qed
  moreover have "\<exists>before. rl_outcomes call = before @ [r] \<and> (\<forall>o' \<in> set before. \<exists>e. o' = Inl e \<and> retryable e)
      \<and> (\<forall>e. r = Inl e \<and> retryable e \<longrightarrow> pv_maxRetries s \<le> int (length before))"
    if "call \<in> set (pv_calls s)" and d: "rl_phase call = RlDone r" for call r
  proof -
    have "call_books (pv_maxRetries s) call" using that(1) b by (simp add: list_all_iff)
    then obtain before where o: "rl_outcomes call = before @ [r]" "all_retryable before"
      "all_retryable [r] \<longrightarrow> \<not> int (length before) < pv_maxRetries s"
      using d by (auto simp: call_books_def)
    then have "\<forall>e. r = Inl e \<and> retryable e \<longrightarrow> pv_maxRetries s \<le> int (length before)" by auto
    with o show ?thesis by (auto simp: all_retryable_def)
  qed
  ultimately show ?thesis using ok by (simp add: manager_ok_def)
qed

text \<open>
  A released slot goes to the caller that has waited longest: when a call leaves \<open>fn\<close>, the first of the
  queue goes into its own.
\<close>

theorem released_slot_wakes_first:
  assumes "slots_but 1 s" "waitQueue (pv_manager s) = w # ws"
  shows "rl_phase (pv_calls (release_slot s) ! w) = RlCalling \<and> waitQueue (pv_manager (release_slot s)) = ws
    \<and> inFlight (pv_manager (release_slot s)) = inFlight (pv_manager s)"
proof -
  have "w < length (pv_calls s)" using assms by (auto simp: slots_but_def queue_books_def)
  with provider_gate.rel_hand [OF assms(2)] show ?thesis
    by (auto simp: release_slot_def case_prod_beta)
qed

lemma failover_prefix:
  assumes "\<forall>j < length pre. isFailed (i + j) (provider_id (pre ! j))
      \<or> (\<exists>e. call (i + j) (or_else fmt (or_else (entry_thinking (pre ! j)) (provider_thinking (pre ! j)))) = Inl e
           \<and> isFailoverEligibleError e)"
    and "post \<noteq> []"
  shows "\<exists>err evs. failover_loop isFailed call fmt i (pre @ post) lastErr =
      (let (r, es) = failover_loop isFailed call fmt (i + length pre) post err in (r, evs @ es))"
  using assms
proof (induction pre arbitrary: i lastErr)
  case Nil
  then show ?case by (intro exI [of _ lastErr] exI [of _ "[]"]) simp
next
  case (Cons entry pre)
  have shifted: "\<forall>j < length pre. isFailed (i + 1 + j) (provider_id (pre ! j))
      \<or> (\<exists>e. call (i + 1 + j) (or_else fmt (or_else (entry_thinking (pre ! j)) (provider_thinking (pre ! j)))) = Inl e
           \<and> isFailoverEligibleError e)"
  proof (intro allI impI)
    fix j assume "j < length pre"
    then have "Suc j < length (entry # pre)" by simp
    from Cons.prems(1) [rule_format, OF this]
    show "isFailed (i + 1 + j) (provider_id (pre ! j))
      \<or> (\<exists>e. call (i + 1 + j) (or_else fmt (or_else (entry_thinking (pre ! j)) (provider_thinking (pre ! j)))) = Inl e
           \<and> isFailoverEligibleError e)"
      by simp
  qed
  note IH = Cons.IH [OF shifted Cons.prems(2)]
  show ?case
  proof (cases "isFailed i (provider_id entry)")
    case True
    with IH [of lastErr] show ?thesis by simp
  next
    case False
    then obtain e where e: "call i (or_else fmt (or_else (entry_thinking entry) (provider_thinking entry))) = Inl e"
      "isFailoverEligibleError e"
      using Cons.prems(1) by (auto dest: spec [of _ 0])
    obtain nxt rest where rest: "pre @ post = nxt # rest" using Cons.prems(2) by (cases "pre @ post") auto
    obtain err evs where rec: "failover_loop isFailed call fmt (i + 1) (pre @ post) (Some e) =
      (let (r, es) = failover_loop isFailed call fmt (i + 1 + length pre) post err in (r, evs @ es))"
      using IH [of "Some e"] by blast
    show ?thesis
      by (intro exI [of _ err]
            exI [of _ "ProviderExhausted (provider_id entry) (e_message e)
                         (Some (provider_id nxt @ ''/'' @ entry_model nxt)) # evs"])
         (use False e rest rec in \<open>simp add: Let_def split: prod.splits\<close>)
  qed
qed

text \<open>
  C35. Failover returns the first usable answer: if every provider before an entry is marked failed when
  its turn comes or fails with an error eligible for failover, and the entry is not marked failed and answers, then
  that answer is returned with the entry's provider and model, degraded exactly when the entry is
  not the first of the chain, and its success is reported last.
\<close>

theorem failover_first_usable:
  assumes "chain = pre @ entry # post" "\<not> isFailed (length pre) (provider_id entry)"
    and "\<forall>j < length pre. isFailed j (provider_id (pre ! j))
      \<or> (\<exists>e. call j (or_else fmt (or_else (entry_thinking (pre ! j)) (provider_thinking (pre ! j)))) = Inl e
           \<and> isFailoverEligibleError e)"
    and "call (length pre) (or_else fmt (or_else (entry_thinking entry) (provider_thinking entry))) = Inr v"
  shows "\<exists>out evs. failover_complete isFailed call fmt chain = (Inr out, evs @ [ProviderSuccess (provider_id entry)])
    \<and> fo_result out = v \<and> usedProviderId out = provider_id entry \<and> usedModel out = entry_model entry
    \<and> (degraded out \<longleftrightarrow> pre \<noteq> [])"
proof -
  obtain err evs where "failover_loop isFailed call fmt 0 (pre @ entry # post) None =
      (let (r, es) = failover_loop isFailed call fmt (0 + length pre) (entry # post) err in (r, evs @ es))"
    using failover_prefix [where pre = pre and isFailed = isFailed and call = call and i = 0 and fmt = fmt and post = "entry # post"
        and lastErr = None] assms(3) by auto
  then have "iterateFailoverChain isFailed call fmt chain =
      (Inr (v, length pre, or_else fmt (or_else (entry_thinking entry) (provider_thinking entry))),
       evs @ [ProviderSuccess (provider_id entry)])"
    using assms by (simp add: iterateFailoverChain_def Let_def)
  then show ?thesis by (simp add: failover_complete_def assms(1))
qed

text \<open>
  When every provider of the chain is marked failed, the loop throws \<open>undefined\<close> instead of an
  error and calls no provider.
\<close>

theorem failover_all_skipped:
  assumes "chain \<noteq> []" "\<forall>i. \<forall>entry \<in> set chain. isFailed i (provider_id entry)"
  shows "iterateFailoverChain isFailed call fmt chain = (Inl ThrownUndefined, [])"
proof -
  have "failover_loop isFailed call fmt i chain None = (Inl ThrownUndefined, [])" for i
    using assms(2) by (induction chain arbitrary: i) simp_all
  with assms(1) show ?thesis by (simp add: iterateFailoverChain_def)
qed

end
