(* ===== verification/Ring_Buffer.thy ===== *)
theory Ring_Buffer
  imports Prelude
begin

text \<open>
  The circular output buffer of a managed process, from \<open>procman/src/ring-buffer.ts\<close>. The
  refinement: after any writes, reading gives the last \<open>max\<close> bytes of everything written since
  the buffer was created or cleared.
\<close>

section \<open>The buffer\<close>

record ring =
  rb_buf :: "nat list"
  rb_max :: nat
  rb_head :: nat
  totalWritten :: nat

definition DEFAULT_MAX_BYTES :: nat where
  "DEFAULT_MAX_BYTES = 1024 * 1024"

definition new_ring :: "nat \<Rightarrow> ring" where
  "new_ring maxBytes = \<lparr> rb_buf = replicate maxBytes 0, rb_max = maxBytes, rb_head = 0, totalWritten = 0 \<rparr>"

definition byteLength :: "ring \<Rightarrow> nat" where
  "byteLength r = min (totalWritten r) (rb_max r)"

text \<open>\<open>src.copy(dst, at)\<close>: the bytes of \<open>src\<close> over \<open>dst\<close> from position \<open>at\<close>, within \<open>dst\<close>.\<close>

definition buf_copy :: "nat list \<Rightarrow> nat \<Rightarrow> nat list \<Rightarrow> nat list" where
  "buf_copy src i dst = take i dst @ take (length dst - i) src @ drop (i + length src) dst"

definition rb_write :: "nat list \<Rightarrow> ring \<Rightarrow> ring" where
  "rb_write chunk r =
     (if length chunk = 0 then r
      else if length chunk \<ge> rb_max r
        then r\<lparr>rb_buf := buf_copy (drop (length chunk - rb_max r) chunk) 0 (rb_buf r), rb_head := 0,
               totalWritten := totalWritten r + length chunk\<rparr>
      else (let spaceToEnd = rb_max r - rb_head r;
                b = (if length chunk \<le> spaceToEnd then buf_copy chunk (rb_head r) (rb_buf r)
                     else buf_copy (drop spaceToEnd chunk) 0
                            (buf_copy (take spaceToEnd chunk) (rb_head r) (rb_buf r)))
            in r\<lparr>rb_buf := b, rb_head := (rb_head r + length chunk) mod rb_max r,
                 totalWritten := totalWritten r + length chunk\<rparr>))"

definition rb_read :: "ring \<Rightarrow> nat list" where
  "rb_read r =
     (let len = byteLength r
      in if len = 0 then []
         else if totalWritten r \<le> rb_max r then take len (rb_buf r)
         else (let tailLen = rb_max r - rb_head r
               in buf_copy (take (rb_head r) (rb_buf r)) tailLen
                    (buf_copy (take tailLen (drop (rb_head r) (rb_buf r))) 0 (replicate len 0))))"

definition rb_clear :: "ring \<Rightarrow> ring" where
  "rb_clear r = r\<lparr>rb_head := 0, totalWritten := 0\<rparr>"

section \<open>Refinement\<close>

definition take_last :: "nat \<Rightarrow> 'a list \<Rightarrow> 'a list" where
  "take_last n xs = drop (length xs - n) xs"

text \<open>
  \<open>ring_abs r w\<close>: the buffer \<open>r\<close> holds the stream \<open>w\<close>. The buffer rotated at its head ends
  with the last part of the stream, and before the first wrap the head is the stream's length.
\<close>

definition rotated :: "ring \<Rightarrow> nat list" where
  "rotated r = drop (rb_head r) (rb_buf r) @ take (rb_head r) (rb_buf r)"

definition ring_abs :: "ring \<Rightarrow> nat list \<Rightarrow> bool" where
  "ring_abs r w \<longleftrightarrow>
     length (rb_buf r) = rb_max r \<and> totalWritten r = length w
     \<and> (rb_head r < rb_max r \<or> rb_max r = 0 \<and> rb_head r = 0)
     \<and> (length w \<le> rb_max r \<longrightarrow> rb_head r = length w mod rb_max r)
     \<and> take_last (length w) (rotated r) = take_last (rb_max r) w"

lemma buf_copy_fits:
  "i + length src \<le> length dst \<Longrightarrow> buf_copy src i dst = take i dst @ src @ drop (i + length src) dst"
  by (simp add: buf_copy_def)

lemma length_take_last [simp]: "length (take_last n xs) = min n (length xs)"
  by (simp add: take_last_def)

lemma take_last_all [simp]: "length xs \<le> n \<Longrightarrow> take_last n xs = xs"
  by (simp add: take_last_def)

lemma take_last_append: "length v \<le> n \<Longrightarrow> take_last n (w @ v) = take_last (n - length v) w @ v"
  by (simp add: take_last_def)

lemma take_last_long: "n \<le> length v \<Longrightarrow> take_last n (w @ v) = take_last n v"
  by (simp add: take_last_def)

lemma take_last_0 [simp]: "take_last 0 xs = []"
  by (simp add: take_last_def)

lemma take_last_drop: "take_last n (drop k xs) = take_last (min n (length xs - k)) xs"
proof (cases "k \<le> length xs")
  case True
  then have "length xs - k - n + k = length xs - min n (length xs - k)" by linarith
  then show ?thesis by (simp add: take_last_def)
qed (simp add: take_last_def)

lemma take_last_take_last: "take_last n (take_last k xs) = take_last (min n k) xs"
proof -
  have "take_last n (take_last k xs) = take_last (min n (length xs - (length xs - k))) xs"
    unfolding take_last_def [of k] by (rule take_last_drop)
  also have "\<dots> = take_last (min n k) xs"
  proof (cases "k \<le> length xs")
    case False
    then have "length xs - min n (length xs) = length xs - min n k" by linarith
    with False show ?thesis by (simp add: take_last_def)
  qed simp
  finally show ?thesis .
qed

lemma length_rotated [simp]: "length (rotated r) = length (rb_buf r)"
  by (simp add: rotated_def)

lemma ring_abs_new: "ring_abs (new_ring n) []"
  by (auto simp: ring_abs_def new_ring_def take_last_def)

lemma ring_abs_clear: "ring_abs r w \<Longrightarrow> ring_abs (rb_clear r) []"
  by (auto simp: ring_abs_def rb_clear_def take_last_def)

lemma rb_write_rotated:
  assumes "length (rb_buf r) = rb_max r" "rb_head r < rb_max r" "0 < length chunk" "length chunk < rb_max r"
  shows "rotated (rb_write chunk r) = drop (length chunk) (rotated r) @ chunk
    \<and> length (rb_buf (rb_write chunk r)) = rb_max r"
proof (cases "length chunk \<le> rb_max r - rb_head r")
  case True
  then have b: "rb_buf (rb_write chunk r) =
      take (rb_head r) (rb_buf r) @ chunk @ drop (rb_head r + length chunk) (rb_buf r)"
    using assms by (simp add: rb_write_def buf_copy_fits)
  show ?thesis
  proof (cases "rb_head r + length chunk = rb_max r")
    case wrap: True
    then have "rb_head (rb_write chunk r) = 0" using assms by (simp add: rb_write_def Let_def)
    with b wrap assms show ?thesis by (simp add: rotated_def)
  next
    case False
    then have "rb_head (rb_write chunk r) = rb_head r + length chunk"
      using assms True by (simp add: rb_write_def Let_def)
    with b True assms show ?thesis by (simp add: rotated_def add.commute)
  qed
next
  case False
  let ?s = "rb_max r - rb_head r"
  let ?b1 = "take (rb_head r) (rb_buf r) @ take ?s chunk"
  have "rb_buf (rb_write chunk r) = drop ?s chunk @ drop (length chunk - ?s) ?b1"
    using assms False by (simp add: rb_write_def buf_copy_fits Let_def)
  moreover have "rb_head (rb_write chunk r) = length chunk - ?s"
  proof -
    have "(rb_head r + length chunk) mod rb_max r = rb_head r + length chunk - rb_max r"
      using assms False by (subst mod_if, subst mod_less) auto
    then show ?thesis using assms False by (simp add: rb_write_def Let_def)
  qed
  moreover have "take (length chunk - (?s + (length chunk - ?s))) (drop ?s chunk) = []" by simp
  ultimately show ?thesis using assms False by (simp add: rotated_def)
qed

lemma rb_write_fields:
  "rb_max (rb_write chunk r) = rb_max r" "totalWritten (rb_write chunk r) = totalWritten r + length chunk"
  by (simp_all add: rb_write_def Let_def)

lemma ring_abs_write:
  assumes "ring_abs r w"
  shows "ring_abs (rb_write chunk r) (w @ chunk)"
proof (cases "length chunk = 0 \<or> length chunk \<ge> rb_max r")
  case True
  then show ?thesis
  proof
    assume "length chunk = 0"
    with assms show ?thesis by (simp add: rb_write_def)
  next
    assume big: "length chunk \<ge> rb_max r"
    show ?thesis
    proof (cases "chunk = []")
      case True
      with assms show ?thesis by (simp add: rb_write_def)
    next
      case False
      with big assms have "rb_buf (rb_write chunk r) = take_last (rb_max r) chunk" "rb_head (rb_write chunk r) = 0"
        by (simp_all add: rb_write_def ring_abs_def buf_copy_def take_last_def)
      moreover have "length (w @ chunk) \<le> rb_max r \<Longrightarrow> length (w @ chunk) mod rb_max r = 0"
      proof -
        assume "length (w @ chunk) \<le> rb_max r"
        with big have "length (w @ chunk) = rb_max r" by simp
        then show ?thesis by simp
      qed
      ultimately show ?thesis using big assms
        by (auto simp: ring_abs_def rb_write_fields rotated_def take_last_long take_last_take_last)
    qed
  qed
next
  case False
  then have c: "0 < length chunk" "length chunk < rb_max r" by auto
  with assms have r: "length (rb_buf r) = rb_max r" "rb_head r < rb_max r" "totalWritten r = length w"
    and content: "take_last (length w) (rotated r) = take_last (rb_max r) w"
    and head: "length w \<le> rb_max r \<Longrightarrow> rb_head r = length w mod rb_max r"
    by (auto simp: ring_abs_def)
  note rot = rb_write_rotated [OF r(1,2) c]
  have "take_last (length (w @ chunk)) (rotated (rb_write chunk r)) =
      take_last (length w) (drop (length chunk) (rotated r)) @ chunk"
    using rot by (simp add: take_last_append)
  also have "take_last (length w) (drop (length chunk) (rotated r)) =
      take_last (rb_max r - length chunk) (take_last (length w) (rotated r))"
    using r(1) by (simp add: take_last_drop take_last_take_last min.commute)
  also have "\<dots> = take_last (rb_max r - length chunk) w"
    unfolding content by (simp add: take_last_take_last)
  finally have "take_last (length (w @ chunk)) (rotated (rb_write chunk r)) = take_last (rb_max r) (w @ chunk)"
    using c by (simp add: take_last_append)
  moreover have "rb_head (rb_write chunk r) = (rb_head r + length chunk) mod rb_max r"
    using c by (simp add: rb_write_def Let_def)
  ultimately show ?thesis
    using r rot c head by (auto simp: ring_abs_def rb_write_fields mod_add_left_eq)
qed

lemma ring_abs_read:
  assumes "ring_abs r w"
  shows "rb_read r = take_last (rb_max r) w"
proof -
  have r: "length (rb_buf r) = rb_max r" "totalWritten r = length w"
    "rb_head r < rb_max r \<or> rb_max r = 0 \<and> rb_head r = 0"
    and content: "take_last (length w) (rotated r) = take_last (rb_max r) w"
    and head: "length w \<le> rb_max r \<Longrightarrow> rb_head r = length w mod rb_max r"
    using assms by (auto simp: ring_abs_def)
  consider "w = [] \<or> rb_max r = 0" | "w \<noteq> []" "length w \<le> rb_max r" "0 < rb_max r"
    | "rb_max r < length w" "0 < rb_max r" by force
  then show ?thesis
  proof cases
    case 1
    with r show ?thesis by (auto simp: rb_read_def byteLength_def take_last_def)
  next
    case 2
    have "rotated r = drop (length w) (rb_buf r) @ take (length w) (rb_buf r)"
      using head [OF 2(2)] 2 r(1) by (cases "length w = rb_max r") (simp_all add: rotated_def)
    with content 2 r(1) have "take (length w) (rb_buf r) = w"
      by (simp add: take_last_append)
    with 2 r show ?thesis by (simp add: rb_read_def byteLength_def min_def)
  next
    case 3
    with content r have "rotated r = take_last (rb_max r) w" by simp
    with 3 r show ?thesis
      by (simp add: rb_read_def byteLength_def Let_def buf_copy_def rotated_def)
  qed
qed

text \<open>
  C36. The buffer refines a stream: after any chunks are written to a new buffer, reading gives the last
  \<open>max\<close> bytes of their concatenation, and a cleared buffer starts over.
\<close>

theorem ring_buffer_refines:
  "rb_read (fold rb_write chunks (new_ring n)) = take_last n (concat chunks)
   \<and> rb_read (fold rb_write chunks (rb_clear (fold rb_write earlier (new_ring n)))) = take_last n (concat chunks)"
proof -
  have abs: "ring_abs (fold rb_write cs r) (w @ concat cs) \<and> rb_max (fold rb_write cs r) = rb_max r"
    if "ring_abs r w" for cs r w
    using that
  proof (induction cs arbitrary: r w)
    case (Cons c cs)
    from Cons.IH [OF ring_abs_write [OF Cons.prems]] show ?case by (simp add: rb_write_fields)
  qed simp
  have new: "rb_max (new_ring n) = n" "rb_max (rb_clear r) = rb_max r" for r
    by (simp_all add: new_ring_def rb_clear_def)
  note a1 = abs [OF ring_abs_new]
  show ?thesis
  proof
    show "rb_read (fold rb_write chunks (new_ring n)) = take_last n (concat chunks)"
      using ring_abs_read a1 [of chunks n] new by fastforce
    have "ring_abs (rb_clear (fold rb_write earlier (new_ring n))) []"
      using a1 [of earlier n] ring_abs_clear by blast
    from abs [OF this, of chunks] a1 [of earlier n]
    show "rb_read (fold rb_write chunks (rb_clear (fold rb_write earlier (new_ring n)))) = take_last n (concat chunks)"
      using ring_abs_read new by fastforce
  qed
qed

end
