(* ===== verification/Timer_Heap.thy ===== *)
theory Timer_Heap
  imports Prelude "HOL-Library.Multiset" "HOL-Library.List_Lexorder" "HOL-Library.Char_ord"
begin

text \<open>
  The min-heap of deferred timers, from \<open>daemon/src/timers/timer-heap.ts\<close>: an array ordered by
  \<open>fireAt\<close> (ISO 8601 text, compared as JavaScript compares strings) with an index from identifiers
  to positions. The heap is shown to be a priority queue with removal by identifier, the contract
  its client relies on.
\<close>

section \<open>The heap\<close>

record timer_entry =
  t_id :: string
  t_sessionId :: string
  t_label :: string
  t_fireAt :: string
  t_message :: string
  t_sessionAnchor :: "string option"

record timer_heap =
  items :: "timer_entry list"
  heap_index :: "(string, nat) jsmap"

definition new_heap :: timer_heap where
  "new_heap = \<lparr> items = [], heap_index = [] \<rparr>"

definition heap_size :: "timer_heap \<Rightarrow> nat" where
  "heap_size h = length (items h)"

definition heap_peek :: "timer_heap \<Rightarrow> timer_entry option" where
  "heap_peek h = (case items h of [] \<Rightarrow> None | e # es \<Rightarrow> Some e)"

definition less_at :: "timer_heap \<Rightarrow> nat \<Rightarrow> nat \<Rightarrow> bool" where
  "less_at h a b \<longleftrightarrow> t_fireAt (items h ! a) < t_fireAt (items h ! b)"

definition heap_swap :: "nat \<Rightarrow> nat \<Rightarrow> timer_heap \<Rightarrow> timer_heap" where
  "heap_swap i j h =
     (let xs = (items h)[i := items h ! j, j := items h ! i]
      in h\<lparr>items := xs, heap_index := map_set (t_id (xs ! j)) j (map_set (t_id (xs ! i)) i (heap_index h))\<rparr>)"

lemma length_swap [simp]: "length (items (heap_swap i j h)) = length (items h)"
  by (simp add: heap_swap_def Let_def)

fun bubbleUp :: "nat \<Rightarrow> timer_heap \<Rightarrow> timer_heap" where
  "bubbleUp i h =
     (if i > 0
      then (let parent = (i - 1) div 2
            in if less_at h i parent then bubbleUp parent (heap_swap i parent h) else h)
      else h)"

declare bubbleUp.simps [simp del]

definition smallest_of :: "nat \<Rightarrow> timer_heap \<Rightarrow> nat" where
  "smallest_of i h =
     (let n = length (items h); left = 2 * i + 1; right = 2 * i + 2;
          smallest = (if left < n \<and> less_at h left i then left else i)
      in if right < n \<and> less_at h right smallest then right else smallest)"

lemma smallest_of_cases:
  "smallest_of i h = i \<or> (smallest_of i h \<in> {2 * i + 1, 2 * i + 2} \<and> smallest_of i h < length (items h))"
  by (simp add: smallest_of_def Let_def)

function sinkDown :: "nat \<Rightarrow> timer_heap \<Rightarrow> timer_heap" where
  "sinkDown i h =
     (let smallest = smallest_of i h
      in if smallest = i then h else sinkDown smallest (heap_swap i smallest h))"
  by pat_completeness auto
termination
proof (relation "measure (\<lambda>(i, h). length (items h) - i)", goal_cases)
  case (2 i h x)
  with smallest_of_cases [of i h] show ?case by auto
qed simp

declare sinkDown.simps [simp del]

definition heap_insert :: "timer_entry \<Rightarrow> timer_heap \<Rightarrow> timer_heap" where
  "heap_insert e h =
     (let xs = items h @ [e]
      in bubbleUp (length xs - 1)
           (h\<lparr>items := xs, heap_index := map_set (t_id e) (length xs - 1) (heap_index h)\<rparr>))"

definition extractMin :: "timer_heap \<Rightarrow> (timer_entry \<times> timer_heap) option" where
  "extractMin h =
     (if items h = [] then None
      else (let m = items h ! 0; ix = map_delete (t_id m) (heap_index h);
                lst = last (items h); xs = butlast (items h)
            in Some (m, if xs \<noteq> []
                        then sinkDown 0 (h\<lparr>items := xs[0 := lst], heap_index := map_set (t_id lst) 0 ix\<rparr>)
                        else h\<lparr>items := xs, heap_index := ix\<rparr>)))"

definition heap_removeById :: "string \<Rightarrow> timer_heap \<Rightarrow> (timer_entry \<times> timer_heap) option" where
  "heap_removeById ident h =
     (case map_get (heap_index h) ident of
        None \<Rightarrow> None
      | Some idx \<Rightarrow>
          (let removed = items h ! idx; ix = map_delete ident (heap_index h);
               lst = last (items h); xs = butlast (items h)
           in Some (removed,
                if idx < length xs
                then (let h1 = bubbleUp idx
                             (h\<lparr>items := xs[idx := lst], heap_index := map_set (t_id lst) idx ix\<rparr>)
                      in sinkDown (the (map_get (heap_index h1) (t_id lst))) h1)
                else h\<lparr>items := xs, heap_index := ix\<rparr>)))"

section \<open>The heap order, on key functions\<close>

definition par :: "nat \<Rightarrow> nat" where
  "par j = (j - 1) div 2"

lemma par_less: "0 < j \<Longrightarrow> par j < j"
  by (simp add: par_def)

lemma par_child: "0 < j \<Longrightarrow> par j = i \<longleftrightarrow> j = 2 * i + 1 \<or> j = 2 * i + 2"
  by (auto simp: par_def)

definition ordered :: "(nat \<Rightarrow> 'k::linorder) \<Rightarrow> nat \<Rightarrow> bool" where
  "ordered f n \<longleftrightarrow> (\<forall>j. 0 < j \<and> j < n \<longrightarrow> f (par j) \<le> f j)"

text \<open>The order may fail between \<open>i\<close> and its parent, or between \<open>i\<close> and its children.\<close>

definition ordered_up :: "(nat \<Rightarrow> 'k::linorder) \<Rightarrow> nat \<Rightarrow> nat \<Rightarrow> bool" where
  "ordered_up f n i \<longleftrightarrow>
     (\<forall>j. 0 < j \<and> j < n \<and> j \<noteq> i \<longrightarrow> f (par j) \<le> f j)
     \<and> (\<forall>j. 0 < j \<and> j < n \<and> par j = i \<and> 0 < i \<longrightarrow> f (par i) \<le> f j)"

definition ordered_down :: "(nat \<Rightarrow> 'k::linorder) \<Rightarrow> nat \<Rightarrow> nat \<Rightarrow> bool" where
  "ordered_down f n i \<longleftrightarrow>
     (\<forall>j. 0 < j \<and> j < n \<and> par j \<noteq> i \<longrightarrow> f (par j) \<le> f j)
     \<and> (\<forall>j. 0 < j \<and> j < n \<and> par j = i \<and> 0 < i \<longrightarrow> f (par i) \<le> f j)"

lemma ordered_up_done: "ordered_up f n i \<Longrightarrow> i = 0 \<or> f (par i) \<le> f i \<Longrightarrow> ordered f n"
  unfolding ordered_def ordered_up_def by (metis less_irrefl)

lemma ordered_up_swap:
  assumes "ordered_up f n i" "0 < i" "i < n" "f i < f (par i)"
  shows "ordered_up (f(i := f (par i), par i := f i)) n (par i)"
proof -
  let ?p = "par i"
  have p: "?p < i" using assms(2) by (rule par_less)
  have a: "f (par j) \<le> f j" if "0 < j" "j < n" "j \<noteq> i" for j
    using assms(1) that by (simp add: ordered_up_def)
  have b: "f ?p \<le> f j" if "0 < j" "j < n" "par j = i" for j
    using assms(1,2) that by (simp add: ordered_up_def)
  have c: "f (par ?p) \<le> f ?p" if "0 < ?p" using a [of ?p] that p assms(3) by simp
  show ?thesis
    unfolding ordered_up_def
  proof (intro conjI allI impI)
    fix j assume j: "0 < j \<and> j < n \<and> j \<noteq> ?p"
    then show "(f(i := f ?p, ?p := f i)) (par j) \<le> (f(i := f ?p, ?p := f i)) j"
      using a [of j] b [of j] assms(4) par_less [of j] p by auto
  next
    fix j assume j: "0 < j \<and> j < n \<and> par j = ?p \<and> 0 < ?p"
    then have "j \<noteq> ?p" using par_less [of j] by auto
    moreover have "par ?p \<noteq> ?p" "par ?p \<noteq> i" using par_less [of ?p] p j by auto
    ultimately show "(f(i := f ?p, ?p := f i)) (par ?p) \<le> (f(i := f ?p, ?p := f i)) j"
      using j a [of j] c by (cases "j = i") auto
  qed
qed

lemma ordered_down_done:
  assumes "ordered_down f n i" "\<And>c. c \<in> {2 * i + 1, 2 * i + 2} \<Longrightarrow> c < n \<Longrightarrow> f i \<le> f c"
  shows "ordered f n"
  using assms unfolding ordered_def ordered_down_def by (metis insertCI par_child)

lemma ordered_down_any: "ordered f n \<Longrightarrow> ordered_down f n i"
proof -
  assume o: "ordered f n"
  have "f (par i) \<le> f j" if "0 < j" "j < n" "par j = i" "0 < i" for j
  proof -
    have "i < n" using that par_less [of j] by simp
    then have "f (par i) \<le> f i" "f i \<le> f j" using o that by (auto simp: ordered_def)
    then show ?thesis by (rule order_trans)
  qed
  with o show ?thesis by (simp add: ordered_down_def ordered_def)
qed

lemma ordered_down_swap:
  assumes "ordered_down f n i" "c \<in> {2 * i + 1, 2 * i + 2}" "c < n" "f c < f i"
    and other: "\<And>d. d \<in> {2 * i + 1, 2 * i + 2} \<Longrightarrow> d < n \<Longrightarrow> f c \<le> f d"
  shows "ordered_down (f(i := f c, c := f i)) n c"
proof -
  have pc: "par c = i" "0 < c" "i < c" using assms(2) by (auto simp: par_def)
  have a: "f (par j) \<le> f j" if "0 < j" "j < n" "par j \<noteq> i" for j
    using assms(1) that by (simp add: ordered_down_def)
  have b: "f (par i) \<le> f j" if "0 < j" "j < n" "par j = i" "0 < i" for j
    using assms(1) that by (simp add: ordered_down_def)
  have sib: "f c \<le> f j" if "0 < j" "j < n" "par j = i" for j
    using other [of j] that par_child [of j i] by auto
  show ?thesis
    unfolding ordered_down_def
  proof (intro conjI allI impI)
    fix j assume j: "0 < j \<and> j < n \<and> par j \<noteq> c"
    show "(f(i := f c, c := f i)) (par j) \<le> (f(i := f c, c := f i)) j"
    proof (cases "par j = i")
      case True
      then have "j \<noteq> i" using par_less [of j] j by auto
      with True j sib [of j] assms(4) pc show ?thesis by auto
    next
      case False
      then have "j \<noteq> c" using pc by auto
      with False j a [of j] b [of c] pc assms(3) show ?thesis by (cases "j = i") auto
    qed
  next
    fix j assume j: "0 < j \<and> j < n \<and> par j = c \<and> 0 < c"
    then have "j \<noteq> i" "j \<noteq> c" using par_less [of j] pc by auto
    moreover have "f c \<le> f j" using a [of j] j pc by auto
    ultimately show "(f(i := f c, c := f i)) (par c) \<le> (f(i := f c, c := f i)) j"
      using pc by simp
  qed
qed

lemma ordered_min: "ordered f n \<Longrightarrow> j < n \<Longrightarrow> f 0 \<le> f j"
proof (induction j rule: less_induct)
  case (less j)
  show ?case
  proof (cases "j = 0")
    case False
    then have "f 0 \<le> f (par j)" using less par_less [of j] by simp
    also have "f (par j) \<le> f j" using less.prems False by (simp add: ordered_def)
    finally show ?thesis .
  qed simp
qed

lemma ordered_replace_up:
  assumes "ordered f n" "0 < i" "i < n" "v < f (par i)"
  shows "ordered_up (f(i := v)) n i"
proof -
  have o: "\<And>j. 0 < j \<Longrightarrow> j < n \<Longrightarrow> f (par j) \<le> f j" using assms(1) by (simp add: ordered_def)
  have pi: "par i \<noteq> i" using par_less [OF assms(2)] by simp
  have below: "f (par i) \<le> f j" if "0 < j" "j < n" "par j = i" for j
    using o [of j] o [of i] that assms(2,3) by auto
  show ?thesis
    unfolding ordered_up_def
    using o below assms(4) pi par_less by (auto intro: order.trans less_imp_le)
qed

lemma ordered_replace_down:
  assumes "ordered f n" "i < n" "i = 0 \<or> f (par i) \<le> v"
  shows "ordered_down (f(i := v)) n i"
  unfolding ordered_down_def
proof (intro conjI allI impI)
  fix j assume "0 < j \<and> j < n \<and> par j \<noteq> i"
  then show "(f(i := v)) (par j) \<le> (f(i := v)) j"
    using assms by (auto simp: ordered_def)
next
  fix j assume j: "0 < j \<and> j < n \<and> par j = i \<and> 0 < i"
  then have "j \<noteq> i" "par i \<noteq> i" using par_less [of j] par_less [of i] by auto
  moreover have "f (par i) \<le> f i" "f i \<le> f j" using assms(1,2) j by (auto simp: ordered_def)
  ultimately show "(f(i := v)) (par i) \<le> (f(i := v)) j" by auto
qed

section \<open>The invariant\<close>

definition key_at :: "timer_heap \<Rightarrow> nat \<Rightarrow> string" where
  "key_at h j = t_fireAt (items h ! j)"

definition index_ok :: "timer_heap \<Rightarrow> bool" where
  "index_ok h \<longleftrightarrow> distinct (map t_id (items h))
     \<and> (\<forall>k i. map_get (heap_index h) k = Some i \<longleftrightarrow> i < length (items h) \<and> t_id (items h ! i) = k)"

definition heap_inv :: "timer_heap \<Rightarrow> bool" where
  "heap_inv h \<longleftrightarrow> ordered (key_at h) (length (items h)) \<and> index_ok h"

abbreviation heap_mset :: "timer_heap \<Rightarrow> timer_entry multiset" where
  "heap_mset h \<equiv> mset (items h)"

lemma less_at_key: "less_at h a b \<longleftrightarrow> key_at h a < key_at h b"
  by (simp add: less_at_def key_at_def)

lemma swap_key:
  "i \<noteq> j \<Longrightarrow> i < length (items h) \<Longrightarrow> j < length (items h) \<Longrightarrow>
     key_at (heap_swap i j h) = (key_at h)(i := key_at h j, j := key_at h i)"
  by (rule ext) (auto simp: key_at_def heap_swap_def Let_def nth_list_update)

lemma swap_items:
  "items (heap_swap i j h) = (items h)[i := items h ! j, j := items h ! i]"
  by (simp add: heap_swap_def Let_def)

lemma swap_mset [simp]:
  "i < length (items h) \<Longrightarrow> j < length (items h) \<Longrightarrow> heap_mset (heap_swap i j h) = heap_mset h"
  using mset_swap [of j "items h" i] by (simp add: swap_items)

lemma distinct_ids_mset: "mset xs = mset ys \<Longrightarrow> distinct (map t_id xs) = distinct (map t_id ys)"
  by (metis mset_eq_imp_distinct_iff mset_map)

lemma swap_index:
  assumes "index_ok h" "i < length (items h)" "j < length (items h)" "i \<noteq> j"
  shows "index_ok (heap_swap i j h)"
proof -
  let ?xs = "items h"
  have d: "distinct (map t_id ?xs)" and ix: "\<And>k l. map_get (heap_index h) k = Some l \<longleftrightarrow> l < length ?xs \<and> t_id (?xs ! l) = k"
    using assms(1) by (auto simp: index_ok_def)
  have inj: "\<And>l m. l < length ?xs \<Longrightarrow> m < length ?xs \<Longrightarrow> t_id (?xs ! l) = t_id (?xs ! m) \<longleftrightarrow> l = m"
    using d by (metis distinct_conv_nth length_map nth_map)
  have ids: "t_id (items (heap_swap i j h) ! l) =
      (if l = i then t_id (?xs ! j) else if l = j then t_id (?xs ! i) else t_id (?xs ! l))"
    if "l < length ?xs" for l
    using that assms by (auto simp: swap_items nth_list_update)
  have "map_get (heap_index (heap_swap i j h)) k = Some l \<longleftrightarrow>
      l < length ?xs \<and> t_id (items (heap_swap i j h) ! l) = k" for k l
  proof -
    have "heap_index (heap_swap i j h) =
        map_set (t_id (?xs ! i)) j (map_set (t_id (?xs ! j)) i (heap_index h))"
      using assms by (simp add: heap_swap_def Let_def nth_list_update)
    then show ?thesis
      using ix [of k l] ids [of l] inj [of l i] inj [of l j] inj [of i j] assms
      by (cases "l = i"; cases "l = j") (auto simp: js_map.get_put)
  qed
  moreover have "distinct (map t_id (items (heap_swap i j h)))"
    using d swap_mset [OF assms(2,3)] distinct_ids_mset by blast
  ultimately show ?thesis by (simp add: index_ok_def)
qed

lemma bubbleUp_inv:
  "i < length (items h) \<Longrightarrow> ordered_up (key_at h) (length (items h)) i \<Longrightarrow> index_ok h \<Longrightarrow>
     heap_inv (bubbleUp i h) \<and> heap_mset (bubbleUp i h) = heap_mset h"
proof (induction i h rule: bubbleUp.induct)
  case (1 i h)
  show ?case
  proof (cases "i > 0 \<and> less_at h i (par i)")
    case False
    then have "bubbleUp i h = h" by (auto simp: bubbleUp.simps [of i h] par_def Let_def)
    moreover have "i = 0 \<or> key_at h (par i) \<le> key_at h i" using False by (auto simp: less_at_key)
    ultimately show ?thesis using 1 ordered_up_done by (simp add: heap_inv_def)
  next
    case True
    let ?h = "heap_swap i (par i) h"
    have p: "par i < i" using True par_less by simp
    have b: "bubbleUp i h = bubbleUp (par i) ?h" using True by (simp add: bubbleUp.simps [of i h] par_def Let_def)
    have "ordered_up ((key_at h)(i := key_at h (par i), par i := key_at h i)) (length (items h)) (par i)"
      using "1.prems" True by (intro ordered_up_swap) (simp_all add: less_at_key)
    then have "ordered_up (key_at ?h) (length (items ?h)) (par i)"
      using "1.prems" p by (subst swap_key) auto
    moreover have "index_ok ?h" using 1 p swap_index by simp
    ultimately have "heap_inv (bubbleUp (par i) ?h) \<and> heap_mset (bubbleUp (par i) ?h) = heap_mset ?h"
      using 1 True p by (intro "1.IH" [of "par i"]) (simp_all add: par_def)
    with b 1 p show ?thesis by simp
  qed
qed

lemma smallest_of_min:
  assumes "i < length (items h)"
  shows "smallest_of i h = i \<Longrightarrow> c \<in> {2 * i + 1, 2 * i + 2} \<Longrightarrow> c < length (items h) \<Longrightarrow> key_at h i \<le> key_at h c"
    and "smallest_of i h \<noteq> i \<Longrightarrow> key_at h (smallest_of i h) < key_at h i"
    and "smallest_of i h \<noteq> i \<Longrightarrow> c \<in> {2 * i + 1, 2 * i + 2} \<Longrightarrow> c < length (items h) \<Longrightarrow>
          key_at h (smallest_of i h) \<le> key_at h c"
  unfolding smallest_of_def Let_def less_at_key by (auto split: if_splits)

lemma sinkDown_inv:
  "i < length (items h) \<Longrightarrow> ordered_down (key_at h) (length (items h)) i \<Longrightarrow> index_ok h \<Longrightarrow>
     heap_inv (sinkDown i h) \<and> heap_mset (sinkDown i h) = heap_mset h"
proof (induction i h rule: sinkDown.induct)
  case (1 i h)
  let ?s = "smallest_of i h" and ?h = "heap_swap i (smallest_of i h) h"
  show ?case
  proof (cases "?s = i")
    case True
    then have "sinkDown i h = h" by (simp add: sinkDown.simps [of i h])
    moreover have "ordered (key_at h) (length (items h))"
      using "1.prems" True smallest_of_min(1) [OF "1.prems"(1) True] by (blast intro: ordered_down_done)
    ultimately show ?thesis using 1 by (simp add: heap_inv_def)
  next
    case False
    then have s: "?s \<in> {2 * i + 1, 2 * i + 2}" "?s < length (items h)" using smallest_of_cases [of i h] by auto
    have b: "sinkDown i h = sinkDown ?s ?h" using False by (simp add: sinkDown.simps [of i h] Let_def)
    have "ordered_down ((key_at h)(i := key_at h ?s, ?s := key_at h i)) (length (items h)) ?s"
      using "1.prems" s smallest_of_min(2,3) [OF "1.prems"(1) False] by (intro ordered_down_swap) auto
    then have "ordered_down (key_at ?h) (length (items ?h)) ?s"
      using "1.prems" s False by (subst swap_key) auto
    moreover have "index_ok ?h" using "1.prems" s False by (intro swap_index) auto
    ultimately have "heap_inv (sinkDown ?s ?h) \<and> heap_mset (sinkDown ?s ?h) = heap_mset ?h"
      using "1.IH" [OF refl False] s by simp
    with b "1.prems" s show ?thesis by simp
  qed
qed

section \<open>The operations keep the invariant\<close>

lemma new_heap_inv: "heap_inv new_heap"
  by (simp add: heap_inv_def new_heap_def index_ok_def ordered_def map_get_def)

lemma index_inj:
  "index_ok h \<Longrightarrow> i < length (items h) \<Longrightarrow> j < length (items h) \<Longrightarrow>
     t_id (items h ! i) = t_id (items h ! j) \<longleftrightarrow> i = j"
  unfolding index_ok_def by (metis distinct_conv_nth length_map nth_map)

lemma key_at_items: "items h = items g \<Longrightarrow> key_at h = key_at g"
  by (rule ext) (simp add: key_at_def)

lemma heap_insert_inv:
  assumes "heap_inv h" "t_id e \<notin> t_id ` set (items h)"
  shows "heap_inv (heap_insert e h) \<and> heap_mset (heap_insert e h) = add_mset e (heap_mset h)"
proof -
  let ?n = "length (items h)"
  let ?h = "h\<lparr>items := items h @ [e], heap_index := map_set (t_id e) ?n (heap_index h)\<rparr>"
  have o: "ordered (key_at h) ?n" and ix: "index_ok h" using assms(1) by (auto simp: heap_inv_def)
  have kn: "key_at ?h j = key_at h j" if "j < ?n" for j
    using that by (simp add: key_at_def nth_append)
  have "ordered_up (key_at ?h) (Suc ?n) ?n"
    unfolding ordered_up_def
  proof (intro conjI allI impI)
    fix j assume "0 < j \<and> j < Suc ?n \<and> j \<noteq> ?n"
    then show "key_at ?h (par j) \<le> key_at ?h j"
      using o kn [of j] kn [of "par j"] par_less [of j] by (simp add: ordered_def)
  next
    fix j assume "0 < j \<and> j < Suc ?n \<and> par j = ?n \<and> 0 < ?n"
    then show "key_at ?h (par ?n) \<le> key_at ?h j" using par_less [of j] by simp
  qed
  moreover have "index_ok ?h"
  proof -
    have "\<And>i. i < ?n \<Longrightarrow> t_id (items h ! i) \<noteq> t_id e" using assms(2) by (metis imageI nth_mem)
    then show ?thesis using ix assms(2) by (auto simp: index_ok_def nth_append less_Suc_eq)
  qed
  ultimately show ?thesis
    using bubbleUp_inv [of ?n ?h] by (simp add: heap_insert_def Let_def)
qed

text \<open>
  Both removals move the last entry into the freed slot \<open>i\<close>; the heap before the repair.
\<close>

definition refill :: "nat \<Rightarrow> timer_heap \<Rightarrow> timer_heap" where
  "refill i h = h\<lparr>items := (butlast (items h))[i := last (items h)],
     heap_index := map_set (t_id (last (items h))) i (map_delete (t_id (items h ! i)) (heap_index h))\<rparr>"

lemma mset_butlast_last: "xs \<noteq> [] \<Longrightarrow> mset xs = add_mset (last xs) (mset (butlast xs))"
  by (induction xs rule: rev_induct) simp_all

lemma refill_facts:
  assumes "heap_inv h" "Suc i < length (items h)"
  shows "length (items (refill i h)) = length (items h) - 1"
    and "j < length (items h) - 1 \<Longrightarrow>
      key_at (refill i h) j = (if j = i then key_at h (length (items h) - 1) else key_at h j)"
    and "heap_mset h = add_mset (items h ! i) (heap_mset (refill i h))"
    and "items (refill i h) ! i = last (items h)"
proof -
  let ?xs = "items h"
  have ne: "?xs \<noteq> []" using assms(2) by auto
  then have l: "last ?xs = ?xs ! (length ?xs - 1)" by (rule last_conv_nth)
  show "length (items (refill i h)) = length ?xs - 1" by (simp add: refill_def)
  show "key_at (refill i h) j = (if j = i then key_at h (length ?xs - 1) else key_at h j)"
    if "j < length ?xs - 1"
    using that assms(2) l by (auto simp: refill_def key_at_def nth_butlast nth_list_update)
  have "mset ?xs = add_mset (last ?xs) (mset (butlast ?xs))" using ne by (rule mset_butlast_last)
  moreover have "?xs ! i \<in># mset (butlast ?xs)"
    using assms(2) nth_mem [of i "butlast ?xs"] by (simp add: nth_butlast)
  ultimately show "heap_mset h = add_mset (?xs ! i) (heap_mset (refill i h))"
    using assms(2) by (simp add: refill_def mset_update nth_butlast)
  show "items (refill i h) ! i = last ?xs" using assms(2) by (simp add: refill_def)
qed

lemma refill_index:
  assumes "heap_inv h" "Suc i < length (items h)"
  shows "index_ok (refill i h)"
proof -
  let ?xs = "items h" and ?n = "length (items h) - 1"
  have ix: "index_ok h" using assms(1) by (simp add: heap_inv_def)
  have "distinct (map t_id (?xs ! i # items (refill i h)))"
  proof -
    have "mset (?xs ! i # items (refill i h)) = mset ?xs" using refill_facts(3) [OF assms] by simp
    then show ?thesis using ix distinct_ids_mset unfolding index_ok_def by blast
  qed
  then have d: "distinct (map t_id (items (refill i h)))" by simp
  have ll: "last ?xs = ?xs ! ?n" using assms(2) by (intro last_conv_nth) auto
  have nth: "items (refill i h) ! j = (if j = i then ?xs ! ?n else ?xs ! j)" if "j < ?n" for j
    using that assms(2) ll by (auto simp: refill_def nth_list_update nth_butlast)
  have "map_get (heap_index (refill i h)) k = Some j \<longleftrightarrow>
      j < ?n \<and> t_id (items (refill i h) ! j) = k" for k j
  proof -
    have get: "map_get (heap_index h) k = Some j \<longleftrightarrow> j < length ?xs \<and> t_id (?xs ! j) = k"
      using ix by (simp add: index_ok_def)
    show ?thesis
      using get nth [of j] assms(2) ll index_inj [OF ix, of j i] index_inj [OF ix, of j ?n]
        index_inj [OF ix, of i ?n]
      by (cases "j = i"; cases "j = ?n") (auto simp: refill_def)
  qed
  then show ?thesis using d refill_facts(1) [OF assms] by (simp add: index_ok_def)
qed

lemma ordered_cong:
  assumes "\<And>j. j < n \<Longrightarrow> f j = g j"
  shows "ordered f n = ordered g n" "ordered_up f n i = ordered_up g n i" "ordered_down f n i = ordered_down g n i"
proof -
  have p: "0 < j \<Longrightarrow> j < n \<Longrightarrow> f (par j) = g (par j) \<and> f j = g j" for j
    using assms par_less [of j] by auto
  have q: "f (par (par j)) = g (par (par j))" if "0 < j" "j < n" "0 < par j" for j
    using that assms par_less [of j] par_less [of "par j"] by auto
  show "ordered f n = ordered g n" unfolding ordered_def using p by metis
  show "ordered_up f n i = ordered_up g n i" unfolding ordered_up_def by (intro conj_cong iff_allI) (auto simp: p q)
  show "ordered_down f n i = ordered_down g n i" unfolding ordered_down_def by (intro conj_cong iff_allI) (auto simp: p q)
qed

lemma refill_order:
  assumes "heap_inv h" "Suc i < length (items h)"
  defines "n \<equiv> length (items h) - 1"
  shows "i = 0 \<or> key_at h (par i) \<le> key_at h n \<Longrightarrow> ordered_down (key_at (refill i h)) n i"
    and "0 < i \<Longrightarrow> key_at h n < key_at h (par i) \<Longrightarrow> ordered_up (key_at (refill i h)) n i"
proof -
  have eq: "\<And>j. j < n \<Longrightarrow> key_at (refill i h) j = ((key_at h)(i := key_at h n)) j"
    using refill_facts(2) [OF assms(1,2)] by (simp add: n_def)
  have o: "ordered (key_at h) n" using assms(1) by (auto simp: heap_inv_def ordered_def n_def)
  have i: "i < n" using assms(2) by (simp add: n_def)
  show "ordered_down (key_at (refill i h)) n i" if "i = 0 \<or> key_at h (par i) \<le> key_at h n"
    using ordered_cong(3) [of n "key_at (refill i h)" "(key_at h)(i := key_at h n)" i, OF eq] ordered_replace_down [OF o i that] by simp
  show "ordered_up (key_at (refill i h)) n i" if "0 < i" "key_at h n < key_at h (par i)"
    using ordered_cong(2) [of n "key_at (refill i h)" "(key_at h)(i := key_at h n)" i, OF eq] ordered_replace_up [OF o that(1) i that(2)] by simp
qed

lemma heap_shrink_inv:
  assumes "heap_inv h" "items h \<noteq> []"
  defines "g \<equiv> h\<lparr>items := butlast (items h), heap_index := map_delete (t_id (last (items h))) (heap_index h)\<rparr>"
  shows "heap_inv g \<and> heap_mset h = add_mset (last (items h)) (heap_mset g)"
proof -
  let ?n = "length (items h) - 1"
  have ix: "index_ok h" using assms(1) by (simp add: heap_inv_def)
  have l: "last (items h) = items h ! ?n" using assms(2) by (simp add: last_conv_nth)
  have "ordered (key_at g) ?n"
  proof -
    have "ordered (key_at h) ?n" using assms(1) by (auto simp: heap_inv_def ordered_def)
    moreover have "\<And>j. j < ?n \<Longrightarrow> key_at g j = key_at h j" by (simp add: g_def key_at_def nth_butlast)
    ultimately show ?thesis using ordered_cong(1) by blast
  qed
  moreover have "distinct (map t_id (items g))"
    using ix by (simp add: g_def index_ok_def map_butlast distinct_butlast)
  moreover have "map_get (heap_index g) k = Some j \<longleftrightarrow> j < ?n \<and> t_id (items g ! j) = k" for k j
  proof -
    have "map_get (heap_index h) k = Some j \<longleftrightarrow> j < length (items h) \<and> t_id (items h ! j) = k"
      using ix by (simp add: index_ok_def)
    then show ?thesis
      using l index_inj [OF ix, of j ?n] assms(2)
      by (cases "j = ?n") (auto simp: g_def nth_butlast)
  qed
  ultimately have "heap_inv g" by (simp add: heap_inv_def index_ok_def g_def)
  then show ?thesis using mset_butlast_last [OF assms(2)] by (simp add: g_def)
qed

lemma extractMin_inv:
  assumes "heap_inv h" "extractMin h = Some (m, g)"
  shows "heap_inv g" "heap_mset h = add_mset m (heap_mset g)" "\<forall>e\<in>set (items h). t_fireAt m \<le> t_fireAt e"
    "heap_peek h = Some m"
proof -
  have ne: "items h \<noteq> []" and m: "m = items h ! 0"
    using assms(2) by (auto simp: extractMin_def Let_def split: if_splits)
  show "heap_peek h = Some m" using ne m by (cases "items h") (auto simp: heap_peek_def)
  have "key_at h 0 \<le> key_at h j" if "j < length (items h)" for j
    using assms(1) that by (auto simp: heap_inv_def intro: ordered_min)
  then show "\<forall>e\<in>set (items h). t_fireAt m \<le> t_fireAt e"
    using m by (auto simp: key_at_def in_set_conv_nth)
  have "heap_inv g \<and> heap_mset h = add_mset m (heap_mset g)"
  proof (cases "butlast (items h) = []")
    case True
    then have single: "items h = [m]" using ne m by (cases "items h" rule: rev_cases) auto
    then have "g = h\<lparr>items := butlast (items h), heap_index := map_delete (t_id (last (items h))) (heap_index h)\<rparr>"
      using assms(2) by (simp add: extractMin_def Let_def)
    then show ?thesis using heap_shrink_inv [OF assms(1) ne] single by simp
  next
    case False
    then have len: "Suc 0 < length (items h)" by (cases "items h" rule: rev_cases) auto
    have g: "g = sinkDown 0 (refill 0 h)"
      using assms(2) False ne by (auto simp: extractMin_def Let_def refill_def)
    have "heap_inv (sinkDown 0 (refill 0 h)) \<and> heap_mset (sinkDown 0 (refill 0 h)) = heap_mset (refill 0 h)"
      using refill_facts(1) [OF assms(1) len] refill_index [OF assms(1) len]
        refill_order(1) [OF assms(1) len] len
      by (intro sinkDown_inv) simp_all
    then show ?thesis using g m refill_facts(3) [OF assms(1) len] by simp
  qed
  then show "heap_inv g" "heap_mset h = add_mset m (heap_mset g)" by auto
qed

lemma extractMin_None: "extractMin h = None \<longleftrightarrow> items h = []"
  by (simp add: extractMin_def Let_def)

lemma bubbleUp_id:
  "i = 0 \<or> \<not> less_at h i (par i) \<Longrightarrow> bubbleUp i h = h"
  by (auto simp: bubbleUp.simps [of i h] par_def Let_def)

lemma heap_removeById_inv:
  assumes "heap_inv h" "heap_removeById k h = Some (e, g)"
  shows "heap_inv g" "heap_mset h = add_mset e (heap_mset g)" "t_id e = k"
proof -
  obtain i where get: "map_get (heap_index h) k = Some i"
    using assms(2) by (auto simp: heap_removeById_def split: option.splits)
  have ix: "index_ok h" using assms(1) by (simp add: heap_inv_def)
  have i: "i < length (items h)" "t_id (items h ! i) = k" using get ix by (auto simp: index_ok_def)
  have e: "e = items h ! i" using assms(2) get by (auto simp: heap_removeById_def Let_def)
  have ne: "items h \<noteq> []" using i(1) by auto
  show "t_id e = k" using e i by simp
  have "heap_inv g \<and> heap_mset h = add_mset e (heap_mset g)"
  proof (cases "Suc i < length (items h)")
    case False
    then have il: "items h ! i = last (items h)" using i ne by (auto simp: last_conv_nth intro: arg_cong)
    have "g = h\<lparr>items := butlast (items h), heap_index := map_delete k (heap_index h)\<rparr>"
      using assms(2) get False by (auto simp: heap_removeById_def Let_def)
    then show ?thesis using heap_shrink_inv [OF assms(1) ne] il i e by simp
  next
    case True
    let ?r = "refill i h"
    let ?h1 = "bubbleUp i ?r"
    let ?n = "length (items h) - 1"
    note rf = refill_facts [OF assms(1) True]
    have g: "g = sinkDown (the (map_get (heap_index ?h1) (t_id (last (items h))))) ?h1"
      using assms(2) get True i by (auto simp: heap_removeById_def Let_def refill_def)
    have ixr: "index_ok ?r" using refill_index [OF assms(1) True] .
    show ?thesis
    proof (cases "i = 0 \<or> key_at h (par i) \<le> key_at h ?n")
      case stay: True
      have "par i < i" if "i \<noteq> 0" using that par_less by simp
      then have "bubbleUp i ?r = ?r"
        using stay rf(2) [of i] rf(2) [of "par i"] True i(1)
        by (intro bubbleUp_id) (cases "i = 0", auto simp: less_at_key)
      moreover have "map_get (heap_index ?r) (t_id (last (items h))) = Some i"
        by (simp add: refill_def)
      ultimately have "g = sinkDown i ?r" using g by simp
      moreover have "heap_inv (sinkDown i ?r) \<and> heap_mset (sinkDown i ?r) = heap_mset ?r"
        using rf(1) ixr refill_order(1) [OF assms(1) True stay] True by (intro sinkDown_inv) simp_all
      ultimately show ?thesis using rf(3) e by simp
    next
      case up: False
      then have h1: "heap_inv ?h1" "heap_mset ?h1 = heap_mset ?r"
        using rf(1) ixr refill_order(2) [OF assms(1) True] True bubbleUp_inv [of i ?r] by auto
      have "last (items h) \<in> set (items ?h1)"
        using h1(2) rf(1,4) True by (metis Suc_lessE diff_Suc_1 nth_mem set_mset_mset)
      then obtain j where j: "j < length (items ?h1)" "items ?h1 ! j = last (items h)"
        by (auto simp: in_set_conv_nth)
      then have "map_get (heap_index ?h1) (t_id (last (items h))) = Some j"
        using h1(1) by (simp add: heap_inv_def index_ok_def)
      then have "g = sinkDown j ?h1" using g by simp
      moreover have "heap_inv (sinkDown j ?h1) \<and> heap_mset (sinkDown j ?h1) = heap_mset ?h1"
        using h1(1) j by (intro sinkDown_inv) (auto simp: heap_inv_def intro: ordered_down_any)
      ultimately show ?thesis using h1 rf(3) e by simp
    qed
  qed
  then show "heap_inv g" "heap_mset h = add_mset e (heap_mset g)" by auto
qed

lemma removeById_None:
  assumes "heap_inv h"
  shows "heap_removeById k h = None \<longleftrightarrow> k \<notin> t_id ` set (items h)"
proof -
  have "map_get (heap_index h) k = None \<longleftrightarrow> (\<forall>i < length (items h). t_id (items h ! i) \<noteq> k)"
    using assms unfolding heap_inv_def index_ok_def by (metis not_Some_eq)
  also have "\<dots> \<longleftrightarrow> k \<notin> t_id ` set (items h)" by (metis imageE imageI in_set_conv_nth)
  finally show ?thesis by (cases "map_get (heap_index h) k") (simp_all add: heap_removeById_def Let_def)
qed

section \<open>The contract of the heap\<close>

text \<open>
  What a client relies on: a queue of entries with distinct identifiers, of which the one with the
  least key comes out first and any one can be taken out by its identifier.
\<close>

locale keyed_queue =
  fixes mt :: "'q" and ins :: "'e \<Rightarrow> 'q \<Rightarrow> 'q" and pop :: "'q \<Rightarrow> ('e \<times> 'q) option"
    and remove :: "'i \<Rightarrow> 'q \<Rightarrow> ('e \<times> 'q) option" and peek :: "'q \<Rightarrow> 'e option"
    and contents :: "'q \<Rightarrow> 'e multiset" and ident :: "'e \<Rightarrow> 'i" and key :: "'e \<Rightarrow> 'k::linorder"
    and inv :: "'q \<Rightarrow> bool"
  assumes mt_ok: "inv mt \<and> contents mt = {#}"
    and distinct_ids: "inv q \<Longrightarrow> contents q = add_mset a (add_mset b M) \<Longrightarrow> ident a \<noteq> ident b"
    and ins_ok: "inv q \<Longrightarrow> ident e \<notin># image_mset ident (contents q) \<Longrightarrow>
      inv (ins e q) \<and> contents (ins e q) = add_mset e (contents q)"
    and extract_ok: "inv q \<Longrightarrow> pop q = Some (m, r) \<Longrightarrow>
      inv r \<and> contents q = add_mset m (contents r) \<and> (\<forall>e \<in># contents q. key m \<le> key e) \<and> peek q = Some m"
    and extract_none: "pop q = None \<longleftrightarrow> contents q = {#}"
    and remove_ok: "inv q \<Longrightarrow> remove i q = Some (e, r) \<Longrightarrow>
      inv r \<and> contents q = add_mset e (contents r) \<and> ident e = i"
    and remove_none: "inv q \<Longrightarrow> remove i q = None \<longleftrightarrow> i \<notin># image_mset ident (contents q)"
begin

lemma extract_mono:
  "inv q \<Longrightarrow> pop q = Some (m, r) \<Longrightarrow> pop r = Some (n, s) \<Longrightarrow> key m \<le> key n"
  using extract_ok [of q m r] extract_ok [of r n s] by simp

lemma remove_gone:
  assumes "inv q" "remove i q = Some (e, r)"
  shows "i \<notin># image_mset ident (contents r)" "remove i r = None"
proof -
  have r: "inv r" "contents q = add_mset e (contents r)" "ident e = i" using remove_ok [OF assms] by auto
  show "i \<notin># image_mset ident (contents r)"
  proof
    assume "i \<in># image_mset ident (contents r)"
    then obtain b where "b \<in># contents r" "ident b = i" by auto
    then obtain M where "contents q = add_mset e (add_mset b M)" using r(2) by (metis insert_DiffM)
    then show False using distinct_ids [OF assms(1)] r(3) \<open>ident b = i\<close> by auto
  qed
  then show "remove i r = None" using remove_none r(1) by simp
qed

lemma remove_exact:
  assumes "inv q" "e \<in># contents q"
  shows "\<exists>r. remove (ident e) q = Some (e, r) \<and> inv r \<and> contents q = add_mset e (contents r)"
proof -
  obtain a r where a: "remove (ident e) q = Some (a, r)"
    using remove_none [OF assms(1), of "ident e"] assms(2) by fastforce
  then have c: "inv r" "contents q = add_mset a (contents r)" "ident a = ident e"
    using remove_ok [OF assms(1)] by auto
  have "a = e"
  proof (rule ccontr)
    assume "a \<noteq> e"
    then have "e \<in># contents r" using c(2) assms(2) by auto
    then have "ident e \<in># image_mset ident (contents r)" by auto
    then show False using remove_gone(1) [OF assms(1) a] by simp
  qed
  with a c show ?thesis by auto
qed

lemma fold_ins_ok:
  "inv q \<Longrightarrow> distinct (map ident es) \<Longrightarrow> \<forall>e\<in>set es. ident e \<notin># image_mset ident (contents q) \<Longrightarrow>
     inv (fold ins es q) \<and> contents (fold ins es q) = mset es + contents q"
proof (induction es arbitrary: q)
  case (Cons e es)
  have "inv (ins e q)" "contents (ins e q) = add_mset e (contents q)" using ins_ok Cons.prems by auto
  moreover from this have "\<forall>x\<in>set es. ident x \<notin># image_mset ident (contents (ins e q))"
    using Cons.prems by (simp add: image_iff) metis
  ultimately show ?case using Cons by simp
qed simp

end

lemma heap_distinct_ids:
  "heap_inv h \<Longrightarrow> heap_mset h = add_mset a (add_mset b M) \<Longrightarrow> t_id a \<noteq> t_id b"
proof -
  assume h: "heap_inv h" and m: "heap_mset h = add_mset a (add_mset b M)"
  obtain xs where "mset xs = M" using ex_mset by blast
  with m have "mset (items h) = mset (a # b # xs)" by simp
  then have "distinct (map t_id (a # b # xs))"
    using h distinct_ids_mset unfolding heap_inv_def index_ok_def by blast
  then show ?thesis by simp
qed

interpretation timer_queue: keyed_queue new_heap heap_insert extractMin heap_removeById heap_peek
  heap_mset t_id t_fireAt heap_inv
proof unfold_locales
  show "heap_inv new_heap \<and> heap_mset new_heap = {#}" using new_heap_inv by (simp add: new_heap_def)
  show "\<And>q a b M. heap_inv q \<Longrightarrow> heap_mset q = add_mset a (add_mset b M) \<Longrightarrow> t_id a \<noteq> t_id b"
    by (rule heap_distinct_ids)
  show "\<And>q e. heap_inv q \<Longrightarrow> t_id e \<notin># image_mset t_id (heap_mset q) \<Longrightarrow>
      heap_inv (heap_insert e q) \<and> heap_mset (heap_insert e q) = add_mset e (heap_mset q)"
    using heap_insert_inv by simp
  show "\<And>q m r. heap_inv q \<Longrightarrow> extractMin q = Some (m, r) \<Longrightarrow>
      heap_inv r \<and> heap_mset q = add_mset m (heap_mset r)
      \<and> (\<forall>e \<in># heap_mset q. t_fireAt m \<le> t_fireAt e) \<and> heap_peek q = Some m"
    using extractMin_inv by (metis set_mset_mset)
  show "\<And>q. (extractMin q = None) = (heap_mset q = {#})" by (simp add: extractMin_None)
  show "\<And>q i e r. heap_inv q \<Longrightarrow> heap_removeById i q = Some (e, r) \<Longrightarrow>
      heap_inv r \<and> heap_mset q = add_mset e (heap_mset r) \<and> t_id e = i"
    using heap_removeById_inv by blast
  show "\<And>q i. heap_inv q \<Longrightarrow> (heap_removeById i q = None) = (i \<notin># image_mset t_id (heap_mset q))"
    using removeById_None by simp
qed

section \<open>Reachable heaps\<close>

inductive heap_step :: "timer_heap \<Rightarrow> timer_heap \<Rightarrow> bool" where
  insert_step: "t_id e \<notin> t_id ` set (items h) \<Longrightarrow> heap_step h (heap_insert e h)"
| extract_step: "extractMin h = Some (m, g) \<Longrightarrow> heap_step h g"
| remove_step: "heap_removeById k h = Some (e, g) \<Longrightarrow> heap_step h g"

interpretation heap_system: transition_system "\<lambda>h. h = new_heap" heap_step heap_inv
proof unfold_locales
  fix s s' assume "heap_inv s" "heap_step s s'"
  from this(2,1) show "heap_inv s'"
    by cases (use heap_insert_inv extractMin_inv(1) heap_removeById_inv(1) in blast)+
qed (simp add: new_heap_inv)

text \<open>
  C17. In every heap built by insertions of fresh identifiers, extractions and removals, the entry
  that \<open>extractMin\<close> returns is the one \<open>peek\<close> shows, has the least \<open>fireAt\<close> and leaves exactly the
  others; \<open>removeById\<close> returns exactly the entry with that identifier, or nothing when there is
  none, and leaves exactly the others.
\<close>

theorem timer_heap_refines:
  assumes "heap_step\<^sup>*\<^sup>* new_heap h"
  shows "(case extractMin h of
            None \<Rightarrow> items h = []
          | Some (m, g) \<Rightarrow> heap_peek h = Some m \<and> list_all (\<lambda>e. t_fireAt m \<le> t_fireAt e) (items h)
              \<and> heap_mset h = add_mset m (heap_mset g) \<and> heap_size g + 1 = heap_size h)
       \<and> (case heap_removeById k h of
            None \<Rightarrow> k \<notin> t_id ` set (items h)
          | Some (e, g) \<Rightarrow> t_id e = k \<and> heap_mset h = add_mset e (heap_mset g) \<and> k \<notin> t_id ` set (items g))"
proof (intro conjI)
  have inv: "heap_inv h" using assms by (simp add: heap_system.reachable_inv)
  show "case extractMin h of
            None \<Rightarrow> items h = []
          | Some (m, g) \<Rightarrow> heap_peek h = Some m \<and> list_all (\<lambda>e. t_fireAt m \<le> t_fireAt e) (items h)
              \<and> heap_mset h = add_mset m (heap_mset g) \<and> heap_size g + 1 = heap_size h"
  proof (cases "extractMin h")
    case None
    then have "items h = []" using extractMin_None by auto
    with None show ?thesis by simp
  next
    case (Some p)
    obtain m g where p: "p = (m, g)" by (cases p)
    note x = extractMin_inv [OF inv Some [unfolded p]]
    have "length (items g) + 1 = length (items h)" using arg_cong [OF x(2), of size] by simp
    with x Some p show ?thesis by (simp add: list_all_iff heap_size_def)
  qed
  show "case heap_removeById k h of
            None \<Rightarrow> k \<notin> t_id ` set (items h)
          | Some (e, g) \<Rightarrow> t_id e = k \<and> heap_mset h = add_mset e (heap_mset g) \<and> k \<notin> t_id ` set (items g)"
  proof (cases "heap_removeById k h")
    case None
    then have "k \<notin> t_id ` set (items h)" using removeById_None [OF inv] by blast
    with None show ?thesis by simp
  next
    case (Some p)
    obtain e g where p: "p = (e, g)" by (cases p)
    show ?thesis
      using heap_removeById_inv [OF inv Some [unfolded p]] timer_queue.remove_gone(1) [OF inv Some [unfolded p]]
        Some p by simp
  qed
qed

end
