(* ===== verification/Iso_Time.thy ===== *)
theory Iso_Time
  imports Prelude "HOL-Library.List_Lexorder" "HOL-Library.Char_ord"
begin

text \<open>
  The part of the language's \<open>Date\<close> that the timers use: \<open>toISOString\<close> of a time value between
  1970 and 9999, and \<open>getTime\<close> of a date built from such a text. The timers compare these texts
  with \<open><\<close>; the order of the texts is shown to be the order of the times.
\<close>

section \<open>Calendar\<close>

definition leap :: "nat \<Rightarrow> bool" where
  "leap y \<longleftrightarrow> (y mod 4 = 0 \<and> y mod 100 \<noteq> 0) \<or> y mod 400 = 0"

definition year_len :: "nat \<Rightarrow> nat" where
  "year_len y = (if leap y then 366 else 365)"

definition month_lens :: "nat \<Rightarrow> nat list" where
  "month_lens y = [31, if leap y then 29 else 28, 31, 30, 31, 30, 31, 31, 30, 31, 30, 31]"

function year_of :: "nat \<Rightarrow> nat \<Rightarrow> nat \<times> nat" where
  "year_of y d = (if d < year_len y then (y, d) else year_of (y + 1) (d - year_len y))"
  by pat_completeness auto
termination by (relation "measure snd") (auto simp: year_len_def)

declare year_of.simps [simp del]

fun month_of :: "nat list \<Rightarrow> nat \<Rightarrow> nat \<Rightarrow> nat \<times> nat" where
  "month_of [] m d = (m, d)"
| "month_of (l # ls) m d = (if d < l then (m, d) else month_of ls (m + 1) (d - l))"

fun pad :: "nat \<Rightarrow> nat \<Rightarrow> string" where
  "pad 0 n = []"
| "pad (Suc w) n = pad w (n div 10) @ [char_of (48 + n mod 10 :: nat)]"

definition ms_per_day :: nat where
  "ms_per_day = 86400000"

text \<open>\<open>new Date(t).toISOString()\<close> for a time value \<open>t\<close> in milliseconds since 1970.\<close>

definition iso_text :: "nat \<Rightarrow> nat \<Rightarrow> nat \<Rightarrow> nat \<Rightarrow> nat \<Rightarrow> nat \<Rightarrow> nat \<Rightarrow> string" where
  "iso_text y m d hh mi ss ms =
     pad 4 y @ ''-'' @ pad 2 m @ ''-'' @ pad 2 d @ ''T'' @ pad 2 hh @ '':'' @ pad 2 mi @ '':'' @ pad 2 ss
     @ ''.'' @ pad 3 ms @ ''Z''"

definition toISOString :: "nat \<Rightarrow> string" where
  "toISOString t =
     (case year_of 1970 (t div ms_per_day) of (y, r) \<Rightarrow>
        (case month_of (month_lens y) 1 r of (m, d) \<Rightarrow>
           (let ms = t mod ms_per_day
            in iso_text y m (d + 1) (ms div 3600000) (ms div 60000 mod 60) (ms div 1000 mod 60) (ms mod 1000))))"

primrec days_before :: "nat \<Rightarrow> nat" where
  "days_before 0 = 0"
| "days_before (Suc n) = days_before n + year_len (1970 + n)"

text \<open>\<open>new Date(s).getTime()\<close> for a text of the form above.\<close>

definition getTime :: "string \<Rightarrow> nat" where
  "getTime s =
     (let num = (\<lambda>i l. dec_val (take l (drop i s))); y = num 0 4; m = num 5 2; d = num 8 2
      in (days_before (y - 1970) + sum_list (take (m - 1) (month_lens y)) + (d - 1)) * ms_per_day
         + num 11 2 * 3600000 + num 14 2 * 60000 + num 17 2 * 1000 + num 20 3)"

text \<open>The first time value of the year 10000, where the text gets a sign and two more digits.\<close>

definition iso_limit :: nat where
  "iso_limit = days_before (10000 - 1970) * ms_per_day"

section \<open>Decomposition\<close>

lemma year_of_split:
  "year_of (1970 + n) d = (y, r) \<Longrightarrow>
     1970 + n \<le> y \<and> r < year_len y \<and> days_before n + d = days_before (y - 1970) + r"
proof (induction "1970 + n" d arbitrary: n rule: year_of.induct)
  case (1 d)
  show ?case
  proof (cases "d < year_len (1970 + n)")
    case True
    then show ?thesis using 1 by (auto simp: year_of.simps [of "1970 + n" d])
  next
    case False
    then have "year_of (1970 + Suc n) (d - year_len (1970 + n)) = (y, r)"
      using 1 by (simp add: year_of.simps [of "1970 + n" d])
    with "1.hyps" [OF False, of "Suc n"] False show ?thesis by auto
  qed
qed

lemma days_before_mono: "m \<le> n \<Longrightarrow> days_before m \<le> days_before n"
  by (induction rule: dec_induct) simp_all

lemma sum_month_lens: "sum_list (month_lens y) = year_len y"
  by (simp add: month_lens_def year_len_def)

lemma month_of_split:
  "month_of ls m0 d = (m, r) \<Longrightarrow> d < sum_list ls \<Longrightarrow>
     m0 \<le> m \<and> m - m0 < length ls \<and> r < ls ! (m - m0) \<and> d = sum_list (take (m - m0) ls) + r"
proof (induction ls m0 d rule: month_of.induct)
  case (2 l ls m0 d)
  show ?case
  proof (cases "d < l")
    case True
    then show ?thesis using 2 by auto
  next
    case False
    then have "m0 + 1 \<le> m \<and> m - (m0 + 1) < length ls \<and> r < ls ! (m - (m0 + 1))
        \<and> d - l = sum_list (take (m - (m0 + 1)) ls) + r" using 2 by auto
    moreover from this obtain k where "m - m0 = Suc k" "m - (m0 + 1) = k" by (metis Suc_diff_Suc Suc_eq_plus1 Suc_le_lessD)
    ultimately show ?thesis using False by auto
  qed
qed simp

lemma length_pad [simp]: "length (pad w n) = w"
  by (induction w n rule: pad.induct) simp_all

lemma dec_val_snoc: "dec_val (ds @ [c]) = 10 * dec_val ds + digit_val c"
  by (simp add: dec_val_def)

lemma dec_val_pad: "n < 10 ^ w \<Longrightarrow> dec_val (pad w n) = n"
proof (induction w n rule: pad.induct)
  case (1 n)
  then show ?case by (simp add: dec_val_def)
next
  case (2 w n)
  then have "n div 10 < 10 ^ w" by (simp add: div_less_iff_less_mult mult.commute)
  with 2 show ?case by (simp add: dec_val_snoc digit_val_char_of)
qed

lemma days_before_bounds: "365 * n \<le> days_before n \<and> days_before n \<le> 366 * n"
  by (induction n) (auto simp: year_len_def)

lemma iso_limit_bounds: "253000000000000 \<le> iso_limit" "iso_limit \<le> 254000000000000"
  using days_before_bounds [of "10000 - 1970"]
  by (simp_all add: iso_limit_def ms_per_day_def del: days_before.simps)

section \<open>Order of the texts\<close>

lemma append_less_same_length:
  fixes xs ys :: "'a::linorder list"
  assumes "length xs = length ys"
  shows "xs @ us < ys @ vs \<longleftrightarrow> xs < ys \<or> xs = ys \<and> us < vs"
  using assms by (induction xs ys rule: list_induct2) auto

lemma char_digit_less: "a < 10 \<Longrightarrow> b < 10 \<Longrightarrow> char_of (48 + a :: nat) < (char_of (48 + b :: nat) :: char) \<longleftrightarrow> a < b"
  by (simp add: less_char_def)

lemma pad_less: "m < n \<Longrightarrow> n < 10 ^ w \<Longrightarrow> pad w m < pad w n"
proof (induction w arbitrary: m n)
  case (Suc w)
  have le: "m div 10 \<le> n div 10" using Suc.prems by (simp add: div_le_mono)
  show ?case
  proof (cases "m div 10 = n div 10")
    case True
    then have "m mod 10 < n mod 10" using Suc.prems by (metis div_mult_mod_eq nat_add_left_cancel_less)
    then show ?thesis using True by (simp add: append_less_same_length char_digit_less)
  next
    case False
    then have "pad w (m div 10) < pad w (n div 10)"
      using le Suc.prems by (intro Suc.IH) (auto simp: div_less_iff_less_mult mult.commute)
    then show ?thesis by (simp add: append_less_same_length)
  qed
qed simp

lemma pad_text_less:
  "pad w a @ c # us < pad w b @ c # vs \<longleftrightarrow> pad w a < pad w b \<or> pad w a = pad w b \<and> us < vs"
  by (simp add: append_less_same_length)

lemma mixed_radix_less:
  fixes f :: "nat \<Rightarrow> nat"
  assumes "f a + r < f b + s" "r < f (Suc a) - f a" "s < f (Suc b) - f b" "\<And>i j. i \<le> j \<Longrightarrow> f i \<le> f j"
  shows "a < b \<or> a = b \<and> r < s"
proof (rule ccontr)
  assume "\<not> ?thesis"
  then consider "b < a" | "a = b" "s \<le> r" by force
  then show False
  proof cases
    case 1
    then have "f (Suc b) \<le> f a" using assms(4) by simp
    with assms(1,3) show False by simp
  qed (use assms(1) in simp)
qed

lemma year_split:
  assumes "year_of 1970 d = (y, r)"
  shows "1970 \<le> y" "r < year_len y" "d = days_before (y - 1970) + r"
  using year_of_split [of 0 d y r] assms by simp_all

lemma year_less:
  assumes "year_of 1970 d = (y, r)" "year_of 1970 d' = (y', r')" "d < d'"
  shows "y < y' \<or> y = y' \<and> r < r'"
proof -
  note a = year_split [OF assms(1)] and b = year_split [OF assms(2)]
  have "y - 1970 < y' - 1970 \<or> y - 1970 = y' - 1970 \<and> r < r'"
    using a b assms(3) by (intro mixed_radix_less [where f = days_before] days_before_mono) simp_all
  then show ?thesis using a(1) b(1) by linarith
qed

lemma month_split:
  assumes "month_of (month_lens y) 1 r = (m, d)" "r < year_len y"
  shows "1 \<le> m" "m \<le> 12" "d < month_lens y ! (m - 1)" "r = sum_list (take (m - 1) (month_lens y)) + d"
  using month_of_split [OF assms(1)] assms(2) by (auto simp: sum_month_lens month_lens_def [of y, THEN arg_cong, of length])

lemma month_len_le: "i < 12 \<Longrightarrow> month_lens y ! i \<le> 31"
proof -
  assume "i < 12"
  moreover have "\<forall>l \<in> set (month_lens y). l \<le> 31" by (simp add: month_lens_def)
  moreover have "length (month_lens y) = 12" by (simp add: month_lens_def)
  ultimately show ?thesis by (metis nth_mem)
qed

lemma month_less:
  assumes "month_of (month_lens y) 1 r = (m, d)" "month_of (month_lens y) 1 r' = (m', d')"
    "r < r'" "r' < year_len y"
  shows "m < m' \<or> m = m' \<and> d < d'"
proof -
  let ?f = "\<lambda>i. sum_list (take i (month_lens y))"
  have l: "length (month_lens y) = 12" by (simp add: month_lens_def)
  have step: "?f (Suc i) = ?f i + month_lens y ! i" if "i < 12" for i
    using that l by (simp add: take_Suc_conv_app_nth)
  have mono: "?f i \<le> ?f j" if "i \<le> j" for i j
  proof -
    have "take j (month_lens y) = take i (month_lens y) @ take (j - i) (drop i (month_lens y))"
      using that by (metis le_add_diff_inverse take_add)
    then show ?thesis by simp
  qed
  note a = month_split [OF assms(1) less_trans [OF assms(3,4)]] and b = month_split [OF assms(2,4)]
  have "m - 1 < m' - 1 \<or> m - 1 = m' - 1 \<and> d < d'"
  proof (rule mixed_radix_less [where f = ?f])
    show "?f (m - 1) + d < ?f (m' - 1) + d'" using a b assms(3) by simp
    show "d < ?f (Suc (m - 1)) - ?f (m - 1)" using a step [of "m - 1"] by simp
    show "d' < ?f (Suc (m' - 1)) - ?f (m' - 1)" using b step [of "m' - 1"] by simp
  qed (rule mono)
  then show ?thesis using a(1) b(1) by linarith
qed

lemma div_mod_less: "(a::nat) < b \<Longrightarrow> a div k < b div k \<or> a div k = b div k \<and> a mod k < b mod k"
  by (metis div_le_mono div_mult_mod_eq le_neq_implies_less less_imp_le nat_add_left_cancel_less)

lemma clock_div: "(a::nat) div 3600000 = a div 1000 div 60 div 60" "(a::nat) div 60000 = a div 1000 div 60"
  by (simp_all add: div_mult2_eq [symmetric])

lemma clock_less:
  fixes a b :: nat
  assumes "a < b"
  shows "a div 3600000 < b div 3600000 \<or> a div 3600000 = b div 3600000 \<and>
    (a div 60000 mod 60 < b div 60000 mod 60 \<or> a div 60000 mod 60 = b div 60000 mod 60 \<and>
      (a div 1000 mod 60 < b div 1000 mod 60 \<or> a div 1000 mod 60 = b div 1000 mod 60 \<and>
        a mod 1000 < b mod 1000))"
  unfolding clock_div
  using div_mod_less [OF assms, of 1000] div_mod_less [of "a div 1000" "b div 1000" 60]
    div_mod_less [of "a div 1000 div 60" "b div 1000 div 60" 60] by metis

lemma clock_sum:
  fixes x :: nat
  shows "x div 3600000 * 3600000 + x div 60000 mod 60 * 60000 + x div 1000 mod 60 * 1000 + x mod 1000 = x"
proof -
  have "x div 1000 div 60 div 60 * 60 + x div 1000 div 60 mod 60 = x div 1000 div 60"
    "x div 1000 div 60 * 60 + x div 1000 mod 60 = x div 1000" "x div 1000 * 1000 + x mod 1000 = x"
    by (simp_all only: div_mult_mod_eq)
  then show ?thesis unfolding clock_div by linarith
qed

lemma year_bound: "t < iso_limit \<Longrightarrow> year_of 1970 (t div ms_per_day) = (y, r) \<Longrightarrow> y < 10000"
proof (rule ccontr)
  assume t: "t < iso_limit" and y: "year_of 1970 (t div ms_per_day) = (y, r)" and "\<not> y < 10000"
  then have "days_before (10000 - 1970) \<le> days_before (y - 1970)" by (intro days_before_mono) simp
  also have "\<dots> \<le> t div ms_per_day" using year_split(3) [OF y] by simp
  finally have "days_before (10000 - 1970) * ms_per_day \<le> t div ms_per_day * ms_per_day" by (rule mult_right_mono) simp
  also have "\<dots> \<le> t" by simp
  finally show False using t by (simp add: iso_limit_def del: days_before.simps)
qed

lemma iso_parts:
  assumes "t < iso_limit"
  obtains y r m d where "year_of 1970 (t div ms_per_day) = (y, r)" "month_of (month_lens y) 1 r = (m, d)"
    "y < 10000" "1970 \<le> y" "r < year_len y" "1 \<le> m" "m \<le> 12" "d < 31"
    "t div ms_per_day = days_before (y - 1970) + r" "r = sum_list (take (m - 1) (month_lens y)) + d"
proof -
  obtain y r where y: "year_of 1970 (t div ms_per_day) = (y, r)" by fastforce
  obtain m d where m: "month_of (month_lens y) 1 r = (m, d)" by fastforce
  note ys = year_split [OF y] and ms = month_split [OF m year_split(2) [OF y]]
  have "month_lens y ! (m - 1) \<le> 31" using ms(1,2) by (intro month_len_le) simp
  with ms(3) have "d < 31" by simp
  with that [OF y m year_bound [OF assms y] ys(1,2) ms(1,2) _ ys(3) ms(4)] show thesis by simp
qed

lemma iso_text_less:
  assumes "y' < 10000" "m' < 100" "d' < 100" "hh' < 100" "mi' < 100" "ss' < 100" "ms' < 1000"
    and "y < y' \<or> y = y' \<and> (m < m' \<or> m = m' \<and> (d < d' \<or> d = d' \<and> (hh < hh' \<or> hh = hh' \<and>
           (mi < mi' \<or> mi = mi' \<and> (ss < ss' \<or> ss = ss' \<and> ms < ms')))))"
  shows "iso_text y m d hh mi ss ms < iso_text y' m' d' hh' mi' ss' ms'"
proof -
  have p4: "pad 4 u < pad 4 v" if "u < v" "v < 10000" for u v using that by (intro pad_less) simp_all
  have p2: "pad 2 u < pad 2 v" if "u < v" "v < 100" for u v using that by (intro pad_less) simp_all
  have p3: "pad 3 u < pad 3 v" if "u < v" "v < 1000" for u v using that by (intro pad_less) simp_all
  show ?thesis
    unfolding iso_text_def append_Cons append_Nil pad_text_less
    using assms(8) p4 [OF _ assms(1)] p2 [OF _ assms(2)] p2 [OF _ assms(3)] p2 [OF _ assms(4)]
      p2 [OF _ assms(5)] p2 [OF _ assms(6)] p3 [OF _ assms(7)] by blast
qed

lemma iso_text_getTime:
  assumes "y < 10000" "m < 100" "d < 100" "hh < 100" "mi < 100" "ss < 100" "ms < 1000"
  shows "getTime (iso_text y m d hh mi ss ms) =
    (days_before (y - 1970) + sum_list (take (m - 1) (month_lens y)) + (d - 1)) * ms_per_day
    + hh * 3600000 + mi * 60000 + ss * 1000 + ms"
proof -
  have "dec_val (pad 4 y) = y" using assms by (intro dec_val_pad) simp
  moreover have "dec_val (pad 2 n) = n" if "n < 100" for n using that by (intro dec_val_pad) simp
  moreover have "dec_val (pad 3 ms) = ms" using assms by (intro dec_val_pad) simp
  ultimately show ?thesis using assms by (simp add: getTime_def iso_text_def Let_def del: pad.simps)
qed

lemma sixty_less: "n mod 60 < (100::nat)"
  using mod_less_divisor [of 60 n] by linarith

lemma toISOString_less_imp:
  assumes "t < t'" "t' < iso_limit"
  shows "toISOString t < toISOString t'"
proof -
  obtain y r m d where a: "year_of 1970 (t div ms_per_day) = (y, r)" "month_of (month_lens y) 1 r = (m, d)"
    using iso_parts [of t] assms by (metis less_trans)
  obtain y' r' m' d' where b: "year_of 1970 (t' div ms_per_day) = (y', r')"
    "month_of (month_lens y') 1 r' = (m', d')" "y' < 10000" "r' < year_len y'" "m' \<le> 12" "d' < 31"
    using iso_parts [of t'] assms by metis
  let ?x = "t mod ms_per_day" and ?z = "t' mod ms_per_day"
  have z: "?z < 86400000" by (simp add: ms_per_day_def)
  have day: "t div ms_per_day < t' div ms_per_day \<or> t div ms_per_day = t' div ms_per_day \<and> ?x < ?z"
    using assms(1) by (rule div_mod_less)
  have bounds: "?z div 3600000 < 100" "?z mod 1000 < 1000" using z by simp_all
  have iso: "toISOString t = iso_text y m (d + 1) (?x div 3600000) (?x div 60000 mod 60) (?x div 1000 mod 60) (?x mod 1000)"
    "toISOString t' = iso_text y' m' (d' + 1) (?z div 3600000) (?z div 60000 mod 60) (?z div 1000 mod 60) (?z mod 1000)"
    by (simp_all only: toISOString_def a b Let_def prod.case)
  have date: "y < y' \<or> y = y' \<and> (m < m' \<or> m = m' \<and> d < d')" if "t div ms_per_day < t' div ms_per_day"
    using year_less [OF a(1) b(1) that] month_less [of y' r m d r' m' d'] a b by blast
  have same: "y' = y" "m' = m" "d' = d" if "t div ms_per_day = t' div ms_per_day"
    using that a b by simp_all
  show ?thesis
    unfolding iso
  proof (rule iso_text_less)
    show "y < y' \<or> y = y' \<and> (m < m' \<or> m = m' \<and> (d + 1 < d' + 1 \<or> d + 1 = d' + 1 \<and>
       (?x div 3600000 < ?z div 3600000 \<or> ?x div 3600000 = ?z div 3600000 \<and>
        (?x div 60000 mod 60 < ?z div 60000 mod 60 \<or> ?x div 60000 mod 60 = ?z div 60000 mod 60 \<and>
         (?x div 1000 mod 60 < ?z div 1000 mod 60 \<or> ?x div 1000 mod 60 = ?z div 1000 mod 60 \<and>
          ?x mod 1000 < ?z mod 1000)))))"
      using day date same clock_less [of ?x ?z] by (metis add_less_cancel_right)
  qed (use b bounds sixty_less in simp_all)
qed

lemma toISOString_less: "s < iso_limit \<Longrightarrow> t < iso_limit \<Longrightarrow> toISOString s < toISOString t \<longleftrightarrow> s < t"
  using toISOString_less_imp [of s t] toISOString_less_imp [of t s] by (metis linorder_neqE_nat order_less_asym')

lemma toISOString_le: "s < iso_limit \<Longrightarrow> t < iso_limit \<Longrightarrow> toISOString s \<le> toISOString t \<longleftrightarrow> s \<le> t"
  using toISOString_less [of t s] by (simp add: not_less [symmetric])

lemma getTime_toISOString: "t < iso_limit \<Longrightarrow> getTime (toISOString t) = t"
proof -
  assume "t < iso_limit"
  then obtain y r m d where a: "year_of 1970 (t div ms_per_day) = (y, r)" "month_of (month_lens y) 1 r = (m, d)"
    and c: "y < 10000" "m \<le> 12" "d < 31" and e: "t div ms_per_day = days_before (y - 1970) + r"
      "r = sum_list (take (m - 1) (month_lens y)) + d" by (rule iso_parts)
  let ?x = "t mod ms_per_day"
  have x: "?x < 86400000" by (simp add: ms_per_day_def)
  have "?x div 3600000 < 100" "?x mod 1000 < 1000" using x by simp_all
  then have "getTime (toISOString t) = (days_before (y - 1970) + sum_list (take (m - 1) (month_lens y)) + d) * ms_per_day
      + ?x div 3600000 * 3600000 + ?x div 60000 mod 60 * 60000 + ?x div 1000 mod 60 * 1000 + ?x mod 1000"
    using c sixty_less iso_text_getTime [of y m "d + 1"]
    by (simp only: toISOString_def a Let_def prod.case) simp
  also have "\<dots> = t div ms_per_day * ms_per_day + ?x" using e clock_sum [of ?x] by (simp only: add.assoc)
  finally show ?thesis by simp
qed

end
