(* ===== verification/Timer_Scheduler.thy ===== *)
theory Timer_Scheduler
  imports Timer_Heap Iso_Time
begin

text \<open>
  The scheduler of deferred timers, from \<open>daemon/src/timers/timer-scheduler.ts\<close>. Its state is the
  \<open>timers\<close> table, the heap of active timers, the buffers of timers that wait for the end of their
  turn, and the one \<open>setTimeout\<close> handle. \<open>tick\<close> and \<open>restore\<close> await the delivery of a timer in the
  middle of their loop; the suspended loops are part of the state, so that every other operation
  can come between two of their iterations.
\<close>

section \<open>State\<close>

record scheduler =
  sc_heap :: timer_heap
  sc_timeout :: "nat option"
  sc_db :: bool
  sc_pending :: "(string, timer_entry list) jsmap"
  sc_rows :: "(timer_entry \<times> bool) list"
  sc_now :: nat
  sc_ticks :: "string list"
  sc_restoring :: "(string \<times> timer_entry list) option"
  sc_delivered :: "(timer_entry \<times> nat) list"

text \<open>
  A new scheduler over a table whose rows carry their \<open>fired\<close> flag. \<open>sc_now\<close> is the clock,
  \<open>sc_delivered\<close> the log of the deliveries that were begun and when, \<open>sc_ticks\<close> the values of
  \<open>now\<close> in the suspended calls of \<open>tick\<close>, \<open>sc_restoring\<close> that of a suspended \<open>restore\<close> with the
  rows it has still to handle.
\<close>

definition new_scheduler :: "(timer_entry \<times> bool) list \<Rightarrow> nat \<Rightarrow> scheduler" where
  "new_scheduler rows t = \<lparr> sc_heap = new_heap, sc_timeout = None, sc_db = False, sc_pending = [],
     sc_rows = rows, sc_now = t, sc_ticks = [], sc_restoring = None, sc_delivered = [] \<rparr>"

definition mark_fired :: "string \<Rightarrow> (timer_entry \<times> bool) list \<Rightarrow> (timer_entry \<times> bool) list" where
  "mark_fired k rows = map (\<lambda>(e, f). (e, f \<or> t_id e = k)) rows"

section \<open>Operations\<close>

text \<open>Node runs a timeout whose delay is not between 1 and \<open>2 ^ 31 - 1\<close> after 1 ms.\<close>

definition node_delay :: "nat \<Rightarrow> nat" where
  "node_delay d = (if 1 \<le> d \<and> d \<le> 2147483647 then d else 1)"

definition reschedule :: "scheduler \<Rightarrow> scheduler" where
  "reschedule s =
     (case heap_peek (sc_heap s) of
        None \<Rightarrow> s\<lparr>sc_timeout := None\<rparr>
      | Some head \<Rightarrow> s\<lparr>sc_timeout := Some (sc_now s + node_delay (getTime (t_fireAt head) - sc_now s))\<rparr>)"

text \<open>A second row with the same primary key makes the insertion throw.\<close>

definition schedule :: "timer_entry \<Rightarrow> scheduler \<Rightarrow> scheduler option" where
  "schedule timer s =
     (if t_id timer \<in> set (map (t_id \<circ> fst) (sc_rows s)) then None
      else Some (s\<lparr>sc_db := True, sc_rows := sc_rows s @ [(timer, False)],
             sc_pending := map_set (t_sessionId timer)
               (nullish (map_get (sc_pending s) (t_sessionId timer)) [] @ [timer]) (sc_pending s)\<rparr>))"

definition flushSession :: "string \<Rightarrow> scheduler \<Rightarrow> scheduler" where
  "flushSession sessionId s =
     (let pending = nullish (map_get (sc_pending s) sessionId) []
      in if pending = [] then s
         else reschedule (s\<lparr>sc_heap := fold heap_insert pending (sc_heap s),
                sc_pending := map_delete sessionId (sc_pending s)\<rparr>))"

text \<open>The loop of \<open>cancel\<close> over the buffers: the first one that holds the timer loses it.\<close>

fun splice_id :: "string \<Rightarrow> timer_entry list \<Rightarrow> timer_entry list" where
  "splice_id k [] = []"
| "splice_id k (e # es) = (if t_id e = k then es else e # splice_id k es)"

fun cancel_pending :: "string \<Rightarrow> (string, timer_entry list) jsmap \<Rightarrow> (string, timer_entry list) jsmap option" where
  "cancel_pending k [] = None"
| "cancel_pending k ((sid, timers) # p) =
     (if \<exists>t\<in>set timers. t_id t = k then Some ((sid, splice_id k timers) # p)
      else map_option (\<lambda>q. (sid, timers) # q) (cancel_pending k p))"

definition unfired :: "string \<Rightarrow> scheduler \<Rightarrow> bool" where
  "unfired k s \<longleftrightarrow> (\<exists>r\<in>set (sc_rows s). t_id (fst r) = k \<and> \<not> snd r)"

definition cancel :: "string \<Rightarrow> scheduler \<Rightarrow> bool \<times> scheduler" where
  "cancel k s0 =
     (let s = s0\<lparr>sc_db := True\<rparr>; rows = mark_fired k (sc_rows s)
      in case heap_removeById k (sc_heap s) of
           Some (e, h) \<Rightarrow> (True, reschedule (s\<lparr>sc_heap := h, sc_rows := rows\<rparr>))
         | None \<Rightarrow>
             (case cancel_pending k (sc_pending s) of
                Some p \<Rightarrow> (True, s\<lparr>sc_pending := p, sc_rows := rows\<rparr>)
              | None \<Rightarrow> if unfired k s then (True, s\<lparr>sc_rows := rows\<rparr>) else (False, s)))"

fun cancel_all :: "string list \<Rightarrow> scheduler \<Rightarrow> nat \<times> scheduler" where
  "cancel_all [] s = (0, s)"
| "cancel_all (k # ks) s =
     (case cancel k s of (b, s1) \<Rightarrow> (case cancel_all ks s1 of (n, s2) \<Rightarrow> (if b then n + 1 else n, s2)))"

definition cancelByAnchorSession :: "string \<Rightarrow> scheduler \<Rightarrow> nat \<times> scheduler" where
  "cancelByAnchorSession sessionId s =
     (if \<not> sc_db s then (0, s)
      else cancel_all (map (t_id \<circ> fst)
             (filter (\<lambda>r. t_sessionAnchor (fst r) = Some sessionId \<and> \<not> snd r) (sc_rows s))) s)"

definition listForSession :: "string \<Rightarrow> scheduler \<Rightarrow> timer_entry list" where
  "listForSession sessionId s =
     sort_key t_fireAt (map fst (filter (\<lambda>r. t_sessionId (fst r) = sessionId \<and> \<not> snd r) (sc_rows s)))"

definition countForSession :: "string \<Rightarrow> scheduler \<Rightarrow> nat" where
  "countForSession sessionId s = length (filter (\<lambda>r. t_sessionId (fst r) = sessionId \<and> \<not> snd r) (sc_rows s))"

definition shutdown :: "scheduler \<Rightarrow> scheduler" where
  "shutdown s = s\<lparr>sc_timeout := None\<rparr>"

text \<open>
  \<open>fireTimer\<close> up to its \<open>await\<close>: the row is marked before the delivery begins. What comes after
  the delivery, and a failure of it, is logged only.
\<close>

definition fireTimer :: "timer_entry \<Rightarrow> scheduler \<Rightarrow> scheduler" where
  "fireTimer e s = s\<lparr>sc_rows := mark_fired (t_id e) (sc_rows s), sc_delivered := sc_delivered s @ [(e, sc_now s)]\<rparr>"

text \<open>
  The loop of \<open>tick\<close> up to its next \<open>await\<close> or its end. The head it peeks at is the entry that
  \<open>extractMin\<close> returns.
\<close>

definition tick_loop :: "string \<Rightarrow> scheduler \<Rightarrow> scheduler" where
  "tick_loop now s =
     (case extractMin (sc_heap s) of
        None \<Rightarrow> reschedule s
      | Some (head, h) \<Rightarrow>
          if now < t_fireAt head then reschedule s
          else fireTimer head (s\<lparr>sc_heap := h, sc_ticks := sc_ticks s @ [now]\<rparr>))"

definition timer_tick :: "scheduler \<Rightarrow> scheduler" where
  "timer_tick s0 = (let s = s0\<lparr>sc_timeout := None\<rparr>
              in if \<not> sc_db s then s else tick_loop (toISOString (sc_now s)) s)"

fun restore_loop :: "string \<Rightarrow> timer_entry list \<Rightarrow> scheduler \<Rightarrow> scheduler" where
  "restore_loop now [] s = reschedule (s\<lparr>sc_restoring := None\<rparr>)"
| "restore_loop now (r # rs) s =
     (if t_fireAt r \<le> now then fireTimer r (s\<lparr>sc_restoring := Some (now, rs)\<rparr>)
      else restore_loop now rs (s\<lparr>sc_heap := heap_insert r (sc_heap s)\<rparr>))"

definition restore_timers :: "scheduler \<Rightarrow> scheduler" where
  "restore_timers s0 =
     (let s = s0\<lparr>sc_db := True\<rparr>
      in restore_loop (toISOString (sc_now s))
           (sort_key t_fireAt (map fst (filter (\<lambda>r. \<not> snd r) (sc_rows s)))) s)"

section \<open>Events\<close>

datatype sched_ev =
    Schedule timer_entry
  | FlushSession string
  | Cancel string
  | CancelAnchor string
  | TimeoutFires
  | ResumeTick nat
  | ResumeRestore
  | Advance nat
  | Shutdown

text \<open>
  One event: a call from outside, the timeout whose time has come, the end of the delivery a
  suspended loop waits for, or the passing of time. An event that cannot occur changes nothing.
\<close>

definition sched_event :: "sched_ev \<Rightarrow> scheduler \<Rightarrow> scheduler" where
  "sched_event ev s =
     (case ev of
        Schedule e \<Rightarrow> nullish (schedule e s) s
      | FlushSession k \<Rightarrow> flushSession k s
      | Cancel k \<Rightarrow> snd (cancel k s)
      | CancelAnchor k \<Rightarrow> snd (cancelByAnchorSession k s)
      | TimeoutFires \<Rightarrow> (case sc_timeout s of None \<Rightarrow> s | Some due \<Rightarrow> if due \<le> sc_now s then timer_tick s else s)
      | ResumeTick i \<Rightarrow>
          if i < length (sc_ticks s)
          then tick_loop (sc_ticks s ! i) (s\<lparr>sc_ticks := take i (sc_ticks s) @ drop (Suc i) (sc_ticks s)\<rparr>)
          else s
      | ResumeRestore \<Rightarrow>
          (case sc_restoring s of None \<Rightarrow> s | Some (now, rs) \<Rightarrow> restore_loop now rs s)
      | Advance n \<Rightarrow> if sc_now s + n < iso_limit then s\<lparr>sc_now := sc_now s + n\<rparr> else s
      | Shutdown \<Rightarrow> shutdown s)"

definition sched_run :: "(timer_entry \<times> bool) list \<Rightarrow> nat \<Rightarrow> sched_ev list \<Rightarrow> scheduler" where
  "sched_run rows t evs = fold sched_event evs (restore_timers (new_scheduler rows t))"

section \<open>The buffers of pending timers\<close>

abbreviation pend_mset :: "(string, timer_entry list) jsmap \<Rightarrow> timer_entry multiset" where
  "pend_mset p \<equiv> mset (concat (map snd p))"

lemma pend_set:
  "pend_mset (map_set k v p) + mset (nullish (map_get p k) []) = pend_mset p + mset v"
  by (induction p) (auto simp: map_set_def map_get_def)

lemma pend_delete:
  "map_ok p \<Longrightarrow> pend_mset (map_delete k p) + mset (nullish (map_get p k) []) = pend_mset p"
proof (induction p)
  case (Cons x p)
  have "map_delete k p = p" "map_get p k = None" if "fst x = k"
    using Cons.prems that by (auto simp: map_delete_def map_get_def delete_id map_of_eq_None_iff)
  with Cons show ?case by (cases x) (auto simp: map_delete_def map_get_def)
qed (simp add: map_delete_def map_get_def)

lemma splice_id_mset:
  "t \<in> set ts \<Longrightarrow> t_id t = k \<Longrightarrow> \<exists>e. t_id e = k \<and> mset ts = add_mset e (mset (splice_id k ts))"
  by (induction ts) (auto split: if_splits)

lemma cancel_pending_Some:
  "cancel_pending k p = Some q \<Longrightarrow>
     map fst q = map fst p \<and> (\<exists>e. t_id e = k \<and> pend_mset p = add_mset e (pend_mset q))"
proof (induction k p arbitrary: q rule: cancel_pending.induct)
  case (2 k sid timers p)
  show ?case
  proof (cases "\<exists>t\<in>set timers. t_id t = k")
    case True
    then obtain e where "t_id e = k" "mset timers = add_mset e (mset (splice_id k timers))"
      using splice_id_mset by blast
    with True 2 show ?thesis by auto
  next
    case False
    with 2 obtain r where "cancel_pending k p = Some r" "q = (sid, timers) # r" by auto
    with "2.IH" [OF False this(1)] show ?thesis by auto
  qed
qed simp

lemma cancel_pending_None: "cancel_pending k p = None \<longleftrightarrow> (\<forall>e \<in># pend_mset p. t_id e \<noteq> k)"
  by (induction k p rule: cancel_pending.induct) auto

section \<open>The invariant\<close>

definition live :: "scheduler \<Rightarrow> timer_entry multiset" where
  "live s = heap_mset (sc_heap s) + pend_mset (sc_pending s)
     + (case sc_restoring s of None \<Rightarrow> {#} | Some (k, rs) \<Rightarrow> mset rs)"

text \<open>
  The books: the rows are keyed by identifier, each live timer has its row and is live once, a
  timer that was delivered was due, is marked in the table and is not live any more, and every
  row that is not marked is live.
\<close>

definition books :: "(timer_entry \<times> bool) list \<Rightarrow> timer_entry multiset \<Rightarrow> (timer_entry \<times> nat) list \<Rightarrow> nat \<Rightarrow> bool" where
  "books R L D t \<longleftrightarrow> distinct (map (t_id \<circ> fst) R) \<and> (\<forall>e. Multiset.count L e \<le> 1)
     \<and> (\<forall>e\<in>#L. \<exists>f. (e, f) \<in> set R) \<and> distinct (map (t_id \<circ> fst) D)
     \<and> (\<forall>d\<in>set D. (fst d, True) \<in> set R \<and> fst d \<notin># L \<and> t_fireAt (fst d) \<le> toISOString (snd d) \<and> snd d \<le> t)
     \<and> (\<forall>e. (e, False) \<in> set R \<longrightarrow> e \<in># L)"

definition sched_inv :: "scheduler \<Rightarrow> bool" where
  "sched_inv s \<longleftrightarrow> heap_inv (sc_heap s) \<and> map_ok (sc_pending s) \<and> sc_db s \<and> sc_now s < iso_limit
     \<and> books (sc_rows s) (live s) (sc_delivered s) (sc_now s)
     \<and> (\<forall>k\<in>set (sc_ticks s). k \<le> toISOString (sc_now s))
     \<and> (\<forall>k rs. sc_restoring s = Some (k, rs) \<longrightarrow> k \<le> toISOString (sc_now s))"

lemma row_unique:
  "distinct (map (t_id \<circ> fst) R) \<Longrightarrow> (e, f) \<in> set R \<Longrightarrow> (e', f') \<in> set R \<Longrightarrow> t_id e = t_id e' \<Longrightarrow> e = e' \<and> f = f'"
  using inj_onD [of "t_id \<circ> fst" "set R" "(e, f)" "(e', f')"] by (simp add: distinct_map)

lemma booksD:
  assumes "books R L D t"
  shows "distinct (map (t_id \<circ> fst) R)" "Multiset.count L e \<le> 1" "e \<in># L \<Longrightarrow> \<exists>f. (e, f) \<in> set R"
    "d \<in> set D \<Longrightarrow> (fst d, True) \<in> set R" "d \<in> set D \<Longrightarrow> fst d \<notin># L"
    "d \<in> set D \<Longrightarrow> t_fireAt (fst d) \<le> toISOString (snd d) \<and> snd d \<le> t"
    "(e, False) \<in> set R \<Longrightarrow> e \<in># L" "distinct (map (t_id \<circ> fst) D)"
  using assms unfolding books_def by blast+

lemma books_ids:
  assumes "books R L D t" "a \<in># L" "b \<in># L" "t_id a = t_id b"
  shows "a = b"
proof -
  obtain f g where "(a, f) \<in> set R" "(b, g) \<in> set R" using assms(1-3) by (meson booksD(3))
  then show ?thesis using row_unique [OF booksD(1) [OF assms(1)] _ _ assms(4)] by blast
qed

lemma books_distinct:
  assumes "books R (mset xs + M) D t"
  shows "distinct (map t_id xs)" "e \<in> set xs \<Longrightarrow> t_id e \<notin># image_mset t_id M"
proof -
  have c: "\<And>e. Multiset.count (mset xs) e \<le> 1" using assms unfolding books_def by (metis add_leE count_union)
  have "distinct xs" by (metis c distinct_count_atmost_1 le_neq_implies_less less_one not_in_iff set_mset_mset)
  moreover have "inj_on t_id (set xs)" by (rule inj_onI) (use books_ids [OF assms] in auto)
  ultimately show "distinct (map t_id xs)" by (simp add: distinct_map)
  assume e: "e \<in> set xs"
  show "t_id e \<notin># image_mset t_id M"
  proof
    assume "t_id e \<in># image_mset t_id M"
    then obtain b where "b \<in># M" "t_id e = t_id b" by auto
    then have "e \<in># M" using books_ids [OF assms, of e b] e by auto
    then have "1 \<le> Multiset.count (mset xs) e" "1 \<le> Multiset.count M e" using e by (simp_all add: Suc_le_eq)
    moreover have "Multiset.count (mset xs + M) e \<le> 1" using assms unfolding books_def by blast
    ultimately show False unfolding count_union by linarith
  qed
qed

lemma mark_ids [simp]: "map (t_id \<circ> fst) (mark_fired k R) = map (t_id \<circ> fst) R"
  by (simp add: mark_fired_def split_def comp_def)

lemma mark_in: "(e, f) \<in> set (mark_fired k R) \<longleftrightarrow> (\<exists>g. (e, g) \<in> set R \<and> f = (g \<or> t_id e = k))"
  by (auto simp: mark_fired_def image_iff split: prod.splits) (metis+)?

lemma books_add:
  "books R L D t \<Longrightarrow> t_id e \<notin> set (map (t_id \<circ> fst) R) \<Longrightarrow> books (R @ [(e, False)]) (add_mset e L) D t"
  unfolding books_def by (auto simp: image_iff count_eq_zero_iff) force+

lemma books_time: "books R L D t \<Longrightarrow> t \<le> t' \<Longrightarrow> books R L D t'"
  unfolding books_def by (meson le_trans)

text \<open>A timer is cancelled: its row is marked, and it is live no more, or is still to be restored.\<close>

lemma books_mark:
  assumes "books R L D t"
  shows "books (mark_fired k R) L D t"
  unfolding books_def mark_ids
proof (intro conjI)
  show "\<forall>d\<in>set D. (fst d, True) \<in> set (mark_fired k R) \<and> fst d \<notin># L \<and> t_fireAt (fst d) \<le> toISOString (snd d) \<and> snd d \<le> t"
    using assms unfolding books_def mark_in by blast
qed (use assms in \<open>auto simp: books_def mark_in\<close>)

lemma books_drop:
  assumes "books R (add_mset e L) D t" "t_id e = k"
  shows "books (mark_fired k R) L D t"
proof -
  have b: "books (mark_fired k R) (add_mset e L) D t" by (rule books_mark [OF assms(1)])
  have "a \<in># L" if "(a, False) \<in> set (mark_fired k R)" for a
  proof -
    have "a \<in># add_mset e L" using b that unfolding books_def by blast
    moreover have "a \<noteq> e" using that assms(2) by (auto simp: mark_in)
    ultimately show ?thesis by simp
  qed
  moreover have "Multiset.count L a \<le> 1" for a
  proof -
    have "Multiset.count L a \<le> Multiset.count (add_mset e L) a" by simp
    also have "\<dots> \<le> 1" using b unfolding books_def by blast
    finally show ?thesis .
  qed
  ultimately show ?thesis using b unfolding books_def by (simp only: set_mset_add_mset_insert) blast
qed

lemma books_fire:
  assumes "books R (add_mset e L) D t" "t_fireAt e \<le> toISOString t"
  shows "books (mark_fired (t_id e) R) L (D @ [(e, t)]) t"
proof -
  have b: "books (mark_fired (t_id e) R) L D t" by (rule books_drop [OF assms(1) refl])
  have "Multiset.count (add_mset e L) e \<le> 1" using assms(1) unfolding books_def by blast
  then have eL: "e \<notin># L" by (simp add: not_in_iff)
  have row: "(e, True) \<in> set (mark_fired (t_id e) R)"
    using assms(1) unfolding books_def mark_in by auto
  have "t_id e \<notin> set (map (t_id \<circ> fst) D)"
  proof
    assume "t_id e \<in> set (map (t_id \<circ> fst) D)"
    then obtain d where d: "d \<in> set D" "t_id (fst d) = t_id e" by auto
    obtain f where "(e, f) \<in> set R" using booksD(3) [OF assms(1), of e] by auto
    then have "fst d = e" using row_unique [OF booksD(1,4) [OF assms(1)] _ d(2)] d(1) by blast
    then show False using booksD(5) [OF assms(1) d(1)] by simp
  qed
  then have "distinct (map (t_id \<circ> fst) (D @ [(e, t)]))" using b unfolding books_def by simp
  moreover have "\<forall>d\<in>set (D @ [(e, t)]). (fst d, True) \<in> set (mark_fired (t_id e) R) \<and> fst d \<notin># L
      \<and> t_fireAt (fst d) \<le> toISOString (snd d) \<and> snd d \<le> t"
    using b eL row assms(2) unfolding books_def by simp
  ultimately show ?thesis using b unfolding books_def by blast
qed

section \<open>Every event keeps the invariant\<close>

lemma reschedule_frame [frame_simps]:
  "sc_heap (reschedule s) = sc_heap s" "sc_db (reschedule s) = sc_db s"
  "sc_pending (reschedule s) = sc_pending s" "sc_rows (reschedule s) = sc_rows s"
  "sc_now (reschedule s) = sc_now s" "sc_ticks (reschedule s) = sc_ticks s"
  "sc_restoring (reschedule s) = sc_restoring s" "sc_delivered (reschedule s) = sc_delivered s"
  by (simp_all add: reschedule_def split: option.splits)

lemma reschedule_live [frame_simps]: "live (reschedule s) = live s"
  by (simp add: live_def frame_simps)

lemma reschedule_inv [simp]: "sched_inv (reschedule s) = sched_inv s"
  by (simp add: sched_inv_def frame_simps)

text \<open>
  How timers flow through an event: rows are never deleted, a live timer was live before or has a
  new identifier, and what is delivered was live before or has a new identifier.
\<close>

abbreviation row_ids :: "scheduler \<Rightarrow> string set" where
  "row_ids s \<equiv> set (map (t_id \<circ> fst) (sc_rows s))"

definition timer_flow :: "scheduler \<Rightarrow> scheduler \<Rightarrow> bool" where
  "timer_flow s s' \<longleftrightarrow> row_ids s \<subseteq> row_ids s' \<and> (\<forall>e\<in>#live s'. e \<in># live s \<or> t_id e \<notin> row_ids s)
     \<and> (\<exists>ds. sc_delivered s' = sc_delivered s @ ds \<and> (\<forall>d\<in>set ds. fst d \<in># live s \<or> t_id (fst d) \<notin> row_ids s))"

lemma timer_flow_refl [simp]: "timer_flow s s"
  by (simp add: timer_flow_def)

lemma timer_flow_trans:
  assumes "timer_flow s s'" "timer_flow s' s''"
  shows "timer_flow s s''"
proof -
  obtain ds where ds: "sc_delivered s' = sc_delivered s @ ds" "\<And>d. d \<in> set ds \<Longrightarrow> fst d \<in># live s \<or> t_id (fst d) \<notin> row_ids s"
    using assms(1) unfolding timer_flow_def by blast
  obtain es where es: "sc_delivered s'' = sc_delivered s' @ es" "\<And>d. d \<in> set es \<Longrightarrow> fst d \<in># live s' \<or> t_id (fst d) \<notin> row_ids s'"
    using assms(2) unfolding timer_flow_def by blast
  have sub: "row_ids s \<subseteq> row_ids s'" "row_ids s' \<subseteq> row_ids s''" using assms unfolding timer_flow_def by blast+
  have lv: "\<And>e. e \<in># live s' \<Longrightarrow> e \<in># live s \<or> t_id e \<notin> row_ids s" using assms(1) unfolding timer_flow_def by blast
  have "\<forall>e\<in>#live s''. e \<in># live s \<or> t_id e \<notin> row_ids s" using assms(2) lv sub(1) unfolding timer_flow_def by blast
  moreover have "\<forall>d\<in>set (ds @ es). fst d \<in># live s \<or> t_id (fst d) \<notin> row_ids s"
    using ds(2) es(2) lv sub(1) by (metis Un_iff set_append subsetD)
  moreover have "sc_delivered s'' = sc_delivered s @ (ds @ es)" using ds(1) es(1) by simp
  ultimately show ?thesis using sub unfolding timer_flow_def by blast
qed

lemma timer_flow_same: "row_ids s' = row_ids s \<Longrightarrow> live s' \<subseteq># live s \<Longrightarrow> sc_delivered s' = sc_delivered s \<Longrightarrow> timer_flow s s'"
  unfolding timer_flow_def by (auto dest: mset_subset_eqD)

lemma timer_flow_reschedule [simp]: "timer_flow s (reschedule s') = timer_flow s s'"
  by (simp add: timer_flow_def frame_simps)

lemma sched_invD:
  assumes "sched_inv s"
  shows "heap_inv (sc_heap s)" "map_ok (sc_pending s)" "sc_db s" "sc_now s < iso_limit"
    "books (sc_rows s) (live s) (sc_delivered s) (sc_now s)" "k \<in> set (sc_ticks s) \<Longrightarrow> k \<le> toISOString (sc_now s)"
    "sc_restoring s = Some (k, rs) \<Longrightarrow> k \<le> toISOString (sc_now s)"
  using assms unfolding sched_inv_def by blast+

lemma schedule_ok:
  assumes "sched_inv s" "schedule e s = Some s'"
  shows "sched_inv s' \<and> timer_flow s s' \<and> live s' = add_mset e (live s)"
proof -
  let ?p = "map_set (t_sessionId e) (nullish (map_get (sc_pending s) (t_sessionId e)) [] @ [e]) (sc_pending s)"
  have new: "t_id e \<notin> row_ids s" and s': "s' = s\<lparr>sc_db := True, sc_rows := sc_rows s @ [(e, False)], sc_pending := ?p\<rparr>"
    using assms(2) by (auto simp: schedule_def split: if_splits)
  have "pend_mset ?p = add_mset e (pend_mset (sc_pending s))"
    using pend_set [of "t_sessionId e" "nullish (map_get (sc_pending s) (t_sessionId e)) [] @ [e]" "sc_pending s"]
    by (simp add: union_commute)
  then have l: "live s' = add_mset e (live s)" by (simp add: s' live_def)
  have "sched_inv s'"
    using books_add [OF sched_invD(5) [OF assms(1)] new] l sched_invD [OF assms(1)] by (simp add: sched_inv_def s')
  moreover have "timer_flow s s'" using l new by (auto simp: timer_flow_def s')
  ultimately show ?thesis using l by blast
qed

lemma flushSession_ok:
  assumes "sched_inv s"
  shows "sched_inv (flushSession k s) \<and> timer_flow s (flushSession k s) \<and> live (flushSession k s) = live s"
proof (cases "nullish (map_get (sc_pending s) k) [] = []")
  case True
  then show ?thesis using assms by (simp add: flushSession_def Let_def)
next
  case False
  let ?ps = "nullish (map_get (sc_pending s) k) []"
  let ?t = "s\<lparr>sc_heap := fold heap_insert ?ps (sc_heap s), sc_pending := map_delete k (sc_pending s)\<rparr>"
  have del: "pend_mset (sc_pending s) = pend_mset (map_delete k (sc_pending s)) + mset ?ps"
    using pend_delete [OF sched_invD(2) [OF assms], of k] by simp
  define M where "M = heap_mset (sc_heap s) + pend_mset (map_delete k (sc_pending s))
      + (case sc_restoring s of None \<Rightarrow> {#} | Some (k, rs) \<Rightarrow> mset rs)"
  have "live s = mset ?ps + M" unfolding live_def M_def del by (simp add: ac_simps)
  then have b: "books (sc_rows s) (mset ?ps + M) (sc_delivered s) (sc_now s)" using sched_invD(5) [OF assms] by simp
  have "heap_inv (fold heap_insert ?ps (sc_heap s)) \<and>
      heap_mset (fold heap_insert ?ps (sc_heap s)) = mset ?ps + heap_mset (sc_heap s)"
    using books_distinct [OF b] sched_invD(1) [OF assms]
    by (intro timer_queue.fold_ins_ok) (auto simp: M_def)
  moreover from this have "live ?t = live s" unfolding live_def del by (simp add: ac_simps)
  ultimately have "sched_inv ?t \<and> live ?t = live s"
    using assms unfolding sched_inv_def by simp
  moreover have "timer_flow s ?t" using calculation by (intro timer_flow_same) simp_all
  moreover have "flushSession k s = reschedule ?t" using False by (simp add: flushSession_def Let_def)
  ultimately show ?thesis by (simp add: frame_simps)
qed

lemma row_ids_mark [simp]: "set (map (t_id \<circ> fst) (mark_fired k R)) = set (map (t_id \<circ> fst) R)"
  by (simp only: mark_ids)

text \<open>What a cancellation does: the timer leaves the live ones, unless it waits to be restored.\<close>

lemma cancel_cases:
  assumes "sched_inv s"
  obtains (dropped) e s' where "cancel k s = (True, s')" "t_id e = k" "live s = add_mset e (live s')"
      "sched_inv s'" "sc_delivered s' = sc_delivered s" "row_ids s' = row_ids s"
  | (restoring) e s' where "cancel k s = (True, s')" "unfired k s" "t_id e = k" "live s' = live s"
      "e \<in> set (snd (the (sc_restoring s)))" "sc_restoring s \<noteq> None"
      "sched_inv s'" "sc_delivered s' = sc_delivered s" "row_ids s' = row_ids s"
  | (absent) "cancel k s = (False, s)" "\<not> unfired k s"
proof -
  have db: "s\<lparr>sc_db := True\<rparr> = s" using sched_invD(3) [OF assms] by simp
  note I = sched_invD [OF assms]
  consider (heap) e h where "heap_removeById k (sc_heap s) = Some (e, h)"
    | (pend) p where "heap_removeById k (sc_heap s) = None" "cancel_pending k (sc_pending s) = Some p"
    | (row) "heap_removeById k (sc_heap s) = None" "cancel_pending k (sc_pending s) = None"
    by (metis not_Some_eq surj_pair)
  then show thesis
  proof cases
    case heap
    let ?t = "s\<lparr>sc_heap := h, sc_rows := mark_fired k (sc_rows s)\<rparr>"
    note r = heap_removeById_inv [OF I(1) heap]
    have l: "live s = add_mset e (live ?t)" using r(2) by (simp add: live_def)
    have "books (mark_fired k (sc_rows s)) (live ?t) (sc_delivered s) (sc_now s)"
      using books_drop [of _ e "live ?t"] I(5) l r(3) by simp
    then have "sched_inv ?t" using I r(1) by (simp add: sched_inv_def)
    moreover have "cancel k s = (True, reschedule ?t)" using heap db by (simp add: cancel_def Let_def)
    ultimately show thesis using l r(3) by (intro dropped [of "reschedule ?t" e]) (simp_all add: frame_simps)
  next
    case pend
    let ?t = "s\<lparr>sc_pending := p, sc_rows := mark_fired k (sc_rows s)\<rparr>"
    obtain e where e: "t_id e = k" "pend_mset (sc_pending s) = add_mset e (pend_mset p)" "map fst p = map fst (sc_pending s)"
      using cancel_pending_Some [OF pend(2)] by blast
    have l: "live s = add_mset e (live ?t)" using e by (simp add: live_def)
    have "books (mark_fired k (sc_rows s)) (live ?t) (sc_delivered s) (sc_now s)"
      using books_drop [of _ e "live ?t"] I(5) l e(1) by simp
    then have "sched_inv ?t" using I e(3) by (simp add: sched_inv_def)
    moreover have "cancel k s = (True, ?t)" using pend db by (simp add: cancel_def Let_def)
    ultimately show thesis using l e(1) by (intro dropped [of ?t e]) simp_all
  next
    case row
    show thesis
    proof (cases "unfired k s")
      case False
      then show thesis using row db by (intro absent) (simp_all add: cancel_def Let_def)
    next
      case True
      let ?t = "s\<lparr>sc_rows := mark_fired k (sc_rows s)\<rparr>"
      obtain e where e: "(e, False) \<in> set (sc_rows s)" "t_id e = k" using True by (auto simp: unfired_def)
      have "e \<in># live s" using booksD(7) [OF I(5)] e(1) by blast
      moreover have "e \<notin># heap_mset (sc_heap s)" using row(1) removeById_None [OF I(1)] e(2) by auto
      moreover have "e \<notin># pend_mset (sc_pending s)" using row(2) e(2) cancel_pending_None by blast
      ultimately have "sc_restoring s \<noteq> None \<and> e \<in> set (snd (the (sc_restoring s)))"
        by (auto simp: live_def split: option.splits prod.splits)
      moreover have l: "live ?t = live s" by (simp add: live_def)
      moreover have "sched_inv ?t" using I books_mark [OF I(5)] l by (simp add: sched_inv_def)
      moreover have "cancel k s = (True, ?t)" using row db True by (simp add: cancel_def Let_def)
      ultimately show thesis using e True by (intro restoring [of ?t e]) simp_all
    qed
  qed
qed

lemma cancel_ok:
  assumes "sched_inv s"
  shows "sched_inv (snd (cancel k s)) \<and> timer_flow s (snd (cancel k s))"
proof (cases rule: cancel_cases [OF assms, of k])
  case (1 e s')
  then show ?thesis by (auto intro: timer_flow_same)
next
  case (2 e s')
  then show ?thesis by (auto intro: timer_flow_same)
qed (use assms in simp)

lemma cancel_all_ok: "sched_inv s \<Longrightarrow> sched_inv (snd (cancel_all ks s)) \<and> timer_flow s (snd (cancel_all ks s))"
proof (induction ks arbitrary: s)
  case (Cons k ks)
  obtain b s1 n s2 where c: "cancel k s = (b, s1)" "cancel_all ks s1 = (n, s2)" by fastforce
  have "sched_inv s1" "timer_flow s s1" using cancel_ok [OF Cons.prems, of k] c(1) by auto
  then show ?case using Cons.IH [of s1] c timer_flow_trans [of s s1 s2] by simp
qed simp

lemma fireTimer_ok:
  assumes "sched_inv s" "live s = add_mset e (live t)" "t_fireAt e \<le> toISOString (sc_now s)"
    and same: "sc_rows t = sc_rows s" "sc_delivered t = sc_delivered s" "sc_now t = sc_now s" "sc_db t = sc_db s"
      "map_ok (sc_pending t)" "heap_inv (sc_heap t)"
      "\<forall>k\<in>set (sc_ticks t). k \<le> toISOString (sc_now s)"
      "\<forall>k rs. sc_restoring t = Some (k, rs) \<longrightarrow> k \<le> toISOString (sc_now s)"
  shows "sched_inv (fireTimer e t) \<and> timer_flow s (fireTimer e t)"
proof -
  note I = sched_invD [OF assms(1)]
  have l: "live (fireTimer e t) = live t" by (simp add: fireTimer_def live_def)
  have "books (mark_fired (t_id e) (sc_rows s)) (live t) (sc_delivered s @ [(e, sc_now s)]) (sc_now s)"
    using books_fire [of _ e "live t"] I(5) assms(2,3) by simp
  then have "sched_inv (fireTimer e t)"
    using I(3,4) l same by (simp add: sched_inv_def fireTimer_def)
  moreover have "timer_flow s (fireTimer e t)"
  proof -
    have "sc_rows (fireTimer e t) = mark_fired (t_id e) (sc_rows s)" by (simp add: fireTimer_def same)
    then have "row_ids (fireTimer e t) = row_ids s" by (simp only: row_ids_mark)
    moreover have "sc_delivered (fireTimer e t) = sc_delivered s @ [(e, sc_now s)]" by (simp add: fireTimer_def same)
    ultimately show ?thesis using l assms(2) unfolding timer_flow_def by auto
  qed
  ultimately show ?thesis by blast
qed

lemma tick_loop_ok:
  assumes "sched_inv s" "now \<le> toISOString (sc_now s)"
  shows "sched_inv (tick_loop now s) \<and> timer_flow s (tick_loop now s)"
proof (cases "extractMin (sc_heap s)")
  case None
  then show ?thesis using assms by (simp add: tick_loop_def)
next
  case (Some p)
  obtain head h where p: "extractMin (sc_heap s) = Some (head, h)" using Some by (cases p) simp
  note I = sched_invD [OF assms(1)] and x = extractMin_inv [OF sched_invD(1) [OF assms(1)] p]
  let ?t = "s\<lparr>sc_heap := h, sc_ticks := sc_ticks s @ [now]\<rparr>"
  show ?thesis
  proof (cases "now < t_fireAt head")
    case True
    then show ?thesis using assms p by (simp add: tick_loop_def)
  next
    case False
    then have due: "t_fireAt head \<le> toISOString (sc_now s)" using assms(2) by (meson leI order.trans)
    have "live s = add_mset head (live ?t)" using x(2) by (simp add: live_def)
    then have "sched_inv (fireTimer head ?t) \<and> timer_flow s (fireTimer head ?t)"
      using assms(1) I(1,2,3,6,7) x(1) due assms(2) by (intro fireTimer_ok) auto
    then show ?thesis using False p by (simp add: tick_loop_def)
  qed
qed

lemma restore_loop_ok:
  "sched_inv (s\<lparr>sc_restoring := Some (now, rs)\<rparr>) \<Longrightarrow>
     sched_inv (restore_loop now rs s) \<and> timer_flow (s\<lparr>sc_restoring := Some (now, rs)\<rparr>) (restore_loop now rs s)"
proof (induction now rs s rule: restore_loop.induct)
  case (1 now s)
  have "live (s\<lparr>sc_restoring := None\<rparr>) = live (s\<lparr>sc_restoring := Some (now, [])\<rparr>)" by (simp add: live_def)
  moreover from this have "sched_inv (s\<lparr>sc_restoring := None\<rparr>)" using 1 by (simp add: sched_inv_def)
  ultimately show ?case by (auto intro: timer_flow_same)
next
  case (2 now r rs s)
  let ?s = "s\<lparr>sc_restoring := Some (now, r # rs)\<rparr>"
  note I = sched_invD [OF "2.prems"]
  have k: "now \<le> toISOString (sc_now s)" using I(7) by simp
  show ?case
  proof (cases "t_fireAt r \<le> now")
    case True
    let ?t = "s\<lparr>sc_restoring := Some (now, rs)\<rparr>"
    have "live ?s = add_mset r (live ?t)" by (simp add: live_def)
    then have "sched_inv (fireTimer r ?t) \<and> timer_flow ?s (fireTimer r ?t)"
      using "2.prems" I(1,2,3,6) k True by (intro fireTimer_ok) auto
    then show ?thesis using True by simp
  next
    case False
    let ?t = "s\<lparr>sc_heap := heap_insert r (sc_heap s), sc_restoring := Some (now, rs)\<rparr>"
    define M where "M = heap_mset (sc_heap s) + pend_mset (sc_pending s) + mset rs"
    have "live ?s = mset [r] + M" by (simp add: live_def M_def)
    then have "books (sc_rows ?s) (mset [r] + M) (sc_delivered ?s) (sc_now ?s)" using I(5) by simp
    then have "t_id r \<notin># image_mset t_id M" by (rule books_distinct(2)) simp
    then have h: "heap_inv (heap_insert r (sc_heap s)) \<and>
        heap_mset (heap_insert r (sc_heap s)) = add_mset r (heap_mset (sc_heap s))"
      using I(1) by (intro heap_insert_inv) (auto simp: M_def)
    then have l: "live ?t = live ?s" by (simp add: live_def)
    then have t: "sched_inv ?t" using I h k by (simp add: sched_inv_def)
    moreover have "timer_flow ?s ?t" using l by (intro timer_flow_same) simp_all
    ultimately show ?thesis using "2.IH" [OF False] False timer_flow_trans [of ?s ?t] by simp
  qed
qed

lemma sched_event_ok:
  assumes "sched_inv s"
  shows "sched_inv (sched_event ev s) \<and> timer_flow s (sched_event ev s)"
proof (cases ev)
  case (Schedule e)
  then show ?thesis using schedule_ok [OF assms, of e] assms
    by (cases "schedule e s") (auto simp: sched_event_def)
next
  case (FlushSession k)
  then show ?thesis using flushSession_ok [OF assms, of k] by (simp add: sched_event_def)
next
  case (Cancel k)
  then show ?thesis using cancel_ok [OF assms, of k] by (simp add: sched_event_def)
next
  case (CancelAnchor k)
  then show ?thesis using cancel_all_ok [OF assms] assms
    by (auto simp: sched_event_def cancelByAnchorSession_def)
next
  case TimeoutFires
  have l: "live (s\<lparr>sc_timeout := None\<rparr>) = live s" by (simp add: live_def)
  have t: "sched_inv (s\<lparr>sc_timeout := None\<rparr>)" using assms l by (simp add: sched_inv_def)
  have "timer_flow s (s\<lparr>sc_timeout := None\<rparr>)" using l by (intro timer_flow_same) simp_all
  then have "sched_inv (timer_tick s) \<and> timer_flow s (timer_tick s)"
    using tick_loop_ok [OF t] t timer_flow_trans by (auto simp: timer_tick_def Let_def)
  then show ?thesis using TimeoutFires assms by (simp add: sched_event_def split: option.splits)
next
  case (ResumeTick i)
  let ?t = "s\<lparr>sc_ticks := take i (sc_ticks s) @ drop (Suc i) (sc_ticks s)\<rparr>"
  have l: "live ?t = live s" by (simp add: live_def)
  have t: "sched_inv ?t" using assms l by (auto simp: sched_inv_def dest: in_set_takeD in_set_dropD)
  have f: "timer_flow s ?t" using l by (intro timer_flow_same) simp_all
  have "sched_inv (tick_loop (sc_ticks s ! i) ?t) \<and> timer_flow s (tick_loop (sc_ticks s ! i) ?t)" if "i < length (sc_ticks s)"
    using tick_loop_ok [OF t, of "sc_ticks s ! i"] sched_invD(6) [OF assms] that timer_flow_trans [OF f] by simp
  then show ?thesis using ResumeTick assms by (simp add: sched_event_def)
next
  case ResumeRestore
  show ?thesis
  proof (cases "sc_restoring s")
    case (Some p)
    then obtain now rs where p: "sc_restoring s = Some (now, rs)" by (cases p) auto
    then have "s\<lparr>sc_restoring := Some (now, rs)\<rparr> = s" by simp
    note ok = restore_loop_ok [of now rs s, unfolded this]
    show ?thesis using ok assms p ResumeRestore by (simp add: sched_event_def)
  qed (use assms ResumeRestore in \<open>simp add: sched_event_def\<close>)
next
  case (Advance n)
  have "toISOString (sc_now s) \<le> toISOString (sc_now s + n)" if "sc_now s + n < iso_limit"
    using that by (subst toISOString_le) auto
  moreover have "live (s\<lparr>sc_now := sc_now s + n\<rparr>) = live s" by (simp add: live_def)
  ultimately show ?thesis
    using assms Advance books_time [OF sched_invD(5) [OF assms], of "sc_now s + n"]
    by (auto simp: sched_event_def sched_inv_def timer_flow_def intro: order.trans)
next
  case Shutdown
  have "live (shutdown s) = live s" by (simp add: live_def shutdown_def)
  then show ?thesis using assms Shutdown by (simp add: sched_event_def sched_inv_def timer_flow_def shutdown_def)
qed

lemma restore_ok:
  assumes "distinct (map (t_id \<circ> fst) rows)" "t < iso_limit"
  shows "sched_inv (restore_timers (new_scheduler rows t))"
proof -
  let ?rs = "sort_key t_fireAt (map fst (filter (\<lambda>r. \<not> snd r) rows))"
  let ?s = "(new_scheduler rows t)\<lparr>sc_db := True\<rparr>"
  have d: "distinct ?rs"
    using assms(1) by (simp add: distinct_map comp_def) (auto simp: inj_on_def distinct_map intro: inj_on_subset)
  have l: "live (?s\<lparr>sc_restoring := Some (toISOString t, ?rs)\<rparr>) = mset ?rs"
    by (simp add: live_def new_scheduler_def new_heap_def)
  have "books rows (mset ?rs) [] t"
    unfolding books_def using assms(1) d
    by (auto simp: distinct_count_atmost_1 count_mset_0_iff image_iff)
  then have "sched_inv (?s\<lparr>sc_restoring := Some (toISOString t, ?rs)\<rparr>)"
    using assms(2) l new_heap_inv unfolding sched_inv_def by (simp add: new_scheduler_def)
  then show ?thesis using restore_loop_ok [of "toISOString t" ?rs ?s]
    by (simp add: restore_timers_def new_scheduler_def Let_def)
qed

lemma fold_events_ok:
  "sched_inv s \<Longrightarrow> sched_inv (fold sched_event evs s) \<and> timer_flow s (fold sched_event evs s)"
proof (induction evs arbitrary: s)
  case (Cons ev evs)
  have "sched_inv (sched_event ev s)" "timer_flow s (sched_event ev s)" using sched_event_ok [OF Cons.prems] by auto
  then show ?case using Cons.IH [of "sched_event ev s"] timer_flow_trans by auto
qed simp

lemma sched_run_inv:
  "distinct (map (t_id \<circ> fst) rows) \<Longrightarrow> t < iso_limit \<Longrightarrow> sched_inv (sched_run rows t evs)"
  using restore_ok fold_events_ok by (simp add: sched_run_def)

section \<open>No wake-up is lost\<close>

definition idle :: "scheduler \<Rightarrow> bool" where
  "idle s \<longleftrightarrow> sc_ticks s = [] \<and> sc_restoring s = None"

text \<open>
  With no loop suspended, an active timer means that the timeout is set, and not for later than
  the first timer's time or the next millisecond.
\<close>

definition armed :: "scheduler \<Rightarrow> bool" where
  "armed s \<longleftrightarrow> (idle s \<longrightarrow>
     (case heap_peek (sc_heap s) of
        None \<Rightarrow> True
      | Some h \<Rightarrow> \<exists>due. sc_timeout s = Some due \<and> due \<le> max (sc_now s + 1) (getTime (t_fireAt h))))"

lemma reschedule_armed [simp]: "armed (reschedule s)"
  by (auto simp: armed_def reschedule_def node_delay_def max_def split: option.splits)

lemma armed_cong:
  "armed s \<Longrightarrow> sc_heap t = sc_heap s \<Longrightarrow> sc_timeout t = sc_timeout s \<Longrightarrow> sc_ticks t = sc_ticks s \<Longrightarrow>
     sc_restoring t = sc_restoring s \<Longrightarrow> sc_now s \<le> sc_now t \<Longrightarrow> armed t"
  unfolding armed_def idle_def by (auto split: option.splits)

lemma busy_armed [simp]: "\<not> idle s \<Longrightarrow> armed s"
  by (simp add: armed_def)

lemma fireTimer_frame [simp]: "sc_ticks (fireTimer e s) = sc_ticks s" "sc_restoring (fireTimer e s) = sc_restoring s"
  by (simp_all add: fireTimer_def)

lemma tick_loop_armed: "armed (tick_loop now s)"
proof (cases "extractMin (sc_heap s)")
  case (Some p)
  then show ?thesis by (cases p) (auto simp: tick_loop_def idle_def intro: busy_armed)
qed (simp add: tick_loop_def)

lemma restore_loop_armed: "armed (restore_loop now rs s)"
  by (induction now rs s rule: restore_loop.induct) (auto simp: idle_def intro: busy_armed)

lemma cancel_armed: "armed s \<Longrightarrow> armed (snd (cancel k s))"
  by (auto simp: cancel_def Let_def split: option.splits intro: armed_cong [of s])

lemma cancel_all_armed: "armed s \<Longrightarrow> armed (snd (cancel_all ks s))"
proof (induction ks arbitrary: s)
  case (Cons k ks)
  obtain b s1 n s2 where c: "cancel k s = (b, s1)" "cancel_all ks s1 = (n, s2)" by fastforce
  have "armed s1" using cancel_armed [OF Cons.prems, of k] c(1) by simp
  then show ?case using Cons.IH [of s1] c by simp
qed simp

lemma sched_event_armed:
  assumes "armed s" "sched_inv s" "ev \<noteq> Shutdown"
  shows "armed (sched_event ev s)"
proof (cases ev)
  case (Schedule e)
  then show ?thesis using assms(1)
    by (auto simp: sched_event_def schedule_def intro: armed_cong [of s])
next
  case (Advance n)
  then show ?thesis using assms(1) by (auto simp: sched_event_def intro: armed_cong [of s])
next
  case TimeoutFires
  then show ?thesis using assms(1) sched_invD(3) [OF assms(2)] tick_loop_armed
    by (simp add: sched_event_def timer_tick_def Let_def split: option.splits)
qed (use assms tick_loop_armed restore_loop_armed cancel_armed cancel_all_armed in
     \<open>auto simp: sched_event_def flushSession_def cancelByAnchorSession_def Let_def split: option.splits\<close>)

lemma fold_events_armed:
  "armed s \<Longrightarrow> sched_inv s \<Longrightarrow> Shutdown \<notin> set evs \<Longrightarrow> armed (fold sched_event evs s)"
proof (induction evs arbitrary: s)
  case (Cons ev evs)
  then show ?case using sched_event_armed [of s ev] sched_event_ok [of s ev] by auto
qed simp

section \<open>What the scheduler promises\<close>

text \<open>
  C10. Whatever happens after a start, and however the events interleave with the awaits inside
  \<open>tick\<close> and \<open>restore\<close>, each timer is delivered at most once, never before its \<open>fireAt\<close>, and with
  its row already marked as fired.
\<close>

theorem timer_fires_once:
  assumes "distinct (map (t_id \<circ> fst) rows)" "t < iso_limit"
  shows "distinct (map (t_id \<circ> fst) (sc_delivered (sched_run rows t evs)))
    \<and> list_all (\<lambda>d. t_fireAt (fst d) \<le> toISOString (snd d) \<and> (fst d, True) \<in> set (sc_rows (sched_run rows t evs)))
        (sc_delivered (sched_run rows t evs))"
  using booksD [OF sched_invD(5) [OF sched_run_inv [OF assms, of evs]]] by (simp add: list_all_iff)

text \<open>
  No timer is lost: every row of the table that is not marked as fired is in the heap, in its
  session's buffer, or among the rows a running \<open>restore\<close> has still to handle, and exactly once.
\<close>

theorem timer_not_lost:
  assumes "distinct (map (t_id \<circ> fst) rows)" "t < iso_limit" "(e, False) \<in> set (sc_rows (sched_run rows t evs))"
  shows "Multiset.count (live (sched_run rows t evs)) e = 1"
proof -
  note b = booksD [OF sched_invD(5) [OF sched_run_inv [OF assms(1,2), of evs]]]
  have "e \<in># live (sched_run rows t evs)" using b(7) assms(3) by blast
  then show ?thesis using b(2) [of e] by (metis One_nat_def Suc_leI count_greater_zero_iff le_antisym)
qed

text \<open>
  C22. A due timer is delivered: unless the scheduler was shut down, when no loop is suspended and
  the clock has passed the first timer's time, the timeout is due and its tick delivers that timer.
\<close>

theorem due_timer_delivered:
  assumes "distinct (map (t_id \<circ> fst) rows)" "t < iso_limit" "Shutdown \<notin> set evs"
    and "sched_run rows t evs = s" "idle s" "heap_peek (sc_heap s) = Some h"
    and "t_fireAt h = toISOString f" "f < iso_limit"
    and "0 < n" "f \<le> sc_now s + n" "sc_now s + n < iso_limit"
  shows "sc_delivered (sched_event TimeoutFires (sched_event (Advance n) s)) = sc_delivered s @ [(h, sc_now s + n)]"
proof -
  have inv: "sched_inv s" using sched_run_inv [OF assms(1,2)] assms(4) by blast
  have "armed s"
    using fold_events_armed [OF _ restore_ok [OF assms(1,2)] assms(3)] assms(4) restore_loop_armed
    by (simp add: sched_run_def restore_timers_def Let_def)
  then obtain due where due: "sc_timeout s = Some due" "due \<le> max (sc_now s + 1) f"
    using assms(5,6,7,8) by (auto simp: armed_def getTime_toISOString)
  let ?s = "s\<lparr>sc_now := sc_now s + n\<rparr>"
  have adv: "sched_event (Advance n) s = ?s" using assms(11) by (simp add: sched_event_def)
  have fire: "sched_event TimeoutFires ?s = timer_tick ?s" using due assms(9,10) by (auto simp: sched_event_def)
  obtain g where x: "extractMin (sc_heap s) = Some (h, g)"
  proof (cases "extractMin (sc_heap s)")
    case None
    then show thesis using assms(6) by (simp add: extractMin_None heap_peek_def)
  next
    case (Some p)
    obtain m g where "p = (m, g)" by (cases p)
    with Some that show thesis using extractMin_inv(4) [OF sched_invD(1) [OF inv]] assms(6) by auto
  qed
  have "\<not> toISOString (sc_now s + n) < t_fireAt h" using assms(7,8,10,11) toISOString_less by simp
  then show ?thesis
    using x sched_invD(3) [OF inv] unfolding adv fire
    by (simp add: timer_tick_def tick_loop_def fireTimer_def Let_def)
qed

text \<open>
  A timer whose cancellation was confirmed is not delivered any more, whatever happens later,
  unless it was cancelled while a running \<open>restore\<close> had still to handle its row.
\<close>

theorem cancelled_never_fires:
  assumes "distinct (map (t_id \<circ> fst) rows)" "t < iso_limit"
    and "cancel k (sched_run rows t evs) = (True, s)"
    and "case sc_restoring (sched_run rows t evs) of None \<Rightarrow> True | Some (now, rs) \<Rightarrow> k \<notin> set (map t_id rs)"
  shows "filter (\<lambda>d. t_id (fst d) = k) (sc_delivered (fold sched_event evs' s))
       = filter (\<lambda>d. t_id (fst d) = k) (sc_delivered (sched_run rows t evs))"
proof -
  let ?r = "sched_run rows t evs"
  have inv: "sched_inv ?r" by (rule sched_run_inv [OF assms(1,2)])
  have "(\<forall>e\<in>#live s. t_id e \<noteq> k) \<and> k \<in> row_ids s \<and> sched_inv s \<and> sc_delivered s = sc_delivered ?r"
  proof (cases rule: cancel_cases [OF inv, of k])
    case (1 e s')
    then have s: "s' = s" using assms(3) by simp
    have b: "books (sc_rows ?r) (mset [e] + live s) (sc_delivered ?r) (sc_now ?r)"
      using sched_invD(5) [OF inv] 1(3) s by simp
    obtain f where "(e, f) \<in> set (sc_rows ?r)" using booksD(3) [OF b, of e] by auto
    then have "k \<in> row_ids ?r" using 1(2) by force
    moreover have "\<forall>a\<in>#live s. t_id a \<noteq> k" using books_distinct(2) [OF b, of e] 1(2) by (auto simp: image_iff)
    ultimately show ?thesis using 1(4,5,6) unfolding s by (simp only: simp_thms)
  next
    case (2 e s')
    then show ?thesis using assms(4) by (auto split: option.splits)
  next
    case 3
    then show ?thesis using assms(3) by simp
  qed
  then have dead: "\<And>e. e \<in># live s \<Longrightarrow> t_id e \<noteq> k" "k \<in> row_ids s" "sched_inv s" "sc_delivered s = sc_delivered ?r"
    by blast+
  obtain ds where ds: "sc_delivered (fold sched_event evs' s) = sc_delivered s @ ds"
    "\<forall>d\<in>set ds. fst d \<in># live s \<or> t_id (fst d) \<notin> row_ids s"
    using fold_events_ok [OF dead(3), of evs'] unfolding timer_flow_def by blast
  have "filter (\<lambda>d. t_id (fst d) = k) ds = []" using ds(2) dead(1,2) by (auto simp: filter_empty_conv)
  with ds(1) dead(4) show ?thesis by simp
qed

end
