(* ===== verification/Timer_Tool.thy ===== *)
theory Timer_Tool
  imports Timer_Scheduler
begin

text \<open>
  The \<open>timer\<close> tool of \<open>daemon/src/sessions/builtin-handlers/timer-handler.ts\<close>: setting, cancelling
  and listing the deferred timers of a session, with the limits it enforces. \<open>Date.parse\<close> of an
  absolute date is the parameter \<open>date_parse\<close> (the language leaves most formats to the
  implementation); the relative durations are modelled in full.
\<close>

section \<open>Durations\<close>

definition MAX_ACTIVE_PER_SESSION :: nat where
  "MAX_ACTIVE_PER_SESSION = 50"

definition MIN_DURATION_S :: rat where
  "MIN_DURATION_S = 120"

definition MAX_DURATION_S :: rat where
  "MAX_DURATION_S = 30 * 24 * 60 * 60"

text \<open>The alternatives of the unit, in the order of the regular expression.\<close>

definition unit_words :: "string list" where
  "unit_words = [''s'', ''sec'', ''secs'', ''second'', ''seconds'', ''m'', ''min'', ''mins'', ''minute'', ''minutes'',
     ''h'', ''hr'', ''hrs'', ''hour'', ''hours'', ''d'', ''day'', ''days'']"

text \<open>The match of \<open>RELATIVE_RE\<close>: the number text and the unit in lower case.\<close>

definition relative_match :: "string \<Rightarrow> (string \<times> string) option" where
  "relative_match raw =
     (let ip = takeWhile is_digit raw; r1 = dropWhile is_digit raw;
          fp = (case r1 of c # r \<Rightarrow> if c = CHR ''.'' then takeWhile is_digit r else [] | [] \<Rightarrow> []);
          num = (if fp = [] then ip else ip @ ''.'' @ fp);
          rest = (if fp = [] then r1 else drop (Suc (length fp)) r1);
          u = map lower_char (dropWhile is_ws rest)
      in if ip \<noteq> [] \<and> u \<in> set unit_words then Some (num, u) else None)"

definition unit_seconds :: "string \<Rightarrow> rat \<Rightarrow> rat" where
  "unit_seconds u value =
     (if js_starts_with u ''s'' then value
      else if js_starts_with u ''m'' then value * 60
      else if js_starts_with u ''h'' then value * 3600
      else value * 86400)"

text \<open>
  A date is its time value; \<open>None\<close> is an invalid date. \<open>new Date(n)\<close> truncates and rejects what is
  over \<open>8.64e15\<close>.
\<close>

definition time_clip :: "rat \<Rightarrow> int option" where
  "time_clip q = (if q > 8640000000000000 \<or> q < - 8640000000000000 then None
                  else Some (if 0 \<le> q then \<lfloor>q\<rfloor> else \<lceil>q\<rceil>))"

text \<open>\<open>parseFireAt\<close> at time \<open>now\<close>; the inner option is the time value of the date it returns.\<close>

definition parseFireAt :: "(string \<Rightarrow> int option) \<Rightarrow> nat \<Rightarrow> string \<Rightarrow> int option option" where
  "parseFireAt date_parse now raw =
     (case relative_match raw of
        Some (num, u) \<Rightarrow>
          Some (time_clip (of_nat now + unit_seconds u (nullish (parse_decimal num) 0) * 1000))
      | None \<Rightarrow> (case date_parse raw of Some ms \<Rightarrow> Some (Some ms) | None \<Rightarrow> None))"

section \<open>The handler\<close>

text \<open>
  The arguments after \<open>String(x ?? "")\<close>; the message counts only when it is a string.
\<close>

record timer_args =
  a_label :: "string option"
  a_anchor :: "string option"
  a_at :: "string option"
  a_message :: "string option"

datatype timer_error =
    LabelRequired | UnknownSession string | SessionTerminated string | AtRequired | InvalidAt
  | MinimumDuration | MaximumDuration | SessionLimit | IdRequired | OtherSession

datatype timer_result =
    TimerError timer_error
  | TimerThrows
  | TimerSet string string string "timer_entry list"
  | TimerCancelled string bool
  | TimerList "timer_entry list"

text \<open>
  The anchor: \<open>Inl\<close> is the early return. \<open>status\<close> is the column of the session's row.
\<close>

definition check_anchor :: "(string \<Rightarrow> string option) \<Rightarrow> string option \<Rightarrow> timer_error + string option" where
  "check_anchor status raw =
     (let anchorId = js_trim (nullish raw [])
      in if raw = None \<or> anchorId = [] then Inr None
         else (case status anchorId of
                 None \<Rightarrow> Inl (UnknownSession anchorId)
               | Some st \<Rightarrow> if st = ''terminated'' then Inl (SessionTerminated anchorId) else Inr (Some anchorId)))"

text \<open>
  The limits. \<open>Date.now()\<close> is read a second time here; an invalid date passes both comparisons, and
  \<open>toISOString\<close> throws on it.
\<close>

definition check_duration :: "nat \<Rightarrow> int option \<Rightarrow> timer_error option" where
  "check_duration nowMs fireMs =
     (case fireMs of
        None \<Rightarrow> None
      | Some f \<Rightarrow>
          (let durationS = of_int (f - int nowMs) / 1000
           in if durationS < MIN_DURATION_S then Some MinimumDuration
              else if durationS > MAX_DURATION_S then Some MaximumDuration
              else None))"

definition timerSet :: "(string \<Rightarrow> int option) \<Rightarrow> (string \<Rightarrow> string option) \<Rightarrow> string \<Rightarrow> nat \<Rightarrow> timer_args \<Rightarrow>
    string \<Rightarrow> scheduler \<Rightarrow> timer_result \<times> scheduler" where
  "timerSet date_parse status uuid parsedAt args sessionId s =
     (let label = js_trim (nullish (a_label args) [])
      in if label = [] then (TimerError LabelRequired, s)
         else (case check_anchor status (a_anchor args) of
           Inl e \<Rightarrow> (TimerError e, s)
         | Inr sessionAnchor \<Rightarrow>
             (let raw = js_trim (nullish (a_at args) [])
              in if raw = [] then (TimerError AtRequired, s)
                 else (case parseFireAt date_parse parsedAt raw of
                   None \<Rightarrow> (TimerError InvalidAt, s)
                 | Some fireMs \<Rightarrow>
                     (case check_duration (sc_now s) fireMs of
                        Some e \<Rightarrow> (TimerError e, s)
                      | None \<Rightarrow>
                          if MAX_ACTIVE_PER_SESSION \<le> countForSession sessionId s then (TimerError SessionLimit, s)
                          else (case fireMs of
                            None \<Rightarrow> (TimerThrows, s)
                          | Some f \<Rightarrow>
                              (let fireAtIso = toISOString (nat f);
                                   message = (if js_trim (nullish (a_message args) []) \<noteq> []
                                              then js_trim (nullish (a_message args) []) else label)
                               in case schedule \<lparr> t_id = uuid, t_sessionId = sessionId, t_label = label,
                                     t_fireAt = fireAtIso, t_message = message, t_sessionAnchor = sessionAnchor \<rparr> s of
                                    None \<Rightarrow> (TimerThrows, s\<lparr>sc_db := True\<rparr>)
                                  | Some s' \<Rightarrow> (TimerSet uuid label fireAtIso (listForSession sessionId s'), s'))))))))"

definition timerCancel :: "string option \<Rightarrow> string \<Rightarrow> scheduler \<Rightarrow> timer_result \<times> scheduler" where
  "timerCancel ident sessionId s =
     (let k = js_trim (nullish ident [])
      in if k = [] then (TimerError IdRequired, s)
         else (case find (\<lambda>r. t_id (fst r) = k \<and> \<not> snd r) (sc_rows s) of
                 None \<Rightarrow> (TimerCancelled k False, s)
               | Some (e, f) \<Rightarrow>
                   if t_sessionId e \<noteq> sessionId then (TimerError OtherSession, s)
                   else (case cancel k s of (b, s') \<Rightarrow> (TimerCancelled k b, s'))))"

definition timerList :: "string \<Rightarrow> scheduler \<Rightarrow> timer_result" where
  "timerList sessionId s = TimerList (listForSession sessionId s)"

section \<open>What the tool guarantees\<close>

lemma check_duration_ok:
  assumes "check_duration now (Some f) = None"
  shows "int now + 120000 \<le> f \<and> f \<le> int now + 2592000000"
proof -
  have "(120 :: rat) \<le> of_int (f - int now) / 1000" "of_int (f - int now) / 1000 \<le> (2592000 :: rat)"
    using assms by (auto simp: check_duration_def Let_def MIN_DURATION_S_def MAX_DURATION_S_def split: if_splits)
  then have "(of_int 120000 :: rat) \<le> of_int (f - int now)" "of_int (f - int now) \<le> (of_int 2592000000 :: rat)"
    by (simp_all add: field_simps)
  then show ?thesis unfolding of_int_le_iff by linarith
qed

lemma count_schedule:
  "schedule e s = Some s' \<Longrightarrow> countForSession k s' = countForSession k s + (if t_sessionId e = k then 1 else 0)"
  by (auto simp: schedule_def countForSession_def split: if_splits)

lemma length_list: "length (listForSession k s) = countForSession k s"
  by (simp add: listForSession_def countForSession_def)

lemma timerSet_cases:
  obtains (accepted) f e s' where "timerSet dp st uuid t0 args k s = (TimerSet uuid (t_label e) (t_fireAt e) (listForSession k s'), s')"
      "check_duration (sc_now s) (Some f) = None" "countForSession k s < MAX_ACTIVE_PER_SESSION"
      "t_id e = uuid" "t_sessionId e = k" "t_fireAt e = toISOString (nat f)" "schedule e s = Some s'"
  | (rejected) e where "timerSet dp st uuid t0 args k s = (TimerError e, s)"
  | (thrown) "fst (timerSet dp st uuid t0 args k s) = TimerThrows" "sc_rows (snd (timerSet dp st uuid t0 args k s)) = sc_rows s"
proof -
  let ?r = "timerSet dp st uuid t0 args k s"
  show thesis
  proof (cases "fst ?r")
    case (TimerSet i l fa ts)
    then have "\<exists>f e s'. ?r = (TimerSet uuid (t_label e) (t_fireAt e) (listForSession k s'), s')
        \<and> check_duration (sc_now s) (Some f) = None \<and> countForSession k s < MAX_ACTIVE_PER_SESSION
        \<and> t_id e = uuid \<and> t_sessionId e = k \<and> t_fireAt e = toISOString (nat f) \<and> schedule e s = Some s'"
      by (simp add: timerSet_def Let_def not_le split: if_splits sum.splits option.splits) force+
    then show thesis using accepted by blast
  next
    case (TimerError e)
    then have "?r = (TimerError e, s)"
      by (auto simp: timerSet_def Let_def split: if_splits sum.splits option.splits)
        (auto simp: check_duration_def split: option.splits)
    then show thesis by (rule rejected)
  next
    case TimerThrows
    then have "sc_rows (snd ?r) = sc_rows s"
      by (auto simp: timerSet_def Let_def split: if_splits sum.splits option.splits)
    with TimerThrows show thesis by (rule thrown)
  qed (auto simp: timerSet_def Let_def split: if_splits sum.splits option.splits)
qed

text \<open>
  A timer that \<open>set\<close> accepts fires between two minutes and thirty days from now, its session has
  at most fifty active timers with it, the answer lists them all, and the timer waits in its
  session's buffer: the heap and the timeout stay as they are until the turn ends. Any other answer
  leaves the table as it was.
\<close>

theorem timer_set_limits:
  "case timerSet dp st uuid t0 args k s of
     (TimerSet i l fa ts, s') \<Rightarrow>
       (\<exists>f. fa = toISOString f \<and> sc_now s + 120000 \<le> f \<and> f \<le> sc_now s + 2592000000)
       \<and> length ts = countForSession k s + 1 \<and> length ts \<le> 50 \<and> ts = listForSession k s'
       \<and> sc_heap s' = sc_heap s \<and> sc_timeout s' = sc_timeout s
       \<and> (\<exists>e. t_id e = uuid \<and> e \<in> set (nullish (map_get (sc_pending s') k) []))
   | (_, s') \<Rightarrow> sc_rows s' = sc_rows s"
proof (cases rule: timerSet_cases [of dp st uuid t0 args k s])
  case (accepted f e s')
  note 1 = this
  have f: "int (sc_now s) + 120000 \<le> f" "f \<le> int (sc_now s) + 2592000000" using check_duration_ok [OF 1(2)] by auto
  have "t_fireAt e = toISOString (nat f) \<and> sc_now s + 120000 \<le> nat f \<and> nat f \<le> sc_now s + 2592000000"
    using f 1(6) by linarith
  moreover have "length (listForSession k s') = countForSession k s + 1"
    using count_schedule [OF 1(7), of k] 1(5) by (simp add: length_list)
  moreover have "sc_heap s' = sc_heap s" "sc_timeout s' = sc_timeout s" "e \<in> set (nullish (map_get (sc_pending s') k) [])"
    using 1(5,7) by (auto simp: schedule_def split: if_splits)
  ultimately show ?thesis using 1(1,3,4) unfolding MAX_ACTIVE_PER_SESSION_def by auto
next
  case (rejected e)
  then show ?thesis by simp
next
  case thrown
  then show ?thesis by (cases "timerSet dp st uuid t0 args k s") simp
qed

lemma mark_other:
  "(\<forall>r\<in>set R. t_id (fst r) = k \<longrightarrow> \<not> P (fst r)) \<Longrightarrow>
     filter (\<lambda>r. P (fst r)) (mark_fired k R) = filter (\<lambda>r. P (fst r)) R"
  by (induction R) (auto simp: mark_fired_def)

lemma cancel_rows: "sc_rows (snd (cancel k s)) = (if fst (cancel k s) then mark_fired k (sc_rows s) else sc_rows s)"
  by (auto simp: cancel_def Let_def frame_simps split: option.splits)

text \<open>
  A session cancels only its own timers: whatever identifier it gives, the rows of the other
  sessions stay as they are.
\<close>

theorem timer_cancel_isolated:
  assumes "distinct (map (t_id \<circ> fst) (sc_rows s))"
  shows "filter (\<lambda>r. t_sessionId (fst r) \<noteq> k) (sc_rows (snd (timerCancel ident k s)))
       = filter (\<lambda>r. t_sessionId (fst r) \<noteq> k) (sc_rows s)"
proof (cases "find (\<lambda>r. t_id (fst r) = js_trim (nullish ident []) \<and> \<not> snd r) (sc_rows s)")
  case None
  then show ?thesis by (simp add: timerCancel_def Let_def)
next
  case (Some p)
  obtain e f where p: "p = (e, f)" by (cases p)
  have row: "(e, f) \<in> set (sc_rows s)" "t_id e = js_trim (nullish ident [])"
    using Some p by (auto simp: find_Some_iff in_set_conv_nth) (metis fst_conv)
  have only: "t_sessionId (fst r) = k" if "r \<in> set (sc_rows s)" "t_id (fst r) = t_id e" "t_sessionId e = k" for r
    using row_unique [OF assms row(1), of "fst r" "snd r"] that by auto
  show ?thesis
  proof (cases "js_trim (nullish ident []) = [] \<or> t_sessionId e \<noteq> k")
    case True
    then show ?thesis using Some p by (auto simp: timerCancel_def Let_def)
  next
    case False
    then have "snd (timerCancel ident k s) = snd (cancel (t_id e) s)"
      using Some p row(2) by (simp add: timerCancel_def Let_def split: prod.splits)
    moreover have "filter (\<lambda>r. t_sessionId (fst r) \<noteq> k) (mark_fired (t_id e) (sc_rows s))
        = filter (\<lambda>r. t_sessionId (fst r) \<noteq> k) (sc_rows s)"
      using only False by (intro mark_other [where P = "\<lambda>x. t_sessionId x \<noteq> k"]) blast
    ultimately show ?thesis by (simp add: cancel_rows)
  qed
qed

text \<open>
  The two readings of the clock decide a timer at the minimum: a duration of exactly two minutes
  is rejected as too short when the clock moved between \<open>parseFireAt\<close> and the check.
\<close>

theorem two_minutes_race:
  assumes "js_trim (nullish (a_label args) []) \<noteq> []" "a_anchor args = None" "a_at args = Some ''2m''"
    "t0 < sc_now s" "sc_now s < iso_limit"
  shows "timerSet dp st uuid t0 args k s = (TimerError MinimumDuration, s)"
proof -
  have raw: "js_trim ''2m'' = ''2m''" by code_simp
  have two: "nullish (parse_decimal ''2'') 0 = 2" by code_simp
  have "relative_match ''2m'' = Some (''2'', ''m'')" by code_simp
  then have p: "parseFireAt dp t0 ''2m'' = Some (time_clip (of_nat t0 + 120 * 1000))"
    unfolding parseFireAt_def by (simp add: unit_seconds_def two)
  have lim: "iso_limit \<le> 8640000000000000 - 120000" using iso_limit_bounds(2) by simp
  have "(of_nat t0 :: rat) + 120000 = of_int (int t0 + 120000)" by simp
  moreover have "int t0 + 120000 \<le> 8640000000000000" using lim assms(4,5) by linarith
  ultimately have clip: "time_clip (of_nat t0 + 120 * 1000) = Some (int t0 + 120000)"
    unfolding time_clip_def by (simp del: of_int_add of_int_numeral of_int_of_nat_eq) 
  have "check_duration (sc_now s) (Some (int t0 + 120000)) = Some MinimumDuration"
    using assms(4) by (auto simp: check_duration_def Let_def MIN_DURATION_S_def field_simps)
  then show ?thesis
    using assms(1-3) raw p clip by (simp add: timerSet_def check_anchor_def Let_def)
qed

end
