(* ===== verification/Managed_Process.thy ===== *)
theory Managed_Process
  imports Prelude
begin

text \<open>
  A supervised child process, from \<open>procman/src/managed-process.ts\<close>: its state machine, the restart
  policy with its backoff, the health checks that decide when it runs, and the graceful stop. The
  awaits of \<open>start\<close>, \<open>stop\<close>, \<open>restart\<close> and of the health probes are entries of the state, and
  everything that can end one of them (a child's event, a timer, a probe's answer) is an event.
  Signals are sent by the operating system: whether \<open>killPg\<close> and \<open>spawn\<close> succeed is part of the
  event. Output buffers (\<open>Ring_Buffer\<close>), logging and the durations of the timers other than the
  restart delay play no role in the transitions and are left out.
\<close>

section \<open>Specification of a process\<close>

datatype process_state = Starting | Running | Exited | Stopping | Failed | Dead

datatype restart_mode = Never | OnFailure | OnUnexpectedExit | Always

record restart_policy =
  rp_mode :: restart_mode
  rp_maxRetries :: "nat option"
  rp_initialDelayMs :: "rat option"
  rp_backoffMultiplier :: "rat option"
  rp_maxDelayMs :: "rat option"
  rp_resetAfterMs :: "rat option"

datatype health_check = StdoutMatch string | Polling "nat option"

record process_spec =
  ps_id :: string
  ps_ownerKind :: string
  ps_scopeId :: "string option"
  ps_restart :: restart_policy
  ps_health :: "health_check option"
  ps_maxRuntimeSeconds :: "rat option"
  ps_preStop :: bool
  ps_dependsOn :: "string list"

section \<open>State\<close>

text \<open>
  Children are numbered in the order of their spawns. The exit code of a child that was killed by
  a signal is \<open>null\<close>, as it is while the child lives.
\<close>

datatype child_status = Alive | HasExited "int option"

text \<open>Who called \<open>start\<close>: a client, or the restart timer, which catches its failure.\<close>

datatype caller = Client | RestartLogic

datatype ptimer = RuntimeTimer | RestartTimer rat | ResetTimer | ProbeTimer caller

datatype stop_wait = InPreStop nat | AwaitClose nat bool

record mproc =
  m_state :: process_state
  m_child :: "nat option"
  m_pid :: "nat option"
  m_children :: "child_status list"
  m_listening :: "nat list"
  m_restartCount :: nat
  m_startedAt :: bool
  m_consecutiveFailures :: nat
  m_killFailed :: bool
  m_timers :: "ptimer list"
  m_healthRetries :: nat
  m_stopPromise :: bool
  m_stopResolve :: bool
  m_stdoutMatchResolved :: bool
  m_stdoutAccumulator :: string
  m_spawning :: "(nat \<times> caller) list"
  m_probing :: "caller list"
  m_matching :: "caller list"
  m_stopping :: "stop_wait list"
  m_restarting :: nat
  m_settled :: "(caller \<times> bool) list"

definition new_process :: mproc where
  "new_process = \<lparr> m_state = Starting, m_child = None, m_pid = None, m_children = [], m_listening = [],
     m_restartCount = 0, m_startedAt = False, m_consecutiveFailures = 0, m_killFailed = False, m_timers = [],
     m_healthRetries = 0, m_stopPromise = False, m_stopResolve = False, m_stdoutMatchResolved = False,
     m_stdoutAccumulator = [], m_spawning = [], m_probing = [], m_matching = [], m_stopping = [],
     m_restarting = 0, m_settled = [] \<rparr>"

definition remove_nth :: "nat \<Rightarrow> 'a list \<Rightarrow> 'a list" where
  "remove_nth i xs = take i xs @ drop (Suc i) xs"

lemma set_remove_nth: "set (remove_nth i xs) \<subseteq> set xs"
  by (auto simp: remove_nth_def dest: in_set_takeD in_set_dropD)

text \<open>\<open>child.exitCode === null\<close>\<close>

definition exitCode_null :: "mproc \<Rightarrow> nat \<Rightarrow> bool" where
  "exitCode_null p g \<longleftrightarrow>
     (case m_children p ! g of Alive \<Rightarrow> True | HasExited None \<Rightarrow> True | HasExited (Some c) \<Rightarrow> False)"

section \<open>Transitions of the state machine\<close>

definition setState :: "process_state \<Rightarrow> mproc \<Rightarrow> mproc" where
  "setState st p = p\<lparr>m_state := st\<rparr>"

definition clearTimers :: "mproc \<Rightarrow> mproc" where
  "clearTimers p = p\<lparr>m_timers := []\<rparr>"

definition resolveStop :: "mproc \<Rightarrow> mproc" where
  "resolveStop p = p\<lparr>m_stopResolve := False\<rparr>"

definition finalize :: "mproc \<Rightarrow> mproc" where
  "finalize p = resolveStop ((setState Dead (clearTimers p))\<lparr>m_child := None, m_pid := None\<rparr>)"

definition restart_delay :: "restart_policy \<Rightarrow> nat \<Rightarrow> rat" where
  "restart_delay policy n =
     min (nullish (rp_initialDelayMs policy) 1000 * nullish (rp_backoffMultiplier policy) 2 ^ (n - 1))
         (nullish (rp_maxDelayMs policy) 30000)"

definition scheduleRestart :: "process_spec \<Rightarrow> mproc \<Rightarrow> mproc" where
  "scheduleRestart spec p =
     (let n = m_consecutiveFailures p + 1
      in p\<lparr>m_consecutiveFailures := n, m_timers := m_timers p @ [RestartTimer (restart_delay (ps_restart spec) n)]\<rparr>)"

definition scheduleResetTimer :: "process_spec \<Rightarrow> mproc \<Rightarrow> mproc" where
  "scheduleResetTimer spec p =
     (if nullish (rp_resetAfterMs (ps_restart spec)) 60000 > 0 then p\<lparr>m_timers := m_timers p @ [ResetTimer]\<rparr> else p)"

definition shouldRestart :: "restart_mode \<Rightarrow> int option \<Rightarrow> bool \<Rightarrow> bool" where
  "shouldRestart mode code hasSignal \<longleftrightarrow>
     mode = Always \<or> mode = OnUnexpectedExit
     \<or> (mode = OnFailure \<and> code \<noteq> Some 0 \<and> \<not> (hasSignal \<and> code = None))"

definition max_restarts :: "process_spec \<Rightarrow> nat" where
  "max_restarts spec = nullish (rp_maxRetries (ps_restart spec)) 5"

definition onExit :: "process_spec \<Rightarrow> int option \<Rightarrow> bool \<Rightarrow> mproc \<Rightarrow> mproc" where
  "onExit spec code hasSignal p0 =
     (let p = clearTimers p0
      in if m_state p = Stopping then finalize p
         else (let q = setState Exited p
               in if shouldRestart (rp_mode (ps_restart spec)) code hasSignal \<and> m_consecutiveFailures q < max_restarts spec
                  then scheduleRestart spec q
                  else resolveStop ((setState Dead (clearTimers q))\<lparr>m_child := None\<rparr>)))"

definition onHealthy :: "process_spec \<Rightarrow> mproc \<Rightarrow> mproc" where
  "onHealthy spec p =
     (if m_state p \<noteq> Starting then p
      else scheduleResetTimer spec ((setState Running p)\<lparr>m_startedAt := True\<rparr>))"

text \<open>The promise of a \<open>start\<close> settles; the restart timer's own call catches a rejection.\<close>

definition settle_start :: "caller \<Rightarrow> bool \<Rightarrow> mproc \<Rightarrow> mproc" where
  "settle_start c ok p =
     (let q = p\<lparr>m_settled := m_settled p @ [(c, ok)]\<rparr>
      in if \<not> ok \<and> c = RestartLogic then setState Failed q else q)"

definition spawn_child :: "process_spec \<Rightarrow> bool \<Rightarrow> mproc \<Rightarrow> mproc" where
  "spawn_child spec ok p =
     (let g = length (m_children p);
          old = (case m_child p of None \<Rightarrow> m_listening p | Some c \<Rightarrow> filter (\<lambda>x. x \<noteq> c) (m_listening p));
          q = p\<lparr>m_child := Some g, m_pid := (if ok then Some g else None), m_children := m_children p @ [Alive],
                m_listening := old @ [g], m_stdoutMatchResolved := False, m_stdoutAccumulator := []\<rparr>
      in if nullish (ps_maxRuntimeSeconds spec) 0 > 0 then q\<lparr>m_timers := m_timers q @ [RuntimeTimer]\<rparr> else q)"

text \<open>\<open>start\<close> up to the spawn handshake; \<open>ok\<close> tells whether the child got a process identifier.\<close>

definition start_process :: "process_spec \<Rightarrow> caller \<Rightarrow> bool \<Rightarrow> mproc \<Rightarrow> mproc" where
  "start_process spec c ok p =
     (let q = spawn_child spec ok ((setState Starting p)\<lparr>m_killFailed := False\<rparr>)
      in q\<lparr>m_spawning := m_spawning q @ [(length (m_children p), c)]\<rparr>)"

definition matchCheck :: "caller \<Rightarrow> mproc \<Rightarrow> mproc" where
  "matchCheck c p =
     (if m_stdoutMatchResolved p \<or> m_state p = Running then settle_start c True p
      else if m_state p \<noteq> Starting then settle_start c False p
      else p\<lparr>m_matching := m_matching p @ [c]\<rparr>)"

definition runHealthCheck :: "health_check \<Rightarrow> caller \<Rightarrow> mproc \<Rightarrow> mproc" where
  "runHealthCheck hc c p =
     (case hc of
        StdoutMatch pattern \<Rightarrow> matchCheck c p
      | Polling r \<Rightarrow> p\<lparr>m_healthRetries := 0, m_timers := m_timers p @ [ProbeTimer c]\<rparr>)"

text \<open>\<open>start\<close> after the handshake.\<close>

definition start_spawned :: "process_spec \<Rightarrow> caller \<Rightarrow> mproc \<Rightarrow> mproc" where
  "start_spawned spec c p =
     (case ps_health spec of
        None \<Rightarrow>
          settle_start c True
            (if m_state p = Starting
             then scheduleResetTimer spec ((setState Running p)\<lparr>m_startedAt := True\<rparr>) else p)
      | Some hc \<Rightarrow> runHealthCheck hc c p)"

definition start_failed :: "caller \<Rightarrow> mproc \<Rightarrow> mproc" where
  "start_failed c p = settle_start c False (if m_state p = Starting then setState Failed p else p)"

text \<open>One attempt of a polling health check, up to the probe, and what follows the probe.\<close>

definition probe_attempt :: "caller \<Rightarrow> mproc \<Rightarrow> mproc" where
  "probe_attempt c p =
     (if m_state p = Running then settle_start c True p
      else if m_state p \<noteq> Starting then settle_start c False p
      else p\<lparr>m_probing := m_probing p @ [c]\<rparr>)"

definition probe_result :: "process_spec \<Rightarrow> caller \<Rightarrow> bool \<Rightarrow> mproc \<Rightarrow> mproc" where
  "probe_result spec c ok p =
     (if ok then settle_start c True (onHealthy spec p)
      else (let n = m_healthRetries p + 1; q = p\<lparr>m_healthRetries := n\<rparr>;
                limit = (case ps_health spec of Some (Polling r) \<Rightarrow> nullish r 10 | _ \<Rightarrow> 10)
            in if limit \<le> n then settle_start c False (setState Failed q)
               else q\<lparr>m_timers := m_timers q @ [ProbeTimer c]\<rparr>))"

subsection \<open>Stopping\<close>

definition finish_stop :: "mproc \<Rightarrow> mproc" where
  "finish_stop p = (if m_killFailed p then resolveStop (setState Failed p) else finalize p)"

definition kill_failed :: "mproc \<Rightarrow> mproc" where
  "kill_failed p = resolveStop (setState Failed (p\<lparr>m_killFailed := True\<rparr>))"

definition signal_child :: "nat \<Rightarrow> bool \<Rightarrow> mproc \<Rightarrow> mproc" where
  "signal_child g killed p =
     (if \<not> killed then kill_failed p
      else if exitCode_null p g then p\<lparr>m_stopping := m_stopping p @ [AwaitClose g True]\<rparr>
      else finish_stop p)"

definition stop_process :: "process_spec \<Rightarrow> bool \<Rightarrow> mproc \<Rightarrow> mproc" where
  "stop_process spec killed p =
     (if m_state p = Dead \<or> m_stopPromise p then p
      else (let q = clearTimers (setState Stopping (p\<lparr>m_stopPromise := True, m_stopResolve := True\<rparr>))
            in case m_child q of
                 None \<Rightarrow> finalize q
               | Some g \<Rightarrow>
                   if \<not> exitCode_null q g then finalize q
                   else if ps_preStop spec then q\<lparr>m_stopping := m_stopping q @ [InPreStop g]\<rparr>
                   else signal_child g killed q))"

definition grace_expired :: "nat \<Rightarrow> nat \<Rightarrow> bool \<Rightarrow> mproc \<Rightarrow> mproc" where
  "grace_expired i g killed p =
     (let q = p\<lparr>m_stopping := (m_stopping p)[i := AwaitClose g False]\<rparr>
      in if exitCode_null q g \<and> \<not> killed then kill_failed q else q)"

text \<open>\<open>restart\<close> after its \<open>await this.stop()\<close>.\<close>

definition restart_resume :: "process_spec \<Rightarrow> bool \<Rightarrow> mproc \<Rightarrow> mproc" where
  "restart_resume spec ok p =
     (if m_killFailed p then p
      else start_process spec Client ok (p\<lparr>m_stopPromise := False, m_stopResolve := False, m_state := Starting\<rparr>))"

definition close_waiters :: "nat \<Rightarrow> stop_wait list \<Rightarrow> stop_wait list" where
  "close_waiters g = filter (\<lambda>w. case w of AwaitClose c b \<Rightarrow> c = g | InPreStop c \<Rightarrow> False)"

text \<open>The \<open>close\<close> event of a child: the process's own listener first, then those of the waiting stops.\<close>

definition child_closed :: "process_spec \<Rightarrow> nat \<Rightarrow> mproc \<Rightarrow> mproc" where
  "child_closed spec g p =
     (case m_children p ! g of
        Alive \<Rightarrow> p
      | HasExited code \<Rightarrow>
          (let waiting = close_waiters g (m_stopping p);
               q = onExit spec code (code = None)
                     (p\<lparr>m_listening := filter (\<lambda>x. x \<noteq> g) (m_listening p),
                        m_stopping := filter (\<lambda>w. w \<notin> set waiting) (m_stopping p)\<rparr>)
           in if waiting = [] then q else finish_stop q))"

definition stdout_data :: "process_spec \<Rightarrow> string \<Rightarrow> mproc \<Rightarrow> mproc" where
  "stdout_data spec chunk p =
     (case ps_health spec of
        Some (StdoutMatch pattern) \<Rightarrow>
          if \<not> m_stdoutMatchResolved p \<and> m_state p = Starting
          then (let acc = m_stdoutAccumulator p @ chunk
                in if js_includes acc pattern
                   then onHealthy spec (p\<lparr>m_stdoutMatchResolved := True, m_stdoutAccumulator := []\<rparr>)
                   else p\<lparr>m_stdoutAccumulator := acc\<rparr>)
          else p
      | _ \<Rightarrow> p)"

definition match_timeout :: "nat \<Rightarrow> mproc \<Rightarrow> mproc" where
  "match_timeout i p =
     (if m_state p = Starting
      then settle_start (m_matching p ! i) False (setState Failed (p\<lparr>m_matching := remove_nth i (m_matching p)\<rparr>))
      else p)"

definition run_timer :: "process_spec \<Rightarrow> ptimer \<Rightarrow> bool \<Rightarrow> mproc \<Rightarrow> mproc" where
  "run_timer spec tm ok p =
     (case tm of
        RuntimeTimer \<Rightarrow> stop_process spec ok p
      | RestartTimer d \<Rightarrow> start_process spec RestartLogic ok (p\<lparr>m_restartCount := m_restartCount p + 1\<rparr>)
      | ResetTimer \<Rightarrow> if m_state p = Running then p\<lparr>m_consecutiveFailures := 0\<rparr> else p
      | ProbeTimer c \<Rightarrow> probe_attempt c p)"

section \<open>Events\<close>

datatype process_ev =
    Start bool | Stop bool | RestartCall bool | RestartResume bool
  | Spawned nat | SpawnError nat | ChildExit nat "int option" | ChildClose nat | Stdout nat string
  | TimerFires nat bool | MatchPoll nat | MatchTimeout nat | ProbeAnswer nat bool
  | PreStopDone nat bool | GraceExpires nat bool | SafetyExpires nat

text \<open>An event that cannot occur in the state changes nothing.\<close>

definition process_event :: "process_spec \<Rightarrow> process_ev \<Rightarrow> mproc \<Rightarrow> mproc" where
  "process_event spec ev p =
     (case ev of
        Start ok \<Rightarrow> start_process spec Client ok p
      | Stop killed \<Rightarrow> stop_process spec killed p
      | RestartCall killed \<Rightarrow> (let q = stop_process spec killed p in q\<lparr>m_restarting := m_restarting q + 1\<rparr>)
      | RestartResume ok \<Rightarrow>
          if 0 < m_restarting p \<and> \<not> m_stopResolve p
          then restart_resume spec ok (p\<lparr>m_restarting := m_restarting p - 1\<rparr>) else p
      | Spawned i \<Rightarrow>
          if i < length (m_spawning p) \<and> fst (m_spawning p ! i) \<in> set (m_listening p)
          then start_spawned spec (snd (m_spawning p ! i)) (p\<lparr>m_spawning := remove_nth i (m_spawning p)\<rparr>) else p
      | SpawnError i \<Rightarrow>
          if i < length (m_spawning p) \<and> fst (m_spawning p ! i) \<in> set (m_listening p)
          then start_failed (snd (m_spawning p ! i)) (p\<lparr>m_spawning := remove_nth i (m_spawning p)\<rparr>) else p
      | ChildExit g code \<Rightarrow>
          if g < length (m_children p) \<and> m_children p ! g = Alive
          then p\<lparr>m_children := (m_children p)[g := HasExited code]\<rparr> else p
      | ChildClose g \<Rightarrow> if g \<in> set (m_listening p) \<and> g < length (m_children p) then child_closed spec g p else p
      | Stdout g chunk \<Rightarrow> if g \<in> set (m_listening p) then stdout_data spec chunk p else p
      | TimerFires i ok \<Rightarrow>
          if i < length (m_timers p)
          then run_timer spec (m_timers p ! i) ok (p\<lparr>m_timers := remove_nth i (m_timers p)\<rparr>) else p
      | MatchPoll i \<Rightarrow>
          if i < length (m_matching p)
          then matchCheck (m_matching p ! i) (p\<lparr>m_matching := remove_nth i (m_matching p)\<rparr>) else p
      | MatchTimeout i \<Rightarrow> if i < length (m_matching p) then match_timeout i p else p
      | ProbeAnswer i ok \<Rightarrow>
          if i < length (m_probing p)
          then probe_result spec (m_probing p ! i) ok (p\<lparr>m_probing := remove_nth i (m_probing p)\<rparr>) else p
      | PreStopDone i killed \<Rightarrow>
          if i < length (m_stopping p)
          then (case m_stopping p ! i of
                  InPreStop g \<Rightarrow> signal_child g killed (p\<lparr>m_stopping := remove_nth i (m_stopping p)\<rparr>)
                | AwaitClose g b \<Rightarrow> p)
          else p
      | GraceExpires i killed \<Rightarrow>
          if i < length (m_stopping p)
          then (case m_stopping p ! i of AwaitClose g True \<Rightarrow> grace_expired i g killed p | _ \<Rightarrow> p) else p
      | SafetyExpires i \<Rightarrow>
          if i < length (m_stopping p)
          then (case m_stopping p ! i of
                  AwaitClose g b \<Rightarrow> finish_stop (p\<lparr>m_killFailed := True, m_stopping := remove_nth i (m_stopping p)\<rparr>)
                | InPreStop g \<Rightarrow> p)
          else p)"

definition process_run :: "process_spec \<Rightarrow> process_ev list \<Rightarrow> mproc \<Rightarrow> mproc" where
  "process_run spec evs p = fold (process_event spec) evs p"

section \<open>What the operations leave alone\<close>

definition is_restart :: "ptimer \<Rightarrow> bool" where
  "is_restart t \<longleftrightarrow> (case t of RestartTimer d \<Rightarrow> True | _ \<Rightarrow> False)"

lemma is_restart_simps [simp]:
  "is_restart (RestartTimer d)" "\<not> is_restart RuntimeTimer" "\<not> is_restart ResetTimer" "\<not> is_restart (ProbeTimer c)"
  by (simp_all add: is_restart_def)

definition restart_timers :: "mproc \<Rightarrow> ptimer list" where
  "restart_timers p = filter is_restart (m_timers p)"

definition resets :: "process_spec \<Rightarrow> bool" where
  "resets spec \<longleftrightarrow> 0 < nullish (rp_resetAfterMs (ps_restart spec)) 60000"

text \<open>
  An operation is calm when it spawns nothing, counts nothing, and at most cancels the pending
  restart.
\<close>

definition calm :: "process_spec \<Rightarrow> mproc \<Rightarrow> mproc \<Rightarrow> bool" where
  "calm spec p q \<longleftrightarrow> m_consecutiveFailures q = m_consecutiveFailures p \<and> m_restartCount q = m_restartCount p
     \<and> m_listening q = m_listening p \<and> length (m_children q) = length (m_children p) \<and> m_restarting q = m_restarting p
     \<and> (restart_timers q = [] \<or> restart_timers q = restart_timers p)
     \<and> (ResetTimer \<in> set (m_timers q) \<longrightarrow> ResetTimer \<in> set (m_timers p) \<or> resets spec)"

named_theorems calm_intros \<open>operations that are calm\<close>

lemma calm_refl [simp, calm_intros]: "calm spec p p"
  by (simp add: calm_def)

lemma calm_trans: "calm spec p q \<Longrightarrow> calm spec q r \<Longrightarrow> calm spec p r"
  unfolding calm_def by auto

lemma calm_same:
  "m_consecutiveFailures q = m_consecutiveFailures p \<Longrightarrow> m_restartCount q = m_restartCount p \<Longrightarrow>
   m_listening q = m_listening p \<Longrightarrow> length (m_children q) = length (m_children p) \<Longrightarrow>
   m_restarting q = m_restarting p \<Longrightarrow> m_timers q = m_timers p \<Longrightarrow> calm spec p q"
  by (simp add: calm_def restart_timers_def)

lemma calm_setState [calm_intros]: "calm spec p (setState st p)"
  by (rule calm_same) (simp_all add: setState_def)

lemma calm_finalize [calm_intros]: "calm spec p (finalize p)"
  by (simp add: calm_def finalize_def resolveStop_def setState_def clearTimers_def restart_timers_def)

lemma calm_settle [calm_intros]: "calm spec p (settle_start c ok p)"
  by (rule calm_same) (simp_all add: settle_start_def setState_def Let_def)

lemma calm_reset [calm_intros]: "calm spec p (scheduleResetTimer spec p)"
  by (simp add: calm_def scheduleResetTimer_def restart_timers_def resets_def)

lemma calm_onHealthy [calm_intros]: "calm spec p (onHealthy spec p)"
  by (simp add: calm_def onHealthy_def scheduleResetTimer_def setState_def restart_timers_def resets_def)

lemma calm_matchCheck [calm_intros]: "calm spec p (matchCheck c p)"
  unfolding matchCheck_def by (auto intro: calm_intros calm_same)

lemma calm_runHealthCheck [calm_intros]: "calm spec p (runHealthCheck hc c p)"
proof (cases hc)
  case (StdoutMatch pattern)
  then show ?thesis by (simp add: runHealthCheck_def calm_matchCheck)
next
  case (Polling r)
  then show ?thesis by (simp add: runHealthCheck_def calm_def restart_timers_def)
qed

lemma calm_start_spawned [calm_intros]: "calm spec p (start_spawned spec c p)"
proof (cases "ps_health spec")
  case None
  have "start_spawned spec c p = settle_start c True (onHealthy spec p)"
    using None by (simp add: start_spawned_def onHealthy_def)
  then show ?thesis using calm_trans calm_onHealthy calm_settle by metis
next
  case (Some hc)
  then show ?thesis using calm_runHealthCheck [of spec p hc c] by (simp add: start_spawned_def)
qed

lemma calm_start_failed [calm_intros]: "calm spec p (start_failed c p)"
  unfolding start_failed_def by (rule calm_trans [of spec p "if m_state p = Starting then setState Failed p else p"]) (simp_all add: calm_intros)

lemma calm_probe_attempt [calm_intros]: "calm spec p (probe_attempt c p)"
  unfolding probe_attempt_def by (auto intro: calm_intros calm_same)

lemma calm_probe_result [calm_intros]: "calm spec p (probe_result spec c ok p)"
proof (cases ok)
  case True
  then show ?thesis using calm_trans [OF calm_onHealthy calm_settle] by (simp add: probe_result_def)
next
  case False
  have "calm spec p (settle_start c False (setState Failed (p\<lparr>m_healthRetries := m_healthRetries p + 1\<rparr>)))"
    by (rule calm_same) (simp_all add: settle_start_def setState_def Let_def)
  moreover have "calm spec p (p\<lparr>m_healthRetries := n, m_timers := m_timers p @ [ProbeTimer c]\<rparr>)" for n
    by (simp add: calm_def restart_timers_def)
  ultimately show ?thesis using False by (simp add: probe_result_def Let_def)
qed

lemma calm_finish_stop [calm_intros]: "calm spec p (finish_stop p)"
  unfolding finish_stop_def using calm_finalize by (auto simp: resolveStop_def setState_def intro: calm_same)

lemma calm_kill_failed [calm_intros]: "calm spec p (kill_failed p)"
  by (rule calm_same) (simp_all add: kill_failed_def resolveStop_def setState_def)

lemma calm_signal_child [calm_intros]: "calm spec p (signal_child g killed p)"
  unfolding signal_child_def by (auto intro: calm_intros calm_same)

lemma calm_stop_process [calm_intros]: "calm spec p (stop_process spec killed p)"
proof -
  let ?q = "clearTimers (setState Stopping (p\<lparr>m_stopPromise := True, m_stopResolve := True\<rparr>))"
  have q: "calm spec p ?q" by (simp add: calm_def clearTimers_def setState_def restart_timers_def)
  have "calm spec ?q (?q\<lparr>m_stopping := m_stopping ?q @ [InPreStop g]\<rparr>)" for g by (rule calm_same) simp_all
  note steps = calm_trans [OF q this] calm_trans [OF q calm_finalize] calm_trans [OF q calm_signal_child]
  show ?thesis
    unfolding stop_process_def Let_def by (simp add: steps split: option.splits)
qed

lemma calm_grace_expired [calm_intros]: "calm spec p (grace_expired i g killed p)"
proof -
  have "calm spec p (p\<lparr>m_stopping := (m_stopping p)[i := AwaitClose g False]\<rparr>)" by (rule calm_same) simp_all
  from this calm_trans [OF this calm_kill_failed] show ?thesis by (simp add: grace_expired_def Let_def)
qed

lemma calm_stdout_data [calm_intros]: "calm spec p (stdout_data spec chunk p)"
proof -
  have "calm spec p (p\<lparr>m_stdoutMatchResolved := True, m_stdoutAccumulator := []\<rparr>)"
    "\<And>acc. calm spec p (p\<lparr>m_stdoutAccumulator := acc\<rparr>)" by (rule calm_same; simp)+
  then show ?thesis
    unfolding stdout_data_def Let_def using calm_trans calm_onHealthy
    by (auto split: option.splits health_check.splits)
qed

lemma calm_match_timeout [calm_intros]: "calm spec p (match_timeout i p)"
proof -
  have "calm spec p (settle_start c False (setState Failed (p\<lparr>m_matching := xs\<rparr>)))" for c xs
    by (rule calm_same) (simp_all add: settle_start_def setState_def Let_def)
  then show ?thesis by (simp add: match_timeout_def)
qed

text \<open>A \<open>start\<close> adds one child and no restart.\<close>

lemma start_process_effect:
  "m_consecutiveFailures (start_process spec c ok p) = m_consecutiveFailures p"
  "m_restartCount (start_process spec c ok p) = m_restartCount p"
  "restart_timers (start_process spec c ok p) = restart_timers p"
  "ResetTimer \<in> set (m_timers (start_process spec c ok p)) \<longleftrightarrow> ResetTimer \<in> set (m_timers p)"
  "m_children (start_process spec c ok p) = m_children p @ [Alive]"
  by (simp_all add: start_process_def spawn_child_def setState_def restart_timers_def Let_def)

text \<open>What the exit of a child does to the counters and the timers.\<close>

lemma onExit_effect:
  "m_restartCount (onExit spec code sg p) = m_restartCount p"
  "m_listening (onExit spec code sg p) = m_listening p"
  "m_children (onExit spec code sg p) = m_children p"
  "m_timers (onExit spec code sg p) = [] \<and> m_consecutiveFailures (onExit spec code sg p) = m_consecutiveFailures p
   \<or> m_consecutiveFailures p < max_restarts spec \<and> m_consecutiveFailures (onExit spec code sg p) = m_consecutiveFailures p + 1
     \<and> m_timers (onExit spec code sg p) = [RestartTimer (restart_delay (ps_restart spec) (m_consecutiveFailures p + 1))]"
  "m_restarting (onExit spec code sg p) = m_restarting p"
  by (auto simp: onExit_def finalize_def scheduleRestart_def resolveStop_def setState_def clearTimers_def Let_def)

lemma restart_resume_effect:
  "m_consecutiveFailures (restart_resume spec ok p) = m_consecutiveFailures p"
  "m_restartCount (restart_resume spec ok p) = m_restartCount p"
  "restart_timers (restart_resume spec ok p) = restart_timers p"
  "ResetTimer \<in> set (m_timers (restart_resume spec ok p)) \<longleftrightarrow> ResetTimer \<in> set (m_timers p)"
  by (simp_all add: restart_resume_def start_process_effect) (simp add: restart_timers_def)

section \<open>The restart policy is bounded\<close>

definition max_delay :: "process_spec \<Rightarrow> rat" where
  "max_delay spec = nullish (rp_maxDelayMs (ps_restart spec)) 30000"

definition restart_inv :: "process_spec \<Rightarrow> mproc \<Rightarrow> bool" where
  "restart_inv spec p \<longleftrightarrow> m_consecutiveFailures p \<le> max_restarts spec
     \<and> (\<forall>d. RestartTimer d \<in> set (restart_timers p) \<longrightarrow> d \<le> max_delay spec) \<and> length (restart_timers p) \<le> 1
     \<and> (\<not> resets spec \<longrightarrow> ResetTimer \<notin> set (m_timers p)
          \<and> m_restartCount p + length (restart_timers p) \<le> m_consecutiveFailures p)"

lemma restart_inv_calm: "restart_inv spec p \<Longrightarrow> calm spec p q \<Longrightarrow> restart_inv spec q"
  unfolding restart_inv_def calm_def by auto

lemma restart_inv_like:
  "restart_inv spec p \<Longrightarrow> m_consecutiveFailures q = m_consecutiveFailures p \<Longrightarrow> m_restartCount q = m_restartCount p \<Longrightarrow>
   restart_timers q = restart_timers p \<Longrightarrow> (ResetTimer \<in> set (m_timers q) \<longleftrightarrow> ResetTimer \<in> set (m_timers p)) \<Longrightarrow>
   restart_inv spec q"
  unfolding restart_inv_def by simp

lemma restart_inv_start: "restart_inv spec p \<Longrightarrow> restart_inv spec (start_process spec c ok p)"
  by (erule restart_inv_like) (simp_all add: start_process_effect)

lemma restart_delay_le: "restart_delay (ps_restart spec) n \<le> max_delay spec"
  by (simp add: restart_delay_def max_delay_def)

lemma restart_inv_exit: "restart_inv spec p \<Longrightarrow> restart_inv spec (onExit spec code sg p)"
  using onExit_effect(1) [of spec code sg p] onExit_effect(4) [of spec code sg p] restart_delay_le [of spec "m_consecutiveFailures p + 1"]
  unfolding restart_inv_def restart_timers_def by auto

lemma filter_remove_nth:
  "i < length xs \<Longrightarrow> length (filter P xs) = length (filter P (remove_nth i xs)) + (if P (xs ! i) then 1 else 0)"
  by (subst id_take_nth_drop [of i xs]) (simp_all add: remove_nth_def)

lemma restart_inv_timer:
  assumes "restart_inv spec p" "i < length (m_timers p)"
  shows "restart_inv spec (run_timer spec (m_timers p ! i) ok (p\<lparr>m_timers := remove_nth i (m_timers p)\<rparr>))"
proof -
  let ?q = "p\<lparr>m_timers := remove_nth i (m_timers p)\<rparr>"
  have n: "length (restart_timers p) = length (restart_timers ?q) + (if is_restart (m_timers p ! i) then 1 else 0)"
    using filter_remove_nth [OF assms(2), of is_restart] by (simp add: restart_timers_def)
  have sub: "set (restart_timers ?q) \<subseteq> set (restart_timers p)" "set (m_timers ?q) \<subseteq> set (m_timers p)"
    using set_remove_nth [of i "m_timers p"] by (auto simp: restart_timers_def)
  have q: "restart_inv spec ?q" using assms(1) n sub unfolding restart_inv_def by (auto split: if_splits)
  show ?thesis
  proof (cases "m_timers p ! i")
    case (RestartTimer d)
    let ?r = "?q\<lparr>m_restartCount := m_restartCount ?q + 1\<rparr>"
    have "restart_timers ?r = restart_timers ?q" by (simp add: restart_timers_def)
    then have "restart_inv spec ?r" using assms(1) q n RestartTimer unfolding restart_inv_def by auto
    then show ?thesis using RestartTimer restart_inv_start by (simp add: run_timer_def)
  next
    case ResetTimer
    then have "resets spec" using assms nth_mem unfolding restart_inv_def by metis
    then have "restart_inv spec (?q\<lparr>m_consecutiveFailures := 0\<rparr>)"
      using q unfolding restart_inv_def restart_timers_def by auto
    then show ?thesis using q ResetTimer by (simp add: run_timer_def)
  qed (use restart_inv_calm [OF q] in \<open>simp_all add: run_timer_def calm_intros\<close>)
qed

lemma restart_inv_closed:
  assumes "restart_inv spec p"
  shows "restart_inv spec (child_closed spec g p)"
proof (cases "m_children p ! g")
  case (HasExited code)
  let ?q = "p\<lparr>m_listening := filter (\<lambda>x. x \<noteq> g) (m_listening p),
    m_stopping := filter (\<lambda>w. w \<notin> set (close_waiters g (m_stopping p))) (m_stopping p)\<rparr>"
  have "restart_inv spec ?q" by (rule restart_inv_like [OF assms]) (simp_all add: restart_timers_def)
  then have "restart_inv spec (onExit spec code (code = None) ?q)" by (rule restart_inv_exit)
  moreover from this have "restart_inv spec (finish_stop (onExit spec code (code = None) ?q))"
    by (rule restart_inv_calm [OF _ calm_finish_stop])
  ultimately show ?thesis unfolding child_closed_def HasExited Let_def child_status.case by (simp only: if_cancel split: if_split) blast
qed (use assms in \<open>simp add: child_closed_def\<close>)

text \<open>Every event is calm but a start, a restart, the close of a child and a timer.\<close>

definition calm_kind :: "process_ev \<Rightarrow> bool" where
  "calm_kind ev \<longleftrightarrow> (case ev of Start ok \<Rightarrow> False | RestartCall ok \<Rightarrow> False | RestartResume ok \<Rightarrow> False | ChildClose g \<Rightarrow> False
     | TimerFires i ok \<Rightarrow> False | _ \<Rightarrow> True)"

lemma calm_event:
  assumes "calm_kind ev"
  shows "calm spec p (process_event spec ev p)"
proof -
  have upd: "calm spec p (p\<lparr>m_spawning := a\<rparr>)" "calm spec p (p\<lparr>m_matching := b\<rparr>)" "calm spec p (p\<lparr>m_probing := c\<rparr>)"
    "calm spec p (p\<lparr>m_stopping := d\<rparr>)" "calm spec p (p\<lparr>m_killFailed := True, m_stopping := d\<rparr>)"
    "calm spec p (p\<lparr>m_children := (m_children p)[g := st]\<rparr>)" for a b c d g st
    by (rule calm_same; simp)+
  note steps = calm_trans [OF upd(1) calm_start_spawned] calm_trans [OF upd(1) calm_start_failed]
    calm_trans [OF upd(2) calm_matchCheck] calm_trans [OF upd(3) calm_probe_result]
    calm_trans [OF upd(4) calm_signal_child] calm_trans [OF upd(5) calm_finish_stop]
    calm_stop_process calm_stdout_data calm_match_timeout calm_grace_expired upd(6)
  show ?thesis
  proof (cases ev)
    case (GraceExpires i killed)
    then show ?thesis
      by (auto simp: process_event_def steps split: stop_wait.splits bool.splits)
  qed (use assms in \<open>simp_all add: calm_kind_def process_event_def Let_def steps split: stop_wait.splits\<close>)
qed

lemma restart_inv_event:
  assumes "restart_inv spec p"
  shows "restart_inv spec (process_event spec ev p)"
proof (cases "calm_kind ev")
  case True
  then show ?thesis using restart_inv_calm [OF assms calm_event] by blast
next
  case False
  then show ?thesis
  proof (cases ev)
    case (Start ok)
    then show ?thesis using restart_inv_start [OF assms] by (simp add: process_event_def)
  next
    case (RestartCall killed)
    have "restart_inv spec (stop_process spec killed p)" by (rule restart_inv_calm [OF assms calm_stop_process])
    then show ?thesis
      by (rule restart_inv_like) (simp_all add: RestartCall process_event_def Let_def restart_timers_def)
  next
    case (RestartResume ok)
    show ?thesis
      by (rule restart_inv_like [OF assms])
        (simp_all add: RestartResume process_event_def restart_resume_effect, simp add: restart_timers_def)
  next
    case (ChildClose g)
    then show ?thesis using assms restart_inv_closed by (simp add: process_event_def)
  next
    case (TimerFires i ok)
    then show ?thesis using assms restart_inv_timer by (simp add: process_event_def)
  qed (simp_all add: calm_kind_def)
qed

lemma restart_inv_new: "restart_inv spec new_process"
  by (simp add: restart_inv_def new_process_def restart_timers_def)

interpretation process_system: transition_system "\<lambda>p. p = new_process" "\<lambda>p q. \<exists>ev. q = process_event spec ev p" "restart_inv spec" for spec
  by unfold_locales (auto simp: restart_inv_event restart_inv_new)

lemma process_run_inv: "restart_inv spec p \<Longrightarrow> restart_inv spec (process_run spec evs p)"
  by (induction evs arbitrary: p) (simp_all add: process_run_def restart_inv_event)

text \<open>
  C21. The restart policy is bounded in every reachable state: at most \<open>maxRetries\<close> failures are
  counted, at most one restart is pending and its delay is at most \<open>maxDelayMs\<close>; and a process
  whose counter is never reset (\<open>resetAfterMs\<close> is not positive) is restarted at most \<open>maxRetries\<close>
  times in its life.
\<close>

theorem restarts_bounded:
  fixes spec evs
  defines "p \<equiv> process_run spec evs new_process"
  shows "m_consecutiveFailures p \<le> max_restarts spec \<and> length (restart_timers p) \<le> 1
    \<and> list_all (\<lambda>t. case t of RestartTimer d \<Rightarrow> d \<le> max_delay spec | _ \<Rightarrow> True) (m_timers p)
    \<and> (resets spec \<or> m_restartCount p \<le> max_restarts spec)"
  using process_run_inv [OF restart_inv_new, of spec evs]
  unfolding p_def restart_inv_def restart_timers_def by (auto simp: list_all_iff split: ptimer.split)

section \<open>A stopped process stays stopped\<close>

text \<open>Nothing is left that could spawn: every child is closed and no restart is pending.\<close>

definition quiet :: "mproc \<Rightarrow> bool" where
  "quiet p \<longleftrightarrow> m_listening p = [] \<and> restart_timers p = [] \<and> m_restarting p = 0"

definition starts :: "process_ev \<Rightarrow> bool" where
  "starts ev \<longleftrightarrow> (case ev of Start ok \<Rightarrow> True | RestartCall ok \<Rightarrow> True | _ \<Rightarrow> False)"

lemma quiet_calm: "quiet p \<Longrightarrow> calm spec p q \<Longrightarrow> quiet q \<and> length (m_children q) = length (m_children p)"
  unfolding quiet_def calm_def by auto

lemma quiet_timer:
  fixes spec ok
  assumes "quiet p" "i < length (m_timers p)"
  defines "r \<equiv> run_timer spec (m_timers p ! i) ok (p\<lparr>m_timers := remove_nth i (m_timers p)\<rparr>)"
  shows "quiet r \<and> length (m_children r) = length (m_children p)"
proof -
  let ?q = "p\<lparr>m_timers := remove_nth i (m_timers p)\<rparr>"
  have nr: "\<not> is_restart (m_timers p ! i)"
    using assms(1) nth_mem [OF assms(2)] by (auto simp: quiet_def restart_timers_def filter_empty_conv)
  have q: "quiet ?q"
    using assms(1) set_remove_nth [of i "m_timers p"] by (auto simp: quiet_def restart_timers_def filter_empty_conv)
  show ?thesis
  proof (cases "m_timers p ! i")
    case ResetTimer
    then show ?thesis using q by (auto simp: r_def run_timer_def quiet_def restart_timers_def)
  next
    case RuntimeTimer
    then show ?thesis using quiet_calm [OF q calm_stop_process] by (simp add: r_def run_timer_def)
  next
    case (ProbeTimer c)
    then show ?thesis using quiet_calm [OF q calm_probe_attempt] by (simp add: r_def run_timer_def)
  qed (use nr in simp)
qed

lemma quiet_event:
  assumes "quiet p" "\<not> starts ev"
  shows "quiet (process_event spec ev p) \<and> length (m_children (process_event spec ev p)) = length (m_children p)"
proof (cases "calm_kind ev")
  case True
  then show ?thesis using quiet_calm [OF assms(1) calm_event] by blast
next
  case False
  then show ?thesis
  proof (cases ev)
    case (TimerFires i ok)
    then show ?thesis using assms(1) quiet_timer by (simp add: process_event_def)
  qed (use assms in \<open>simp_all add: calm_kind_def starts_def process_event_def quiet_def\<close>)
qed

lemma quiet_run:
  "quiet p \<Longrightarrow> list_all (\<lambda>ev. \<not> starts ev) evs \<Longrightarrow>
     quiet (process_run spec evs p) \<and> length (m_children (process_run spec evs p)) = length (m_children p)"
proof (induction evs arbitrary: p)
  case (Cons ev evs)
  then show ?case using quiet_event [of p ev spec] by (simp add: process_run_def)
qed (simp add: process_run_def)

text \<open>
  C15. A stop that waits for its child ends: suppose a stop awaits the close of a child, the child has
  exited, it is the only child of the process that is still listened to, no restart is under way and no
  kill of the process has failed. Then, whatever the state and the pending timers of the process are, the
  close of that child leaves the process dead, with no timer and no child and the promise of the stop
  resolved; and from there on, as long as nobody starts or restarts it, nothing is ever spawned again. (After
  a kill that failed the process ends in the state failed instead.)
\<close>

theorem stop_is_final:
  fixes spec p g
  assumes "AwaitClose g b \<in> set (m_stopping p)" "\<not> m_killFailed p" "m_children p ! g = HasExited code"
    "g < length (m_children p)" "m_listening p = [g]" "m_restarting p = 0" "list_all (\<lambda>ev. \<not> starts ev) evs"
  defines "q \<equiv> process_event spec (ChildClose g) p"
  shows "m_state q = Dead \<and> m_timers q = [] \<and> m_child q = None \<and> \<not> m_stopResolve q
    \<and> length (m_children (process_run spec evs q)) = length (m_children p)"
proof -
  let ?w = "close_waiters g (m_stopping p)"
  let ?p = "p\<lparr>m_listening := filter (\<lambda>x. x \<noteq> g) (m_listening p), m_stopping := filter (\<lambda>w. w \<notin> set ?w) (m_stopping p)\<rparr>"
  let ?e = "onExit spec code (code = None) ?p"
  have "AwaitClose g b \<in> set ?w" using assms(1) by (simp add: close_waiters_def)
  then have w: "?w \<noteq> []" by auto
  have kf: "m_killFailed ?e = m_killFailed p"
    by (auto simp: onExit_def finalize_def scheduleRestart_def resolveStop_def setState_def clearTimers_def Let_def)
  have "q = finish_stop ?e"
    using assms(3,4,5) w by (simp add: q_def process_event_def child_closed_def Let_def)
  then have q: "q = finalize ?e" using assms(2) kf by (simp add: finish_stop_def)
  have l: "m_listening ?e = []" "m_restarting ?e = 0" "length (m_children ?e) = length (m_children p)"
    using onExit_effect(2,3,5) [of spec code "code = None" ?p] assms(5,6) by simp_all
  have "quiet q" using q l by (simp add: quiet_def finalize_def resolveStop_def setState_def clearTimers_def restart_timers_def)
  moreover have "length (m_children q) = length (m_children p)"
    using q l(3) by (simp add: finalize_def resolveStop_def setState_def clearTimers_def)
  ultimately have "length (m_children (process_run spec evs q)) = length (m_children p)"
    using quiet_run [OF _ assms(7)] by simp
  then show ?thesis using q by (simp add: finalize_def resolveStop_def setState_def clearTimers_def)
qed

text \<open>
  When a child that nobody is stopping closes, it is restarted exactly if retries are left and
  the policy is \<open>always\<close>, \<open>on-unexpected-exit\<close> (a clean exit with code 0 included), or \<open>on-failure\<close>
  with an exit code other than 0; otherwise the process is dead with no timer left.
\<close>

theorem exit_policy:
  fixes spec p g
  assumes "m_children p ! g = HasExited code" "g < length (m_children p)" "g \<in> set (m_listening p)"
    "m_state p \<noteq> Stopping" "close_waiters g (m_stopping p) = []"
  defines "q \<equiv> process_event spec (ChildClose g) p" and "mode \<equiv> rp_mode (ps_restart spec)"
  shows "if m_consecutiveFailures p < max_restarts spec
            \<and> (mode = Always \<or> mode = OnUnexpectedExit \<or> mode = OnFailure \<and> code \<noteq> None \<and> code \<noteq> Some 0)
         then m_state q = Exited \<and> m_timers q = [RestartTimer (restart_delay (ps_restart spec) (m_consecutiveFailures p + 1))]
         else m_state q = Dead \<and> m_timers q = [] \<and> m_child q = None"
proof -
  let ?p = "p\<lparr>m_listening := filter (\<lambda>x. x \<noteq> g) (m_listening p), m_stopping := filter (\<lambda>w. w \<notin> set (close_waiters g (m_stopping p))) (m_stopping p)\<rparr>"
  have "q = onExit spec code (code = None) ?p"
    using assms(1-3,5) by (simp add: q_def process_event_def child_closed_def Let_def)
  then show ?thesis
    using assms(4) by (auto simp: onExit_def shouldRestart_def scheduleRestart_def resolveStop_def setState_def clearTimers_def Let_def mode_def)
qed

text \<open>
  A stop that comes between the exit of the child and the close of its streams reports success
  at once, and the close that follows schedules a restart of the process that was stopped.
\<close>

theorem stop_before_close_restarts:
  fixes spec p killed
  assumes "m_child p = Some g" "g < length (m_children p)" "m_children p ! g = HasExited (Some c)"
    "g \<in> set (m_listening p)" "close_waiters g (m_stopping p) = []"
    "m_state p \<noteq> Dead" "\<not> m_stopPromise p" "rp_mode (ps_restart spec) = Always" "m_consecutiveFailures p < max_restarts spec"
  defines "q \<equiv> process_event spec (Stop killed) p"
  shows "m_state q = Dead \<and> m_stopPromise q \<and> \<not> m_stopResolve q
    \<and> length (restart_timers (process_event spec (ChildClose g) q)) = 1"
proof -
  let ?s = "clearTimers (setState Stopping (p\<lparr>m_stopPromise := True, m_stopResolve := True\<rparr>))"
  have q: "q = finalize ?s"
    using assms(1,3,6,7) by (simp add: q_def process_event_def stop_process_def Let_def exitCode_null_def clearTimers_def setState_def)
  have f: "m_children q = m_children p" "m_listening q = m_listening p" "m_stopping q = m_stopping p"
    "m_consecutiveFailures q = m_consecutiveFailures p" "m_state q = Dead" "m_stopPromise q" "\<not> m_stopResolve q"
    using q by (simp_all add: finalize_def resolveStop_def setState_def clearTimers_def)
  have "m_timers (process_event spec (ChildClose g) q)
      = [RestartTimer (restart_delay (ps_restart spec) (m_consecutiveFailures p + 1))]"
    using assms(2-5,8,9) f
    by (simp add: process_event_def child_closed_def onExit_def shouldRestart_def scheduleRestart_def resolveStop_def
        setState_def clearTimers_def Let_def)
  then show ?thesis using f by (simp add: restart_timers_def)
qed

text \<open>
  Stopping a process that waits for its restart after a signal killed it waits for a child that
  has already closed: the exit code of such a child is \<open>null\<close>, nothing but the safety timeout can end
  the wait, and the stop then reports that the process could not be killed.
\<close>

theorem stop_after_signal_fails:
  fixes spec p
  assumes "m_child p = Some g" "m_children p ! g = HasExited None" "m_stopping p = []"
    "m_state p = Exited" "\<not> m_stopPromise p" "\<not> ps_preStop spec"
  defines "q \<equiv> process_event spec (Stop True) p"
  shows "m_stopping q = [AwaitClose g True] \<and> m_stopResolve q
    \<and> m_killFailed (process_event spec (SafetyExpires 0) q) \<and> m_state (process_event spec (SafetyExpires 0) q) = Failed"
proof -
  let ?s = "clearTimers (setState Stopping (p\<lparr>m_stopPromise := True, m_stopResolve := True\<rparr>))"
  have q: "q = ?s\<lparr>m_stopping := [AwaitClose g True]\<rparr>"
    using assms(1-6)
    by (simp add: q_def process_event_def stop_process_def signal_child_def Let_def exitCode_null_def clearTimers_def setState_def)
  show ?thesis
    unfolding q by (simp add: process_event_def finish_stop_def resolveStop_def setState_def clearTimers_def)
qed

end
