(* ===== verification/Process_Manager.thy ===== *)
theory Process_Manager
  imports Managed_Process "HOL-Library.Multiset"
begin

text \<open>
  The registry of supervised processes, from \<open>procman/src/process-manager.ts\<close>: registration, the
  stop of one, of an owner's and of all processes, and the order in which the last one goes through
  them. What \<open>await mp.stop()\<close> leaves behind is the parameter \<open>stopped\<close>: \<open>Managed_Process\<close> models
  the stop itself, event by event.
\<close>

record pmanager =
  pm_processes :: "(string, process_spec \<times> mproc) jsmap"
  pm_handlers :: "string list"
  pm_stopFailed :: "string list list"

definition new_process_manager :: pmanager where
  "new_process_manager = \<lparr> pm_processes = [], pm_handlers = [], pm_stopFailed = [] \<rparr>"

datatype pm_error = AlreadyRegistered string | NoProcess string | KillFailed string

definition pm_start :: "process_spec \<Rightarrow> bool \<Rightarrow> pmanager \<Rightarrow> pm_error + pmanager" where
  "pm_start spec ok m =
     (if map_has (pm_processes m) (ps_id spec) then Inl (AlreadyRegistered (ps_id spec))
      else Inr (m\<lparr>pm_processes := map_set (ps_id spec) (spec, start_process spec Client ok new_process) (pm_processes m),
                  pm_handlers := set_add (ps_id spec) (pm_handlers m)\<rparr>))"

definition removeListeners :: "string \<Rightarrow> pmanager \<Rightarrow> pmanager" where
  "removeListeners k m = m\<lparr>pm_handlers := filter (\<lambda>x. x \<noteq> k) (pm_handlers m)\<rparr>"

definition deregister :: "string \<Rightarrow> pmanager \<Rightarrow> pmanager" where
  "deregister k m = (let n = removeListeners k m in n\<lparr>pm_processes := map_delete k (pm_processes n)\<rparr>)"

definition put_process :: "string \<Rightarrow> process_spec \<Rightarrow> mproc \<Rightarrow> pmanager \<Rightarrow> pmanager" where
  "put_process k spec p m = m\<lparr>pm_processes := map_set k (spec, p) (pm_processes m)\<rparr>"

definition pm_stop :: "(string \<Rightarrow> mproc \<Rightarrow> mproc) \<Rightarrow> string \<Rightarrow> pmanager \<Rightarrow> pm_error option \<times> pmanager" where
  "pm_stop stopped k m =
     (case map_get (pm_processes m) k of
        None \<Rightarrow> (Some (NoProcess k), m)
      | Some (spec, p) \<Rightarrow>
          (let q = stopped k p; n = put_process k spec q m
           in if m_killFailed q then (Some (KillFailed k), n) else (None, deregister k n)))"

definition listByOwner :: "string option \<Rightarrow> string option \<Rightarrow> pmanager \<Rightarrow> (string \<times> process_spec \<times> mproc) list" where
  "listByOwner kind scopeId m =
     filter (\<lambda>(k, spec, p). (kind = None \<or> kind = Some (ps_ownerKind spec))
                            \<and> (scopeId = None \<or> scopeId = ps_scopeId spec)) (pm_processes m)"

definition stopByOwner :: "(string \<Rightarrow> mproc \<Rightarrow> mproc) \<Rightarrow> string option \<Rightarrow> string option \<Rightarrow> pmanager \<Rightarrow> pmanager" where
  "stopByOwner stopped kind scopeId m =
     fold (\<lambda>(k, spec, p) m. snd (pm_stop stopped k m)) (listByOwner kind scopeId m) m"

section \<open>Shutdown order\<close>

text \<open>Those registered processes that depend on \<open>k\<close>.\<close>

definition dependedOnBy :: "(string, process_spec \<times> mproc) jsmap \<Rightarrow> string \<Rightarrow> string list" where
  "dependedOnBy ps k = map fst (filter (\<lambda>(a, spec, p). k \<in> set (ps_dependsOn spec)) ps)"

function shutdown_batches :: "(string \<Rightarrow> string list) \<Rightarrow> string list \<Rightarrow> string list list" where
  "shutdown_batches dep remaining =
     (if remaining = [] then []
      else (let batch = filter (\<lambda>k. \<not> (\<exists>d\<in>set (dep k). d \<in> set remaining)) remaining
            in if batch = [] then [remaining]
               else batch # shutdown_batches dep (filter (\<lambda>k. k \<notin> set batch) remaining)))"
  by pat_completeness auto
termination
proof (relation "measure (length \<circ> snd)", goal_cases)
  case (2 dep remaining batch)
  then obtain x where x: "x \<in> set batch" by (meson last_in_set)
  then have "x \<in> set remaining" using 2(2) by auto
  then have "length (filter (\<lambda>k. k \<notin> set batch) remaining) < length remaining"
    using x by (intro length_filter_less) auto
  then show ?case by simp
qed simp

declare shutdown_batches.simps [simp del]

definition reverseDepOrder :: "pmanager \<Rightarrow> string list list" where
  "reverseDepOrder m = shutdown_batches (dependedOnBy (pm_processes m)) (map fst (pm_processes m))"

text \<open>One batch is stopped in parallel; a process that is dead already is left alone.\<close>

definition stop_one :: "(string \<Rightarrow> mproc \<Rightarrow> mproc) \<Rightarrow> string \<Rightarrow> pmanager \<Rightarrow> pmanager" where
  "stop_one stopped k m =
     (case map_get (pm_processes m) k of
        None \<Rightarrow> m
      | Some (spec, p) \<Rightarrow> if m_state p \<noteq> Dead then put_process k spec (stopped k p) m else m)"

definition stopAll :: "(string \<Rightarrow> mproc \<Rightarrow> mproc) \<Rightarrow> pmanager \<Rightarrow> pmanager" where
  "stopAll stopped m =
     (let n = fold (stop_one stopped) (concat (reverseDepOrder m)) m;
          failedToStop = map fst (filter (\<lambda>(k, spec, p). m_killFailed p) (pm_processes n));
          r = fold (\<lambda>(k, spec, p). if m_killFailed p then id else deregister k) (pm_processes n) n
      in if failedToStop = [] then r else r\<lparr>pm_stopFailed := pm_stopFailed r @ [failedToStop]\<rparr>)"

section \<open>The order is right\<close>

lemma filter_split_mset: "mset (filter P xs) + mset (filter (\<lambda>x. \<not> P x) xs) = mset xs"
  by (induction xs) auto

lemma batches_mset: "mset (concat (shutdown_batches dep xs)) = mset xs"
proof (induction dep xs rule: shutdown_batches.induct)
  case (1 dep xs)
  let ?P = "\<lambda>k. \<not> (\<exists>d\<in>set (dep k). d \<in> set xs)"
  let ?b = "filter ?P xs"
  show ?case
  proof (cases "xs = [] \<or> ?b = []")
    case True
    then show ?thesis by (auto simp: shutdown_batches.simps [of dep xs] Let_def)
  next
    case False
    have "filter (\<lambda>k. k \<notin> set ?b) xs = filter (\<lambda>k. \<not> ?P k) xs" by (rule filter_cong) auto
    then show ?thesis
      using False "1.IH" [OF _ refl] filter_split_mset [of ?P xs]
      by (simp add: shutdown_batches.simps [of dep xs] Let_def)
  qed
qed

lemma batches_order:
  "a \<in> set (shutdown_batches dep xs ! i) \<Longrightarrow> b \<in> set (shutdown_batches dep xs ! j) \<Longrightarrow> a \<in> set (dep b) \<Longrightarrow>
   i < length (shutdown_batches dep xs) \<Longrightarrow> j < length (shutdown_batches dep xs) \<Longrightarrow>
   i < j \<or> i = j \<and> (\<forall>x\<in>set (shutdown_batches dep xs ! i). \<exists>d\<in>set (shutdown_batches dep xs ! i). d \<in> set (dep x))"
proof (induction dep xs arbitrary: i j rule: shutdown_batches.induct)
  case (1 dep xs)
  let ?b = "filter (\<lambda>k. \<not> (\<exists>d\<in>set (dep k). d \<in> set xs)) xs"
  let ?rest = "shutdown_batches dep (filter (\<lambda>k. k \<notin> set ?b) xs)"
  consider "xs = []" | "xs \<noteq> []" "?b = []" | "xs \<noteq> []" "?b \<noteq> []" by blast
  then show ?case
  proof cases
    case 1
    then have "shutdown_batches dep xs = []" by (subst shutdown_batches.simps) simp
    then show ?thesis using "1.prems"(4) by simp
  next
    case 2
    then have "shutdown_batches dep xs = [xs]" by (simp add: shutdown_batches.simps [of dep xs] Let_def)
    then show ?thesis using 2(2) "1.prems" by (auto simp: filter_empty_conv)
  next
    case 3
    then have bs: "shutdown_batches dep xs = ?b # ?rest" by (simp add: shutdown_batches.simps [of dep xs] Let_def)
    have inxs: "x \<in> set xs" if "x \<in> set (shutdown_batches dep xs ! k)" "k < length (shutdown_batches dep xs)" for x k
    proof -
      have "x \<in> set (concat (shutdown_batches dep xs))" using that by (auto simp: set_concat)
      then show ?thesis using batches_mset [of dep xs] by (metis set_mset_mset)
    qed
    have "j \<noteq> 0" using "1.prems"(2,3) bs inxs [OF "1.prems"(1,4)] by (cases j) auto
    then obtain j' where j: "j = Suc j'" by (cases j) auto
    show ?thesis
    proof (cases i)
      case 0
      then show ?thesis using j by simp
    next
      case (Suc i')
      then show ?thesis using "1.IH" [OF 3(1) refl 3(2), of i' j'] "1.prems" bs j by simp
    qed
  qed
qed

text \<open>
  \<open>stopAll\<close> goes through every registered process exactly once, and a process always in an
  earlier batch than the processes it depends on; the only exception is a last batch in which every
  process has a dependent in the same batch, that is, a dependency cycle.
\<close>

theorem shutdown_order:
  fixes m
  defines "bs \<equiv> reverseDepOrder m"
  shows "mset (concat bs) = mset (map fst (pm_processes m))
    \<and> (\<forall>i j a b. i < length bs \<and> j < length bs \<and> a \<in> set (bs ! i) \<and> b \<in> set (bs ! j)
          \<and> a \<in> set (dependedOnBy (pm_processes m) b)
        \<longrightarrow> i < j \<or> i = j \<and> (\<forall>x\<in>set (bs ! i). \<exists>d\<in>set (bs ! i). d \<in> set (dependedOnBy (pm_processes m) x)))"
  unfolding bs_def reverseDepOrder_def using batches_mset batches_order by blast

section \<open>What is left registered\<close>

definition after_stop :: "(string \<Rightarrow> mproc \<Rightarrow> mproc) \<Rightarrow> string \<Rightarrow> mproc \<Rightarrow> mproc" where
  "after_stop stopped k p = (if m_state p \<noteq> Dead then stopped k p else p)"

lemma stop_one_get:
  "map_get (pm_processes (stop_one stopped k m)) x =
     (if x = k then map_option (\<lambda>(spec, p). (spec, after_stop stopped k p)) (map_get (pm_processes m) k)
      else map_get (pm_processes m) x)"
  by (auto simp: stop_one_def put_process_def after_stop_def split: option.splits)

lemma stop_one_ok: "map_ok (pm_processes m) \<Longrightarrow> map_ok (pm_processes (stop_one stopped k m))"
  by (auto simp: stop_one_def put_process_def split: option.splits)

lemma stop_each_get:
  "distinct ks \<Longrightarrow> map_get (pm_processes (fold (stop_one stopped) ks m)) x =
     (if x \<in> set ks then map_option (\<lambda>(spec, p). (spec, after_stop stopped x p)) (map_get (pm_processes m) x)
      else map_get (pm_processes m) x)"
  by (induction ks arbitrary: m) (auto simp: stop_one_get)

lemma stop_each_ok: "map_ok (pm_processes m) \<Longrightarrow> map_ok (pm_processes (fold (stop_one stopped) ks m))"
  by (induction ks arbitrary: m) (auto simp: stop_one_ok)

lemma deregister_get: "map_get (pm_processes (deregister k m)) x = (if x = k then None else map_get (pm_processes m) x)"
  by (simp add: deregister_def removeListeners_def Let_def)

lemma deregister_each_get:
  "map_get (pm_processes (fold (\<lambda>(k, spec, p). if m_killFailed p then id else deregister k) es m)) x =
     (if \<exists>e\<in>set es. fst e = x \<and> \<not> m_killFailed (snd (snd e)) then None else map_get (pm_processes m) x)"
  by (induction es arbitrary: m) (auto simp: deregister_get)

text \<open>
  After \<open>stopAll\<close> exactly those processes are still registered that could not be killed, with
  their specification and their state after the stop.
\<close>

theorem stopAll_keeps_failed:
  assumes "map_ok (pm_processes m)"
  shows "map_get (pm_processes (stopAll stopped m)) k =
    (case map_get (pm_processes m) k of
       None \<Rightarrow> None
     | Some (spec, p) \<Rightarrow>
         if m_killFailed (after_stop stopped k p) then Some (spec, after_stop stopped k p) else None)"
proof -
  define n where "n = fold (stop_one stopped) (concat (reverseDepOrder m)) m"
  have ms: "mset (concat (reverseDepOrder m)) = mset (map fst (pm_processes m))"
    by (simp add: reverseDepOrder_def batches_mset)
  have d: "distinct (concat (reverseDepOrder m))" using ms assms mset_eq_imp_distinct_iff by blast
  have keys: "set (concat (reverseDepOrder m)) = keys_of (pm_processes m)" using ms by (metis keys_of_def set_mset_mset)
  have get: "map_get (pm_processes n) k = map_option (\<lambda>(spec, p). (spec, after_stop stopped k p)) (map_get (pm_processes m) k)"
    using map_get_None_iff [of "pm_processes m" k] unfolding n_def stop_each_get [OF d] keys by auto
  have ok: "map_ok (pm_processes n)" unfolding n_def by (rule stop_each_ok [OF assms])
  have "map_get (pm_processes (stopAll stopped m)) k =
      (if \<exists>e\<in>set (pm_processes n). fst e = k \<and> \<not> m_killFailed (snd (snd e)) then None else map_get (pm_processes n) k)"
    by (auto simp: stopAll_def Let_def n_def [symmetric] deregister_each_get)
  also have "\<dots> = (case map_get (pm_processes n) k of None \<Rightarrow> None | Some (spec, p) \<Rightarrow> if m_killFailed p then Some (spec, p) else None)"
    using map_get_iff [OF ok, of k] by (cases "map_get (pm_processes n) k") (auto split: if_splits, force+)
  finally show ?thesis unfolding get by (auto split: option.splits)
qed

end
