(* ===== verification/Scenario_Services.thy ===== *)
theory Scenario_Services
  imports Policy Resilience Ring_Buffer Timer_Tool Process_Manager
begin

text \<open>
  Concrete runs of the services around the workflow engine, and their properties applied to them:
  session identifiers, the tool policy, calls of model providers, timers and supervised processes.
\<close>

section \<open>Session identifiers and policy\<close>

definition demo_uuid :: string where
  "demo_uuid = ''123e4567-e89b-42d3-a456-426614174000''"

definition demo_urn :: string where
  "demo_urn = ''agent:main:discord:channel:'' @ demo_uuid"

theorem urn_round_trip_witness:
  "formatAgentSessionUrn ''main'' ''discord'' ''channel'' demo_uuid = Inr demo_urn
   \<and> parseAgentSessionUrn demo_urn =
       Some \<lparr> u_agentId = ''main'', u_platform = ''discord'', u_resourceType = ''channel'', uuidChain = [demo_uuid] \<rparr>"
proof -
  have f: "formatAgentSessionUrn ''main'' ''discord'' ''channel'' demo_uuid = Inr demo_urn" by code_simp
  have "js_trim ''main'' = ''main''" "js_trim ''discord'' = ''discord''" "js_trim ''channel'' = ''channel''"
    "normalizeSessionUrnTailSegment demo_uuid = demo_uuid" by code_simp+
  with f urn_round_trip [OF f] show ?thesis by simp
qed

theorem exec_deny_complete_witness:
  "policy_check (DEFAULT_POLICY_CONFIG\<lparr>agent_tools := \<lparr> r_allow = Some [''*''], r_deny = Some [''builtin-exec:rm''], r_review = None \<rparr>\<rparr>)
     None (AgentPrincipal demo_urn None) ToolInvoke
     (resolveCompoundResource ''builtin-exec'' [(''argv'', JArr [JStr ''/bin/rm'', JStr ''x''])] createDefaultSubResourceRegistry)
   = Deny ExplicitDeny"
  by (rule exec_deny_complete [where deny = "[''builtin-exec:rm'']" and name = "''rm''" and dir = "''/bin''" and rest = "[JStr ''x'']"])
    code_simp+

theorem newline_escapes_globs_witness:
  "evaluateRules (''builtin-exec:rm'' @ [CHR 0x0A])
     \<lparr> r_allow = Some [''*''], r_deny = Some [''builtin-exec:rm*''], r_review = None \<rparr> = Allow
   \<and> evaluateRules ''builtin-exec:rmdir''
     \<lparr> r_allow = Some [''*''], r_deny = Some [''builtin-exec:rm*''], r_review = None \<rparr> = Deny ExplicitDeny"
proof
  let ?rules = "\<lparr> r_allow = Some [''*''], r_deny = Some [''builtin-exec:rm*''], r_review = None \<rparr>"
  have c: "\<not> matchesRule (''builtin-exec:rm'' @ [CHR 0x0A]) (Some [''builtin-exec:rm*''])" by code_simp
  show "evaluateRules (''builtin-exec:rm'' @ [CHR 0x0A]) ?rules = Allow"
    by (rule newline_escapes_globs) (use c in \<open>auto simp: entries_def matchesRule_iff line_end_def\<close>)
qed code_simp

definition demo_child :: string where
  "demo_child = ''agent:main:discord:channel:123e4567-e89b-42d3-a456-426614174000:00000000-0000-4000-8000-000000000001''"

theorem subagent_same_policy_witness:
  "mintSubagentSessionUrnFromParent [] demo_urn (Some ''00000000-0000-4000-8000-000000000001'') = Inr demo_child
   \<and> policy_check DEFAULT_POLICY_CONFIG None (AgentPrincipal demo_child None) ControlInvoke ''session_send'' =
     policy_check DEFAULT_POLICY_CONFIG None (AgentPrincipal demo_urn None) ControlInvoke ''session_send''"
proof -
  have m: "mintSubagentSessionUrnFromParent [] demo_urn (Some ''00000000-0000-4000-8000-000000000001'') = Inr demo_child"
    by code_simp
  with subagent_same_policy [OF m] show ?thesis by blast
qed

definition demo_mcp :: mcp_config where
  "demo_mcp = \<lparr> global_mcp = Some \<lparr> o_allow = Some [''files''], o_deny = None \<rparr>, global_subagentMcp = None, mcp_agents = None \<rparr>"

theorem mcp_subagent_inherits_witness:
  "resolveEffectiveMcpServerRules demo_mcp ''main'' True = \<lparr> m_allow = [''files''], m_deny = [] \<rparr>
   \<and> evaluateMcpServerRules ''files'' (resolveEffectiveMcpServerRules demo_mcp ''main'' True) True"
proof -
  have r: "resolveEffectiveMcpServerRules demo_mcp ''main'' False = \<lparr> m_allow = [''files''], m_deny = [] \<rparr>" by code_simp
  have "global_subagentMcp demo_mcp = None" "Option.bind (findAgentEntry demo_mcp ''main'') entry_subagentMcp = None"
    by code_simp+
  note i = mcp_subagent_inherits [OF this, of "''files''", unfolded r]
  from conjunct2 [OF i] have "evaluateMcpServerRules ''files'' (resolveEffectiveMcpServerRules demo_mcp ''main'' True) True" by simp
  with conjunct1 [OF i] show ?thesis by (simp only: simp_thms)
qed

section \<open>Model providers\<close>

theorem backoff_bounds_witness:
  "computeBackoffDelay (1 / 2) 1 DEFAULT_BACKOFF_CONFIG None = 2250
   \<and> computeBackoffDelay (1 / 2) 1 DEFAULT_BACKOFF_CONFIG None \<le> computeBackoffDelay (1 / 2) 2 DEFAULT_BACKOFF_CONFIG None"
proof -
  have "computeBackoffDelay (1 / 2) 1 DEFAULT_BACKOFF_CONFIG None = 2250"
    by (simp add: computeBackoffDelay_def DEFAULT_BACKOFF_CONFIG_def)
  with backoff_bounds [of "1 / 2" DEFAULT_BACKOFF_CONFIG 1 None] show ?thesis
    by (simp add: DEFAULT_BACKOFF_CONFIG_def numeral_2_eq_2)
qed

definition demo_provider :: provider_config where
  "demo_provider = \<lparr> pc_maxRetries = Some 2, pc_baseDelayMs = None, pc_maxDelayMs = None, pc_jitterMs = None, pc_concurrency = Some 1 \<rparr>"

theorem provider_gate_sound_witness:
  "inFlight (snd (acquire 1 (new_manager demo_provider))) = 1
   \<and> inFlight (snd (acquire 1 (new_manager demo_provider))) \<le> maxConcurrent (snd (acquire 1 (new_manager demo_provider)))"
proof -
  have "manager_step\<^sup>*\<^sup>* (new_manager demo_provider) (snd (acquire 1 (new_manager demo_provider)))"
    using manager_step.Acquire by blast
  moreover have "0 \<le> nullish (pc_concurrency demo_provider) DEFAULT_CONCURRENCY" by (simp add: demo_provider_def)
  moreover have "inFlight (snd (acquire 1 (new_manager demo_provider))) = 1" by code_simp
  ultimately show ?thesis using provider_gate_sound by blast
qed

text \<open>
  Two calls on a provider with one slot: the second queues behind the first, gets its slot when the first
  fails and goes into its delay, and answers; the first comes back and ends.
\<close>

definition demo_resilience :: gate where
  "demo_resilience = \<lparr> managers = [], globalDefaults = demo_provider, providerOverrides = [] \<rparr>"

definition demo_calls :: "nat provider_calls list" where
  "demo_calls = (let s0 = open_provider ''p'' demo_resilience 0; s1 = executeWithResilience s0; s2 = executeWithResilience s1;
     s3 = ask_slot 0 s2; s4 = ask_slot 1 s3; s5 = fn_settled 0 (Inl (http_error 503 ''busy'')) 0 None s4;
     s6 = fn_settled 1 (Inr 7) 0 None s5 in [s0, s1, s2, s3, s4, s5, s6])"

lemma demo_calls_length: "length demo_calls = 7"
  by (simp add: demo_calls_def Let_def)

lemma demo_calls_chain:
  "demo_calls ! 1 = executeWithResilience (demo_calls ! 0)" "demo_calls ! 2 = executeWithResilience (demo_calls ! 1)"
  "demo_calls ! 3 = ask_slot 0 (demo_calls ! 2)" "demo_calls ! 4 = ask_slot 1 (demo_calls ! 3)"
  "demo_calls ! 5 = fn_settled 0 (Inl (http_error 503 ''busy'')) 0 None (demo_calls ! 4)"
  "demo_calls ! 6 = fn_settled 1 (Inr 7) 0 None (demo_calls ! 5)"
  "demo_calls ! 0 = open_provider ''p'' demo_resilience 0"
  by (simp_all add: demo_calls_def Let_def)

lemma demo_calls_facts:
  "map rl_phase (pv_calls (demo_calls ! 4)) = [RlCalling, RlQueued]" "map rl_phase (pv_calls (demo_calls ! 2)) = [RlCooling 0, RlCooling 0]"
  "map rl_phase (pv_calls (demo_calls ! 6)) = [RlDelaying 1000, RlDone (Inr 7)]" "length (pv_calls (demo_calls ! 5)) = 2"
  "length (pv_calls (demo_calls ! 3)) = 2" "maxConcurrent (pv_manager (demo_calls ! 4)) = 1"
  by code_simp+

lemma demo_calls_run: "calls_step\<^sup>*\<^sup>* (open_provider ''p'' demo_resilience 0) (demo_calls ! 4)"
proof -
  have l: "length (pv_calls (demo_calls ! 2)) = 2" using demo_calls_facts(2) by (metis length_Cons length_map list.size(3) numeral_2_eq_2)
  have "calls_step (demo_calls ! 0) (demo_calls ! 1)" "calls_step (demo_calls ! 1) (demo_calls ! 2)"
    unfolding demo_calls_chain(1,2) by (rule calls_step.enter)+
  moreover have "calls_step (demo_calls ! 2) (demo_calls ! 3)"
    unfolding demo_calls_chain(3) by (rule calls_step.ask) (simp add: l)
  moreover have "calls_step (demo_calls ! 3) (demo_calls ! 4)"
    unfolding demo_calls_chain(4) by (rule calls_step.ask) (simp add: demo_calls_facts(5))
  ultimately show ?thesis unfolding demo_calls_chain(7) [symmetric] by (meson converse_rtranclp_into_rtranclp rtranclp.rtrancl_refl)
qed

theorem resilient_calls_sound_witness:
  "map rl_phase (pv_calls (demo_calls ! 4)) = [RlCalling, RlQueued] \<and> int (in_fn (demo_calls ! 4)) = 1
   \<and> inFlight (pv_manager (demo_calls ! 4)) = 1"
proof -
  have p: "map_get (managers demo_resilience) ''p'' = None"
    "0 \<le> nullish (pc_concurrency (effective_config ''p'' demo_resilience)) DEFAULT_CONCURRENCY" by code_simp+
  note S = resilient_calls_sound [OF p demo_calls_run]
  obtain a b where ab: "pv_calls (demo_calls ! 4) = [a, b]" "rl_phase b = RlQueued"
    using demo_calls_facts(1) by (auto simp: Cons_eq_map_conv map_eq_Cons_conv)
  then have "int (in_fn (demo_calls ! 4)) = maxConcurrent (pv_manager (demo_calls ! 4))" using S by simp
  with S demo_calls_facts(1,6) show ?thesis by simp
qed

definition demo_chain :: "chain_entry list" where
  "demo_chain = [\<lparr> provider_id = ''a'', entry_model = ''m1'', entry_thinking = None, provider_thinking = None \<rparr>,
                 \<lparr> provider_id = ''b'', entry_model = ''m2'', entry_thinking = None, provider_thinking = None \<rparr>]"

theorem failover_first_usable_witness:
  "\<exists>out evs. failover_complete (\<lambda>i k. k = ''a'') (\<lambda>i fmt. Inr i) None demo_chain = (Inr out, evs @ [ProviderSuccess ''b''])
     \<and> fo_result out = 1 \<and> usedModel out = ''m2'' \<and> degraded out"
proof -
  have "demo_chain = [demo_chain ! 0] @ (demo_chain ! 1) # []" by (simp add: demo_chain_def)
  from failover_first_usable [OF this, of "\<lambda>i k. k = ''a''" "\<lambda>i fmt. Inr i" None 1] show ?thesis
    by (auto simp: demo_chain_def)
qed

theorem failover_all_skipped_witness:
  "iterateFailoverChain (\<lambda>i k. True) (\<lambda>i fmt. Inr i) None demo_chain = (Inl ThrownUndefined, [])"
  by (rule failover_all_skipped) (simp_all add: demo_chain_def)

section \<open>Timers\<close>

definition demo_timer :: "string \<Rightarrow> nat \<Rightarrow> timer_entry" where
  "demo_timer k t = \<lparr> t_id = k, t_sessionId = ''s'', t_label = k, t_fireAt = toISOString t, t_message = k, t_sessionAnchor = None \<rparr>"

lemma demo_time_limit: "86400000 < iso_limit"
  using iso_limit_bounds(1) by simp

lemma demo_order:
  "m < 253000000000000 \<Longrightarrow> n < 253000000000000 \<Longrightarrow> toISOString m < toISOString n \<longleftrightarrow> m < n"
  "m < 253000000000000 \<Longrightarrow> n < 253000000000000 \<Longrightarrow> toISOString m \<le> toISOString n \<longleftrightarrow> m \<le> n"
  "n < 253000000000000 \<Longrightarrow> getTime (toISOString n) = n"
  using iso_limit_bounds(1) toISOString_less [of m n] toISOString_le [of m n] getTime_toISOString [of n] by linarith+

lemmas demo_eval = demo_order heap_insert_def heap_peek_def new_heap_def Let_def map_set_def map_get_def
  bubbleUp.simps less_at_def heap_swap_def demo_timer_def new_scheduler_def mark_fired_def reschedule_def
  node_delay_def fireTimer_def sched_event_def

lemma demo_heap:
  "heap_insert (demo_timer ''b'' 1000) (heap_insert (demo_timer ''a'' 2000) new_heap) =
     \<lparr> items = [demo_timer ''b'' 1000, demo_timer ''a'' 2000], heap_index = [(''a'', 1), (''b'', 0)] \<rparr>"
  by (simp add: demo_eval)

theorem timer_heap_refines_witness:
  "heap_step\<^sup>*\<^sup>* new_heap (heap_insert (demo_timer ''b'' 1000) (heap_insert (demo_timer ''a'' 2000) new_heap))
   \<and> (case extractMin (heap_insert (demo_timer ''b'' 1000) (heap_insert (demo_timer ''a'' 2000) new_heap)) of
        None \<Rightarrow> False | Some (m, g) \<Rightarrow> t_id m = ''b'' \<and> heap_size g = 1)"
proof -
  let ?a = "heap_insert (demo_timer ''a'' 2000) new_heap"
  let ?h = "heap_insert (demo_timer ''b'' 1000) ?a"
  have "heap_step new_heap ?a" by (rule heap_step.insert_step) (simp add: new_heap_def)
  moreover have "heap_step ?a ?h" by (rule heap_step.insert_step) (simp add: demo_eval)
  ultimately have r: "heap_step\<^sup>*\<^sup>* new_heap ?h" by (rule rtranclp.rtrancl_into_rtrancl [OF r_into_rtranclp])
  define h where "h = ?h"
  have i: "items h = [demo_timer ''b'' 1000, demo_timer ''a'' 2000]" unfolding h_def demo_heap by simp
  have p: "heap_peek h = Some (demo_timer ''b'' 1000)" "heap_size h = 2" "t_id (demo_timer ''b'' 1000) = ''b''"
    using i by (simp_all add: heap_size_def heap_peek_def demo_timer_def)
  note c = conjunct1 [OF timer_heap_refines [OF r [folded h_def], of "''a''"]]
  have "case extractMin h of None \<Rightarrow> False | Some (m, g) \<Rightarrow> t_id m = ''b'' \<and> heap_size g = 1"
    using c i p by (cases "extractMin h") auto
  with r show ?thesis unfolding h_def by blast
qed

text \<open>A restart that finds one timer past due and one to come; the second fires a minute later.\<close>

definition demo_rows :: "(timer_entry \<times> bool) list" where
  "demo_rows = [(demo_timer ''early'' 1000, False), (demo_timer ''late'' 60000, False)]"

definition demo_sched :: scheduler where
  "demo_sched = sched_run demo_rows 2000 [ResumeRestore]"

lemma demo_rows_distinct: "distinct (map (t_id \<circ> fst) demo_rows)"
  by (simp add: demo_rows_def demo_timer_def)

lemma demo_start_time: "2000 < iso_limit"
  using demo_time_limit by simp

lemma demo_restoring:
  "restore_timers (new_scheduler demo_rows 2000) =
     \<lparr> sc_heap = new_heap, sc_timeout = None, sc_db = True, sc_pending = [],
       sc_rows = [(demo_timer ''early'' 1000, True), (demo_timer ''late'' 60000, False)], sc_now = 2000, sc_ticks = [],
       sc_restoring = Some (toISOString 2000, [demo_timer ''late'' 60000]), sc_delivered = [(demo_timer ''early'' 1000, 2000)] \<rparr>"
  by (simp add: restore_timers_def demo_rows_def demo_eval)

lemma demo_sched_eq:
  "demo_sched =
     \<lparr> sc_heap = \<lparr> items = [demo_timer ''late'' 60000], heap_index = [(''late'', 0)] \<rparr>, sc_timeout = Some 60000, sc_db = True,
       sc_pending = [], sc_rows = [(demo_timer ''early'' 1000, True), (demo_timer ''late'' 60000, False)], sc_now = 2000,
       sc_ticks = [], sc_restoring = None, sc_delivered = [(demo_timer ''early'' 1000, 2000)] \<rparr>"
  unfolding demo_sched_def sched_run_def fold.simps comp_def id_apply demo_restoring by (simp add: demo_eval)

theorem timer_fires_once_witness:
  "map (t_id \<circ> fst) (sc_delivered demo_sched) = [''early'']
   \<and> list_all (\<lambda>d. t_fireAt (fst d) \<le> toISOString (snd d)) (sc_delivered demo_sched)"
  using timer_fires_once [OF demo_rows_distinct demo_start_time, of "[ResumeRestore]"]
  unfolding demo_sched_def [symmetric] by (simp add: list_all_iff demo_sched_eq) (simp add: demo_timer_def)

theorem due_timer_delivered_witness:
  "map (t_id \<circ> fst) (sc_delivered (sched_event TimeoutFires (sched_event (Advance 58000) demo_sched))) = [''early'', ''late'']"
proof -
  have "sc_delivered (sched_event TimeoutFires (sched_event (Advance 58000) demo_sched))
      = sc_delivered demo_sched @ [(demo_timer ''late'' 60000, sc_now demo_sched + 58000)]"
  proof (rule due_timer_delivered [OF demo_rows_distinct demo_start_time, of "[ResumeRestore]" _ _ 60000])
    show "sched_run demo_rows 2000 [ResumeRestore] = demo_sched" by (simp add: demo_sched_def)
    show "idle demo_sched" "heap_peek (sc_heap demo_sched) = Some (demo_timer ''late'' 60000)"
      "60000 \<le> sc_now demo_sched + 58000" by (simp_all add: demo_sched_eq idle_def heap_peek_def)
    show "sc_now demo_sched + 58000 < iso_limit" "60000 < iso_limit" using demo_time_limit by (simp_all add: demo_sched_eq)
  qed (simp_all add: demo_timer_def)
  then show ?thesis by (simp add: demo_sched_eq demo_timer_def)
qed

lemma demo_cancel:
  "cancel ''late'' demo_sched = (True, reschedule (demo_sched\<lparr>sc_heap := \<lparr> items = [], heap_index = [] \<rparr>,
     sc_rows := mark_fired ''late'' (sc_rows demo_sched)\<rparr>))"
  by (simp add: cancel_def demo_sched_eq heap_removeById_def Let_def map_get_def map_delete_def)

theorem cancelled_never_fires_witness:
  "fst (cancel ''late'' demo_sched)
   \<and> filter (\<lambda>d. t_id (fst d) = ''late'')
       (sc_delivered (fold sched_event [Advance 80000, TimeoutFires] (snd (cancel ''late'' demo_sched)))) = []"
proof -
  obtain s where s: "cancel ''late'' demo_sched = (True, s)" using demo_cancel by blast
  have "sc_restoring demo_sched = None" "filter (\<lambda>d. t_id (fst d) = ''late'') (sc_delivered demo_sched) = []"
    by (simp_all add: demo_sched_eq demo_timer_def)
  with cancelled_never_fires [OF demo_rows_distinct demo_start_time, of "''late''" "[ResumeRestore]" s "[Advance 80000, TimeoutFires]"]
  show ?thesis using s unfolding demo_sched_def [symmetric] by simp
qed

text \<open>A cancellation in the middle of a \<open>restore\<close> is confirmed, and the timer fires all the same.\<close>

lemma cancel_during_restore_fires:
  "fst (cancel ''late'' (sched_run demo_rows 2000 []))
   \<and> map (t_id \<circ> fst) (sc_delivered (fold sched_event [ResumeRestore, Advance 58000, TimeoutFires]
        (snd (cancel ''late'' (sched_run demo_rows 2000 []))))) = [''early'', ''late'']"
proof -
  let ?s = "\<lparr> sc_heap = new_heap, sc_timeout = None, sc_db = True, sc_pending = [],
       sc_rows = [(demo_timer ''early'' 1000, True), (demo_timer ''late'' 60000, True)], sc_now = 2000, sc_ticks = [],
       sc_restoring = Some (toISOString 2000, [demo_timer ''late'' 60000]), sc_delivered = [(demo_timer ''early'' 1000, 2000)] \<rparr>"
  have c: "cancel ''late'' (sched_run demo_rows 2000 []) = (True, ?s)"
    by (simp add: sched_run_def demo_restoring cancel_def heap_removeById_def new_heap_def map_get_def unfired_def
        mark_fired_def Let_def demo_timer_def)
  have lim: "60000 < iso_limit" using demo_time_limit by simp
  show ?thesis
    unfolding c using lim
    by (simp add: demo_eval timer_tick_def tick_loop_def extractMin_def map_delete_def)
qed

theorem timer_cancel_isolated_witness:
  "filter (\<lambda>r. t_sessionId (fst r) \<noteq> ''other'') (sc_rows (snd (timerCancel (Some ''late'') ''other'' demo_sched)))
   = filter (\<lambda>r. t_sessionId (fst r) \<noteq> ''other'') (sc_rows demo_sched)"
  by (rule timer_cancel_isolated) (simp add: demo_sched_eq demo_timer_def)

section \<open>Supervised processes\<close>

definition demo_spec :: "string \<Rightarrow> string list \<Rightarrow> process_spec" where
  "demo_spec k deps = \<lparr> ps_id = k, ps_ownerKind = ''daemon'', ps_scopeId = None,
     ps_restart = \<lparr> rp_mode = Always, rp_maxRetries = None, rp_initialDelayMs = None, rp_backoffMultiplier = None,
       rp_maxDelayMs = None, rp_resetAfterMs = Some 0 \<rparr>,
     ps_health = None, ps_maxRuntimeSeconds = None, ps_preStop = False, ps_dependsOn = deps \<rparr>"

theorem restarts_bounded_witness:
  "m_restartCount (process_run (demo_spec ''p'' []) [Start True, Spawned 0, ChildExit 0 (Some 1), ChildClose 0, TimerFires 0 True] new_process) = 1
   \<and> m_restartCount (process_run (demo_spec ''p'' []) [Start True, Spawned 0, ChildExit 0 (Some 1), ChildClose 0, TimerFires 0 True] new_process) \<le> 5"
proof -
  have "m_restartCount (process_run (demo_spec ''p'' []) [Start True, Spawned 0, ChildExit 0 (Some 1), ChildClose 0, TimerFires 0 True] new_process) = 1"
    "max_restarts (demo_spec ''p'' []) = 5" "\<not> resets (demo_spec ''p'' [])" by code_simp+
  with restarts_bounded [of "demo_spec ''p'' []" "[Start True, Spawned 0, ChildExit 0 (Some 1), ChildClose 0, TimerFires 0 True]"]
  show ?thesis by simp
qed

definition demo_stopping :: mproc where
  "demo_stopping = process_run (demo_spec ''p'' []) [Start True, Spawned 0, Stop True, ChildExit 0 None] new_process"

theorem stop_is_final_witness:
  "m_state (process_event (demo_spec ''p'' []) (ChildClose 0) demo_stopping) = Dead
   \<and> length (m_children (process_run (demo_spec ''p'' []) [Stop True] (process_event (demo_spec ''p'' []) (ChildClose 0) demo_stopping))) = 1"
proof -
  have "AwaitClose 0 True \<in> set (m_stopping demo_stopping)" "\<not> m_killFailed demo_stopping"
    "m_children demo_stopping ! 0 = HasExited None" "0 < length (m_children demo_stopping)"
    "m_listening demo_stopping = [0]" "m_restarting demo_stopping = 0" "list_all (\<lambda>ev. \<not> starts ev) [Stop True]" by code_simp+
  from stop_is_final [OF this, of "demo_spec ''p'' []"] show ?thesis by (simp add: demo_stopping_def) code_simp
qed

definition demo_exited :: mproc where
  "demo_exited = process_run (demo_spec ''p'' []) [Start True, Spawned 0, ChildExit 0 (Some 1)] new_process"

theorem stop_before_close_restarts_witness:
  "m_state (process_event (demo_spec ''p'' []) (Stop True) demo_exited) = Dead
   \<and> length (restart_timers (process_event (demo_spec ''p'' []) (ChildClose 0) (process_event (demo_spec ''p'' []) (Stop True) demo_exited))) = 1"
proof -
  have "m_child demo_exited = Some 0" "0 < length (m_children demo_exited)" "m_children demo_exited ! 0 = HasExited (Some 1)"
    "0 \<in> set (m_listening demo_exited)" "close_waiters 0 (m_stopping demo_exited) = []" "m_state demo_exited \<noteq> Dead"
    "\<not> m_stopPromise demo_exited" "rp_mode (ps_restart (demo_spec ''p'' [])) = Always"
    "m_consecutiveFailures demo_exited < max_restarts (demo_spec ''p'' [])" by code_simp+
  from stop_before_close_restarts [OF this, of True] show ?thesis by blast
qed

definition demo_registry :: pmanager where
  "demo_registry = \<lparr> pm_processes = [(''db'', demo_spec ''db'' [], new_process), (''web'', demo_spec ''web'' [''db''], new_process)],
     pm_handlers = [], pm_stopFailed = [] \<rparr>"

theorem shutdown_order_witness:
  "reverseDepOrder demo_registry = [[''web''], [''db'']]
   \<and> mset (concat (reverseDepOrder demo_registry)) = mset [''db'', ''web'']"
proof -
  have "reverseDepOrder demo_registry = [[''web''], [''db'']]" by code_simp
  with shutdown_order [of demo_registry] show ?thesis by (simp add: demo_registry_def)
qed

end
