(* ===== verification/Tool_Args.thy ===== *)
theory Tool_Args
  imports Workflow_Types
begin

text \<open>
  What happens to the arguments of a tool call before anything else looks at them: the repair of escape
  sequences (\<open>shared/src/sanitize-json-escapes.ts\<close>), the stop reasons that mean truncation
  (\<open>models/src/finish-reason.ts\<close>), the normal form of arguments (\<open>shared/src/tool-call-args.ts\<close>) and their
  check against the schema of the tool (\<open>daemon/src/sessions/validate-tool-args.ts\<close>).

  \<open>JSON.parse\<close> is an argument of the definitions that call it; \<open>None\<close> stands for its exception.
\<close>

section \<open>Escape sequences\<close>

abbreviation backslash :: char where
  "backslash \<equiv> CHR 0x5C"

definition simple_escape :: "char \<Rightarrow> bool" where
  "simple_escape c \<longleftrightarrow> c \<in> set (CHR 0x22 # backslash # ''/bfnrt'')"

definition is_hex_digit :: "char \<Rightarrow> bool" where
  "is_hex_digit c \<longleftrightarrow> hex_digit c \<noteq> None"

definition unicode_escape :: "string \<Rightarrow> bool" where
  "unicode_escape ds \<longleftrightarrow> length (take 4 ds) = 4 \<and> list_all is_hex_digit (take 4 ds)"

fun sanitize_loop :: "string \<Rightarrow> string" where
  "sanitize_loop [] = []"
| "sanitize_loop (c # cs) =
     (if c \<noteq> backslash then c # sanitize_loop cs
      else (case cs of
              [] \<Rightarrow> [backslash, backslash]
            | d # ds \<Rightarrow>
                (if simple_escape d then c # d # sanitize_loop ds
                 else if d = CHR ''u'' \<and> unicode_escape ds then c # d # take 4 ds @ sanitize_loop (drop 4 ds)
                 else backslash # backslash # sanitize_loop cs)))"

definition sanitizeJsonEscapes :: "string \<Rightarrow> string" where
  "sanitizeJsonEscapes raw = (if backslash \<notin> set raw then raw else sanitize_loop raw)"

text \<open>The strings in which every backslash begins an escape sequence of JSON.\<close>

fun escapes_valid :: "string \<Rightarrow> bool" where
  "escapes_valid [] = True"
| "escapes_valid (c # cs) =
     (if c \<noteq> backslash then escapes_valid cs
      else (case cs of
              [] \<Rightarrow> False
            | d # ds \<Rightarrow>
                (if simple_escape d then escapes_valid ds
                 else d = CHR ''u'' \<and> unicode_escape ds \<and> escapes_valid (drop 4 ds))))"

lemma simple_escape_backslash [simp]: "simple_escape backslash"
  by (simp add: simple_escape_def)

lemma hex_not_backslash: "is_hex_digit c \<Longrightarrow> c \<noteq> backslash"
  by (auto simp: is_hex_digit_def hex_digit_def)

lemma escapes_valid_append:
  "backslash \<notin> set xs \<Longrightarrow> escapes_valid (xs @ ys) = escapes_valid ys"
  by (induction xs) auto

lemma no_backslash_valid: "backslash \<notin> set xs \<Longrightarrow> escapes_valid xs"
  using escapes_valid_append [of xs "[]"] by simp

lemma unicode_no_backslash: "unicode_escape ds \<Longrightarrow> backslash \<notin> set (take 4 ds)"
  by (auto simp: unicode_escape_def list_all_iff dest: hex_not_backslash)

lemma sanitize_loop_id: "backslash \<notin> set xs \<Longrightarrow> sanitize_loop xs = xs"
  by (induction xs) auto

lemma sanitizeJsonEscapes_loop: "sanitizeJsonEscapes raw = sanitize_loop raw"
  by (simp add: sanitizeJsonEscapes_def sanitize_loop_id)

lemma sanitize_loop_valid: "escapes_valid (sanitize_loop raw)"
proof (induction raw rule: sanitize_loop.induct)
  case (2 c cs)
  show ?case
  proof (cases cs)
    case (Cons d ds)
    have u: "escapes_valid (backslash # CHR ''u'' # take 4 ds @ sanitize_loop (drop 4 ds))"
      if "unicode_escape ds" "escapes_valid (sanitize_loop (drop 4 ds))"
    proof -
      have "length (take 4 ds) = 4" using that(1) by (simp add: unicode_escape_def)
      then have "take 4 (take 4 ds @ sanitize_loop (drop 4 ds)) = take 4 ds"
        "drop 4 (take 4 ds @ sanitize_loop (drop 4 ds)) = sanitize_loop (drop 4 ds)" by simp_all
      then show ?thesis using that by (simp add: unicode_escape_def simple_escape_def)
    qed
    show ?thesis using 2 Cons u by (auto simp: simple_escape_def)
  qed (use 2 in \<open>auto simp: simple_escape_def\<close>)
qed simp

lemma sanitize_loop_fix: "escapes_valid raw \<Longrightarrow> sanitize_loop raw = raw"
proof (induction raw rule: escapes_valid.induct)
  case (2 c cs)
  then show ?case by (auto split: list.splits if_splits)
qed simp

text \<open>
  The repair of escapes: the result contains only escape sequences that JSON knows; a text that had no
  other is returned unchanged; and repairing twice is repairing once.
\<close>
theorem sanitize_exact:
  "escapes_valid (sanitizeJsonEscapes raw)
   \<and> (sanitizeJsonEscapes raw = raw \<longleftrightarrow> escapes_valid raw)
   \<and> sanitizeJsonEscapes (sanitizeJsonEscapes raw) = sanitizeJsonEscapes raw"
  using sanitize_loop_valid [of raw] sanitize_loop_fix
  by (metis sanitizeJsonEscapes_loop)

definition normalizeToolCallArgsJson :: "(string \<Rightarrow> json option) \<Rightarrow> string option \<Rightarrow> string" where
  "normalizeToolCallArgsJson parse raw =
     (case raw of
        None \<Rightarrow> ''{}''
      | Some s \<Rightarrow>
          (let fixed = sanitizeJsonEscapes s in
           case parse fixed of Some _ \<Rightarrow> fixed | None \<Rightarrow> ''{}''))"

section \<open>Stop reasons\<close>

definition isTruncationFinishReason :: "string option \<Rightarrow> bool" where
  "isTruncationFinishReason finishReason =
     (case finishReason of
        None \<Rightarrow> False
      | Some r \<Rightarrow>
          r \<noteq> [] \<and>
          map lower_char (js_trim r)
            \<in> set [''length'', ''max_tokens'', ''max_output_tokens'', ''maxoutputtokens''])"

section \<open>Validation against the schema of a tool\<close>

text \<open>
  The fields of a schema that the check reads. Names that every object of the language inherits are not
  names of parameters.
\<close>

datatype schema_like = Schema
  (sc_type: "string option")
  (sc_properties: "(string \<times> schema_like) list option")
  (sc_required: "string list option")
  (sc_enum: "json list option")
  (sc_minimum: "jsnum option")
  (sc_maximum: "jsnum option")
  (sc_additionalProperties: "bool option")

datatype arg_problem =
    RootType string
  | RootNotObject
  | MissingField
  | UnknownArgument
  | WrongType string
  | NotInEnum
  | BelowMinimum
  | AboveMaximum

type_synonym arg_error = "string \<times> arg_problem"

fun matchesType :: "json \<Rightarrow> string \<Rightarrow> bool" where
  "matchesType v t =
     (if t = ''string'' then (case v of JStr _ \<Rightarrow> True | _ \<Rightarrow> False)
      else if t = ''number'' then (case v of JNum _ \<Rightarrow> True | _ \<Rightarrow> False)
      else if t = ''integer'' then (case v of JNum (JsNum q) \<Rightarrow> q = of_int \<lfloor>q\<rfloor> | _ \<Rightarrow> False)
      else if t = ''boolean'' then (case v of JBool _ \<Rightarrow> True | _ \<Rightarrow> False)
      else if t = ''array'' then (case v of JArr _ \<Rightarrow> True | _ \<Rightarrow> False)
      else if t = ''object'' then (case v of JObj _ \<Rightarrow> True | _ \<Rightarrow> False)
      else True)"

text \<open>\<open>===\<close> on parsed values: two objects or arrays are never the same object.\<close>

fun strict_equal :: "json \<Rightarrow> json \<Rightarrow> bool" where
  "strict_equal JNull JNull = True"
| "strict_equal (JBool a) (JBool b) = (a = b)"
| "strict_equal (JNum a) (JNum b) = (a = b \<and> a \<noteq> JsNaN)"
| "strict_equal (JStr a) (JStr b) = (a = b)"
| "strict_equal _ _ = False"

definition enum_matches :: "json \<Rightarrow> json \<Rightarrow> bool" where
  "enum_matches value allowed \<longleftrightarrow>
     strict_equal allowed value
     \<or> (case (allowed, value) of (JNum a, JStr v) \<Rightarrow> js_num_text a = v | _ \<Rightarrow> False)
     \<or> (case (allowed, value) of (JStr a, JNum v) \<Rightarrow> a = js_num_text v | _ \<Rightarrow> False)"

fun num_less :: "jsnum \<Rightarrow> jsnum \<Rightarrow> bool" where
  "num_less JsNaN _ = False"
| "num_less _ JsNaN = False"
| "num_less (JsNum a) (JsNum b) = (a < b)"
| "num_less JsNegInf b = (b \<noteq> JsNegInf)"
| "num_less _ JsNegInf = False"
| "num_less JsInf _ = False"
| "num_less _ JsInf = True"

definition validateProperty :: "string \<Rightarrow> json \<Rightarrow> schema_like \<Rightarrow> arg_error list" where
  "validateProperty field value schema =
     (if truthy_str (sc_type schema) \<and> \<not> matchesType value (the (sc_type schema))
      then [(field, WrongType (the (sc_type schema)))]
      else
        (case sc_enum schema of
           None \<Rightarrow> []
         | Some allowed \<Rightarrow> (if list_ex (enum_matches value) allowed then [] else [(field, NotInEnum)]))
        @ (case value of
             JNum n \<Rightarrow>
               (case sc_minimum schema of None \<Rightarrow> [] | Some m \<Rightarrow> (if num_less n m then [(field, BelowMinimum)] else []))
               @ (case sc_maximum schema of None \<Rightarrow> [] | Some m \<Rightarrow> (if num_less m n then [(field, AboveMaximum)] else []))
           | _ \<Rightarrow> []))"

definition validateToolArgs :: "json \<Rightarrow> schema_like \<Rightarrow> arg_error list" where
  "validateToolArgs args schema =
     (if truthy_str (sc_type schema) \<and> sc_type schema \<noteq> Some ''object''
      then [(''(root)'', RootType (the (sc_type schema)))]
      else
        (case args of
           JObj fs \<Rightarrow>
             (case sc_required schema of
                None \<Rightarrow> []
              | Some req \<Rightarrow> map (\<lambda>k. (k, MissingField)) (filter (\<lambda>k. \<not> map_has fs k) req))
             @ (case sc_properties schema of
                  None \<Rightarrow> []
                | Some props \<Rightarrow>
                    concat (map (\<lambda>(k, p). case map_get fs k of None \<Rightarrow> [] | Some v \<Rightarrow> validateProperty k v p) props)
                    @ (if sc_additionalProperties schema \<noteq> Some True
                       then map (\<lambda>k. (k, UnknownArgument)) (filter (\<lambda>k. \<not> map_has props k) (map fst fs))
                       else []))
         | _ \<Rightarrow> [(''(root)'', RootNotObject)]))"

section \<open>What passes\<close>

text \<open>The type names of JSON schema that a value has, among the six that the check knows.\<close>

definition SCHEMA_TYPES :: "string set" where
  "SCHEMA_TYPES = {''string'', ''number'', ''integer'', ''boolean'', ''array'', ''object''}"

fun json_types :: "json \<Rightarrow> string set" where
  "json_types JNull = {}"
| "json_types (JBool _) = {''boolean''}"
| "json_types (JStr _) = {''string''}"
| "json_types (JArr _) = {''array''}"
| "json_types (JObj _) = {''object''}"
| "json_types (JNum n) = {''number''} \<union> (if n \<in> range js_int then {''integer''} else {})"

text \<open>
  The value is one of the constants of an enumeration: the same scalar, or a number and the string that
  shows it. An array or object is never one.
\<close>

definition scalar :: "json \<Rightarrow> bool" where
  "scalar v \<longleftrightarrow> (\<forall>xs. v \<noteq> JArr xs) \<and> (\<forall>fs. v \<noteq> JObj fs) \<and> v \<noteq> JNum JsNaN"

definition one_of :: "json list \<Rightarrow> json \<Rightarrow> bool" where
  "one_of allowed v \<longleftrightarrow>
     scalar v \<and> v \<in> set allowed
     \<or> (\<exists>n. v = JNum n \<and> JStr (js_num_text n) \<in> set allowed)
     \<or> (\<exists>n. v = JStr (js_num_text n) \<and> JNum n \<in> set allowed)"

definition fits :: "json \<Rightarrow> schema_like \<Rightarrow> bool" where
  "fits v p \<longleftrightarrow>
     (\<forall>t \<in> SCHEMA_TYPES. sc_type p = Some t \<longrightarrow> t \<in> json_types v)
     \<and> (\<forall>allowed. sc_enum p = Some allowed \<longrightarrow> one_of allowed v)
     \<and> (\<forall>n. v = JNum n \<longrightarrow>
          (\<forall>m. sc_minimum p = Some m \<longrightarrow> \<not> num_less n m) \<and> (\<forall>m. sc_maximum p = Some m \<longrightarrow> \<not> num_less m n))"

lemma integral_range: "JsNum q \<in> range js_int \<longleftrightarrow> q = of_int \<lfloor>q\<rfloor>"
  by (auto simp: image_iff)

lemma matchesType_types: "matchesType v t \<longleftrightarrow> (t \<in> SCHEMA_TYPES \<longrightarrow> t \<in> json_types v)"
proof (cases v)
  case (JNum n)
  then show ?thesis by (cases n) (auto simp: SCHEMA_TYPES_def integral_range)
qed (auto simp: SCHEMA_TYPES_def)

lemma strict_equal_iff: "strict_equal a v \<longleftrightarrow> a = v \<and> scalar v"
  by (cases "(a, v)" rule: strict_equal.cases) (auto simp: scalar_def)

lemma enum_one_of: "list_ex (enum_matches v) allowed \<longleftrightarrow> one_of allowed v"
  by (induction allowed) (auto simp: enum_matches_def one_of_def strict_equal_iff split: json.splits)

lemma validateProperty_fits: "validateProperty k v p = [] \<longleftrightarrow> fits v p"
proof -
  have t: "truthy_str (sc_type p) \<and> \<not> matchesType v (the (sc_type p)) \<longleftrightarrow>
      \<not> (\<forall>t \<in> SCHEMA_TYPES. sc_type p = Some t \<longrightarrow> t \<in> json_types v)"
    unfolding matchesType_types by (cases "sc_type p") (auto simp: truthy_str_def SCHEMA_TYPES_def)
  show ?thesis
    unfolding validateProperty_def t fits_def
    by (cases "sc_enum p"; cases "sc_minimum p"; cases "sc_maximum p"; cases v)
      (auto simp: enum_one_of)
qed

text \<open>
  C25. Arguments pass the check exactly when the schema is of type \<open>object\<close> or names no type, the arguments
  are an object that carries every field of \<open>required\<close> (when there is such a list) and, when the schema has
  \<open>properties\<close>, every field of them that the arguments carry fits and there is no other field unless
  \<open>additionalProperties\<close> is true. Without \<open>properties\<close> any field is accepted. A value fits when it is
  of the declared type (a type other than the six known ones is no restriction), is one of the constants of
  the enumeration (a number and the string that shows it count as the same, an array or object is never one)
  and, if it is a number, is within the declared minimum and maximum. Nothing inside an array or object is
  looked at.
\<close>
theorem validateToolArgs_iff:
  "validateToolArgs args schema = [] \<longleftrightarrow>
    sc_type schema \<in> {None, Some [], Some ''object''} \<and>
    (\<exists>fs. args = JObj fs
      \<and> (\<forall>req. sc_required schema = Some req \<longrightarrow> (\<forall>k \<in> set req. map_has fs k))
      \<and> (\<forall>props. sc_properties schema = Some props \<longrightarrow>
           (\<forall>(k, p) \<in> set props. \<forall>v. map_get fs k = Some v \<longrightarrow> fits v p)
           \<and> (sc_additionalProperties schema \<noteq> Some True \<longrightarrow> (\<forall>k \<in> fst ` set fs. map_has props k))))"
proof (cases "sc_type schema \<in> {None, Some [], Some ''object''}")
  case True
  then have t: "\<not> (truthy_str (sc_type schema) \<and> sc_type schema \<noteq> Some ''object'')" by (auto simp: truthy_str_def)
  show ?thesis
  proof (cases args)
    case (JObj fs)
    have "(concat (map (\<lambda>(k, p). case map_get fs k of None \<Rightarrow> [] | Some v \<Rightarrow> validateProperty k v p) props) = [])
        \<longleftrightarrow> (\<forall>(k, p) \<in> set props. \<forall>v. map_get fs k = Some v \<longrightarrow> fits v p)" for props
      by (auto simp: validateProperty_fits split: option.splits)
    then show ?thesis
      using t True JObj
      by (cases "sc_required schema"; cases "sc_properties schema") (auto simp: validateToolArgs_def filter_empty_conv)
  qed (use t in \<open>simp_all add: validateToolArgs_def\<close>)
next
  case False
  then show ?thesis by (auto simp: validateToolArgs_def truthy_str_def)
qed

definition demo_schema :: schema_like where
  "demo_schema = Schema (Some ''object'')
     (Some [(''path'', Schema (Some ''string'') None None None None None None),
            (''lines'', Schema (Some ''integer'') None None None (Some (js_int 1)) None None)])
     (Some [''path'']) None None None None"

theorem validateToolArgs_iff_witness:
  "validateToolArgs (JObj [(''path'', JStr ''a''), (''lines'', JNum (js_int 3))]) demo_schema = []
   \<and> validateToolArgs (JObj [(''lines'', JNum (js_int 0))]) demo_schema \<noteq> []
   \<and> validateToolArgs (JObj [(''other'', JNull)]) (Schema None None None None None None None) = []"
  unfolding validateToolArgs_iff demo_schema_def
  by (auto simp: map_has_def map_get_def fits_def SCHEMA_TYPES_def)

end
