(* ===== verification/Runaway_Breaker.thy ===== *)
theory Runaway_Breaker
  imports Prelude
begin

text \<open>
  The circuit breaker of a turn (\<open>daemon/src/sessions/runaway-breaker.ts\<close>): repeated tool calls in a
  rolling window, a budget of prose, and a two-stage reaction. The hash of a signature is an argument;
  sizes are natural numbers.
\<close>

record breaker =
  br_windowSize :: nat
  br_maxDuplicates :: nat
  br_signatureArgsChars :: nat
  br_proseCharLimit :: nat
  br_window :: "string list"
  br_proseChars :: nat
  br_steeredOnce :: bool

datatype runaway_trigger =
    DuplicateToolCall string nat string
  | ExcessiveProse nat

datatype runaway_verdict = VOk | VSteer runaway_trigger | VCancel runaway_trigger

definition RUNAWAY_WINDOW_SIZE :: nat where "RUNAWAY_WINDOW_SIZE = 15"

definition RUNAWAY_MAX_DUPLICATES :: nat where "RUNAWAY_MAX_DUPLICATES = 2"

definition RUNAWAY_SIGNATURE_ARGS_CHARS :: nat where "RUNAWAY_SIGNATURE_ARGS_CHARS = 2000"

definition RUNAWAY_PROSE_CHAR_LIMIT :: nat where "RUNAWAY_PROSE_CHAR_LIMIT = 20000"

definition new_breaker :: "nat option \<Rightarrow> nat option \<Rightarrow> nat option \<Rightarrow> nat option \<Rightarrow> breaker" where
  "new_breaker windowSize maxDuplicates signatureArgsChars proseCharLimit =
     \<lparr>br_windowSize = nullish windowSize RUNAWAY_WINDOW_SIZE,
      br_maxDuplicates = nullish maxDuplicates RUNAWAY_MAX_DUPLICATES,
      br_signatureArgsChars = nullish signatureArgsChars RUNAWAY_SIGNATURE_ARGS_CHARS,
      br_proseCharLimit = nullish proseCharLimit RUNAWAY_PROSE_CHAR_LIMIT,
      br_window = [], br_proseChars = 0, br_steeredOnce = False\<rparr>"

definition breaker_trip :: "runaway_trigger \<Rightarrow> breaker \<Rightarrow> runaway_verdict \<times> breaker" where
  "breaker_trip trigger b =
     (if br_steeredOnce b then VCancel trigger else VSteer trigger,
      b\<lparr>br_steeredOnce := True, br_window := [], br_proseChars := 0\<rparr>)"

definition call_signature :: "breaker \<Rightarrow> string \<Rightarrow> string \<Rightarrow> string" where
  "call_signature b toolName argsJson = toolName @ ''|'' @ take (br_signatureArgsChars b) argsJson"

text \<open>The loop that shifts the window down to its size keeps the newest entries.\<close>

definition newest :: "nat \<Rightarrow> 'a list \<Rightarrow> 'a list" where
  "newest n xs = drop (length xs - n) xs"

definition breaker_record :: "(string \<Rightarrow> string) \<Rightarrow> string \<Rightarrow> string \<Rightarrow> breaker \<Rightarrow> runaway_verdict \<times> breaker" where
  "breaker_record hashSignature toolName argsJson b =
     (let signature = call_signature b toolName argsJson;
          hashed = hashSignature signature;
          window = newest (br_windowSize b) (br_window b @ [hashed]);
          count = count_list window hashed;
          b' = b\<lparr>br_window := window\<rparr>
      in if count \<le> br_maxDuplicates b then (VOk, b')
         else breaker_trip (DuplicateToolCall toolName count signature) b')"

definition recordProse :: "nat \<Rightarrow> breaker \<Rightarrow> runaway_verdict \<times> breaker" where
  "recordProse charCount b =
     (let chars = br_proseChars b + charCount; b' = b\<lparr>br_proseChars := chars\<rparr>
      in if chars \<le> br_proseCharLimit b then (VOk, b')
         else breaker_trip (ExcessiveProse chars) b')"

section \<open>What the breaker lets through\<close>

definition breaker_ok :: "breaker \<Rightarrow> bool" where
  "breaker_ok b \<longleftrightarrow>
     length (br_window b) \<le> br_windowSize b \<and> (\<forall>x. count_list (br_window b) x \<le> br_maxDuplicates b)
     \<and> br_proseChars b \<le> br_proseCharLimit b"

lemma length_newest [simp]: "length (newest n xs) = min n (length xs)"
  by (simp add: newest_def)

lemma newest_append: "newest n (xs @ ys) = newest (n - length ys) xs @ newest n ys"
  by (cases "length ys \<le> n") (simp_all add: newest_def)

lemma newest_newest: "newest n (newest m xs) = newest (min n m) xs"
proof -
  have "length xs - m + (length xs - (n + (length xs - m))) = length xs - min n m" by arith
  then show ?thesis by (simp add: newest_def add.commute)
qed

lemma newest_map: "newest n (map f xs) = map f (newest n xs)"
  by (simp add: newest_def drop_map)

lemma count_newest_le: "count_list (newest n xs) x \<le> count_list xs x"
  unfolding newest_def by (metis append_take_drop_id count_list_append le_add2)

lemma new_breaker_ok: "breaker_ok (new_breaker w m c p)"
  by (simp add: breaker_ok_def new_breaker_def)

lemma breaker_record_ok: "breaker_ok b \<Longrightarrow> breaker_ok (snd (breaker_record h t a b))"
proof -
  assume b: "breaker_ok b"
  let ?w = "newest (br_windowSize b) (br_window b @ [h (call_signature b t a)])"
  have "count_list ?w x \<le> br_maxDuplicates b"
    if "count_list ?w (h (call_signature b t a)) \<le> br_maxDuplicates b" for x
  proof (cases "x = h (call_signature b t a)")
    case False
    then have "count_list ?w x \<le> count_list (br_window b) x"
      using count_newest_le [of "br_windowSize b" "br_window b @ [h (call_signature b t a)]" x] by simp
    then show ?thesis using b by (meson breaker_ok_def le_trans)
  qed (use that in simp)
  then show ?thesis
    using b by (simp add: breaker_record_def breaker_trip_def breaker_ok_def Let_def)
qed

lemma recordProse_ok: "breaker_ok b \<Longrightarrow> breaker_ok (snd (recordProse n b))"
  by (simp add: recordProse_def breaker_trip_def breaker_ok_def Let_def)

text \<open>The calls of a turn and the prose of its rounds, as the loop reports them.\<close>

datatype breaker_event = CallEvent string string | ProseEvent nat

fun breaker_step :: "(string \<Rightarrow> string) \<Rightarrow> breaker_event \<Rightarrow> breaker \<Rightarrow> runaway_verdict \<times> breaker" where
  "breaker_step h (CallEvent t a) b = breaker_record h t a b"
| "breaker_step h (ProseEvent n) b = recordProse n b"

fun breaker_run :: "(string \<Rightarrow> string) \<Rightarrow> breaker_event list \<Rightarrow> breaker \<Rightarrow> runaway_verdict list \<times> breaker" where
  "breaker_run h [] b = ([], b)"
| "breaker_run h (e # es) b =
     (case breaker_step h e b of
        (v, b') \<Rightarrow> (case breaker_run h es b' of (vs, b'') \<Rightarrow> (v # vs, b'')))"

lemma breaker_run_fst [simp]:
  "fst (breaker_run h (e # es) b) =
     fst (breaker_step h e b) # fst (breaker_run h es (snd (breaker_step h e b)))"
  by (simp split: prod.splits)

declare breaker_run.simps(2) [simp del]

fun is_steer :: "runaway_verdict \<Rightarrow> bool" where
  "is_steer (VSteer _) = True"
| "is_steer _ = False"

fun is_cancel :: "runaway_verdict \<Rightarrow> bool" where
  "is_cancel (VCancel _) = True"
| "is_cancel _ = False"

lemma breaker_step_stage:
  "breaker_step h e b = (v, b') \<Longrightarrow>
     br_steeredOnce b' = (br_steeredOnce b \<or> v \<noteq> VOk) \<and> is_steer v = (v \<noteq> VOk \<and> \<not> br_steeredOnce b)
     \<and> is_cancel v = (v \<noteq> VOk \<and> br_steeredOnce b)"
  by (cases e)
    (auto simp: breaker_record_def recordProse_def breaker_trip_def Let_def split: if_splits)

lemma breaker_run_steered:
  "br_steeredOnce b \<Longrightarrow> \<forall>v \<in> set (fst (breaker_run h es b)). \<not> is_steer v"
proof (induction es arbitrary: b)
  case (Cons e es)
  obtain v b' where v: "breaker_step h e b = (v, b')" by fastforce
  have s: "br_steeredOnce b'" "\<not> is_steer v" using breaker_step_stage [OF v] Cons.prems by auto
  show ?case using Cons.IH [OF s(1)] s(2) by (simp add: v)
qed simp

text \<open>
  C26. The two stages: the first trip of a turn steers and every later one cancels, whichever of the two
  heuristics fires. So a turn is steered at most once.
\<close>
theorem steer_then_cancel:
  assumes "fst (breaker_run h es (new_breaker w m c p)) = us @ v # vs" "v \<noteq> VOk"
  shows "if list_all (\<lambda>u. u = VOk) us then is_steer v else is_cancel v"
proof -
  have "if list_all (\<lambda>u. u = VOk) us \<and> \<not> br_steeredOnce b then is_steer v else is_cancel v"
    if "fst (breaker_run h es b) = us @ v # vs" for b
    using that
  proof (induction es arbitrary: b us)
    case (Cons e es)
    obtain u b' where u: "breaker_step h e b = (u, b')" by fastforce
    note S = breaker_step_stage [OF u]
    have run: "u # fst (breaker_run h es b') = us @ v # vs"
      using Cons.prems by (simp add: u)
    show ?case
    proof (cases us)
      case Nil
      then show ?thesis using run S assms(2) by auto
    next
      case (Cons u' us')
      then have "fst (breaker_run h es b') = us' @ v # vs" "u' = u" using run by simp_all
      then show ?thesis using Cons.IH [of b' us'] S Cons by auto
    qed
  qed simp
  from this [OF assms(1)] show ?thesis by (simp add: new_breaker_def)
qed

lemma calls_pass_gen:
  assumes h: "inj h" and b: "br_window b = map h (newest (br_windowSize b) prev)"
  shows "list_all (\<lambda>v. v = VOk) (fst (breaker_run h (map (\<lambda>(t, a). CallEvent t a) calls) b)) \<longleftrightarrow>
    (\<forall>i < length calls.
       count_list (newest (br_windowSize b) (prev @ map (\<lambda>(t, a). call_signature b t a) (take (Suc i) calls)))
         (call_signature b (fst (calls ! i)) (snd (calls ! i))) \<le> br_maxDuplicates b)"
  using b
proof (induction calls arbitrary: b prev)
  case (Cons c calls)
  obtain t a where c: "c = (t, a)" by fastforce
  let ?n = "br_windowSize b" and ?s = "call_signature b t a"
  have w: "newest ?n (br_window b @ [h ?s]) = map h (newest ?n (prev @ [?s]))"
    unfolding Cons.prems newest_append newest_map newest_newest by (cases ?n) (simp_all add: newest_def)
  have cnt: "count_list (map h xs) (h x) = count_list xs x" for xs :: "string list" and x
    using h by (induction xs) (auto dest: injD)
  show ?case
  proof (cases "count_list (newest ?n (prev @ [?s])) ?s \<le> br_maxDuplicates b")
    case False
    then show ?thesis
      using w cnt by (auto simp: c breaker_record_def breaker_trip_def Let_def intro!: exI [of _ 0])
  next
    case True
    let ?b = "b\<lparr>br_window := map h (newest ?n (prev @ [?s]))\<rparr>"
    have rec: "breaker_record h t a b = (VOk, ?b)" using True w cnt by (simp add: breaker_record_def Let_def)
    have sig: "call_signature ?b = call_signature b" by (simp add: call_signature_def fun_eq_iff)
    have IH: "list_all (\<lambda>v. v = VOk) (fst (breaker_run h (map (\<lambda>(t, a). CallEvent t a) calls) ?b)) \<longleftrightarrow>
        (\<forall>i < length calls.
          count_list (newest ?n ((prev @ [?s]) @ map (\<lambda>(t, a). call_signature b t a) (take (Suc i) calls)))
            (call_signature b (fst (calls ! i)) (snd (calls ! i))) \<le> br_maxDuplicates b)"
      using Cons.IH [of ?b "prev @ [?s]"] by (simp add: sig)
    have all: "(\<forall>i < length (c # calls). P i) \<longleftrightarrow> P 0 \<and> (\<forall>i < length calls. P (Suc i))" for P
      using less_Suc_eq_0_disj by auto
    show ?thesis unfolding all using True rec IH by (simp add: c)
  qed
qed simp

text \<open>
  When the breaker trips: a series of calls passes exactly as long as no call occurs, with the same name
  and the same beginning of its arguments, more than the maximum number of times among the newest calls
  of the window.
\<close>
theorem breaker_trips_exactly:
  assumes "inj h"
  shows "list_all (\<lambda>v. v = VOk) (fst (breaker_run h (map (\<lambda>(t, a). CallEvent t a) calls) (new_breaker w m c p))) \<longleftrightarrow>
    (\<forall>i < length calls.
       count_list
         (newest (nullish w RUNAWAY_WINDOW_SIZE)
           (map (\<lambda>(t, a). t @ ''|'' @ take (nullish c RUNAWAY_SIGNATURE_ARGS_CHARS) a) (take (Suc i) calls)))
         (fst (calls ! i) @ ''|'' @ take (nullish c RUNAWAY_SIGNATURE_ARGS_CHARS) (snd (calls ! i)))
       \<le> nullish m RUNAWAY_MAX_DUPLICATES)"
  using calls_pass_gen [OF assms, of "new_breaker w m c p" "[]" calls]
  by (simp add: new_breaker_def call_signature_def newest_def)

text \<open>
  The comment of \<open>hashSignature\<close> says that two calls which differ only after the truncation point hash
  differently. They have one signature, so the breaker takes them for repetitions.
\<close>
lemma late_difference_is_duplicate:
  "call_signature b t (take (br_signatureArgsChars b) a @ x) = call_signature b t (take (br_signatureArgsChars b) a @ y)
     \<longleftrightarrow> br_signatureArgsChars b \<le> length a
       \<or> take (br_signatureArgsChars b - length a) x = take (br_signatureArgsChars b - length a) y"
  by (auto simp: call_signature_def min_def)

definition demo_verdicts :: "runaway_verdict list" where
  "demo_verdicts =
     fst (breaker_run (\<lambda>s. s) (replicate 4 (CallEvent ''t'' ''{}'')) (new_breaker (Some 3) (Some 1) (Some 5) (Some 9)))"

theorem steer_then_cancel_witness: "is_steer (demo_verdicts ! 1) \<and> is_cancel (demo_verdicts ! 3)"
proof -
  let ?d = "DuplicateToolCall ''t'' 2 ''t|{}''"
  have "demo_verdicts = [VOk, VSteer ?d, VOk, VCancel ?d]" by code_simp
  then have r: "demo_verdicts = [VOk] @ VSteer ?d # [VOk, VCancel ?d]" "demo_verdicts = [VOk, VSteer ?d, VOk] @ VCancel ?d # []"
    by simp_all
  show ?thesis
    using steer_then_cancel [OF r(1) [unfolded demo_verdicts_def]] steer_then_cancel [OF r(2) [unfolded demo_verdicts_def]]
    unfolding r(1) by simp
qed

theorem breaker_trips_exactly_witness:
  "list_all (\<lambda>v. v = VOk)
     (fst (breaker_run (\<lambda>s. s) (map (\<lambda>(t, a). CallEvent t a) [(''t'', ''1''), (''t'', ''2''), (''t'', ''1'')])
       (new_breaker None None None None)))"
proof -
  have i: "inj (\<lambda>s :: string. s)" by (simp add: inj_def)
  have "\<forall>i < 3. count_list (newest (15 :: nat) (map (\<lambda>(t, a). t @ ''|'' @ take 2000 a)
      (take (Suc i) [(''t'', ''1''), (''t'', ''2''), (''t'', ''1'')])))
      (fst ([(''t'', ''1''), (''t'', ''2''), (''t'', ''1'')] ! i) @ ''|''
        @ take 2000 (snd ([(''t'', ''1''), (''t'', ''2''), (''t'', ''1'')] ! i))) \<le> 2"
    by (simp add: newest_def numeral_nat less_Suc_eq all_conj_distrib)
  then show ?thesis
    using breaker_trips_exactly [OF i, of "[(''t'', ''1''), (''t'', ''2''), (''t'', ''1'')]" None None None None]
    by (simp add: RUNAWAY_WINDOW_SIZE_def RUNAWAY_SIGNATURE_ARGS_CHARS_def RUNAWAY_MAX_DUPLICATES_def)
qed

end
