(* ===== verification/Transcript.thy ===== *)
theory Transcript
  imports Workflow_Types
begin

text \<open>
  The transcript of a session: the table of messages and the repair of unanswered tool calls
  (\<open>daemon/src/sessions/transcript-store.ts\<close>), the history handed to the model
  (\<open>transcript-to-chat.ts\<close>) and its compaction (\<open>models/src/compaction.ts\<close>).
\<close>

section \<open>The store\<close>

record tool_call_entry =
  te_id :: string
  te_name :: string
  te_argsJson :: string
  te_thoughtSignature :: "string option"

record tx_row =
  tx_session :: string
  tx_segment :: string
  tx_seq :: nat
  tx_role :: string
  tx_content :: "string option"
  tx_toolCallId :: "string option"
  tx_toolCalls :: "tool_call_entry list option"
  tx_metadata :: "json option"
  tx_systemContext :: "json option"
  tx_createdAt :: string

record tx_input =
  ti_session :: string
  ti_segment :: string
  ti_role :: string
  ti_content :: "string option"
  ti_toolCallId :: "string option"
  ti_toolCalls :: "tool_call_entry list option"
  ti_metadata :: "json option"
  ti_systemContext :: "json option"

type_synonym tx_table = "tx_row list"

definition nextSeq :: "string \<Rightarrow> tx_table \<Rightarrow> nat" where
  "nextSeq sessionId db = fold max (map tx_seq (filter (\<lambda>r. tx_session r = sessionId) db)) 0 + 1"

definition tx_insertRow :: "string \<Rightarrow> tx_input \<Rightarrow> tx_table \<Rightarrow> nat \<times> tx_table" where
  "tx_insertRow now inp db =
     (let seq = nextSeq (ti_session inp) db in
      (seq, db @ [\<lparr>tx_session = ti_session inp, tx_segment = ti_segment inp, tx_seq = seq, tx_role = ti_role inp,
                   tx_content = ti_content inp, tx_toolCallId = ti_toolCallId inp, tx_toolCalls = ti_toolCalls inp,
                   tx_metadata = ti_metadata inp, tx_systemContext = ti_systemContext inp, tx_createdAt = now\<rparr>]))"

definition segment_rows :: "string \<Rightarrow> string \<Rightarrow> tx_table \<Rightarrow> tx_row list" where
  "segment_rows sessionId contextSegmentId db =
     sort_key tx_seq (filter (\<lambda>r. tx_session r = sessionId \<and> tx_segment r = contextSegmentId) db)"

definition selectRecent :: "string \<Rightarrow> string \<Rightarrow> tx_table \<Rightarrow> tx_row list" where
  "selectRecent sessionId contextSegmentId db = take 50 (rev (segment_rows sessionId contextSegmentId db))"

text \<open>
  The scan of \<open>repairOrphaned\<close>, newest row first: the ids of the last message with tool calls and the
  ids answered after it. A column of tool calls is \<open>NULL\<close> when there are none.
\<close>

fun scan_recent :: "tx_row list \<Rightarrow> string list \<Rightarrow> (string list \<times> string list) option" where
  "scan_recent [] collected = None"
| "scan_recent (r # rs) collected =
     (if tx_role r = ''tool'' \<and> truthy_str (tx_toolCallId r)
      then scan_recent rs (the (tx_toolCallId r) # collected)
      else if tx_role r = ''assistant''
        then (case tx_toolCalls r of Some calls \<Rightarrow> Some (map te_id calls, collected) | None \<Rightarrow> None)
      else None)"

definition missing_ids :: "string \<Rightarrow> string \<Rightarrow> tx_table \<Rightarrow> string list" where
  "missing_ids sessionId contextSegmentId db =
     (case scan_recent (selectRecent sessionId contextSegmentId db) [] of
        None \<Rightarrow> []
      | Some (expectedIds, collected) \<Rightarrow> filter (\<lambda>i. i \<notin> set collected) expectedIds)"

definition aborted_answer :: "string \<Rightarrow> string \<Rightarrow> string \<Rightarrow> tx_input" where
  "aborted_answer sessionId contextSegmentId i =
     \<lparr>ti_session = sessionId, ti_segment = contextSegmentId, ti_role = ''tool'',
      ti_content = Some ''[Tool call aborted -- no result available]'', ti_toolCallId = Some i, ti_toolCalls = None,
      ti_metadata = None, ti_systemContext = None\<rparr>"

definition repairOrphaned :: "string \<Rightarrow> string \<Rightarrow> string \<Rightarrow> tx_table \<Rightarrow> tx_table" where
  "repairOrphaned now sessionId contextSegmentId db =
     fold (\<lambda>i db. snd (tx_insertRow now (aborted_answer sessionId contextSegmentId i) db))
       (missing_ids sessionId contextSegmentId db) db"

definition tx_append :: "string \<Rightarrow> tx_input \<Rightarrow> tx_table \<Rightarrow> nat \<times> tx_table" where
  "tx_append now inp db =
     (let db' = (if ti_role inp = ''tool'' \<and> truthy_str (ti_toolCallId inp) then db
                 else repairOrphaned now (ti_session inp) (ti_segment inp) db)
      in tx_insertRow now (inp\<lparr>ti_toolCalls := (case ti_toolCalls inp of Some (c # cs) \<Rightarrow> Some (c # cs) | _ \<Rightarrow> None)\<rparr>) db')"

definition listPage :: "string \<Rightarrow> string \<Rightarrow> nat \<Rightarrow> nat \<Rightarrow> tx_table \<Rightarrow> tx_row list \<times> nat option" where
  "listPage sessionId contextSegmentId afterSeq limit db =
     (let messages = take limit (filter (\<lambda>r. afterSeq < tx_seq r) (segment_rows sessionId contextSegmentId db))
      in (messages, if limit \<le> length messages \<and> messages \<noteq> [] then Some (tx_seq (last messages)) else None))"

definition deleteForSessionSegment :: "string \<Rightarrow> string \<Rightarrow> tx_table \<Rightarrow> nat \<times> tx_table" where
  "deleteForSessionSegment sessionId contextSegmentId db =
     (let gone = (\<lambda>r. tx_session r = js_trim sessionId \<and> tx_segment r = js_trim contextSegmentId)
      in (length (filter gone db), filter (\<lambda>r. \<not> gone r) db))"

datatype tx_op = TxAppend string tx_input | TxDelete string string

fun tx_apply :: "tx_op \<Rightarrow> tx_table \<Rightarrow> tx_table" where
  "tx_apply (TxAppend now inp) db = snd (tx_append now inp db)"
| "tx_apply (TxDelete s g) db = snd (deleteForSessionSegment s g db)"

subsection \<open>Order of the rows\<close>

text \<open>In the table, the sequence numbers of a session increase in the order of insertion.\<close>

definition seqs_ok :: "tx_table \<Rightarrow> bool" where
  "seqs_ok db \<longleftrightarrow> (\<forall>s. sorted_wrt (<) (map tx_seq (filter (\<lambda>r. tx_session r = s) db))) \<and> (\<forall>r \<in> set db. 0 < tx_seq r)"

definition view :: "string \<Rightarrow> string \<Rightarrow> tx_table \<Rightarrow> tx_row list" where
  "view s g db = filter (\<lambda>r. tx_session r = s \<and> tx_segment r = g) db"

lemma fold_max_ge: "x \<in> set xs \<or> x \<le> a \<Longrightarrow> x \<le> fold max xs (a :: nat)"
  by (induction xs arbitrary: a) (auto simp: le_max_iff_disj)

lemma nextSeq_greater: "r \<in> set db \<Longrightarrow> tx_session r = s \<Longrightarrow> tx_seq r < nextSeq s db"
  using fold_max_ge [of "tx_seq r" "map tx_seq (filter (\<lambda>r. tx_session r = s) db)" 0]
  by (simp add: nextSeq_def less_Suc_eq_le)

lemma seqs_ok_Nil [simp]: "seqs_ok []"
  by (simp add: seqs_ok_def)

lemma seqs_ok_insert: "seqs_ok db \<Longrightarrow> seqs_ok (snd (tx_insertRow now inp db))"
  using nextSeq_greater [of _ db "ti_session inp"]
  by (auto simp: seqs_ok_def tx_insertRow_def Let_def sorted_wrt_append nextSeq_def)

lemma seqs_ok_filter: "seqs_ok db \<Longrightarrow> seqs_ok (filter P db)"
proof -
  assume db: "seqs_ok db"
  have "filter (\<lambda>r. tx_session r = s) (filter P db) = filter P (filter (\<lambda>r. tx_session r = s) db)" for s
    by (simp add: conj_commute)
  then show ?thesis
    using db sorted_wrt_filter unfolding seqs_ok_def sorted_wrt_map by fastforce
qed

lemma view_sorted: "seqs_ok db \<Longrightarrow> sorted_wrt (\<lambda>a b. tx_seq a < tx_seq b) (view s g db)"
proof -
  assume "seqs_ok db"
  then have "sorted_wrt (\<lambda>a b. tx_seq a < tx_seq b) (filter (\<lambda>r. tx_session r = s) db)"
    by (simp add: seqs_ok_def sorted_wrt_map)
  from sorted_wrt_filter [OF this, of "\<lambda>r. tx_segment r = g"] show ?thesis
    by (simp add: view_def)
qed

lemma segment_rows_view: "seqs_ok db \<Longrightarrow> segment_rows s g db = view s g db"
proof -
  assume "seqs_ok db"
  then have "sorted (map tx_seq (view s g db))"
    using view_sorted [of db s g] by (simp add: sorted_wrt_map)
      (metis (mono_tags, lifting) less_imp_le_nat sorted_wrt_mono_rel)
  then show ?thesis unfolding segment_rows_def view_def [symmetric] by (rule sort_key_id_if_sorted)
qed

subsection \<open>Every tool call is answered\<close>

definition call_ids :: "tx_row \<Rightarrow> string list" where
  "call_ids r = (if tx_role r = ''assistant'' then map te_id (nullish (tx_toolCalls r) []) else [])"

definition answers :: "tx_row \<Rightarrow> string \<Rightarrow> bool" where
  "answers r i \<longleftrightarrow> tx_role r = ''tool'' \<and> tx_toolCallId r = Some i"

definition is_tool :: "tx_row \<Rightarrow> bool" where
  "is_tool r \<longleftrightarrow> tx_role r = ''tool''"

text \<open>
  Between a message with tool calls and the next message that is not a tool result, every call has its
  result.
\<close>

definition exchanges_ok :: "tx_row list \<Rightarrow> bool" where
  "exchanges_ok vs \<longleftrightarrow>
     (\<forall>us a ws b zs. vs = us @ a # ws @ b # zs \<and> \<not> is_tool b \<longrightarrow>
        (\<forall>i \<in> set (call_ids a). \<exists>r \<in> set ws. answers r i))"

definition short_runs :: "tx_row list \<Rightarrow> bool" where
  "short_runs vs \<longleftrightarrow> (\<forall>us ws zs. vs = us @ ws @ zs \<and> list_all is_tool ws \<longrightarrow> length ws < 50)"

text \<open>Tool results name a call, and calls have names.\<close>

definition row_ok :: "tx_row \<Rightarrow> bool" where
  "row_ok r \<longleftrightarrow> (is_tool r \<longrightarrow> truthy_str (tx_toolCallId r)) \<and> (\<forall>i \<in> set (call_ids r). i \<noteq> [])"

lemma short_runs_prefix: "short_runs (vs @ ws) \<Longrightarrow> short_runs vs"
  unfolding short_runs_def by (metis append.assoc)

lemma exchanges_prefix: "exchanges_ok (vs @ ws) \<Longrightarrow> exchanges_ok vs"
  unfolding exchanges_ok_def by (metis append.assoc append_Cons)

lemma scan_tools:
  "list_all (\<lambda>r. is_tool r \<and> truthy_str (tx_toolCallId r)) ws \<Longrightarrow>
     scan_recent (ws @ rs) coll = scan_recent rs (rev (map (the \<circ> tx_toolCallId) ws) @ coll)"
  by (induction ws arbitrary: coll) (auto simp: is_tool_def)

lemma scan_finds:
  assumes "list_all is_tool ws" "list_all row_ok ws" "\<not> is_tool a" "call_ids a \<noteq> []" "length ws < 50"
  shows "scan_recent (take 50 (rev (us @ a # ws))) [] = Some (call_ids a, map (the \<circ> tx_toolCallId) ws)"
proof -
  have "take 50 (rev (us @ a # ws)) = rev ws @ a # take (49 - length ws) (rev us)"
    using assms(5) by (simp add: take_Cons' not_less Suc_diff_Suc)
  moreover have "list_all (\<lambda>r. is_tool r \<and> truthy_str (tx_toolCallId r)) (rev ws)"
    using assms(1,2) by (auto simp: list_all_iff row_ok_def)
  ultimately show ?thesis
    using scan_tools [of "rev ws" "a # take (49 - length ws) (rev us)" "[]"] assms(3,4)
    by (auto simp: call_ids_def is_tool_def rev_map split: if_splits option.splits)
qed

lemma missing_answered:
  assumes db: "seqs_ok db" and v: "view s g db = us @ a # ws" and ws: "list_all is_tool ws"
    and ok: "list_all row_ok (view s g db)" and short: "short_runs (view s g db)" and a: "\<not> is_tool a"
    and i: "i \<in> set (call_ids a)"
  shows "(\<exists>r \<in> set ws. answers r i) \<or> i \<in> set (missing_ids s g db)"
proof -
  have "length ws < 50" using short v ws unfolding short_runs_def by (metis append.right_neutral append_Cons append_assoc append_Nil)
  moreover have "list_all row_ok ws" using ok v by simp
  moreover have "call_ids a \<noteq> []" using i by auto
  ultimately have "scan_recent (selectRecent s g db) [] = Some (call_ids a, map (the \<circ> tx_toolCallId) ws)"
    using scan_finds [OF ws _ a] unfolding selectRecent_def segment_rows_view [OF db] v by blast
  then have m: "set (missing_ids s g db) = set (call_ids a) - (the \<circ> tx_toolCallId) ` set ws"
    by (auto simp: missing_ids_def)
  show ?thesis
  proof (cases "i \<in> (the \<circ> tx_toolCallId) ` set ws")
    case True
    then obtain r where r: "r \<in> set ws" "the (tx_toolCallId r) = i" by auto
    then have "truthy_str (tx_toolCallId r)" "is_tool r"
      using ok v ws by (auto simp: list_all_iff row_ok_def)
    then have "answers r i" using r(2) by (auto simp: answers_def is_tool_def truthy_str_def split: option.splits)
    then show ?thesis using r(1) by blast
  qed (use m i in blast)
qed

text \<open>How an insertion and the repair change one segment.\<close>

lemma view_insert:
  "view s g (snd (tx_insertRow now inp db)) =
     view s g db @ (if ti_session inp = s \<and> ti_segment inp = g
       then [\<lparr>tx_session = s, tx_segment = g, tx_seq = nextSeq s db, tx_role = ti_role inp,
              tx_content = ti_content inp, tx_toolCallId = ti_toolCallId inp, tx_toolCalls = ti_toolCalls inp,
              tx_metadata = ti_metadata inp, tx_systemContext = ti_systemContext inp, tx_createdAt = now\<rparr>]
       else [])"
  by (auto simp: view_def tx_insertRow_def Let_def)

lemma repair_rows:
  fixes now s g :: string
  assumes "seqs_ok db"
  defines "db' \<equiv> repairOrphaned now s g db"
  shows "seqs_ok db'" "(s', g') \<noteq> (s, g) \<Longrightarrow> view s' g' db' = view s' g' db"
    "\<exists>reps. view s g db' = view s g db @ reps \<and> list_all is_tool reps \<and> list_all (\<lambda>r. call_ids r = []) reps
       \<and> map tx_toolCallId reps = map Some (missing_ids s g db)"
proof -
  let ?ins = "\<lambda>i db. snd (tx_insertRow now (aborted_answer s g i) db)"
  have "seqs_ok (fold ?ins is db) \<and> ((s', g') \<noteq> (s, g) \<longrightarrow> view s' g' (fold ?ins is db) = view s' g' db)
      \<and> (\<exists>reps. view s g (fold ?ins is db) = view s g db @ reps \<and> list_all is_tool reps
        \<and> list_all (\<lambda>r. call_ids r = []) reps \<and> map tx_toolCallId reps = map Some is)" if "seqs_ok db" for "is" db
    using that
  proof (induction "is" arbitrary: db)
    case (Cons i "is")
    note IH = Cons.IH [OF seqs_ok_insert [OF Cons.prems, where now = now and inp = "aborted_answer s g i"]]
    obtain reps where "view s g (fold ?ins is (?ins i db)) = view s g (?ins i db) @ reps" "list_all is_tool reps"
      "list_all (\<lambda>r. call_ids r = []) reps" "map tx_toolCallId reps = map Some is"
      using IH by blast
    then show ?case
      using IH by (auto simp: view_insert aborted_answer_def is_tool_def call_ids_def intro!: exI [of _ "_ # reps"])
  qed simp
  from this [OF assms(1)] show "seqs_ok db'" "(s', g') \<noteq> (s, g) \<Longrightarrow> view s' g' db' = view s' g' db"
    "\<exists>reps. view s g db' = view s g db @ reps \<and> list_all is_tool reps \<and> list_all (\<lambda>r. call_ids r = []) reps
       \<and> map tx_toolCallId reps = map Some (missing_ids s g db)"
    by (auto simp: db'_def repairOrphaned_def)
qed

lemma exchanges_close:
  assumes vs: "exchanges_ok vs" and reps: "list_all is_tool reps" "list_all (\<lambda>r. call_ids r = []) reps"
    and last: "\<And>us a ws i. vs = us @ a # ws \<Longrightarrow> list_all is_tool ws \<Longrightarrow> i \<in> set (call_ids a) \<Longrightarrow>
      \<exists>r \<in> set (ws @ reps). answers r i"
  shows "exchanges_ok (vs @ reps @ [n])"
  unfolding exchanges_ok_def
proof (intro allI impI ballI)
  fix us a ws b zs i
  assume eq: "vs @ reps @ [n] = us @ a # ws @ b # zs \<and> \<not> is_tool b" and i: "i \<in> set (call_ids a)"
  have a_vs: "a \<notin> set reps" using i reps(2) by (auto simp: list_all_iff)
  have b_reps: "b \<notin> set reps" using eq reps(1) by (auto simp: list_all_iff)
  have inner: "\<exists>r \<in> set ws. answers r i" if "vs = us @ a # ws @ b # y" for y
    using vs that eq i unfolding exchanges_ok_def by blast
  have outer: "\<exists>r \<in> set ws. answers r i" if v: "vs = us @ a # w1" and w: "ws = w1 @ reps" for w1
  proof (cases "list_all is_tool w1")
    case True
    from last [OF v this i] show ?thesis by (simp add: w)
  next
    case False
    then obtain x b' y where "w1 = x @ b' # y" "\<not> is_tool b'" by (auto simp: list_all_iff dest: split_list)
    then have "\<exists>r \<in> set x. answers r i" using vs v i unfolding exchanges_ok_def by (metis append_Cons append_assoc)
    then show ?thesis by (auto simp: w \<open>w1 = x @ b' # y\<close>)
  qed
  have lst: "zs = [] \<or> (\<exists>z'. zs = z' @ [n])" using eq by (cases zs rule: rev_cases) auto
  then show "\<exists>r \<in> set ws. answers r i"
  proof
    assume "zs = []"
    then have "us @ a # ws = vs @ reps" using eq by auto
    then obtain w1 where "vs = us @ a # w1" "ws = w1 @ reps"
      using a_vs by (auto simp: append_eq_append_conv2 Cons_eq_append_conv)
    then show ?thesis by (rule outer)
  next
    assume "\<exists>z'. zs = z' @ [n]"
    then obtain z' where "us @ a # ws @ b # z' = vs @ reps" using eq by auto
    then obtain y where "vs = us @ a # ws @ b # y"
      using b_reps a_vs by (auto simp: append_eq_append_conv2 Cons_eq_append_conv)
    then show ?thesis by (rule inner)
  qed
qed

lemma exchanges_tool: "exchanges_ok vs \<Longrightarrow> is_tool n \<Longrightarrow> exchanges_ok (vs @ [n])"
  unfolding exchanges_ok_def
  by (metis (no_types, lifting) append_Cons append_butlast_last_id append_is_Nil_conv butlast.simps(2) butlast_append
      last.simps last_appendR list.discI append_assoc)

definition tx_op_ok :: "tx_op \<Rightarrow> bool" where
  "tx_op_ok op = (case op of
     TxAppend now inp \<Rightarrow>
       (ti_role inp = ''tool'' \<longrightarrow> truthy_str (ti_toolCallId inp))
       \<and> list_all (\<lambda>c. te_id c \<noteq> []) (nullish (ti_toolCalls inp) [])
   | TxDelete s g \<Rightarrow> True)"

definition tx_inv :: "tx_table \<Rightarrow> bool" where
  "tx_inv db \<longleftrightarrow>
     seqs_ok db \<and> (\<forall>s g. list_all row_ok (view s g db))
     \<and> (\<forall>s g. short_runs (view s g db) \<longrightarrow> exchanges_ok (view s g db))"

lemma tx_inv_seqs: "tx_inv db \<Longrightarrow> seqs_ok db"
  by (simp add: tx_inv_def)

lemma tx_inv_append:
  assumes inv: "tx_inv db" and ok: "tx_op_ok (TxAppend now inp)"
  shows "tx_inv (snd (tx_append now inp db))"
proof -
  let ?s = "ti_session inp" and ?g = "ti_segment inp"
  let ?tool = "ti_role inp = ''tool''"
  let ?db = "if ?tool then db else repairOrphaned now ?s ?g db"
  define inp' where "inp' = inp\<lparr>ti_toolCalls := (case ti_toolCalls inp of Some (c # cs) \<Rightarrow> Some (c # cs) | _ \<Rightarrow> None)\<rparr>"
  have app: "snd (tx_append now inp db) = snd (tx_insertRow now inp' ?db)"
    using ok by (auto simp: tx_append_def inp'_def tx_op_ok_def Let_def)
  have inp': "ti_session inp' = ?s" "ti_segment inp' = ?g" "ti_role inp' = ti_role inp" "ti_toolCallId inp' = ti_toolCallId inp"
    by (simp_all add: inp'_def)
  note R = repair_rows [OF tx_inv_seqs [OF inv], where now = now and s = ?s and g = ?g]
  have seqs: "seqs_ok (snd (tx_append now inp db))"
    unfolding app using R(1) tx_inv_seqs [OF inv] by (simp add: seqs_ok_insert)
  have other: "view s g (snd (tx_append now inp db)) = view s g db" if "(s, g) \<noteq> (?s, ?g)" for s g
    unfolding app view_insert inp' using R(2) [OF that] that by auto
  have calls: "nullish (ti_toolCalls inp') [] = nullish (ti_toolCalls inp) []"
    by (simp add: inp'_def nullish_def split: option.splits list.splits)
  obtain n where n: "view ?s ?g (snd (tx_append now inp db)) = view ?s ?g ?db @ [n]"
    "tx_role n = ti_role inp" "row_ok n"
  proof (rule that)
    let ?n = "last (view ?s ?g (snd (tx_append now inp db)))"
    show "view ?s ?g (snd (tx_append now inp db)) = view ?s ?g ?db @ [?n]" "tx_role ?n = ti_role inp"
      unfolding app view_insert inp' by simp_all
    show "row_ok ?n"
      unfolding app view_insert inp' using ok by (auto simp: row_ok_def is_tool_def call_ids_def tx_op_ok_def list_all_iff calls)
  qed
  have I: "list_all row_ok (view s g db)" "short_runs (view s g db) \<Longrightarrow> exchanges_ok (view s g db)" for s g
    using inv by (simp_all add: tx_inv_def)
  obtain reps where reps: "view ?s ?g ?db = view ?s ?g db @ reps" "list_all is_tool reps" "list_all (\<lambda>r. call_ids r = []) reps"
    "\<not> ?tool \<Longrightarrow> map tx_toolCallId reps = map Some (missing_ids ?s ?g db)" "list_all row_ok reps" "?tool \<Longrightarrow> reps = []"
  proof (cases ?tool)
    case False
    obtain reps where r: "view ?s ?g ?db = view ?s ?g db @ reps" "list_all is_tool reps" "list_all (\<lambda>r. call_ids r = []) reps"
      "map tx_toolCallId reps = map Some (missing_ids ?s ?g db)"
      using R(3) False by auto
    have "\<forall>i \<in> set (missing_ids ?s ?g db). i \<noteq> []"
    proof
      fix i assume "i \<in> set (missing_ids ?s ?g db)"
      then obtain ids coll where sc: "scan_recent (selectRecent ?s ?g db) [] = Some (ids, coll)" "i \<in> set ids"
        by (cases "scan_recent (selectRecent ?s ?g db) []") (auto simp: missing_ids_def)
      have "\<exists>a \<in> set rs. set ids = set (call_ids a)" if "scan_recent rs c = Some (ids, coll)" for rs c
        using that by (induction rs arbitrary: c) (auto simp: call_ids_def split: if_splits option.splits)
      from this [OF sc(1)] obtain a where "a \<in> set (selectRecent ?s ?g db)" "i \<in> set (call_ids a)" using sc(2) by auto
      then have "a \<in> set (view ?s ?g db)"
        using segment_rows_view [OF tx_inv_seqs [OF inv]] by (auto simp: selectRecent_def dest: in_set_takeD)
      then show "i \<noteq> []" using I(1) [of ?s ?g] \<open>i \<in> set (call_ids a)\<close> by (auto simp: list_all_iff row_ok_def)
    qed
    then have "\<forall>x \<in> set (map tx_toolCallId reps). truthy_str x" unfolding r(4) by (simp add: truthy_str_def)
    then have "list_all row_ok reps" using r(3) by (simp add: list_all_iff row_ok_def)
    then show ?thesis using that [of reps] r False by simp
  qed (use that [of "[]"] in simp)
  have "exchanges_ok (view ?s ?g db @ reps @ [n])" if "short_runs (view ?s ?g db @ reps @ [n])"
  proof -
    have sh: "short_runs (view ?s ?g db)" using that by (rule short_runs_prefix)
    show ?thesis
    proof (cases ?tool)
      case True
      then show ?thesis using exchanges_tool [OF I(2) [OF sh], of n] n(2) reps(6) by (simp add: is_tool_def)
    next
      case False
      show ?thesis
      proof (rule exchanges_close [OF I(2) [OF sh] reps(2,3)])
        fix us a ws i assume v: "view ?s ?g db = us @ a # ws" "list_all is_tool ws" "i \<in> set (call_ids a)"
        have "\<not> is_tool a" using v(3) by (auto simp: call_ids_def is_tool_def split: if_splits)
        from missing_answered [OF tx_inv_seqs [OF inv] v(1,2) I(1) sh this v(3)]
        show "\<exists>r \<in> set (ws @ reps). answers r i"
        proof
          assume "i \<in> set (missing_ids ?s ?g db)"
          then have "Some i \<in> tx_toolCallId ` set reps" using reps(4) [OF False] by (metis image_eqI list.set_map)
          then show ?thesis using reps(2) by (auto simp: answers_def is_tool_def list_all_iff)
        qed auto
      qed
    qed
  qed
  moreover have "list_all row_ok (view ?s ?g db @ reps @ [n])" using I(1) reps(5) n(3) by simp
  moreover have "view ?s ?g (snd (tx_append now inp db)) = view ?s ?g db @ reps @ [n]" using n(1) reps(1) by simp
  ultimately have "list_all row_ok (view s g (snd (tx_append now inp db)))
      \<and> (short_runs (view s g (snd (tx_append now inp db))) \<longrightarrow> exchanges_ok (view s g (snd (tx_append now inp db))))" for s g
    using other [of s g] I [of s g] by (cases "(s, g) = (?s, ?g)") simp_all
  then show ?thesis using seqs by (simp add: tx_inv_def)
qed

lemma tx_inv_delete: "tx_inv db \<Longrightarrow> tx_inv (snd (deleteForSessionSegment s g db))"
proof -
  assume inv: "tx_inv db"
  let ?P = "\<lambda>r. tx_session r = js_trim s \<longrightarrow> tx_segment r \<noteq> js_trim g"
  have v: "view s' g' (filter ?P db) = (if s' = js_trim s \<and> g' = js_trim g then [] else view s' g' db)" for s' g'
    by (auto simp: view_def intro: filter_cong)
  have "exchanges_ok []" by (simp add: exchanges_ok_def)
  then show ?thesis
    using inv seqs_ok_filter [of db ?P] by (simp add: tx_inv_def deleteForSessionSegment_def Let_def v)
qed

lemma tx_inv_run: "list_all tx_op_ok ops \<Longrightarrow> tx_inv db \<Longrightarrow> tx_inv (fold tx_apply ops db)"
proof (induction ops arbitrary: db)
  case (Cons op ops)
  then show ?case by (cases op) (simp_all add: tx_inv_append tx_inv_delete)
qed simp

lemma tx_inv_Nil: "tx_inv []"
  by (simp add: tx_inv_def view_def exchanges_ok_def)

text \<open>
  The history that a model is shown is well formed, whatever was appended and however turns ended: in
  every segment, each call of a message with tool calls has its result before the next message that is
  not a tool result, as long as no fifty tool results follow one another.
\<close>
theorem transcript_well_formed:
  assumes "list_all tx_op_ok ops" "short_runs (segment_rows s g (fold tx_apply ops []))"
  shows "exchanges_ok (segment_rows s g (fold tx_apply ops []))"
  using tx_inv_run [OF assms(1) tx_inv_Nil] assms(2) by (simp add: tx_inv_def segment_rows_view)

section \<open>The history of a model\<close>

text \<open>\<open>loadTranscriptPage\<close>: pages of 200 rows from the beginning, until the cap of 2000 is reached.\<close>

lemma page_shrinks:
  assumes "listPage s g after limit db = (messages, Some cursor)"
  shows "length (filter (\<lambda>r. cursor < tx_seq r) (segment_rows s g db)) < length (filter (\<lambda>r. after < tx_seq r) (segment_rows s g db))"
proof -
  let ?W = "filter (\<lambda>r. after < tx_seq r) (segment_rows s g db)"
  have m: "messages = take limit ?W" "messages \<noteq> []" "cursor = tx_seq (last messages)"
    using assms by (auto simp: listPage_def Let_def split: if_splits)
  have l: "last messages \<in> set ?W" using m(1,2) by (metis in_set_takeD last_in_set)
  then have "after < cursor" by (simp add: m(3))
  then have "filter (\<lambda>r. cursor < tx_seq r) (segment_rows s g db) = filter (\<lambda>r. cursor < tx_seq r) ?W"
    by (auto intro: filter_cong)
  also have "length \<dots> < length ?W" using l m(3) by (metis length_filter_less less_irrefl)
  finally show ?thesis .
qed

function load_pages :: "string \<Rightarrow> string \<Rightarrow> tx_table \<Rightarrow> nat \<Rightarrow> tx_row list \<Rightarrow> tx_row list" where
  "load_pages s g db after all =
     (case listPage s g after 200 db of
        (messages, None) \<Rightarrow> all @ messages
      | (messages, Some cursor) \<Rightarrow>
          (if cursor = 0 \<or> 2000 \<le> length (all @ messages) then all @ messages
           else load_pages s g db cursor (all @ messages)))"
  by pat_completeness auto
termination
  by (relation "measure (\<lambda>(s, g, db, after, all). length (filter (\<lambda>r. after < tx_seq r) (segment_rows s g db)))")
    (auto intro: page_shrinks dest: sym)

declare load_pages.simps [simp del]

definition loadTranscriptPage :: "string \<Rightarrow> string \<Rightarrow> tx_table \<Rightarrow> tx_row list" where
  "loadTranscriptPage sessionId contextSegmentId db = load_pages sessionId contextSegmentId db 0 []"

lemma sorted_filter_drop:
  assumes "sorted_wrt (\<lambda>a b. tx_seq a < tx_seq b) W" "n \<le> length W" "0 < n"
  shows "filter (\<lambda>r. tx_seq (W ! (n - 1)) < tx_seq r) W = drop n W"
proof -
  have a: "\<not> tx_seq (W ! (n - 1)) < tx_seq r" if r: "r \<in> set (take n W)" for r
  proof -
    obtain i where i: "i < n" "r = W ! i"
      using r by (auto simp: in_set_conv_nth)
    show ?thesis
    proof (cases "i = n - 1")
      case False
      then have "tx_seq (W ! i) < tx_seq (W ! (n - 1))"
        using assms i by (intro sorted_wrt_nth_less [OF assms(1)]) auto
      then show ?thesis using i(2) by simp
    qed (use i in simp)
  qed
  have b: "tx_seq (W ! (n - 1)) < tx_seq r" if r: "r \<in> set (drop n W)" for r
  proof -
    obtain i where "i < length W - n" "r = W ! (n + i)" using r by (auto simp: in_set_conv_nth)
    then have "n + i < length W" "r = W ! (n + i)" by simp_all
    then show ?thesis using assms by (auto intro!: sorted_wrt_nth_less [OF assms(1)])
  qed
  have "filter (\<lambda>r. tx_seq (W ! (n - 1)) < tx_seq r) (take n W @ drop n W) = drop n W"
    using a b by (simp only: filter_append) simp
  then show ?thesis by simp
qed

lemma load_pages_prefix:
  assumes db: "seqs_ok db" and "length all = 200 * k" "k < 10"
  shows "load_pages s g db after all = all @ take (2000 - length all) (filter (\<lambda>r. after < tx_seq r) (view s g db))"
  using assms(2,3)
proof (induction "9 - k" arbitrary: k after all)
  case (0 k after all)
  then have "length all = 1800" by simp
  then show ?case
    by (subst load_pages.simps)
      (auto simp: listPage_def Let_def segment_rows_view [OF db] split: option.splits prod.splits)
next
  case (Suc x k after all)
  let ?W = "filter (\<lambda>r. after < tx_seq r) (view s g db)"
  have k: "k < 9" "length all + 200 < 2000" using Suc by simp_all
  have sorted: "sorted_wrt (\<lambda>a b. tx_seq a < tx_seq b) ?W"
    by (rule sorted_wrt_filter [OF view_sorted [OF db]])
  show ?case
  proof (cases "length ?W < 200")
    case True
    then show ?thesis
      using k by (subst load_pages.simps) (simp add: listPage_def Let_def segment_rows_view [OF db])
  next
    case False
    let ?c = "tx_seq (?W ! 199)"
    have c: "?W ! 199 \<in> set ?W" using False by (intro nth_mem) simp
    have last: "last (take 200 ?W) = ?W ! 199" using False by (subst last_conv_nth) (auto simp: min_def)
    have "filter (\<lambda>r. ?c < tx_seq r) (view s g db) = filter (\<lambda>r. ?c < tx_seq r) ?W"
      using c by (auto intro!: filter_cong)
    also have "\<dots> = drop 200 ?W" using sorted_filter_drop [OF sorted, of 200] False by simp
    finally have drop: "filter (\<lambda>r. ?c < tx_seq r) (view s g db) = drop 200 ?W" .
    have page: "listPage s g after 200 db = (take 200 ?W, Some ?c)"
      using False last by (auto simp: listPage_def Let_def segment_rows_view [OF db])
    have "load_pages s g db after all = load_pages s g db ?c (all @ take 200 ?W)"
      using k c False by (subst load_pages.simps) (simp add: page)
    also have "\<dots> = (all @ take 200 ?W) @ take (2000 - length (all @ take 200 ?W)) (drop 200 ?W)"
      unfolding drop [symmetric] using Suc False by (intro Suc.hyps(1) [of "Suc k"]) auto
    also have "\<dots> = all @ take (2000 - length all) ?W"
      using k False by (simp add: take_add [symmetric] min_def)
    finally show ?thesis .
  qed
qed

text \<open>
  C40. The history of a turn is the beginning of its segment: after the two thousandth row the model is
  shown nothing new, neither its own last answers nor the message it is asked to reply to.
\<close>
theorem history_is_oldest_rows:
  assumes "list_all tx_op_ok ops"
  shows "loadTranscriptPage s g (fold tx_apply ops []) = take 2000 (segment_rows s g (fold tx_apply ops []))"
proof -
  let ?db = "fold tx_apply ops []"
  have db: "seqs_ok ?db" by (rule tx_inv_seqs [OF tx_inv_run [OF assms tx_inv_Nil]])
  then have "filter (\<lambda>r. 0 < tx_seq r) (view s g ?db) = view s g ?db"
    by (auto simp: seqs_ok_def view_def intro!: filter_cong)
  then show ?thesis
    using load_pages_prefix [OF db, of "[]" 0 s g 0] by (simp add: loadTranscriptPage_def segment_rows_view [OF db])
qed

subsection \<open>Messages for the model\<close>

text \<open>
  Content is text or a list of parts; \<open>parse\<close> stands for \<open>JSON.parse\<close>, with \<open>None\<close> for its exception.
\<close>

datatype chat_content = CText string | CParts "json list"

record chat_message =
  cm_role :: string
  cm_content :: "chat_content option"
  cm_toolCallId :: "string option"
  cm_toolCalls :: "tool_call_entry list"
  cm_reasoning :: "string option"

fun part_type :: "json \<Rightarrow> string option" where
  "part_type (JObj fs) = (case map_get fs ''type'' of Some (JStr t) \<Rightarrow> Some t | _ \<Rightarrow> None)"
| "part_type _ = None"

definition parseTranscriptContent :: "(string \<Rightarrow> json option) \<Rightarrow> string \<Rightarrow> chat_content" where
  "parseTranscriptContent parse raw =
     (if js_starts_with raw ''[''
      then (case parse raw of
              Some (JArr (p # ps)) \<Rightarrow> (if part_type p \<noteq> None then CParts (p # ps) else CText raw)
            | _ \<Rightarrow> CText raw)
      else CText raw)"

definition stripThinkingBlocks :: "chat_content \<Rightarrow> chat_content" where
  "stripThinkingBlocks content =
     (case content of
        CText s \<Rightarrow> CText s
      | CParts ps \<Rightarrow>
          (let filtered = filter (\<lambda>p. part_type p \<noteq> Some ''thinking'') ps
           in if filtered \<noteq> [] then CParts filtered else CParts ps))"

definition getReasoningContentFromMetadata :: "json option \<Rightarrow> string option" where
  "getReasoningContentFromMetadata metadata =
     (case metadata of
        Some (JObj fs) \<Rightarrow> (case map_get fs ''reasoningContent'' of Some (JStr s) \<Rightarrow> Some s | _ \<Rightarrow> None)
      | _ \<Rightarrow> None)"

definition row_content :: "(string \<Rightarrow> json option) \<Rightarrow> tx_row \<Rightarrow> chat_content" where
  "row_content parse m =
     stripThinkingBlocks (if truthy_str (tx_content m) then parseTranscriptContent parse (the (tx_content m)) else CText [])"

definition stamped :: "string \<Rightarrow> chat_content \<Rightarrow> chat_content" where
  "stamped stamp content =
     (let ts = ''['' @ stamp @ ''Z]'' in
      case content of
        CText s \<Rightarrow> CText (ts @ '' '' @ s)
      | CParts ps \<Rightarrow> CParts (JObj [(''type'', JStr ''text''), (''text'', JStr ts)] # ps))"

fun rows_to_chat :: "(string \<Rightarrow> json option) \<Rightarrow> bool \<Rightarrow> tx_row list \<Rightarrow> chat_message list" where
  "rows_to_chat parse seenUser [] = []"
| "rows_to_chat parse seenUser (m # ms) =
     (if tx_role m = ''user''
      then \<lparr>cm_role = ''user'',
            cm_content = Some (if tx_createdAt m \<noteq> [] \<and> seenUser then stamped (tx_createdAt m) (row_content parse m)
                               else row_content parse m),
            cm_toolCallId = None, cm_toolCalls = [], cm_reasoning = None\<rparr> # rows_to_chat parse True ms
      else if tx_role m = ''assistant''
      then \<lparr>cm_role = ''assistant'',
            cm_content = (if nullish (tx_toolCalls m) [] \<noteq> [] \<and> \<not> truthy_str (tx_content m)
                          then map_option CText (tx_content m) else Some (row_content parse m)),
            cm_toolCallId = None, cm_toolCalls = nullish (tx_toolCalls m) [],
            cm_reasoning = (case getReasoningContentFromMetadata (tx_metadata m) of Some (c # cs) \<Rightarrow> Some (c # cs) | _ \<Rightarrow> None)\<rparr>
           # rows_to_chat parse seenUser ms
      else if tx_role m = ''tool'' \<and> truthy_str (tx_toolCallId m)
      then \<lparr>cm_role = ''tool'', cm_content = Some (row_content parse m), cm_toolCallId = tx_toolCallId m,
            cm_toolCalls = [], cm_reasoning = None\<rparr> # rows_to_chat parse seenUser ms
      else rows_to_chat parse seenUser ms)"

definition transcriptRowsToModelChatMessages :: "(string \<Rightarrow> json option) \<Rightarrow> tx_row list \<Rightarrow> chat_message list" where
  "transcriptRowsToModelChatMessages parse messages = rows_to_chat parse False messages"

definition loadSessionTranscriptAsModelChat ::
  "(string \<Rightarrow> json option) \<Rightarrow> string \<Rightarrow> string \<Rightarrow> tx_table \<Rightarrow> chat_message list" where
  "loadSessionTranscriptAsModelChat parse sessionId contextSegmentId db =
     transcriptRowsToModelChatMessages parse (loadTranscriptPage sessionId contextSegmentId db)"

section \<open>Compaction\<close>

definition splitSystemPrefix :: "chat_message list \<Rightarrow> chat_message list \<times> chat_message list" where
  "splitSystemPrefix messages =
     (takeWhile (\<lambda>m. cm_role m = ''system'') messages, dropWhile (\<lambda>m. cm_role m = ''system'') messages)"

definition claimed_ids :: "chat_message list \<Rightarrow> string set" where
  "claimed_ids ms = (\<Union>m \<in> set ms. if cm_role m = ''assistant'' then te_id ` set (cm_toolCalls m) else {})"

definition trimOrphanedToolResults :: "chat_message list \<Rightarrow> chat_message list" where
  "trimOrphanedToolResults tail =
     dropWhile (\<lambda>m. cm_role m = ''tool'' \<and> cm_toolCallId m \<noteq> None \<and> the (cm_toolCallId m) \<notin> claimed_ids tail) tail"

text \<open>\<open>xs.slice(-n)\<close>: \<open>-0\<close> is \<open>0\<close>, so that the whole list is taken for \<open>n = 0\<close>.\<close>

definition slice_last :: "nat \<Rightarrow> 'a list \<Rightarrow> 'a list" where
  "slice_last n xs = (if n = 0 then xs else drop (length xs - n) xs)"

definition summary_block :: "string \<Rightarrow> chat_message" where
  "summary_block content =
     \<lparr>cm_role = ''assistant'',
      cm_content = Some (CText (''<summary>'' @ [CHR 0x0A] @ js_trim content @ [CHR 0x0A] @ ''</summary>'')),
      cm_toolCallId = None, cm_toolCalls = [], cm_reasoning = None\<rparr>"

text \<open>\<open>summarize\<close> stands for the model call on the middle part and the messages so far.\<close>

definition compactTranscriptIfNeeded ::
  "(chat_message list \<Rightarrow> chat_message list \<Rightarrow> string) \<Rightarrow> int \<Rightarrow> chat_message list \<Rightarrow> bool \<times> chat_message list" where
  "compactTranscriptIfNeeded summarize preserveRecentMessages messages =
     (let (prefix, rest) = splitSystemPrefix messages;
          preserve = nat (max 0 preserveRecentMessages)
      in if length rest \<le> preserve then (False, messages)
         else
           (let tail = trimOrphanedToolResults (slice_last preserve rest);
                middle = take (length rest - length tail) rest
            in if middle = [] then (False, messages)
               else (True, prefix @ summary_block (summarize middle messages) # tail)))"

text \<open>
  A conversation the providers accept: every tool result follows, with only tool results in between, the
  message that made the call.
\<close>

definition is_result :: "chat_message \<Rightarrow> bool" where
  "is_result m \<longleftrightarrow> cm_role m = ''tool''"

definition results_placed :: "chat_message list \<Rightarrow> bool" where
  "results_placed ms \<longleftrightarrow>
     (\<forall>us t zs. ms = us @ t # zs \<and> is_result t \<longrightarrow>
        (\<exists>vs a ws. us = vs @ a # ws \<and> list_all is_result ws \<and> cm_role a = ''assistant''
           \<and> cm_toolCallId t \<in> Some ` te_id ` set (cm_toolCalls a)))"

definition ids_unique :: "chat_message list \<Rightarrow> bool" where
  "ids_unique ms \<longleftrightarrow> (\<forall>us a ws b zs. ms = us @ a # ws @ b # zs \<longrightarrow> claimed_ids [a] \<inter> claimed_ids [b] = {})"

lemma resultsD:
  "results_placed ms \<Longrightarrow> ms = us @ t # zs \<Longrightarrow> is_result t \<Longrightarrow>
     \<exists>vs a ws. us = vs @ a # ws \<and> list_all is_result ws \<and> cm_role a = ''assistant''
       \<and> cm_toolCallId t \<in> Some ` te_id ` set (cm_toolCalls a)"
  unfolding results_placed_def by blast

lemma results_named: "results_placed ms \<Longrightarrow> ms = us @ t # zs \<Longrightarrow> is_result t \<Longrightarrow> cm_toolCallId t \<noteq> None"
  by (drule (2) resultsD) auto

lemma claimed_ids_append [simp]: "claimed_ids (xs @ ys) = claimed_ids xs \<union> claimed_ids ys"
  unfolding claimed_ids_def by auto

lemma split_at:
  "pre @ us = vs @ a # ws \<Longrightarrow>
     (\<exists>x. us = x @ a # ws \<and> vs = pre @ x) \<or> (\<exists>w1. pre = vs @ a # w1 \<and> ws = w1 @ us)"
  by (auto simp: append_eq_append_conv2 append_eq_Cons_conv Cons_eq_append_conv)

lemma results_suffix:
  assumes ms: "results_placed (pre @ rl)" and u: "ids_unique (pre @ rl)"
    and head: "\<forall>r rl1. rl = r # rl1 \<longrightarrow> is_result r \<longrightarrow> cm_toolCallId r \<in> Some ` claimed_ids rl"
  shows "results_placed rl"
  unfolding results_placed_def
proof (intro allI impI)
  fix us t zs assume t: "rl = us @ t # zs \<and> is_result t"
  then have "pre @ rl = (pre @ us) @ t # zs" "is_result t" by simp_all
  from resultsD [OF ms this] obtain vs a ws where a: "pre @ us = vs @ a # ws" "list_all is_result ws"
    "cm_role a = ''assistant''" "cm_toolCallId t \<in> Some ` te_id ` set (cm_toolCalls a)" by blast
  show "\<exists>vs a ws. us = vs @ a # ws \<and> list_all is_result ws \<and> cm_role a = ''assistant''
      \<and> cm_toolCallId t \<in> Some ` te_id ` set (cm_toolCalls a)"
  proof (cases "\<exists>x. us = x @ a # ws")
    case True
    then show ?thesis using a(2-4) by blast
  next
    case False
    then obtain w1 where w1: "ws = w1 @ us"
      using split_at [OF a(1)] by blast
    obtain r rl2 where r: "rl = r # rl2" "is_result r"
      using t a(2) w1 by (cases us) auto
    from resultsD [OF ms _ r(2), of pre rl2] r(1) obtain vs0 a0 ws0 where c: "pre = vs0 @ a0 # ws0"
      "cm_role a0 = ''assistant''" "cm_toolCallId r \<in> Some ` te_id ` set (cm_toolCalls a0)" by blast
    obtain i where i: "i \<in> claimed_ids rl" "cm_toolCallId r = Some i" using head r by blast
    then obtain b where b: "b \<in> set rl" "i \<in> claimed_ids [b]" by (auto simp: claimed_ids_def)
    have i0: "i \<in> claimed_ids [a0]" using c(2,3) i(2) by (auto simp: claimed_ids_def)
    obtain x y where xy: "rl = x @ b # y" using b(1) by (auto dest: split_list)
    have "pre @ rl = vs0 @ a0 # (ws0 @ x) @ b # y" by (simp add: c(1) xy)
    then have "claimed_ids [a0] \<inter> claimed_ids [b] = {}" using u unfolding ids_unique_def by blast
    then show ?thesis using i0 b(2) by blast
  qed
qed

lemma system_prefix_free:
  assumes "results_placed (p @ t # zs)" "\<forall>m \<in> set p. cm_role m = ''system''"
  shows "\<not> is_result t"
proof
  assume "is_result t"
  from resultsD [OF assms(1) refl this] obtain vs a ws where "p = vs @ a # ws" "cm_role a = ''assistant''" by blast
  then show False using assms(2) by simp
qed

lemma trim_suffix:
  "\<exists>d. raw = d @ trimOrphanedToolResults raw" "claimed_ids (trimOrphanedToolResults raw) = claimed_ids raw"
proof -
  let ?P = "\<lambda>m. cm_role m = ''tool'' \<and> cm_toolCallId m \<noteq> None \<and> the (cm_toolCallId m) \<notin> claimed_ids raw"
  have eq: "raw = takeWhile ?P raw @ trimOrphanedToolResults raw" by (simp add: trimOrphanedToolResults_def)
  then show "\<exists>d. raw = d @ trimOrphanedToolResults raw" by blast
  have "claimed_ids (takeWhile ?P raw) = {}" by (auto simp: claimed_ids_def dest: set_takeWhileD)
  then show "claimed_ids (trimOrphanedToolResults raw) = claimed_ids raw"
    using arg_cong [OF eq, of claimed_ids] by simp
qed

lemma trim_hd:
  assumes "trimOrphanedToolResults raw = r # rl" "is_result r" "cm_toolCallId r \<noteq> None"
  shows "cm_toolCallId r \<in> Some ` claimed_ids (trimOrphanedToolResults raw)"
proof -
  let ?P = "\<lambda>m. cm_role m = ''tool'' \<and> cm_toolCallId m \<noteq> None \<and> the (cm_toolCallId m) \<notin> claimed_ids raw"
  have d: "dropWhile ?P raw = r # rl" using assms(1) by (simp add: trimOrphanedToolResults_def)
  have "dropWhile ?P raw \<noteq> []" unfolding d by simp
  then have "\<not> ?P (hd (dropWhile ?P raw))" by (rule hd_dropWhile)
  then have "the (cm_toolCallId r) \<in> claimed_ids raw" using assms(2,3) unfolding d by (simp add: is_result_def)
  then show ?thesis using assms(3) by (auto simp: trim_suffix(2))
qed

text \<open>
  C27. Compaction never hands a provider a tool result without its call: if every result of the conversation
  follows its call and call ids are used once, the same holds of the compacted conversation.
\<close>
theorem compaction_keeps_results:
  assumes "results_placed messages" "ids_unique messages"
  shows "results_placed (snd (compactTranscriptIfNeeded summarize preserve messages))"
proof -
  let ?p = "takeWhile (\<lambda>m. cm_role m = ''system'') messages" and ?r = "dropWhile (\<lambda>m. cm_role m = ''system'') messages"
  let ?raw = "slice_last (nat (max 0 preserve)) ?r"
  let ?tail = "trimOrphanedToolResults ?raw"
  have "\<exists>d. xs = d @ slice_last n xs" for n and xs :: "chat_message list"
    by (cases "n = 0") (auto simp: slice_last_def intro: exI [of _ "take (length xs - n) xs"])
  then obtain d1 where d1: "?r = d1 @ ?raw" by blast
  obtain d2 where d2: "?raw = d2 @ ?tail" using trim_suffix(1) by blast
  have "messages = ?p @ ?r" by simp
  also have "\<dots> = (?p @ d1 @ d2) @ ?tail" using d1 d2 by (metis append.assoc)
  finally have ms: "messages = (?p @ d1 @ d2) @ ?tail" .
  have tail: "results_placed ?tail"
  proof (rule results_suffix)
    show "results_placed ((?p @ d1 @ d2) @ ?tail)" "ids_unique ((?p @ d1 @ d2) @ ?tail)"
      using assms unfolding ms [symmetric] by simp_all
    show "\<forall>r rl1. ?tail = r # rl1 \<longrightarrow> is_result r \<longrightarrow> cm_toolCallId r \<in> Some ` claimed_ids ?tail"
    proof (intro allI impI)
      fix r rl1 assume r: "?tail = r # rl1" "is_result r"
      have "messages = (?p @ d1 @ d2) @ r # rl1" using ms unfolding r(1) .
      from trim_hd [OF r results_named [OF assms(1) this r(2)]] show "cm_toolCallId r \<in> Some ` claimed_ids ?tail" .
    qed
  qed
  have "results_placed (?p @ s # ?tail)" if s: "cm_role s = ''assistant''" for s
    unfolding results_placed_def
  proof (intro allI impI)
    fix us t zs assume eq: "?p @ s # ?tail = us @ t # zs \<and> is_result t"
    have "t \<notin> set ?p" using eq by (auto simp: is_result_def dest: set_takeWhileD)
    moreover have "t \<noteq> s" using eq s by (auto simp: is_result_def)
    moreover from eq have "?p @ (s # ?tail) = us @ t # zs" by blast
    from split_at [OF this] have "(\<exists>x. s # ?tail = x @ t # zs \<and> us = ?p @ x) \<or> (\<exists>w1. ?p = us @ t # w1)" by blast
    ultimately obtain us' where us': "us = ?p @ s # us'" "?tail = us' @ t # zs"
      by (auto simp: Cons_eq_append_conv)
    have "is_result t" using eq by blast
    from resultsD [OF tail us'(2) this] obtain vs a ws where "us' = vs @ a # ws" "list_all is_result ws"
      "cm_role a = ''assistant''" "cm_toolCallId t \<in> Some ` te_id ` set (cm_toolCalls a)" by blast
    moreover from this(1) have "us = (?p @ s # vs) @ a # ws" by (simp add: us'(1))
    ultimately show "\<exists>vs a ws. us = vs @ a # ws \<and> list_all is_result ws \<and> cm_role a = ''assistant''
        \<and> cm_toolCallId t \<in> Some ` te_id ` set (cm_toolCalls a)" by blast
  qed
  then have "results_placed (?p @ summary_block x # ?tail)" for x by (simp add: summary_block_def)
  then show ?thesis using assms(1) by (simp add: compactTranscriptIfNeeded_def splitSystemPrefix_def Let_def)
qed

text \<open>
  Keeping no recent message, which the configuration allows, does not summarise everything: it switches
  compaction off.
\<close>
theorem preserve_zero_never_compacts:
  assumes "results_placed messages"
  shows "compactTranscriptIfNeeded summarize 0 messages = (False, messages)"
proof -
  let ?p = "takeWhile (\<lambda>m. cm_role m = ''system'') messages" and ?r = "dropWhile (\<lambda>m. cm_role m = ''system'') messages"
  have "trimOrphanedToolResults ?r = ?r"
  proof (cases ?r)
    case (Cons t zs)
    have "?p @ t # zs = messages" unfolding Cons [symmetric] by simp
    then have "\<not> is_result t" using system_prefix_free [of ?p t zs] assms by (auto dest: set_takeWhileD)
    then show ?thesis by (simp add: trimOrphanedToolResults_def Cons is_result_def)
  next
    case Nil
    then show ?thesis unfolding Nil by (simp add: trimOrphanedToolResults_def)
  qed
  then show ?thesis by (simp add: compactTranscriptIfNeeded_def splitSystemPrefix_def slice_last_def)
qed

section \<open>Examples\<close>

definition demo_tx :: "string \<Rightarrow> string option \<Rightarrow> string list \<Rightarrow> tx_op" where
  "demo_tx role callId ids = TxAppend ''now''
     \<lparr>ti_session = ''s'', ti_segment = ''g'', ti_role = role, ti_content = Some ''text'', ti_toolCallId = callId,
      ti_toolCalls = Some (map (\<lambda>i. \<lparr>te_id = i, te_name = ''t'', te_argsJson = ''{}'', te_thoughtSignature = None\<rparr>) ids),
      ti_metadata = None, ti_systemContext = None\<rparr>"

definition demo_tx_ops :: "tx_op list" where
  "demo_tx_ops =
     [demo_tx ''user'' None [], demo_tx ''assistant'' None [''a'', ''b''], demo_tx ''tool'' (Some ''a'') [], demo_tx ''user'' None []]"

lemma demo_tx_ops_ok: "list_all tx_op_ok demo_tx_ops"
  by (simp add: demo_tx_ops_def demo_tx_def tx_op_ok_def truthy_str_def)

lemma short_runs_short: "length vs < 50 \<Longrightarrow> short_runs vs"
  by (auto simp: short_runs_def)

theorem transcript_well_formed_witness:
  "exchanges_ok (segment_rows ''s'' ''g'' (fold tx_apply demo_tx_ops []))
   \<and> map tx_toolCallId (segment_rows ''s'' ''g'' (fold tx_apply demo_tx_ops [])) = [None, None, Some ''a'', Some ''b'', None]"
proof -
  have rows: "map tx_toolCallId (segment_rows ''s'' ''g'' (fold tx_apply demo_tx_ops [])) = [None, None, Some ''a'', Some ''b'', None]"
    by code_simp
  then have "length (segment_rows ''s'' ''g'' (fold tx_apply demo_tx_ops [])) = 5"
    by (metis length_map list.size(3,4) Suc_eq_plus1 eval_nat_numeral(2) eval_nat_numeral(3) numeral_1_eq_Suc_0 numeral_One semiring_norm(26,27,28))
  then show ?thesis
    using transcript_well_formed [OF demo_tx_ops_ok short_runs_short] rows by simp
qed

theorem history_is_oldest_rows_witness:
  "loadTranscriptPage ''s'' ''g'' (fold tx_apply demo_tx_ops []) = take 2000 (segment_rows ''s'' ''g'' (fold tx_apply demo_tx_ops []))"
  by (rule history_is_oldest_rows [OF demo_tx_ops_ok])

definition demo_chat :: "chat_message list" where
  "demo_chat =
     (let m = (\<lambda>role callId ids. \<lparr>cm_role = role, cm_content = Some (CText role), cm_toolCallId = callId,
           cm_toolCalls = map (\<lambda>i. \<lparr>te_id = i, te_name = ''t'', te_argsJson = ''{}'', te_thoughtSignature = None\<rparr>) ids,
           cm_reasoning = None\<rparr>)
      in [m ''system'' None [], m ''assistant'' None [''a'', ''b''], m ''tool'' (Some ''a'') [], m ''tool'' (Some ''b'') []])"

lemma demo_chat_placed: "results_placed demo_chat"
  unfolding results_placed_def
proof (intro allI impI)
  fix us t zs assume "demo_chat = us @ t # zs \<and> is_result t"
  then show "\<exists>vs a ws. us = vs @ a # ws \<and> list_all is_result ws \<and> cm_role a = ''assistant''
      \<and> cm_toolCallId t \<in> Some ` te_id ` set (cm_toolCalls a)"
    by (auto simp: demo_chat_def Let_def Cons_eq_append_conv is_result_def
        intro: exI [of _ "[x]" for x] exI [of _ "[]"] exI [of _ "[x]" for x])
qed

lemma demo_chat_unique: "ids_unique demo_chat"
  by (auto simp: ids_unique_def demo_chat_def Let_def Cons_eq_append_conv claimed_ids_def)

theorem compaction_keeps_results_witness:
  "results_placed (snd (compactTranscriptIfNeeded (\<lambda>_ _. ''short'') 1 demo_chat))
   \<and> fst (compactTranscriptIfNeeded (\<lambda>_ _. ''short'') 1 demo_chat)
   \<and> map cm_role (snd (compactTranscriptIfNeeded (\<lambda>_ _. ''short'') 1 demo_chat)) = [''system'', ''assistant'']"
  using compaction_keeps_results [OF demo_chat_placed demo_chat_unique, of "\<lambda>_ _. ''short''" 1]
  by (simp add: demo_chat_def Let_def compactTranscriptIfNeeded_def splitSystemPrefix_def slice_last_def
      trimOrphanedToolResults_def claimed_ids_def summary_block_def)

theorem preserve_zero_never_compacts_witness:
  "compactTranscriptIfNeeded (\<lambda>_ _. ''short'') 0 demo_chat = (False, demo_chat)"
  by (rule preserve_zero_never_compacts [OF demo_chat_placed])

end
