(* ===== verification/Approval_Rules.thy ===== *)
theory Approval_Rules
  imports Session_Urn
begin

text \<open>
  Which tool calls need a human: risk tiers (\<open>hitl/risk-classify.ts\<close>, \<open>approval-gate.ts\<close>,
  \<open>shared/src/schema/hitl.ts\<close>), the bypass tier of a session (\<open>session-agent-principals.ts\<close>), the two
  auto-approval gates (\<open>hitl-auto-approve.ts\<close>, \<open>hitl-auto-approve-persisting.ts\<close> with
  \<open>hitl-session-tool-auto-store.ts\<close>), the yolo flag (\<open>yolo-mode-store.ts\<close>) and the cruise control
  judge (\<open>cruise-control.ts\<close>).

  Both gates implement one interface; its laws are the locale \<open>auto_approve_gate\<close>.
\<close>

section \<open>Risk tiers\<close>

datatype risk_tier = TierSafe | TierCaution | TierCritical | TierNever

fun TIER_RANK :: "risk_tier \<Rightarrow> nat" where
  "TIER_RANK TierSafe = 0"
| "TIER_RANK TierCaution = 1"
| "TIER_RANK TierCritical = 2"
| "TIER_RANK TierNever = 3"

definition requiresHumanApproval :: "risk_tier \<Rightarrow> risk_tier \<Rightarrow> bool" where
  "requiresHumanApproval tier bypassUpTo \<longleftrightarrow> TIER_RANK bypassUpTo < TIER_RANK tier"

definition DEFAULT_TOOL_RISK :: "(string, risk_tier) jsmap" where
  "DEFAULT_TOOL_RISK =
     [(''builtin-read'', TierSafe), (''builtin-write'', TierCaution), (''builtin-exec'', TierCritical),
      (''builtin-memory-search'', TierSafe), (''builtin-memory-ingest'', TierCaution),
      (''builtin-session-list'', TierSafe), (''builtin-session-send'', TierCaution),
      (''builtin-session-query'', TierSafe), (''builtin-subagent'', TierCaution),
      (''builtin-message'', TierCaution), (''builtin-ask'', TierCaution),
      (''builtin-config-request'', TierNever), (''builtin-media-generate'', TierCaution),
      (''builtin-decision'', TierCaution), (''builtin-rerank'', TierCaution),
      (''builtin-vault'', TierCaution), (''builtin-logs'', TierCritical)]"

text \<open>
  The spread object \<open>{...DEFAULT_TOOL_RISK, ...toolRiskOverlay}\<close>. Names that every object of the
  language inherits (\<open>toString\<close> and the like) are not tool names, which are namespaced.
\<close>

definition risk_of :: "(string, risk_tier) jsmap \<Rightarrow> string \<Rightarrow> risk_tier option" where
  "risk_of overlay k = (case map_get overlay k of Some t \<Rightarrow> Some t | None \<Rightarrow> map_get DEFAULT_TOOL_RISK k)"

definition classifyToolRisk :: "string \<Rightarrow> (string, risk_tier) jsmap \<Rightarrow> risk_tier" where
  "classifyToolRisk toolName overlay =
     (case risk_of overlay toolName of
        Some direct \<Rightarrow> direct
      | None \<Rightarrow>
          (let base = takeWhile (\<lambda>c. c \<noteq> CHR '':'') toolName in
           case (if length base < length toolName \<and> 0 < length base then risk_of overlay base else None) of
             Some t \<Rightarrow> t
           | None \<Rightarrow> (case risk_of overlay ''*'' of Some wild \<Rightarrow> wild | None \<Rightarrow> TierCaution)))"

text \<open>\<open>agents\<close> is \<open>config.agents.list\<close>: the \<open>hitl\<close> entries of the agents that have one.\<close>

record agent_hitl =
  ah_bypassUpTo :: "risk_tier option"
  ah_toolAutoApprove :: "string list option"

definition resolveSessionBypassUpTo :: "string \<Rightarrow> (string, agent_hitl) jsmap \<Rightarrow> risk_tier \<Rightarrow> risk_tier" where
  "resolveSessionBypassUpTo sessionId agents globalBypass =
     (case parseAgentSessionUrn (js_trim sessionId) of
        None \<Rightarrow> globalBypass
      | Some p \<Rightarrow>
          (case map_get agents (u_agentId p) of
             None \<Rightarrow> globalBypass
           | Some h \<Rightarrow> nullish (ah_bypassUpTo h) globalBypass))"

section \<open>Automatic approval\<close>

definition add_to :: "string \<Rightarrow> string \<Rightarrow> (string, string list) jsmap \<Rightarrow> (string, string list) jsmap" where
  "add_to key tool m = map_set key (set_add tool (nullish (map_get m key) [])) m"

definition tools_of :: "(string, string list) jsmap \<Rightarrow> string \<Rightarrow> string list" where
  "tools_of m key = nullish (map_get m key) []"

subsection \<open>The gate in memory\<close>

record memory_gate =
  mg_sessionTools :: "(string, string list) jsmap"
  mg_agentTools :: "(string, string list) jsmap"

definition new_memory_gate :: memory_gate where
  "new_memory_gate = \<lparr>mg_sessionTools = [], mg_agentTools = []\<rparr>"

definition mem_enableSessionTool :: "string \<Rightarrow> string \<Rightarrow> memory_gate \<Rightarrow> memory_gate" where
  "mem_enableSessionTool sessionId toolName g =
     g\<lparr>mg_sessionTools := add_to (js_trim sessionId) (js_trim toolName) (mg_sessionTools g)\<rparr>"

definition mem_enableAgentTool :: "string \<Rightarrow> string \<Rightarrow> memory_gate \<Rightarrow> memory_gate" where
  "mem_enableAgentTool agentId toolName g =
     g\<lparr>mg_agentTools := add_to (js_trim agentId) (js_trim toolName) (mg_agentTools g)\<rparr>"

definition mem_shouldAutoApprove :: "memory_gate \<Rightarrow> string \<Rightarrow> string \<Rightarrow> bool" where
  "mem_shouldAutoApprove g sessionId toolName =
     (let sid = js_trim sessionId; t = js_trim toolName in
      if t \<in> set (tools_of (mg_sessionTools g) sid) then True
      else if (case resolveTopLevelSessionUrn sid of
                 None \<Rightarrow> False
               | Some mainSid \<Rightarrow> mainSid \<noteq> [] \<and> t \<in> set (tools_of (mg_sessionTools g) mainSid)) then True
      else (case parseAgentSessionUrn sid of
              None \<Rightarrow> False
            | Some p \<Rightarrow> t \<in> set (tools_of (mg_agentTools g) (u_agentId p))))"

definition mem_clearSession :: "string \<Rightarrow> memory_gate \<Rightarrow> memory_gate" where
  "mem_clearSession sessionId g = g\<lparr>mg_sessionTools := map_delete (js_trim sessionId) (mg_sessionTools g)\<rparr>"

subsection \<open>The persisting gate\<close>

text \<open>
  Session approvals are rows of a table; agent approvals are kept in memory and written to a file of
  the configuration. \<open>pg_agents\<close> is the current configuration.
\<close>

record persisting_gate =
  pg_rows :: "(string \<times> string) list"
  pg_agentToolsMem :: "(string, string list) jsmap"
  pg_agents :: "(string, agent_hitl) jsmap"

definition insertSessionToolAutoApprove :: "string \<Rightarrow> string \<Rightarrow> (string \<times> string) list \<Rightarrow> (string \<times> string) list" where
  "insertSessionToolAutoApprove sessionId toolName rows = set_add (js_trim sessionId, js_trim toolName) rows"

definition sessionHasToolAutoApprove :: "(string \<times> string) list \<Rightarrow> string \<Rightarrow> string \<Rightarrow> bool" where
  "sessionHasToolAutoApprove rows sessionId toolName \<longleftrightarrow> (js_trim sessionId, js_trim toolName) \<in> set rows"

definition clearSessionToolAutoApproveForSession :: "string \<Rightarrow> (string \<times> string) list \<Rightarrow> nat \<times> (string \<times> string) list" where
  "clearSessionToolAutoApproveForSession sessionId rows =
     (length (filter (\<lambda>r. fst r = js_trim sessionId) rows), filter (\<lambda>r. fst r \<noteq> js_trim sessionId) rows)"

definition clearSessionToolAutoApproveForSessionIds ::
  "string list \<Rightarrow> (string \<times> string) list \<Rightarrow> nat \<times> (string \<times> string) list" where
  "clearSessionToolAutoApproveForSessionIds sessionIds rows =
     (if sessionIds = [] then (0, rows)
      else (length (filter (\<lambda>r. fst r \<in> set (map js_trim sessionIds)) rows),
            filter (\<lambda>r. fst r \<notin> set (map js_trim sessionIds)) rows))"

definition clearAllSessionToolAutoApprove :: "(string \<times> string) list \<Rightarrow> nat \<times> (string \<times> string) list" where
  "clearAllSessionToolAutoApprove rows = (length rows, [])"

definition hitlAutoApproveToolNamesMatch :: "string \<Rightarrow> string \<Rightarrow> bool" where
  "hitlAutoApproveToolNamesMatch requestedTool allowedEntry =
     (let x = js_trim requestedTool; y = js_trim allowedEntry in
      if x = [] \<or> y = [] then False else x = y)"

definition rememberAgentTool :: "string \<Rightarrow> string \<Rightarrow> (string, string list) jsmap \<Rightarrow> (string, string list) jsmap" where
  "rememberAgentTool agentId toolName m =
     (let aid = js_trim agentId; tn = js_trim toolName in
      if aid = [] \<or> tn = [] then m else add_to aid tn m)"

definition per_enableSessionTool :: "string \<Rightarrow> string \<Rightarrow> persisting_gate \<Rightarrow> persisting_gate" where
  "per_enableSessionTool sessionId toolName g =
     g\<lparr>pg_rows := insertSessionToolAutoApprove sessionId toolName (pg_rows g)\<rparr>"

text \<open>
  \<open>reloaded\<close> is the configuration after the write and reload, \<open>None\<close> when there is no directory for
  it or the write fails.
\<close>

definition per_enableAgentTool ::
  "(string, agent_hitl) jsmap option \<Rightarrow> string \<Rightarrow> string \<Rightarrow> persisting_gate \<Rightarrow> persisting_gate" where
  "per_enableAgentTool reloaded agentId toolName g =
     g\<lparr>pg_agentToolsMem := rememberAgentTool agentId toolName (pg_agentToolsMem g),
       pg_agents := nullish reloaded (pg_agents g)\<rparr>"

definition per_shouldAutoApprove :: "persisting_gate \<Rightarrow> string \<Rightarrow> string \<Rightarrow> bool" where
  "per_shouldAutoApprove g sessionId toolName =
     (let sid = js_trim sessionId; t = js_trim toolName in
      if sessionHasToolAutoApprove (pg_rows g) sid t then True
      else if (case resolveTopLevelSessionUrn sid of
                 None \<Rightarrow> False
               | Some mainSid \<Rightarrow> mainSid \<noteq> [] \<and> sessionHasToolAutoApprove (pg_rows g) mainSid t) then True
      else (case parseAgentSessionUrn sid of
              None \<Rightarrow> False
            | Some p \<Rightarrow>
                (if list_ex (hitlAutoApproveToolNamesMatch t) (tools_of (pg_agentToolsMem g) (u_agentId p)) then True
                 else (case map_get (pg_agents g) (u_agentId p) of
                         None \<Rightarrow> False
                       | Some h \<Rightarrow> list_ex (hitlAutoApproveToolNamesMatch t) (nullish (ah_toolAutoApprove h) [])))))"

definition per_clearSession :: "string \<Rightarrow> persisting_gate \<Rightarrow> persisting_gate" where
  "per_clearSession sessionId g =
     g\<lparr>pg_rows := snd (clearSessionToolAutoApproveForSession sessionId (pg_rows g))\<rparr>"

text \<open>\<open>None\<close> stands for \<open>"all"\<close>.\<close>

definition clearAutoApproveMemory :: "string list option \<Rightarrow> persisting_gate \<Rightarrow> persisting_gate" where
  "clearAutoApproveMemory agents g =
     (case agents of
        None \<Rightarrow> g\<lparr>pg_agentToolsMem := []\<rparr>
      | Some as \<Rightarrow> g\<lparr>pg_agentToolsMem := fold (\<lambda>a. map_delete (js_trim a)) as (pg_agentToolsMem g)\<rparr>)"

section \<open>The yolo flag\<close>

type_synonym yolo_rows = "(string, nat) jsmap"

definition yolo_isEnabled :: "yolo_rows \<Rightarrow> string \<Rightarrow> bool" where
  "yolo_isEnabled rows sessionId = map_has rows sessionId"

definition yolo_setEnabled :: "nat \<Rightarrow> string \<Rightarrow> bool \<Rightarrow> yolo_rows \<Rightarrow> yolo_rows" where
  "yolo_setEnabled now sessionId enabled rows =
     (if enabled then map_set sessionId now rows else map_delete sessionId rows)"

definition yolo_getStatus :: "yolo_rows \<Rightarrow> string \<Rightarrow> bool \<times> nat option" where
  "yolo_getStatus rows sessionId =
     (case map_get rows sessionId of None \<Rightarrow> (False, None) | Some t \<Rightarrow> (True, Some t))"

section \<open>Cruise control\<close>

record cruise_policy =
  cp_model :: "string option"
  cp_yes :: string
  cp_no :: string
  cp_escalate :: "string option"

datatype cruise_decision = CruiseApprove | CruiseDeny | CruiseEscalate

text \<open>
  The answer of the decision service: what its \<open>noul\<close>, \<open>choice\<close> and \<open>distribution.escalate\<close> are when
  they have the expected type.
\<close>

record cruise_answer =
  ca_noul :: "rat option"
  ca_choice :: "string option"
  ca_escalateScore :: "rat option"

datatype evaluation = EvaluationFailed | EvaluationComplete "cruise_answer option"

definition DEFAULT_CRUISE_ESCALATE_MIN_SCORE :: rat where
  "DEFAULT_CRUISE_ESCALATE_MIN_SCORE = 34 / 100"

text \<open>
  \<open>evaluate\<close> stands for the decision service with the model and whether the question offers the
  escalation route; \<open>providers\<close> says whether any decision provider is configured.
\<close>

definition judgeCruiseControl ::
  "(string \<Rightarrow> bool \<Rightarrow> evaluation) \<Rightarrow> bool \<Rightarrow> string option \<Rightarrow> rat option \<Rightarrow> cruise_policy \<Rightarrow> cruise_decision" where
  "judgeCruiseControl evaluate providers defaultModel escalateMinScore policy =
     (let model = (if cp_model policy = None then defaultModel else cp_model policy) in
      if \<not> truthy_str model then CruiseEscalate
      else if \<not> providers then CruiseEscalate
      else
        (let hasEscalate = (case cp_escalate policy of None \<Rightarrow> False | Some e \<Rightarrow> js_trim e \<noteq> []) in
         case evaluate (the model) hasEscalate of
           EvaluationFailed \<Rightarrow> CruiseEscalate
         | EvaluationComplete None \<Rightarrow> CruiseEscalate
         | EvaluationComplete (Some answer) \<Rightarrow>
             (if hasEscalate then
                (let escalateScore = (case ca_escalateScore answer of
                                        Some s \<Rightarrow> s
                                      | None \<Rightarrow> if ca_choice answer = Some ''escalate'' then 1 else 0);
                     minScore = nullish escalateMinScore DEFAULT_CRUISE_ESCALATE_MIN_SCORE
                 in if minScore \<le> escalateScore then CruiseEscalate
                    else if ca_choice answer = Some ''approve'' then CruiseApprove
                    else if ca_choice answer = Some ''deny'' then CruiseDeny
                    else CruiseEscalate)
              else
                (let score = nullish (ca_noul answer) 0
                 in if 1 / 2 \<le> score then CruiseApprove else CruiseDeny))))"

definition cruiseControlActivationWarnings :: "string option \<Rightarrow> string list \<Rightarrow> cruise_policy \<Rightarrow> string list" where
  "cruiseControlActivationWarnings defaultModel decisionModels policy =
     (let effectiveModel = (if cp_model policy = None then defaultModel else cp_model policy) in
      if \<not> truthy_str effectiveModel then
        [''no cruise control model provided and no default is configured (agents.cruiseControl.model); HITL requests will escalate to true HITL'']
      else if decisionModels = [] then
        [''decision support is not configured; HITL requests will escalate to true HITL'']
      else if the effectiveModel \<notin> set decisionModels then
        [''cruise control model '' @ the effectiveModel
         @ '' is not listed in the decision provider config; HITL requests will escalate to true HITL'']
      else [])"

section \<open>The interface of an approval gate\<close>

text \<open>
  The sessions an approval for session \<open>s\<close> covers: itself, and the subagents whose top-level session
  it is.
\<close>

definition in_scope :: "string \<Rightarrow> string \<Rightarrow> bool" where
  "in_scope s s' \<longleftrightarrow> js_trim s' = js_trim s \<or> resolveTopLevelSessionUrn s' = Some (js_trim s)"

locale auto_approve_gate =
  fixes should :: "'g \<Rightarrow> string \<Rightarrow> string \<Rightarrow> bool"
    and enable :: "string \<Rightarrow> string \<Rightarrow> 'g \<Rightarrow> 'g"
    and clear :: "string \<Rightarrow> 'g \<Rightarrow> 'g"
  assumes should_enable:
      "should (enable s t g) s' t' \<longleftrightarrow> should g s' t' \<or> js_trim t' = js_trim t \<and> in_scope s s'"
    and should_clear_other: "\<not> in_scope s s' \<Longrightarrow> should (clear s g) s' t' = should g s' t'"
    and should_clear_le: "should (clear s g) s' t' \<Longrightarrow> should g s' t'"
    and clear_enable: "should (clear s (enable s t g)) s' t' = should (clear s g) s' t'"
begin

text \<open>After a number of approvals and no clearing: exactly what was approved, where it was approved.\<close>

lemma should_enable_all:
  "should (fold (\<lambda>(s, t). enable s t) grants g) s' t' \<longleftrightarrow>
     should g s' t' \<or> (\<exists>(s, t) \<in> set grants. js_trim t' = js_trim t \<and> in_scope s s')"
  by (induction grants arbitrary: g) (auto simp: should_enable)

lemma enable_order: "should (enable s t (enable u v g)) = should (enable u v (enable s t g))"
  by (intro ext) (auto simp: should_enable)

lemma clear_forgets:
  "should (clear s (fold (\<lambda>t. enable s t) ts g)) s' t' = should (clear s g) s' t'"
  by (induction ts rule: rev_induct) (simp_all add: clear_enable)

end

lemma parse_trim [simp]: "parseAgentSessionUrn (js_trim s) = parseAgentSessionUrn s"
  by (simp add: parseAgentSessionUrn_def)

lemma top_trim [simp]: "resolveTopLevelSessionUrn (js_trim s) = resolveTopLevelSessionUrn s"
  by (simp add: resolveTopLevelSessionUrn_def)

lemma top_text:
  assumes "resolveTopLevelSessionUrn s = Some m"
  shows "js_trim m = m" "m \<noteq> []"
proof -
  obtain u where u: "parseAgentSessionUrn s = Some u" "1 < length (uuidChain u)"
    and m: "m = urn_text (u_agentId u) (u_platform u) (u_resourceType u) [hd (uuidChain u)]"
    using assms by (auto simp: resolveTopLevelSessionUrn_def split: option.splits if_splits)
  have c: "canonical u" using parse_canonical u(1) by blast
  then have "canonical (u\<lparr>uuidChain := [hd (uuidChain u)]\<rparr>)"
    using u(2) by (cases "uuidChain u") (auto simp: canonical_def)
  then show "js_trim m = m" using canonical_trim [of "u\<lparr>uuidChain := [hd (uuidChain u)]\<rparr>"] by (simp add: m)
  show "m \<noteq> []" by (simp add: m urn_text_def)
qed

lemma tools_of_add:
  "x \<in> set (tools_of (add_to k t m) k') \<longleftrightarrow> x \<in> set (tools_of m k') \<or> k' = k \<and> x = t"
  by (auto simp: tools_of_def add_to_def)

lemma tools_of_delete: "tools_of (map_delete k m) k' = (if k' = k then [] else tools_of m k')"
  by (simp add: tools_of_def)

text \<open>Both gates in one line each, over the session approvals and the rest.\<close>

lemma mem_should:
  "mem_shouldAutoApprove g s t \<longleftrightarrow>
     (\<exists>k. js_trim t \<in> set (tools_of (mg_sessionTools g) k) \<and> in_scope k s \<and> js_trim k = k) \<or>
     (\<exists>p. parseAgentSessionUrn s = Some p \<and> js_trim t \<in> set (tools_of (mg_agentTools g) (u_agentId p)))"
  using top_text [of s]
  by (auto simp: mem_shouldAutoApprove_def Let_def in_scope_def split: option.splits)

lemma per_should:
  "per_shouldAutoApprove g s t \<longleftrightarrow>
     (\<exists>k. (k, js_trim t) \<in> set (pg_rows g) \<and> in_scope k s \<and> js_trim k = k) \<or>
     (\<exists>p. parseAgentSessionUrn s = Some p \<and>
        (list_ex (hitlAutoApproveToolNamesMatch (js_trim t)) (tools_of (pg_agentToolsMem g) (u_agentId p)) \<or>
         (\<exists>h. map_get (pg_agents g) (u_agentId p) = Some h \<and>
           list_ex (hitlAutoApproveToolNamesMatch (js_trim t)) (nullish (ah_toolAutoApprove h) []))))"
  using top_text [of s]
  by (auto simp: per_shouldAutoApprove_def Let_def in_scope_def sessionHasToolAutoApprove_def split: option.splits)

lemma in_scope_trim [simp]: "in_scope (js_trim k) s = in_scope k s"
  by (simp add: in_scope_def)

lemma in_scope_same: "in_scope k s \<Longrightarrow> js_trim k = js_trim k' \<Longrightarrow> in_scope k' s"
  by (simp add: in_scope_def)

interpretation memory_approvals: auto_approve_gate mem_shouldAutoApprove mem_enableSessionTool mem_clearSession
  by unfold_locales
    (auto simp: mem_should mem_enableSessionTool_def mem_clearSession_def tools_of_add tools_of_delete
      dest: in_scope_same split: if_splits)

interpretation stored_approvals: auto_approve_gate per_shouldAutoApprove per_enableSessionTool per_clearSession
  by unfold_locales
    (auto simp: per_should per_enableSessionTool_def per_clearSession_def insertSessionToolAutoApprove_def
      clearSessionToolAutoApproveForSession_def dest: in_scope_same)

text \<open>
  Approving tools for sessions, any number of times and in any order, on the gate of the daemon: a later
  call is approved automatically exactly when it was before, or the same tool (up to surrounding white
  space) was approved for its session or for the top-level session of which it is a subagent. No
  approval leaks to another tool, another session or another agent.
\<close>
theorem approvals_stay_in_scope:
  "per_shouldAutoApprove (fold (\<lambda>(s, t). per_enableSessionTool s t) grants g) s' t' \<longleftrightarrow>
     per_shouldAutoApprove g s' t'
     \<or> list_ex (\<lambda>(s, t). js_trim t' = js_trim t
          \<and> (js_trim s' = js_trim s \<or> resolveTopLevelSessionUrn s' = Some (js_trim s))) grants"
  using stored_approvals.should_enable_all [of grants g s' t'] by (simp add: list_ex_iff in_scope_def)

text \<open>
  A subagent of a subagent is not covered by the approvals of the session at the root of its chain: its
  identifier names only its parent.
\<close>
theorem nested_subagent_asks_again:
  assumes "mintSubagentSessionUrnFromParent random parent sub = Inr x"
    and "parseAgentSessionUrn parent = Some u" "uuidChain u = [rt, p]" "rt \<noteq> p"
  shows "\<not> per_shouldAutoApprove
      (per_enableSessionTool (urn_text (u_agentId u) (u_platform u) (u_resourceType u) [rt]) t
        \<lparr>pg_rows = [], pg_agentToolsMem = [], pg_agents = []\<rparr>) x t"
proof -
  let ?r = "urn_text (u_agentId u) (u_platform u) (u_resourceType u) [rt]"
  have c: "canonical u" using assms(2) by (rule parse_canonical)
  then have c1: "canonical (u\<lparr>uuidChain := [y]\<rparr>)" if "y \<in> {rt, p}" for y
    using assms(3) that by (auto simp: canonical_def)
  have parse_r: "parseAgentSessionUrn ?r = Some (u\<lparr>uuidChain := [rt]\<rparr>)"
    using canonical_parse [OF c1 [of rt]] by simp
  have parse_p: "parseAgentSessionUrn (urn_text (u_agentId u) (u_platform u) (u_resourceType u) [p]) = Some (u\<lparr>uuidChain := [p]\<rparr>)"
    using canonical_parse [OF c1 [of p]] by simp
  note X = subagent_urn [OF assms(1,2)]
  have trim: "js_trim ?r = ?r" using canonical_trim [OF c1 [of rt]] by simp
  have "js_trim x \<noteq> js_trim ?r"
  proof
    assume "js_trim x = js_trim ?r"
    then have "parseAgentSessionUrn x = parseAgentSessionUrn ?r" by (metis parse_trim)
    then have "u\<lparr>uuidChain := [last (uuidChain u), toLowerCase (js_trim (nullish sub random))]\<rparr> = u\<lparr>uuidChain := [rt]\<rparr>"
      using X parse_r by simp
    then show False by (metis list.inject list.discI parsed_urn.select_convs(4) parsed_urn.surjective parsed_urn.update_convs(4))
  qed
  moreover have "resolveTopLevelSessionUrn x \<noteq> Some (js_trim ?r)"
  proof
    assume "resolveTopLevelSessionUrn x = Some (js_trim ?r)"
    then have "urn_text (u_agentId u) (u_platform u) (u_resourceType u) [p] = ?r"
      using X assms(3) trim by simp
    then have "u\<lparr>uuidChain := [p]\<rparr> = u\<lparr>uuidChain := [rt]\<rparr>" using parse_r parse_p by simp
    then have "uuidChain (u\<lparr>uuidChain := [p]\<rparr>) = uuidChain (u\<lparr>uuidChain := [rt]\<rparr>)" by (rule arg_cong)
    then show False using assms(4) by simp
  qed
  moreover have "\<not> per_shouldAutoApprove \<lparr>pg_rows = [], pg_agentToolsMem = [], pg_agents = []\<rparr> x t"
    by (simp add: per_should tools_of_def map_get_def)
  ultimately show ?thesis unfolding stored_approvals.should_enable in_scope_def by blast
qed

section \<open>Judgement\<close>

text \<open>
  Without an answer the judge never decides: when there is no model, no provider, a failed evaluation
  or a missing answer, the request goes to the operator.
\<close>
theorem judge_failures_escalate:
  assumes "\<not> truthy_str (if cp_model policy = None then defaultModel else cp_model policy) \<or> \<not> providers
    \<or> (\<forall>m b. evaluate m b = EvaluationFailed \<or> evaluate m b = EvaluationComplete None)"
  shows "judgeCruiseControl evaluate providers defaultModel minScore policy = CruiseEscalate"
proof -
  let ?m = "the (if cp_model policy = None then defaultModel else cp_model policy)"
  let ?b = "case cp_escalate policy of None \<Rightarrow> False | Some e \<Rightarrow> js_trim e \<noteq> []"
  consider "\<not> truthy_str (if cp_model policy = None then defaultModel else cp_model policy)" | "\<not> providers"
    | "evaluate ?m ?b = EvaluationFailed" | "evaluate ?m ?b = EvaluationComplete None"
    using assms by blast
  then show ?thesis by cases (simp_all add: judgeCruiseControl_def Let_def)
qed

text \<open>
  But an answer without the number the question asked for counts as a probability of zero: the judge
  denies the call on its own instead of escalating it.
\<close>
theorem numberless_answer_denied:
  assumes "truthy_str (cp_model policy)" "cp_escalate policy = None"
    and "evaluate (the (cp_model policy)) False = EvaluationComplete (Some a)" "ca_noul a = None"
  shows "judgeCruiseControl evaluate True defaultModel minScore policy = CruiseDeny"
  using assms by (auto simp: judgeCruiseControl_def Let_def truthy_str_def split: option.splits)

text \<open>The judge approves by itself only on a stated choice or a probability of at least one half.\<close>
theorem judge_approves_only_on_answer:
  assumes "judgeCruiseControl evaluate providers defaultModel minScore policy = CruiseApprove"
  shows "\<exists>m b a. evaluate m b = EvaluationComplete (Some a)
    \<and> (if b then ca_choice a = Some ''approve'' \<and> nullish (ca_escalateScore a) 0 < nullish minScore DEFAULT_CRUISE_ESCALATE_MIN_SCORE
       else \<exists>q. ca_noul a = Some q \<and> 1 / 2 \<le> q)"
proof -
  let ?m = "the (if cp_model policy = None then defaultModel else cp_model policy)"
  let ?b = "case cp_escalate policy of None \<Rightarrow> False | Some e \<Rightarrow> js_trim e \<noteq> []"
  obtain a where "evaluate ?m ?b = EvaluationComplete (Some a)"
    using assms unfolding judgeCruiseControl_def Let_def
    by (cases "evaluate ?m ?b"; cases "truthy_str (if cp_model policy = None then defaultModel else cp_model policy)")
       (auto split: if_splits option.splits)
  moreover from this have "if ?b then ca_choice a = Some ''approve'' \<and> nullish (ca_escalateScore a) 0 < nullish minScore DEFAULT_CRUISE_ESCALATE_MIN_SCORE
       else \<exists>q. ca_noul a = Some q \<and> 1 / 2 \<le> q"
    using assms unfolding judgeCruiseControl_def Let_def
    by (cases "ca_noul a"; cases "ca_escalateScore a") (simp_all split: if_splits)
  ultimately show ?thesis by blast
qed

end
