(* ===== verification/Approval_Gate.thy ===== *)
theory Approval_Gate
  imports Approval_Rules Workflow_Types
begin

text \<open>
  The human-in-the-loop gate of a tool call: the table of pending actions with its hooks
  (\<open>hitl/pending-actions-store.ts\<close>), the waiters of \<open>hitl-resolution-hub.ts\<close> joined to it by
  \<open>hitl-pending-stack.ts\<close>, and \<open>hitlApprovalGate\<close> of \<open>sessions/tool-loop.ts\<close>, which decides whether a
  call may run at once, is judged, or waits for an operator.

  Each call of the gate is an entry of \<open>gs_calls\<close>; its awaits are states of the entry, and what can end
  them (the judge's answer, an operator, the expiry poll, the abort of the turn) are events.
  Times are milliseconds; \<open>datetime()\<close> of the database cuts them to seconds.
\<close>

section \<open>Pending actions and waiters\<close>

datatype pa_state = PaPending | PaApproved | PaDenied

datatype denial_reason = ByOperator | ByTimeout

record pending_action =
  pa_id :: string
  pa_session :: string
  pa_correlation :: "string option"
  pa_tool :: string
  pa_summary :: "string option"
  pa_payload :: json
  pa_tier :: risk_tier
  pa_status :: pa_state
  pa_denial :: "denial_reason option"
  pa_created :: nat
  pa_expires :: nat
  pa_resolved :: "nat option"
  pa_resolver :: "string option"

datatype hitl_outcome = OutApproved | OutDenied

record hub =
  hub_waiters :: "(string, nat list) jsmap"
  hub_early :: "(string, hitl_outcome) jsmap"

text \<open>\<open>waitFor\<close> for the caller \<open>w\<close>: an outcome at once when the action was resolved before.\<close>

definition waitFor :: "string \<Rightarrow> nat \<Rightarrow> hub \<Rightarrow> hitl_outcome option \<times> hub" where
  "waitFor i w h =
     (case map_get (hub_early h) i of
        Some early \<Rightarrow> (Some early, h\<lparr>hub_early := map_delete i (hub_early h)\<rparr>)
      | None \<Rightarrow> (None, h\<lparr>hub_waiters := map_set i (nullish (map_get (hub_waiters h) i) [] @ [w]) (hub_waiters h)\<rparr>))"

text \<open>\<open>notifyResolved\<close>, with the callers it resumes.\<close>

definition notifyResolved :: "string \<Rightarrow> hitl_outcome \<Rightarrow> hub \<Rightarrow> nat list \<times> hub" where
  "notifyResolved i out h =
     (let ws = nullish (map_get (hub_waiters h) i) [] in
      if ws \<noteq> [] then (ws, h\<lparr>hub_waiters := map_delete i (hub_waiters h)\<rparr>)
      else ([], h\<lparr>hub_early := map_set i out (hub_early h)\<rparr>))"

section \<open>Calls of the gate\<close>

datatype gate_status =
    GJudging
  | GWaiting string
  | GPassed
  | GPassedByJudge
  | GApproved string
  | GDeniedByJudge
  | GDenied string denial_reason
  | GAborted
  | GThrew

record gate_call =
  gl_session :: string
  gl_resource :: string
  gl_review :: bool
  gl_tier :: risk_tier
  gl_toolCallId :: string
  gl_argsJson :: string
  gl_runId :: string
  gl_aborted :: bool
  gl_status :: gate_status

text \<open>
  \<open>gs_pushed\<close> are the denials pushed back to the model; \<open>gs_used\<close> records the identifiers that
  \<open>newPendingId\<close> has given out.
\<close>

record gate_state =
  gs_now :: nat
  gs_rows :: "pending_action list"
  gs_hub :: hub
  gs_calls :: "gate_call list"
  gs_auto :: persisting_gate
  gs_yolo :: yolo_rows
  gs_cruise :: "(string, cruise_policy) jsmap"
  gs_pushed :: "(string \<times> string) list"
  gs_used :: "string list"

definition new_gate_state :: "nat \<Rightarrow> gate_state" where
  "new_gate_state now =
     \<lparr>gs_now = now, gs_rows = [], gs_hub = \<lparr>hub_waiters = [], hub_early = []\<rparr>, gs_calls = [],
      gs_auto = \<lparr>pg_rows = [], pg_agentToolsMem = [], pg_agents = []\<rparr>, gs_yolo = [], gs_cruise = [],
      gs_pushed = [], gs_used = []\<rparr>"

record gate_config =
  gt_toolRisk :: "(string, risk_tier) jsmap"
  gt_timeoutMs :: nat
  gt_bypass :: "string \<Rightarrow> risk_tier"

definition getById :: "string \<Rightarrow> pending_action list \<Rightarrow> pending_action option" where
  "getById i rows = find (\<lambda>r. pa_id r = i) rows"

definition listPendingForSession :: "string \<Rightarrow> pending_action list \<Rightarrow> pending_action list" where
  "listPendingForSession sessionId rows =
     sort_key pa_created (filter (\<lambda>r. pa_session r = sessionId \<and> pa_status r = PaPending) rows)"

definition listAllPending :: "int option \<Rightarrow> pending_action list \<Rightarrow> pending_action list" where
  "listAllPending limit rows =
     take (case limit of None \<Rightarrow> 500 | Some l \<Rightarrow> nat (min (max 1 l) 10000))
       (sort_key pa_created (filter (\<lambda>r. pa_status r = PaPending) rows))"

text \<open>What follows the await of \<open>waitForHitlResolution\<close>: the denial reads its reason from the row.\<close>

definition denial_of :: "string \<Rightarrow> pending_action list \<Rightarrow> denial_reason" where
  "denial_of pid rows =
     (case getById pid rows of
        Some r \<Rightarrow> (if pa_denial r = Some ByTimeout then ByTimeout else ByOperator)
      | None \<Rightarrow> ByOperator)"

definition reason_text :: "denial_reason \<Rightarrow> string" where
  "reason_text d = (case d of ByTimeout \<Rightarrow> ''timeout'' | ByOperator \<Rightarrow> ''operator'')"

definition resume_call :: "hitl_outcome \<Rightarrow> nat \<Rightarrow> gate_state \<Rightarrow> gate_state" where
  "resume_call out c s =
     (if length (gs_calls s) \<le> c then s
      else (case gl_status (gs_calls s ! c) of
              GWaiting pid \<Rightarrow>
                (case out of
                   OutApproved \<Rightarrow>
                     s\<lparr>gs_calls := (gs_calls s)[c := (gs_calls s ! c)\<lparr>gl_status := GApproved pid\<rparr>]\<rparr>
                 | OutDenied \<Rightarrow>
                     (let reason = denial_of pid (gs_rows s) in
                      s\<lparr>gs_calls := (gs_calls s)[c := (gs_calls s ! c)\<lparr>gl_status := GDenied pid reason\<rparr>],
                        gs_pushed := gs_pushed s @ [(gl_toolCallId (gs_calls s ! c), reason_text reason)]\<rparr>))
            | _ \<Rightarrow> s))"

text \<open>The hook \<open>onResolved\<close> of the stack.\<close>

definition onResolved :: "string \<Rightarrow> hitl_outcome \<Rightarrow> gate_state \<Rightarrow> gate_state" where
  "onResolved i out s =
     (case notifyResolved i out (gs_hub s) of
        (ws, h) \<Rightarrow> fold (resume_call out) ws (s\<lparr>gs_hub := h\<rparr>))"

text \<open>\<open>UPDATE ... WHERE id = @id AND ...\<close>, followed by the hook when a row changed.\<close>

definition update_pending ::
  "(pending_action \<Rightarrow> bool) \<Rightarrow> (pending_action \<Rightarrow> pending_action) \<Rightarrow> hitl_outcome \<Rightarrow> string \<Rightarrow> gate_state
     \<Rightarrow> bool \<times> gate_state" where
  "update_pending P f out i s =
     (if list_ex (\<lambda>r. pa_id r = i \<and> P r) (gs_rows s)
      then (True, onResolved i out (s\<lparr>gs_rows := map (\<lambda>r. if pa_id r = i \<and> P r then f r else r) (gs_rows s)\<rparr>))
      else (False, s))"

definition approve :: "string \<Rightarrow> string \<Rightarrow> gate_state \<Rightarrow> bool \<times> gate_state" where
  "approve i resolverPrincipal s =
     update_pending (\<lambda>r. pa_status r = PaPending)
       (\<lambda>r. r\<lparr>pa_status := PaApproved, pa_resolved := Some (gs_now s div 1000),
              pa_resolver := Some resolverPrincipal\<rparr>) OutApproved i s"

definition deny :: "string \<Rightarrow> string \<Rightarrow> gate_state \<Rightarrow> bool \<times> gate_state" where
  "deny i resolverPrincipal s =
     update_pending (\<lambda>r. pa_status r = PaPending)
       (\<lambda>r. r\<lparr>pa_status := PaDenied, pa_denial := Some ByOperator, pa_resolved := Some (gs_now s div 1000),
              pa_resolver := Some resolverPrincipal\<rparr>) OutDenied i s"

definition overdue :: "nat \<Rightarrow> pending_action \<Rightarrow> bool" where
  "overdue now r \<longleftrightarrow> pa_status r = PaPending \<and> pa_expires r div 1000 < now div 1000"

definition expire_one :: "nat \<Rightarrow> string \<Rightarrow> gate_state \<Rightarrow> bool \<times> gate_state" where
  "expire_one now i s =
     update_pending (overdue now)
       (\<lambda>r. r\<lparr>pa_status := PaDenied, pa_denial := Some ByTimeout, pa_resolved := Some (now div 1000)\<rparr>)
       OutDenied i s"

fun expire_loop :: "nat \<Rightarrow> string list \<Rightarrow> nat \<Rightarrow> gate_state \<Rightarrow> nat \<times> gate_state" where
  "expire_loop now [] n s = (n, s)"
| "expire_loop now (i # is) n s =
     (case expire_one now i s of (changed, s') \<Rightarrow> expire_loop now is (if changed then n + 1 else n) s')"

definition expireDue :: "gate_state \<Rightarrow> nat \<times> gate_state" where
  "expireDue s =
     expire_loop (gs_now s) (map pa_id (filter (overdue (gs_now s)) (gs_rows s))) 0 s"

text \<open>The deletion calls no hook.\<close>

definition deletePendingForSessionIds :: "string list \<Rightarrow> gate_state \<Rightarrow> nat \<times> gate_state" where
  "deletePendingForSessionIds sessionIds s =
     (if sessionIds = [] then (0, s)
      else
        (let gone = (\<lambda>r. pa_status r = PaPending \<and> pa_session r \<in> set (map js_trim sessionIds))
         in (length (filter gone (gs_rows s)), s\<lparr>gs_rows := filter (\<lambda>r. \<not> gone r) (gs_rows s)\<rparr>)))"

text \<open>\<open>None\<close>: the identifier exists already and the insert throws.\<close>

definition enqueue_action :: "pending_action \<Rightarrow> pending_action list \<Rightarrow> pending_action list option" where
  "enqueue_action r rows = (if pa_id r \<in> set (map pa_id rows) then None else Some (rows @ [r]))"

section \<open>The gate\<close>

definition set_status :: "nat \<Rightarrow> gate_status \<Rightarrow> gate_state \<Rightarrow> gate_state" where
  "set_status c st s = s\<lparr>gs_calls := (gs_calls s)[c := (gs_calls s ! c)\<lparr>gl_status := st\<rparr>]\<rparr>"

text \<open>
  The last part of the gate: enqueue, then wait. When the turn has been aborted before, the race ends
  with the abort unless the outcome is there already.
\<close>

definition queue_call :: "gate_config \<Rightarrow> nat \<Rightarrow> string \<Rightarrow> gate_state \<Rightarrow> gate_state" where
  "queue_call cfg c pid s0 =
     (let s = s0\<lparr>gs_used := pid # gs_used s0\<rparr>; call = gs_calls s ! c;
          row = \<lparr>pa_id = pid, pa_session = gl_session call, pa_correlation = Some (gl_runId call),
                 pa_tool = gl_resource call, pa_summary = None,
                 pa_payload = JObj [(''argsJson'', JStr (gl_argsJson call)), (''toolCallId'', JStr (gl_toolCallId call))],
                 pa_tier = gl_tier call, pa_status = PaPending, pa_denial = None,
                 pa_created = gs_now s div 1000, pa_expires = gs_now s + gt_timeoutMs cfg,
                 pa_resolved = None, pa_resolver = None\<rparr>
      in case enqueue_action row (gs_rows s) of
           None \<Rightarrow> set_status c GThrew s
         | Some rows \<Rightarrow>
             (let s1 = snd (expireDue (s\<lparr>gs_rows := rows\<rparr>)) in
              case waitFor pid c (gs_hub s1) of
                (Some out, h) \<Rightarrow> resume_call out c (set_status c (GWaiting pid) (s1\<lparr>gs_hub := h\<rparr>))
              | (None, h) \<Rightarrow>
                  set_status c (if gl_aborted call then GAborted else GWaiting pid) (s1\<lparr>gs_hub := h\<rparr>)))"

text \<open>What the gate decides before it waits for anybody.\<close>

datatype gate_verdict = PassNow | AskJudge | AskOperator

definition gate_verdict_of :: "gate_config \<Rightarrow> gate_state \<Rightarrow> string \<Rightarrow> string \<Rightarrow> bool \<Rightarrow> gate_verdict" where
  "gate_verdict_of cfg s sessionId resource requiresReview =
     (let tier = classifyToolRisk resource (gt_toolRisk cfg);
          yoloActive = yolo_isEnabled (gs_yolo s) sessionId;
          bypass = (if yoloActive then TierNever else gt_bypass cfg sessionId);
          needsApproval = requiresHumanApproval tier bypass;
          autoApproved = (needsApproval \<and> tier \<noteq> TierNever \<and> per_shouldAutoApprove (gs_auto s) sessionId resource)
      in if \<not> (requiresReview \<or> (needsApproval \<and> (tier = TierNever \<or> \<not> autoApproved))) then PassNow
         else if \<not> autoApproved \<and> map_has (gs_cruise s) sessionId then AskJudge
         else AskOperator)"

definition hitlApprovalGate :: "gate_config \<Rightarrow> gate_call \<Rightarrow> string \<Rightarrow> gate_state \<Rightarrow> gate_state" where
  "hitlApprovalGate cfg call pid s0 =
     (let s1 = snd (expireDue s0);
          tier = classifyToolRisk (gl_resource call) (gt_toolRisk cfg);
          c = length (gs_calls s1);
          s = s1\<lparr>gs_calls := gs_calls s1 @ [call\<lparr>gl_tier := tier, gl_status := GJudging\<rparr>]\<rparr>
      in case gate_verdict_of cfg s (gl_session call) (gl_resource call) (gl_review call) of
           PassNow \<Rightarrow> set_status c GPassed s
         | AskJudge \<Rightarrow> (if gl_aborted call then queue_call cfg c pid s else s)
         | AskOperator \<Rightarrow> queue_call cfg c pid s)"

text \<open>The judge has answered or failed (a failure escalates).\<close>

definition judge_answered :: "gate_config \<Rightarrow> nat \<Rightarrow> cruise_decision \<Rightarrow> string \<Rightarrow> gate_state \<Rightarrow> gate_state" where
  "judge_answered cfg c d pid s =
     (if c < length (gs_calls s) \<and> gl_status (gs_calls s ! c) = GJudging
      then (case d of
              CruiseApprove \<Rightarrow> set_status c GPassedByJudge s
            | CruiseDeny \<Rightarrow>
                (set_status c GDeniedByJudge s)
                  \<lparr>gs_pushed := gs_pushed s @ [(gl_toolCallId (gs_calls s ! c), ''cruise'')]\<rparr>
            | CruiseEscalate \<Rightarrow> queue_call cfg c pid s)
      else s)"

text \<open>
  The abort of the turn. During the judgement the rejection is caught together with the failures of the
  judge and escalates the call.
\<close>

definition abort_call :: "gate_config \<Rightarrow> nat \<Rightarrow> string \<Rightarrow> gate_state \<Rightarrow> gate_state" where
  "abort_call cfg c pid s =
     (if c < length (gs_calls s)
      then
        (let s' = s\<lparr>gs_calls := (gs_calls s)[c := (gs_calls s ! c)\<lparr>gl_aborted := True\<rparr>]\<rparr> in
         case gl_status (gs_calls s ! c) of
           GJudging \<Rightarrow> queue_call cfg c pid s'
         | GWaiting _ \<Rightarrow> set_status c GAborted s'
         | _ \<Rightarrow> s')
      else s)"

text \<open>
  The events. An identifier of \<open>newPendingId\<close> is a fresh random one: it was never given out before.
\<close>

inductive gate_step :: "gate_config \<Rightarrow> gate_state \<Rightarrow> gate_state \<Rightarrow> bool" for cfg where
  call: "pid \<notin> set (gs_used s) \<Longrightarrow> gate_step cfg s (hitlApprovalGate cfg call pid s)"
| judged: "pid \<notin> set (gs_used s) \<Longrightarrow> gate_step cfg s (judge_answered cfg c d pid s)"
| aborted: "pid \<notin> set (gs_used s) \<Longrightarrow> gate_step cfg s (abort_call cfg c pid s)"
| approved: "gate_step cfg s (snd (approve i p s))"
| denied: "gate_step cfg s (snd (deny i p s))"
| poll: "gate_step cfg s (snd (expireDue s))"
| cleared: "gate_step cfg s (snd (deletePendingForSessionIds sids s))"
| pass: "gate_step cfg s (s\<lparr>gs_now := gs_now s + n\<rparr>)"
| settings: "gate_step cfg s (s\<lparr>gs_auto := au, gs_yolo := yo, gs_cruise := cr\<rparr>)"

section \<open>Invariant\<close>

definition waiting_on :: "gate_state \<Rightarrow> string \<Rightarrow> nat list" where
  "waiting_on s pid = nullish (map_get (hub_waiters (gs_hub s)) pid) []"

text \<open>A row that was made for the call.\<close>

definition row_for :: "gate_call \<Rightarrow> string \<Rightarrow> pending_action \<Rightarrow> bool" where
  "row_for call pid r \<longleftrightarrow>
     pa_id r = pid \<and> pa_session r = gl_session call \<and> pa_tool r = gl_resource call \<and> pa_tier r = gl_tier call"

definition call_ok :: "gate_state \<Rightarrow> nat \<Rightarrow> gate_call \<Rightarrow> bool" where
  "call_ok s c call =
     (case gl_status call of
        GWaiting pid \<Rightarrow>
          c \<in> set (waiting_on s pid) \<and>
          (\<forall>r \<in> set (gs_rows s). pa_id r = pid \<longrightarrow> pa_status r = PaPending \<and> row_for call pid r)
      | GApproved pid \<Rightarrow>
          (\<exists>r \<in> set (gs_rows s). row_for call pid r \<and> pa_status r = PaApproved \<and> pa_resolver r \<noteq> None)
      | GDenied pid d \<Rightarrow>
          (\<exists>r \<in> set (gs_rows s). row_for call pid r \<and> pa_status r = PaDenied \<and> pa_denial r = Some d)
      | GThrew \<Rightarrow> False
      | _ \<Rightarrow> True)"

definition waiters_ok :: "gate_state \<Rightarrow> bool" where
  "waiters_ok s \<longleftrightarrow>
     (\<forall>pid. \<forall>c \<in> set (waiting_on s pid).
        pid \<in> set (gs_used s) \<and> c < length (gs_calls s)
        \<and> gl_status (gs_calls s ! c) \<in> {GWaiting pid, GAborted})
     \<and> keys_of (hub_early (gs_hub s)) \<subseteq> set (gs_used s)"

definition gate_inv :: "gate_state \<Rightarrow> bool" where
  "gate_inv s \<longleftrightarrow>
     distinct (map pa_id (gs_rows s)) \<and> pa_id ` set (gs_rows s) \<subseteq> set (gs_used s) \<and>
     waiters_ok s \<and> (\<forall>c < length (gs_calls s). call_ok s c (gs_calls s ! c))"

subsection \<open>Resuming the waiters\<close>

definition resumed :: "hitl_outcome \<Rightarrow> pending_action list \<Rightarrow> gate_call \<Rightarrow> gate_call" where
  "resumed out rows call =
     (case gl_status call of
        GWaiting pid \<Rightarrow>
          call\<lparr>gl_status := (case out of OutApproved \<Rightarrow> GApproved pid | OutDenied \<Rightarrow> GDenied pid (denial_of pid rows))\<rparr>
      | _ \<Rightarrow> call)"

lemma resumed_idem [simp]: "resumed out rows (resumed out rows call) = resumed out rows call"
  by (simp add: resumed_def split: gate_status.splits hitl_outcome.splits)

lemma resume_call_frame [simp]:
  "gs_rows (resume_call out c s) = gs_rows s" "gs_hub (resume_call out c s) = gs_hub s"
  "gs_used (resume_call out c s) = gs_used s" "gs_now (resume_call out c s) = gs_now s"
  "length (gs_calls (resume_call out c s)) = length (gs_calls s)"
  by (simp_all add: resume_call_def Let_def split: gate_status.splits hitl_outcome.splits)

lemma resume_call_nth:
  "j < length (gs_calls s) \<Longrightarrow>
     gs_calls (resume_call out c s) ! j =
     (if j = c then resumed out (gs_rows s) (gs_calls s ! j) else gs_calls s ! j)"
  by (auto simp: resume_call_def resumed_def Let_def nth_list_update split: gate_status.splits hitl_outcome.splits)

lemma fold_resume_frame [simp]:
  "gs_rows (fold (resume_call out) ws s) = gs_rows s" "gs_hub (fold (resume_call out) ws s) = gs_hub s"
  "gs_used (fold (resume_call out) ws s) = gs_used s" "gs_now (fold (resume_call out) ws s) = gs_now s"
  "length (gs_calls (fold (resume_call out) ws s)) = length (gs_calls s)"
  by (induction ws arbitrary: s) simp_all

lemma fold_resume_nth:
  "j < length (gs_calls s) \<Longrightarrow>
     gs_calls (fold (resume_call out) ws s) ! j =
     (if j \<in> set ws then resumed out (gs_rows s) (gs_calls s ! j) else gs_calls s ! j)"
  by (induction ws arbitrary: s) (auto simp: resume_call_nth)

lemma notified_waiters:
  assumes "notifyResolved i out (gs_hub s) = (ws, h)"
  shows "ws = waiting_on s i"
    and "waiting_on (s\<lparr>gs_hub := h\<rparr>) pid = (if pid = i then [] else waiting_on s pid)"
    and "keys_of (hub_early h) \<subseteq> insert i (keys_of (hub_early (gs_hub s)))"
  using assms by (auto simp: notifyResolved_def waiting_on_def Let_def split: if_splits)

definition resolves :: "hitl_outcome \<Rightarrow> (pending_action \<Rightarrow> pending_action) \<Rightarrow> bool" where
  "resolves out f \<longleftrightarrow>
     (\<forall>r. pa_id (f r) = pa_id r \<and> pa_session (f r) = pa_session r \<and> pa_tool (f r) = pa_tool r \<and> pa_tier (f r) = pa_tier r
        \<and> (case out of
             OutApproved \<Rightarrow> pa_status (f r) = PaApproved \<and> pa_resolver (f r) \<noteq> None
           | OutDenied \<Rightarrow> pa_status (f r) = PaDenied \<and> pa_denial (f r) \<noteq> None))"

lemma denial_of_row:
  assumes "distinct (map pa_id rows)" "r \<in> set rows" "pa_denial r = Some d"
  shows "denial_of (pa_id r) rows = d"
proof -
  have "getById (pa_id r) rows = Some r"
  proof -
    obtain r' where r': "getById (pa_id r) rows = Some r'"
      using assms(2) by (cases "getById (pa_id r) rows") (auto simp: getById_def find_None_iff)
    then have "r' \<in> set rows" "pa_id r' = pa_id r" by (auto simp: getById_def find_Some_iff)
    then have "r' = r" using assms(1,2) by (meson distinct_map inj_onD)
    then show ?thesis using r' by simp
  qed
  then show ?thesis using assms(3) by (cases d) (simp_all add: denial_of_def)
qed

lemma update_pending_frame:
  assumes "update_pending P f out i s = (b, s')"
  shows "gs_used s' = gs_used s" "gs_now s' = gs_now s" "length (gs_calls s') = length (gs_calls s)"
  using assms by (auto simp: update_pending_def onResolved_def split: if_splits prod.splits)

text \<open>The heart of the stack: a resolved action resumes exactly the calls that wait for it.\<close>

lemma update_pending_calls:
  assumes inv: "gate_inv s" and f: "resolves out f" and P: "\<forall>r. P r \<longrightarrow> pa_status r = PaPending"
    and r: "r \<in> set (gs_rows s)" "P r"
  defines "s' \<equiv> snd (update_pending P f out (pa_id r) s)"
  shows "gs_rows s' = map (\<lambda>q. if q = r then f r else q) (gs_rows s)"
    and "waiting_on s' pid = (if pid = pa_id r then [] else waiting_on s pid)"
    and "keys_of (hub_early (gs_hub s')) \<subseteq> insert (pa_id r) (keys_of (hub_early (gs_hub s)))"
    and "c < length (gs_calls s) \<Longrightarrow> gl_status (gs_calls s ! c) = GWaiting (pa_id r) \<Longrightarrow>
      gs_calls s' ! c = (gs_calls s ! c)
        \<lparr>gl_status := (case out of OutApproved \<Rightarrow> GApproved (pa_id r)
                        | OutDenied \<Rightarrow> GDenied (pa_id r) (the (pa_denial (f r))))\<rparr>"
    and "c < length (gs_calls s) \<Longrightarrow> gl_status (gs_calls s ! c) \<noteq> GWaiting (pa_id r) \<Longrightarrow> gs_calls s' ! c = gs_calls s ! c"
proof -
  let ?i = "pa_id r"
  let ?rows = "map (\<lambda>q. if pa_id q = ?i \<and> P q then f q else q) (gs_rows s)"
  have d: "distinct (map pa_id (gs_rows s))" using inv by (simp add: gate_inv_def)
  have eq: "q = r" if "q \<in> set (gs_rows s)" "pa_id q = ?i" for q
    using d r that by (meson distinct_map inj_onD)
  have rows: "?rows = map (\<lambda>q. if q = r then f r else q) (gs_rows s)"
    using r(2) eq by (intro map_cong) auto
  have ids: "map pa_id ?rows = map pa_id (gs_rows s)" using f by (simp add: resolves_def)
  obtain ws h where n: "notifyResolved ?i out (gs_hub s) = (ws, h)" by fastforce
  note N = notified_waiters [OF n]
  have s': "s' = fold (resume_call out) ws (s\<lparr>gs_rows := ?rows, gs_hub := h\<rparr>)"
    using r n by (auto simp: s'_def update_pending_def onResolved_def list_ex_iff)
  show "gs_rows s' = map (\<lambda>q. if q = r then f r else q) (gs_rows s)" by (simp add: s' rows)
  show "waiting_on s' pid = (if pid = ?i then [] else waiting_on s pid)"
    using N(2) by (simp add: s' waiting_on_def)
  show "keys_of (hub_early (gs_hub s')) \<subseteq> insert ?i (keys_of (hub_early (gs_hub s)))"
    using N(3) by (simp add: s')
  {
    assume c: "c < length (gs_calls s)" and st: "gl_status (gs_calls s ! c) = GWaiting ?i"
    have "c \<in> set ws" using inv c st N(1) by (auto simp: gate_inv_def call_ok_def)
    moreover have "denial_of ?i ?rows = the (pa_denial (f r))" if "out = OutDenied"
    proof -
      have mem: "f r \<in> set ?rows" using r by force
      obtain x where x: "pa_denial (f r) = Some x" using f \<open>out = OutDenied\<close> by (auto simp: resolves_def)
      have "pa_id (f r) = ?i" using f by (simp add: resolves_def)
      moreover have "distinct (map pa_id ?rows)" unfolding ids by (rule d)
      ultimately show ?thesis using denial_of_row [OF _ mem x] x by simp
    qed
    ultimately show "gs_calls s' ! c = (gs_calls s ! c)
        \<lparr>gl_status := (case out of OutApproved \<Rightarrow> GApproved ?i | OutDenied \<Rightarrow> GDenied ?i (the (pa_denial (f r))))\<rparr>"
      using c st by (simp add: s' fold_resume_nth resumed_def split: hitl_outcome.splits)
  next
    assume c: "c < length (gs_calls s)" and st: "gl_status (gs_calls s ! c) \<noteq> GWaiting ?i"
    have "gl_status (gs_calls s ! c) = GAborted" if "c \<in> set ws"
      using inv that N(1) st by (auto simp: gate_inv_def waiters_ok_def)
    then show "gs_calls s' ! c = gs_calls s ! c"
      using c by (auto simp: s' fold_resume_nth resumed_def)
  }
qed

lemma gate_invI:
  assumes "distinct (map pa_id (gs_rows s))" "pa_id ` set (gs_rows s) \<subseteq> set (gs_used s)"
    and "\<And>pid c. c \<in> set (waiting_on s pid) \<Longrightarrow> pid \<in> set (gs_used s) \<and> c < length (gs_calls s)
        \<and> gl_status (gs_calls s ! c) \<in> {GWaiting pid, GAborted}"
    and "keys_of (hub_early (gs_hub s)) \<subseteq> set (gs_used s)"
    and "\<And>c. c < length (gs_calls s) \<Longrightarrow> call_ok s c (gs_calls s ! c)"
  shows "gate_inv s"
  using assms by (simp add: gate_inv_def waiters_ok_def)

lemma gate_invD:
  assumes "gate_inv s"
  shows "distinct (map pa_id (gs_rows s))" "pa_id ` set (gs_rows s) \<subseteq> set (gs_used s)"
    "c \<in> set (waiting_on s pid) \<Longrightarrow> pid \<in> set (gs_used s) \<and> c < length (gs_calls s)
        \<and> gl_status (gs_calls s ! c) \<in> {GWaiting pid, GAborted}"
    "keys_of (hub_early (gs_hub s)) \<subseteq> set (gs_used s)"
    "c < length (gs_calls s) \<Longrightarrow> call_ok s c (gs_calls s ! c)"
  using assms by (simp_all add: gate_inv_def waiters_ok_def)

lemma gate_inv_cong:
  assumes "gs_rows t = gs_rows s" "gs_hub t = gs_hub s" "gs_calls t = gs_calls s" "gs_used t = gs_used s"
    and "gate_inv s"
  shows "gate_inv t"
proof -
  have w: "waiting_on t = waiting_on s" by (simp add: waiting_on_def fun_eq_iff assms)
  have "call_ok t c call = call_ok s c call" for c call
    unfolding call_ok_def assms(1) w ..
  then show ?thesis using assms(5) unfolding gate_inv_def waiters_ok_def w assms(1-4) by simp
qed

lemma update_pending_None:
  "\<not> (\<exists>r \<in> set (gs_rows s). pa_id r = i \<and> P r) \<Longrightarrow> update_pending P f out i s = (False, s)"
  by (auto simp: update_pending_def list_ex_iff)

text \<open>How the invariant of one call survives when the row \<open>r\<close> is replaced by its resolution.\<close>

lemma call_ok_resolved:
  assumes ok: "call_ok s c call" and st: "\<forall>pid. gl_status call = GWaiting pid \<longrightarrow> pid \<noteq> pa_id r"
    and r: "pa_status r = PaPending" "pa_id (f r) = pa_id r"
    and rows: "gs_rows s' = map (\<lambda>q. if q = r then f r else q) (gs_rows s)"
    and w: "\<And>pid. pid \<noteq> pa_id r \<Longrightarrow> waiting_on s' pid = waiting_on s pid"
  shows "call_ok s' c call"
proof (cases "gl_status call")
  case (GWaiting pid)
  have "pa_status q = PaPending \<and> row_for call pid q" if "q \<in> set (gs_rows s')" "pa_id q = pid" for q
    using that ok GWaiting st r(2) by (auto simp: rows call_ok_def split: if_splits)
  then show ?thesis using GWaiting ok st w [of pid] by (simp add: call_ok_def)
next
  case (GApproved pid)
  then obtain q where "q \<in> set (gs_rows s)" "row_for call pid q" "pa_status q = PaApproved" "pa_resolver q \<noteq> None"
    using ok by (auto simp: call_ok_def)
  then have "q \<in> set (gs_rows s')" using r(1) by (force simp: rows)
  then show ?thesis using GApproved \<open>row_for call pid q\<close> \<open>pa_status q = PaApproved\<close> \<open>pa_resolver q \<noteq> None\<close>
    by (auto simp: call_ok_def)
next
  case (GDenied pid d)
  then obtain q where "q \<in> set (gs_rows s)" "row_for call pid q" "pa_status q = PaDenied" "pa_denial q = Some d"
    using ok by (auto simp: call_ok_def)
  then have "q \<in> set (gs_rows s')" using r(1) by (force simp: rows)
  then show ?thesis using GDenied \<open>row_for call pid q\<close> \<open>pa_status q = PaDenied\<close> \<open>pa_denial q = Some d\<close>
    by (auto simp: call_ok_def)
qed (use ok in \<open>simp_all add: call_ok_def\<close>)

lemma update_pending_inv:
  assumes inv: "gate_inv s" and f: "resolves out f" and P: "\<forall>r. P r \<longrightarrow> pa_status r = PaPending"
  shows "gate_inv (snd (update_pending P f out i s))"
proof (cases "\<exists>r \<in> set (gs_rows s). pa_id r = i \<and> P r")
  case False
  then show ?thesis using inv by (simp add: update_pending_None)
next
  case True
  then obtain r where r: "r \<in> set (gs_rows s)" "pa_id r = i" "P r" by auto
  let ?s = "snd (update_pending P f out i s)"
  note U = update_pending_calls [where P = P and r = r, OF inv f P r(1,3), unfolded r(2)]
  obtain b where b: "update_pending P f out i s = (b, ?s)" by (metis prod.collapse)
  note F = update_pending_frame [OF b]
  have idf: "pa_id (f r) = i" using f r(2) by (simp add: resolves_def)
  have "map pa_id (gs_rows ?s) = map pa_id (gs_rows s)"
    using idf r(2) by (simp add: U(1))
  then have ids: "distinct (map pa_id (gs_rows ?s))" "pa_id ` set (gs_rows ?s) \<subseteq> set (gs_used s)"
    using gate_invD(1,2) [OF inv] by (metis, metis list.set_map)
  show ?thesis
  proof (rule gate_invI)
    show "distinct (map pa_id (gs_rows ?s))" by (rule ids)
    show "pa_id ` set (gs_rows ?s) \<subseteq> set (gs_used ?s)" using ids(2) by (simp add: F)
    have "i \<in> set (gs_used s)" using gate_invD(2) [OF inv] r by auto
    then show "keys_of (hub_early (gs_hub ?s)) \<subseteq> set (gs_used ?s)"
      using U(3) gate_invD(4) [OF inv] unfolding F(1) by blast
  next
    fix pid c assume c: "c \<in> set (waiting_on ?s pid)"
    then have w: "c \<in> set (waiting_on s pid)" "pid \<noteq> i" by (auto simp: U(2) split: if_splits)
    have W: "pid \<in> set (gs_used s)" "c < length (gs_calls s)" "gl_status (gs_calls s ! c) \<in> {GWaiting pid, GAborted}"
      using gate_invD(3) [OF inv w(1)] by auto
    have "gs_calls ?s ! c = gs_calls s ! c" using U(5) [OF W(2)] W(3) w(2) by auto
    then show "pid \<in> set (gs_used ?s) \<and> c < length (gs_calls ?s) \<and> gl_status (gs_calls ?s ! c) \<in> {GWaiting pid, GAborted}"
      using W F by simp
  next
    fix c assume "c < length (gs_calls ?s)"
    then have c: "c < length (gs_calls s)" using F(3) by simp
    show "call_ok ?s c (gs_calls ?s ! c)"
    proof (cases "gl_status (gs_calls s ! c) = GWaiting i")
      case True
      then have "row_for (gs_calls s ! c) i r" using gate_invD(5) [OF inv c] r by (auto simp: call_ok_def)
      then have rf: "row_for (gs_calls ?s ! c) i (f r)"
        using f unfolding U(4) [OF c True] by (simp add: row_for_def resolves_def)
      have mem: "f r \<in> set (gs_rows ?s)" using r unfolding U(1) by force
      show ?thesis
        using f rf mem U(4) [OF c True] by (cases out) (auto simp: call_ok_def resolves_def)
    next
      case False
      have "call_ok ?s c (gs_calls s ! c)"
        using False P r(3) idf r(2)
        by (intro call_ok_resolved [where r = r and f = f, OF gate_invD(5) [OF inv c]]) (auto simp: U)
      then show ?thesis using U(5) [OF c False] by simp
    qed
  qed
qed

subsection \<open>Expiry\<close>

definition expired_row :: "nat \<Rightarrow> pending_action \<Rightarrow> pending_action" where
  "expired_row now r = r\<lparr>pa_status := PaDenied, pa_denial := Some ByTimeout, pa_resolved := Some (now div 1000)\<rparr>"

lemma resolves_ops:
  "resolves OutApproved (\<lambda>r. r\<lparr>pa_status := PaApproved, pa_resolved := t, pa_resolver := Some p\<rparr>)"
  "resolves OutDenied (\<lambda>r. r\<lparr>pa_status := PaDenied, pa_denial := Some d, pa_resolved := t, pa_resolver := Some p\<rparr>)"
  "resolves OutDenied (expired_row now)"
  by (simp_all add: resolves_def expired_row_def)

lemma expire_one_eq: "expire_one now i s = update_pending (overdue now) (expired_row now) OutDenied i s"
  by (simp add: expire_one_def expired_row_def [abs_def])

lemma overdue_pending: "\<forall>r. overdue now r \<longrightarrow> pa_status r = PaPending"
  by (simp add: overdue_def)

lemma not_overdue_expired [simp]: "\<not> overdue now (expired_row now' r)"
  by (simp add: overdue_def expired_row_def)

text \<open>
  What the loop over the due actions does: their rows are denied, the calls that wait for them are
  resumed, everything else stays.
\<close>

definition expired_call :: "string set \<Rightarrow> nat \<Rightarrow> pending_action list \<Rightarrow> gate_call \<Rightarrow> gate_call" where
  "expired_call I now rows call =
     (case gl_status call of
        GWaiting pid \<Rightarrow>
          (if pid \<in> I \<and> (\<exists>r \<in> set rows. pa_id r = pid \<and> overdue now r)
           then call\<lparr>gl_status := GDenied pid ByTimeout\<rparr> else call)
      | _ \<Rightarrow> call)"

definition expired_rows :: "string set \<Rightarrow> nat \<Rightarrow> pending_action list \<Rightarrow> pending_action list" where
  "expired_rows I now rows = map (\<lambda>r. if pa_id r \<in> I \<and> overdue now r then expired_row now r else r) rows"

definition expiry_effect :: "string set \<Rightarrow> nat \<Rightarrow> gate_state \<Rightarrow> gate_state \<Rightarrow> bool" where
  "expiry_effect I now s s' \<longleftrightarrow>
     gate_inv s' \<and> gs_used s' = gs_used s \<and> gs_now s' = gs_now s \<and> length (gs_calls s') = length (gs_calls s) \<and>
     gs_rows s' = expired_rows I now (gs_rows s) \<and>
     (\<forall>pid. pid \<notin> I \<longrightarrow> waiting_on s' pid = waiting_on s pid) \<and>
     keys_of (hub_early (gs_hub s')) \<subseteq> I \<union> keys_of (hub_early (gs_hub s)) \<and>
     (\<forall>c < length (gs_calls s). gs_calls s' ! c = expired_call I now (gs_rows s) (gs_calls s ! c))"

lemma expiryD:
  assumes "expiry_effect I now s s'"
  shows "gate_inv s'" "gs_used s' = gs_used s" "gs_now s' = gs_now s" "length (gs_calls s') = length (gs_calls s)"
    "gs_rows s' = expired_rows I now (gs_rows s)" "pid \<notin> I \<Longrightarrow> waiting_on s' pid = waiting_on s pid"
    "keys_of (hub_early (gs_hub s')) \<subseteq> I \<union> keys_of (hub_early (gs_hub s))"
    "c < length (gs_calls s) \<Longrightarrow> gs_calls s' ! c = expired_call I now (gs_rows s) (gs_calls s ! c)"
  using assms unfolding expiry_effect_def by blast+

lemma expiryI:
  assumes "gate_inv s'" "gs_used s' = gs_used s" "gs_now s' = gs_now s" "length (gs_calls s') = length (gs_calls s)"
    "gs_rows s' = expired_rows I now (gs_rows s)" "\<And>pid. pid \<notin> I \<Longrightarrow> waiting_on s' pid = waiting_on s pid"
    "keys_of (hub_early (gs_hub s')) \<subseteq> I \<union> keys_of (hub_early (gs_hub s))"
    "\<And>c. c < length (gs_calls s) \<Longrightarrow> gs_calls s' ! c = expired_call I now (gs_rows s) (gs_calls s ! c)"
  shows "expiry_effect I now s s'"
  using assms unfolding expiry_effect_def by blast

lemma expired_none:
  assumes "\<not> (\<exists>r \<in> set rows. pa_id r \<in> I \<and> overdue now r)"
  shows "expired_rows I now rows = rows" "expired_call I now rows call = call"
proof -
  show "expired_rows I now rows = rows"
    unfolding expired_rows_def using assms by (intro map_idI) auto
  show "expired_call I now rows call = call"
    using assms by (auto simp: expired_call_def split: gate_status.splits)
qed

lemma expire_one_effect:
  assumes inv: "gate_inv s"
  shows "expiry_effect {i} now s (snd (expire_one now i s))"
proof (cases "\<exists>r \<in> set (gs_rows s). pa_id r = i \<and> overdue now r")
  case False
  then have "expire_one now i s = (False, s)" by (simp add: expire_one_eq update_pending_None)
  moreover have n: "\<not> (\<exists>r \<in> set (gs_rows s). pa_id r \<in> {i} \<and> overdue now r)" using False by simp
  ultimately show ?thesis
    using inv expired_none [OF n] by (intro expiryI) auto
next
  case True
  then obtain r where r: "r \<in> set (gs_rows s)" "pa_id r = i" "overdue now r" by auto
  let ?s = "snd (expire_one now i s)"
  note U = update_pending_calls [where r = r, OF inv resolves_ops(3) [where now = now] overdue_pending r(1,3), unfolded r(2) expire_one_eq [symmetric]]
  obtain b where b: "update_pending (overdue now) (expired_row now) OutDenied i s = (b, ?s)"
    unfolding expire_one_eq by (metis prod.collapse)
  note F = update_pending_frame [OF b]
  have uniq: "pa_id q = i \<longleftrightarrow> q = r" if "q \<in> set (gs_rows s)" for q
    using gate_invD(1) [OF inv] r that by (meson distinct_map inj_onD)
  have "(if q = r then expired_row now r else q) = (if pa_id q \<in> {i} \<and> overdue now q then expired_row now q else q)"
    if "q \<in> set (gs_rows s)" for q
    using uniq [OF that] r(3) by (cases "q = r") simp_all
  then have rows: "gs_rows ?s = expired_rows {i} now (gs_rows s)"
    unfolding expired_rows_def by (intro trans [OF U(1)] map_cong) simp_all
  have calls: "gs_calls ?s ! c = expired_call {i} now (gs_rows s) (gs_calls s ! c)" if c: "c < length (gs_calls s)" for c
  proof (cases "gl_status (gs_calls s ! c) = GWaiting i")
    case True
    have "\<exists>r \<in> set (gs_rows s). pa_id r = i \<and> overdue now r" using r by blast
    then show ?thesis using U(4) [OF c True] True by (simp add: expired_call_def expired_row_def)
  next
    case False
    then show ?thesis using U(5) [OF c False] by (auto simp: expired_call_def split: gate_status.splits)
  qed
  show ?thesis
  proof (rule expiryI)
    show "gate_inv ?s"
      unfolding expire_one_eq by (rule update_pending_inv [OF inv resolves_ops(3) overdue_pending])
  qed (use F rows calls U(2,3) in simp_all)
qed

lemma expiry_effect_trans:
  assumes a: "expiry_effect I now s s1" and b: "expiry_effect J now s1 s2" and dis: "I \<inter> J = {}"
  shows "expiry_effect (I \<union> J) now s s2"
proof (rule expiryI)
  note A = expiryD [OF a] and B = expiryD [OF b]
  have id: "pa_id (expired_row now r) = pa_id r" for r by (simp add: expired_row_def)
  show "gate_inv s2" by (rule B)
  show "gs_used s2 = gs_used s" "gs_now s2 = gs_now s" "length (gs_calls s2) = length (gs_calls s)"
    using A(2-4) B(2-4) by simp_all
  show "gs_rows s2 = expired_rows (I \<union> J) now (gs_rows s)"
    unfolding B(5) A(5) expired_rows_def by (auto simp: id)
  show "waiting_on s2 pid = waiting_on s pid" if "pid \<notin> I \<union> J" for pid
    using A(6) [of pid] B(6) [of pid] that by simp
  show "keys_of (hub_early (gs_hub s2)) \<subseteq> I \<union> J \<union> keys_of (hub_early (gs_hub s))"
    using A(7) B(7) by blast
  fix c assume c: "c < length (gs_calls s)"
  have over1: "(\<exists>r \<in> set (gs_rows s1). pa_id r = pid \<and> overdue now r) \<longleftrightarrow> (\<exists>r \<in> set (gs_rows s). pa_id r = pid \<and> overdue now r)"
    if "pid \<notin> I" for pid
    unfolding A(5) expired_rows_def using that by (auto simp: id)
  have "expired_call J now (gs_rows s1) (expired_call I now (gs_rows s) call) = expired_call (I \<union> J) now (gs_rows s) call" for call
  proof (cases "gl_status call")
    case (GWaiting pid)
    then show ?thesis using over1 [of pid] dis by (cases "pid \<in> I") (auto simp: expired_call_def)
  qed (simp_all add: expired_call_def)
  then show "gs_calls s2 ! c = expired_call (I \<union> J) now (gs_rows s) (gs_calls s ! c)"
    using A(8) [OF c] B(8) [of c] A(4) c by simp
qed

lemma expire_loop_effect:
  "gate_inv s \<Longrightarrow> distinct is \<Longrightarrow> expiry_effect (set is) now s (snd (expire_loop now is n s))"
proof (induction "is" arbitrary: s n)
  case Nil
  have "\<not> (\<exists>r \<in> set (gs_rows s). pa_id r \<in> {} \<and> overdue now r)" by simp
  from expired_none [OF this] show ?case using Nil by (intro expiryI) simp_all
next
  case (Cons i "is")
  obtain b s1 where s1: "expire_one now i s = (b, s1)" by fastforce
  have a: "expiry_effect {i} now s s1" using expire_one_effect [OF Cons.prems(1), of i now] s1 by simp
  have "expiry_effect (set is) now s1 (snd (expire_loop now is m s1))" for m
    using Cons.prems expiryD(1) [OF a] by (intro Cons.IH) simp_all
  then have "expiry_effect ({i} \<union> set is) now s (snd (expire_loop now is m s1))" for m
    using expiry_effect_trans [OF a] Cons.prems(2) by simp
  then show ?case by (simp add: s1)
qed

lemma expireDue_effect:
  assumes inv: "gate_inv s"
  shows "expiry_effect (pa_id ` {r \<in> set (gs_rows s). overdue (gs_now s) r}) (gs_now s) s (snd (expireDue s))"
proof -
  have "distinct (map pa_id (filter (overdue (gs_now s)) (gs_rows s)))"
    using gate_invD(1) [OF inv] by (rule distinct_map_filter)
  from expire_loop_effect [OF inv this] show ?thesis by (simp add: expireDue_def)
qed

subsection \<open>Every step keeps the invariant\<close>

text \<open>The invariant looks at a call's session, resource, tier and status only.\<close>

lemma call_ok_waiting: "call_ok s c call \<Longrightarrow> gl_status call = GWaiting pid \<Longrightarrow> c \<in> set (waiting_on s pid)"
  by (simp add: call_ok_def)

lemma call_ok_mono:
  assumes "call_ok s c call" "\<And>pid. gl_status call = GWaiting pid \<Longrightarrow> c \<in> set (waiting_on s' pid)"
    and "\<And>pid r. gl_status call = GWaiting pid \<Longrightarrow> r \<in> set (gs_rows s') \<Longrightarrow> pa_id r = pid \<Longrightarrow> r \<in> set (gs_rows s)"
    and "\<And>r. r \<in> set (gs_rows s) \<Longrightarrow> pa_status r \<noteq> PaPending \<Longrightarrow> r \<in> set (gs_rows s')"
  shows "call_ok s' c call"
proof (cases "gl_status call")
  case (GApproved pid)
  then obtain q where "q \<in> set (gs_rows s)" "row_for call pid q" "pa_status q = PaApproved" "pa_resolver q \<noteq> None"
    using assms(1) by (auto simp: call_ok_def)
  then show ?thesis using GApproved assms(4) [of q] by (auto simp: call_ok_def)
next
  case (GDenied pid d)
  then obtain q where "q \<in> set (gs_rows s)" "row_for call pid q" "pa_status q = PaDenied" "pa_denial q = Some d"
    using assms(1) by (auto simp: call_ok_def)
  then show ?thesis using GDenied assms(4) [of q] by (auto simp: call_ok_def)
next
  case (GWaiting pid)
  then show ?thesis using assms(1) assms(2) [of pid] assms(3) [of pid] by (auto simp: call_ok_def)
qed (use assms(1) in \<open>simp_all add: call_ok_def\<close>)

lemma set_status_nth:
  "j < length (gs_calls s) \<Longrightarrow> gs_calls (set_status c st s) ! j =
     (if j = c then (gs_calls s ! c)\<lparr>gl_status := st\<rparr> else gs_calls s ! j)"
  by (auto simp: set_status_def nth_list_update)

lemma set_status_frame [simp]:
  "gs_rows (set_status c st s) = gs_rows s" "gs_hub (set_status c st s) = gs_hub s"
  "gs_used (set_status c st s) = gs_used s" "gs_now (set_status c st s) = gs_now s"
  "length (gs_calls (set_status c st s)) = length (gs_calls s)"
  "waiting_on (set_status c st s) = waiting_on s"
  by (simp_all add: set_status_def waiting_on_def fun_eq_iff)

lemma inv_set_status:
  assumes inv: "gate_inv s" and c: "c < length (gs_calls s)"
    and st: "st = GAborted \<or> (st \<in> {GPassed, GPassedByJudge, GDeniedByJudge} \<and> (\<forall>pid. c \<notin> set (waiting_on s pid)))"
  shows "gate_inv (set_status c st s)"
proof (rule gate_invI)
  show "distinct (map pa_id (gs_rows (set_status c st s)))" "pa_id ` set (gs_rows (set_status c st s)) \<subseteq> set (gs_used (set_status c st s))"
    "keys_of (hub_early (gs_hub (set_status c st s))) \<subseteq> set (gs_used (set_status c st s))"
    using gate_invD(1,2,4) [OF inv] by simp_all
next
  fix pid j assume "j \<in> set (waiting_on (set_status c st s) pid)"
  then show "pid \<in> set (gs_used (set_status c st s)) \<and> j < length (gs_calls (set_status c st s))
      \<and> gl_status (gs_calls (set_status c st s) ! j) \<in> {GWaiting pid, GAborted}"
    using gate_invD(3) [OF inv, of j pid] st by (auto simp: set_status_nth)
next
  fix j assume "j < length (gs_calls (set_status c st s))"
  then have j: "j < length (gs_calls s)" by simp
  have "call_ok (set_status c st s) j (gs_calls s ! j)"
    using gate_invD(5) [OF inv j] by (auto simp: call_ok_def split: gate_status.splits)
  then show "call_ok (set_status c st s) j (gs_calls (set_status c st s) ! j)"
    using st j by (auto simp: set_status_nth call_ok_def)
qed

lemma inv_add_row:
  assumes inv: "gate_inv s" and new: "pid \<notin> set (gs_used s)" "pa_id row = pid"
  shows "gate_inv (s\<lparr>gs_used := pid # gs_used s, gs_rows := gs_rows s @ [row]\<rparr>)" (is "gate_inv ?s")
proof (rule gate_invI)
  note I = gate_invD [OF inv]
  have w: "waiting_on ?s = waiting_on s" by (simp add: waiting_on_def fun_eq_iff)
  show "distinct (map pa_id (gs_rows ?s))" "pa_id ` set (gs_rows ?s) \<subseteq> set (gs_used ?s)"
    "keys_of (hub_early (gs_hub ?s)) \<subseteq> set (gs_used ?s)"
    using I(1,2,4) new by auto
  show "p \<in> set (gs_used ?s) \<and> c < length (gs_calls ?s) \<and> gl_status (gs_calls ?s ! c) \<in> {GWaiting p, GAborted}"
    if "c \<in> set (waiting_on ?s p)" for p c
    using that I(3) [of c p] by (auto simp: w)
  show "call_ok ?s c (gs_calls ?s ! c)" if "c < length (gs_calls ?s)" for c
  proof -
    have c: "call_ok s c (gs_calls s ! c)" using that I(5) by simp
    have "pa_id r \<noteq> pid" if "gl_status (gs_calls s ! c) = GWaiting (pa_id r)" for r
      using c that I(3) [of c "pa_id r"] new by (auto simp: call_ok_def)
    then have "call_ok ?s c (gs_calls s ! c)"
      using call_ok_waiting [OF c] new by (intro call_ok_mono [OF c]) (auto simp: w)
    then show ?thesis by simp
  qed
qed

definition gate_row :: "gate_config \<Rightarrow> gate_state \<Rightarrow> gate_call \<Rightarrow> string \<Rightarrow> pending_action" where
  "gate_row cfg s call pid =
     \<lparr>pa_id = pid, pa_session = gl_session call, pa_correlation = Some (gl_runId call),
      pa_tool = gl_resource call, pa_summary = None,
      pa_payload = JObj [(''argsJson'', JStr (gl_argsJson call)), (''toolCallId'', JStr (gl_toolCallId call))],
      pa_tier = gl_tier call, pa_status = PaPending, pa_denial = None,
      pa_created = gs_now s div 1000, pa_expires = gs_now s + gt_timeoutMs cfg,
      pa_resolved = None, pa_resolver = None\<rparr>"

lemma queue_call_shape:
  fixes cfg :: gate_config and c :: nat
  assumes inv: "gate_inv s" and new: "pid \<notin> set (gs_used s)"
  defines "s0 \<equiv> s\<lparr>gs_used := pid # gs_used s, gs_rows := gs_rows s @ [gate_row cfg s (gs_calls s ! c) pid]\<rparr>"
  defines "s1 \<equiv> snd (expireDue s0)"
  shows "gate_inv s0"
    and "expiry_effect (pa_id ` {r \<in> set (gs_rows s). overdue (gs_now s) r}) (gs_now s) s0 s1"
    and "waiting_on s1 pid = []" "map_get (hub_early (gs_hub s1)) pid = None"
    and "queue_call cfg c pid s =
      set_status c (if gl_aborted (gs_calls s ! c) then GAborted else GWaiting pid)
        (s1\<lparr>gs_hub := (gs_hub s1)\<lparr>hub_waiters := map_set pid [c] (hub_waiters (gs_hub s1))\<rparr>\<rparr>)"
proof -
  let ?row = "gate_row cfg s (gs_calls s ! c) pid"
  have id: "pa_id ?row = pid" by (simp add: gate_row_def)
  show i0: "gate_inv s0" unfolding s0_def by (rule inv_add_row [OF inv new id])
  have "\<not> overdue (gs_now s) ?row" by (simp add: overdue_def gate_row_def div_le_mono not_less)
  then have "pa_id ` {r \<in> set (gs_rows s0). overdue (gs_now s0) r} = pa_id ` {r \<in> set (gs_rows s). overdue (gs_now s) r}"
    by (auto simp: s0_def)
  then show E: "expiry_effect (pa_id ` {r \<in> set (gs_rows s). overdue (gs_now s) r}) (gs_now s) s0 s1"
    using expireDue_effect [OF i0] by (simp add: s1_def s0_def)
  have notin: "pid \<notin> pa_id ` {r \<in> set (gs_rows s). overdue (gs_now s) r}"
    using gate_invD(2) [OF inv] new by auto
  have "waiting_on s pid = []"
    using gate_invD(3) [OF inv] new by (metis list.set_intros(1) neq_Nil_conv)
  moreover have "waiting_on s0 pid = waiting_on s pid" by (simp add: s0_def waiting_on_def)
  ultimately show w: "waiting_on s1 pid = []" using expiryD(6) [OF E notin] by simp
  have "keys_of (hub_early (gs_hub s0)) = keys_of (hub_early (gs_hub s))" by (simp add: s0_def)
  then have "pid \<notin> keys_of (hub_early (gs_hub s1))"
    using expiryD(7) [OF E] notin gate_invD(4) [OF inv] new by auto
  then show e: "map_get (hub_early (gs_hub s1)) pid = None" by (simp add: map_get_None_iff)
  have "pid \<notin> pa_id ` set (gs_rows s)" using gate_invD(2) [OF inv] new by auto
  then have q: "enqueue_action ?row (gs_rows s) = Some (gs_rows s @ [?row])" by (simp add: enqueue_action_def id)
  have "nullish (map_get (hub_waiters (gs_hub s1)) pid) [] = []" using w by (simp add: waiting_on_def)
  then have wf: "waitFor pid c (gs_hub s1) = (None, (gs_hub s1)\<lparr>hub_waiters := map_set pid [c] (hub_waiters (gs_hub s1))\<rparr>)"
    using e by (simp add: waitFor_def)
  have gr: "gate_row cfg (s\<lparr>gs_used := u\<rparr>) = gate_row cfg s" for u by (simp add: gate_row_def fun_eq_iff)
  have s01: "s\<lparr>gs_used := pid # gs_used s\<rparr>\<lparr>gs_rows := gs_rows s @ [?row]\<rparr> = s0" by (simp add: s0_def)
  show "queue_call cfg c pid s =
      set_status c (if gl_aborted (gs_calls s ! c) then GAborted else GWaiting pid)
        (s1\<lparr>gs_hub := (gs_hub s1)\<lparr>hub_waiters := map_set pid [c] (hub_waiters (gs_hub s1))\<rparr>\<rparr>)"
    using q wf s01 unfolding queue_call_def Let_def gate_row_def [symmetric]
    by (simp add: gate_row_def [symmetric] gr s1_def)
qed

lemma queue_call_facts:
  assumes inv: "gate_inv s" and new: "pid \<notin> set (gs_used s)" and c: "c < length (gs_calls s)"
    and st: "gl_status (gs_calls s ! c) = GJudging"
  shows "gate_inv (queue_call cfg c pid s)"
    and "gl_status (gs_calls (queue_call cfg c pid s) ! c) = (if gl_aborted (gs_calls s ! c) then GAborted else GWaiting pid)"
    and "gate_row cfg s (gs_calls s ! c) pid \<in> set (gs_rows (queue_call cfg c pid s))"
proof -
  note Q = queue_call_shape [OF inv new, where cfg = cfg and c = c]
  let ?row = "gate_row cfg s (gs_calls s ! c) pid"
  let ?s0 = "s\<lparr>gs_used := pid # gs_used s, gs_rows := gs_rows s @ [?row]\<rparr>"
  let ?s1 = "snd (expireDue ?s0)"
  let ?I = "pa_id ` {r \<in> set (gs_rows s). overdue (gs_now s) r}"
  let ?st = "if gl_aborted (gs_calls s ! c) then GAborted else GWaiting pid"
  let ?q = "queue_call cfg c pid s"
  note E = expiryD [OF Q(2)]
  have used: "gs_used ?s1 = pid # gs_used s" using E(2) by simp
  have len: "length (gs_calls ?q) = length (gs_calls s)" using E(4) by (simp add: Q(5))
  have uq: "gs_used ?q = pid # gs_used s" by (simp add: Q(5) used)
  have rows: "gs_rows ?q = gs_rows ?s1" by (simp add: Q(5))
  have calls: "gs_calls ?q ! j = (if j = c then (gs_calls s ! c)\<lparr>gl_status := ?st\<rparr> else gs_calls ?s1 ! j)"
    if "j < length (gs_calls s)" for j
  proof -
    have "gs_calls ?s1 ! c = gs_calls s ! c" using E(8) [of c] c st by (simp add: expired_call_def)
    then show ?thesis using that E(4) by (simp add: Q(5) set_status_nth)
  qed
  have w: "waiting_on ?q p = (if p = pid then [c] else waiting_on ?s1 p)" for p
    using Q(3) by (simp add: Q(5) waiting_on_def)
  have nid: "pid \<notin> pa_id ` set (gs_rows s)" using gate_invD(2) [OF inv] new by auto
  then have "pid \<notin> ?I" by auto
  then have row: "?row \<in> set (gs_rows ?s1)" "\<And>r. r \<in> set (gs_rows ?s1) \<Longrightarrow> pa_id r = pid \<Longrightarrow> r = ?row"
    using nid unfolding E(5) expired_rows_def by (auto simp: gate_row_def expired_row_def split: if_splits)
  show mem: "?row \<in> set (gs_rows ?q)" using row(1) by (simp add: rows)
  show stq: "gl_status (gs_calls ?q ! c) = ?st" using calls [OF c] by simp
  show "gate_inv ?q"
  proof (rule gate_invI)
    show "distinct (map pa_id (gs_rows ?q))" using gate_invD(1) [OF E(1)] by (simp add: rows)
    show "pa_id ` set (gs_rows ?q) \<subseteq> set (gs_used ?q)" "keys_of (hub_early (gs_hub ?q)) \<subseteq> set (gs_used ?q)"
      using gate_invD(2,4) [OF E(1)] by (simp_all add: Q(5))
  next
    fix p j assume j: "j \<in> set (waiting_on ?q p)"
    show "p \<in> set (gs_used ?q) \<and> j < length (gs_calls ?q) \<and> gl_status (gs_calls ?q ! j) \<in> {GWaiting p, GAborted}"
    proof (cases "p = pid")
      case True
      then have "j = c" using j by (simp add: w)
      then show ?thesis using True c by (simp add: len uq stq)
    next
      case False
      then have j1: "j \<in> set (waiting_on ?s1 p)" using j by (simp add: w)
      have J: "p \<in> set (gs_used ?s1)" "j < length (gs_calls s)" "gl_status (gs_calls ?s1 ! j) \<in> {GWaiting p, GAborted}"
        using gate_invD(3) [OF E(1) j1] E(4) by auto
      have "j \<noteq> c" using J(3) E(8) [of c] c st by (auto simp: expired_call_def)
      then show ?thesis using J calls [OF J(2)] by (simp add: len uq used)
    qed
  next
    fix j assume "j < length (gs_calls ?q)"
    then have j: "j < length (gs_calls s)" by (simp add: len)
    show "call_ok ?q j (gs_calls ?q ! j)"
    proof (cases "j = c")
      case True
      have "row_for (gs_calls ?q ! c) pid ?row" unfolding calls [OF c] by (simp add: row_for_def gate_row_def)
      moreover have "pa_status ?row = PaPending" by (simp add: gate_row_def)
      ultimately have "\<forall>r \<in> set (gs_rows ?q). pa_id r = pid \<longrightarrow> pa_status r = PaPending \<and> row_for (gs_calls ?q ! c) pid r"
        using row(2) unfolding rows by metis
      then show ?thesis using True stq by (simp add: call_ok_def w)
    next
      case False
      have ok: "call_ok ?s1 j (gs_calls ?s1 ! j)" using gate_invD(5) [OF E(1)] j E(4) by simp
      have "p \<noteq> pid" if "gl_status (gs_calls ?s1 ! j) = GWaiting p" for p
        using ok that Q(3) by (auto simp: call_ok_def)
      then have "call_ok ?q j (gs_calls ?s1 ! j)"
        using call_ok_waiting [OF ok] by (intro call_ok_mono [OF ok]) (simp_all add: w rows)
      then show ?thesis using False calls [OF j] by simp
    qed
  qed
qed

lemma inv_add_call:
  assumes inv: "gate_inv s" and st: "gl_status call = GJudging"
  shows "gate_inv (s\<lparr>gs_calls := gs_calls s @ [call]\<rparr>)" (is "gate_inv ?s")
proof (rule gate_invI)
  note I = gate_invD [OF inv]
  have w: "waiting_on ?s = waiting_on s" by (simp add: waiting_on_def fun_eq_iff)
  show "distinct (map pa_id (gs_rows ?s))" "pa_id ` set (gs_rows ?s) \<subseteq> set (gs_used ?s)"
    "keys_of (hub_early (gs_hub ?s)) \<subseteq> set (gs_used ?s)"
    using I(1,2,4) by simp_all
  show "p \<in> set (gs_used ?s) \<and> c < length (gs_calls ?s) \<and> gl_status (gs_calls ?s ! c) \<in> {GWaiting p, GAborted}"
    if "c \<in> set (waiting_on ?s p)" for p c
    using that I(3) [of c p] by (auto simp: w nth_append)
  show "call_ok ?s c (gs_calls ?s ! c)" if "c < length (gs_calls ?s)" for c
  proof (cases "c < length (gs_calls s)")
    case True
    have "call_ok ?s c (gs_calls s ! c)"
      using I(5) [OF True] by (auto simp: call_ok_def w split: gate_status.splits)
    then show ?thesis using True by (simp add: nth_append)
  next
    case False
    then show ?thesis using that st by (simp add: nth_append call_ok_def)
  qed
qed

lemma judging_not_waiting:
  assumes "gate_inv s" "gl_status (gs_calls s ! c) = GJudging"
  shows "c \<notin> set (waiting_on s pid)"
  using gate_invD(3) [OF assms(1), of c pid] assms(2) by auto

lemma gate_inv_gate:
  assumes inv: "gate_inv s" and new: "pid \<notin> set (gs_used s)"
  shows "gate_inv (hitlApprovalGate cfg call pid s)"
proof -
  let ?s1 = "snd (expireDue s)"
  let ?call = "call\<lparr>gl_tier := classifyToolRisk (gl_resource call) (gt_toolRisk cfg), gl_status := GJudging\<rparr>"
  let ?s = "?s1\<lparr>gs_calls := gs_calls ?s1 @ [?call]\<rparr>" and ?c = "length (gs_calls ?s1)"
  note E = expiryD [OF expireDue_effect [OF inv]]
  have i: "gate_inv ?s" by (rule inv_add_call [OF E(1)]) simp
  have c: "?c < length (gs_calls ?s)" "gl_status (gs_calls ?s ! ?c) = GJudging" by simp_all
  have u: "pid \<notin> set (gs_used ?s)" using new E(2) by simp
  have "gate_inv (queue_call cfg ?c pid ?s)" by (rule queue_call_facts [OF i u c])
  moreover have "gate_inv (set_status ?c GPassed ?s)"
    using inv_set_status [OF i c(1), of GPassed] judging_not_waiting [OF i c(2)] by simp
  ultimately show ?thesis
    using i unfolding hitlApprovalGate_def Let_def by (simp split: gate_verdict.splits)
qed

lemma gate_inv_judged:
  assumes inv: "gate_inv s" and new: "pid \<notin> set (gs_used s)"
  shows "gate_inv (judge_answered cfg c d pid s)"
proof (cases "c < length (gs_calls s) \<and> gl_status (gs_calls s ! c) = GJudging")
  case False
  then show ?thesis using inv by (auto simp: judge_answered_def)
next
  case True
  then have c: "c < length (gs_calls s)" "gl_status (gs_calls s ! c) = GJudging" by simp_all
  have frame: "gate_inv t \<Longrightarrow> gate_inv (t\<lparr>gs_pushed := m\<rparr>)" for t m
    by (erule gate_inv_cong [rotated 4]) simp_all
  show ?thesis
    using True queue_call_facts(1) [OF inv new c] inv_set_status [OF inv c(1)] judging_not_waiting [OF inv c(2)]
    by (cases d) (simp_all add: judge_answered_def frame)
qed

lemma inv_abort_flag:
  assumes inv: "gate_inv s" and c: "c < length (gs_calls s)"
  shows "gate_inv (s\<lparr>gs_calls := (gs_calls s)[c := (gs_calls s ! c)\<lparr>gl_aborted := True\<rparr>]\<rparr>)" (is "gate_inv ?s")
proof -
  have w: "waiting_on ?s = waiting_on s" by (simp add: waiting_on_def fun_eq_iff)
  have st: "gl_status (gs_calls ?s ! j) = gl_status (gs_calls s ! j)" for j
    by (cases "j = c") (simp_all add: nth_list_update c)
  have ok: "call_ok ?s j (gs_calls ?s ! j)" if "j < length (gs_calls s)" for j
    using gate_invD(5) [OF inv that] c
    by (cases "j = c") (auto simp: call_ok_def row_for_def w split: gate_status.splits)
  show ?thesis
    using gate_invD [OF inv] ok st by (intro gate_invI) (simp_all add: w)
qed

lemma gate_inv_abort:
  assumes inv: "gate_inv s" and new: "pid \<notin> set (gs_used s)"
  shows "gate_inv (abort_call cfg c pid s)"
proof (cases "c < length (gs_calls s)")
  case False
  then show ?thesis using inv by (simp add: abort_call_def)
next
  case True
  let ?s = "s\<lparr>gs_calls := (gs_calls s)[c := (gs_calls s ! c)\<lparr>gl_aborted := True\<rparr>]\<rparr>"
  have i: "gate_inv ?s" by (rule inv_abort_flag [OF inv True])
  have c: "c < length (gs_calls ?s)" using True by simp
  have "gate_inv (queue_call cfg c pid ?s)" if "gl_status (gs_calls s ! c) = GJudging"
    by (rule queue_call_facts [OF i _ c]) (use that new True in simp_all)
  moreover have "gate_inv (set_status c GAborted ?s)" by (rule inv_set_status [OF i c]) simp
  ultimately show ?thesis
    using i True by (simp add: abort_call_def Let_def split: gate_status.splits)
qed

lemma gate_inv_delete:
  assumes inv: "gate_inv s"
  shows "gate_inv (snd (deletePendingForSessionIds sids s))"
proof (cases "sids = []")
  case True
  then show ?thesis using inv by (simp add: deletePendingForSessionIds_def)
next
  case False
  let ?s = "snd (deletePendingForSessionIds sids s)"
  have f: "gs_hub ?s = gs_hub s" "gs_used ?s = gs_used s" "gs_calls ?s = gs_calls s"
    "gs_rows ?s = filter (\<lambda>r. \<not> (pa_status r = PaPending \<and> pa_session r \<in> set (map js_trim sids))) (gs_rows s)"
    using False by (simp_all add: deletePendingForSessionIds_def Let_def)
  have w: "waiting_on ?s = waiting_on s" by (simp add: waiting_on_def fun_eq_iff f)
  have ok: "call_ok ?s c (gs_calls s ! c)" if "c < length (gs_calls s)" for c
    using call_ok_waiting [OF gate_invD(5) [OF inv that]]
    by (intro call_ok_mono [OF gate_invD(5) [OF inv that]]) (simp_all add: w f)
  show ?thesis
  proof (rule gate_invI)
    show "distinct (map pa_id (gs_rows ?s))" using gate_invD(1) [OF inv] by (simp add: f distinct_map_filter)
    show "pa_id ` set (gs_rows ?s) \<subseteq> set (gs_used ?s)" using gate_invD(2) [OF inv] by (auto simp: f)
    show "keys_of (hub_early (gs_hub ?s)) \<subseteq> set (gs_used ?s)" using gate_invD(4) [OF inv] by (simp add: f)
    show "call_ok ?s c (gs_calls ?s ! c)" if "c < length (gs_calls ?s)" for c
      using that ok by (simp add: f)
  qed (use gate_invD(3) [OF inv] in \<open>simp add: w f\<close>)
qed

lemma gate_step_inv: "gate_step cfg s s' \<Longrightarrow> gate_inv s \<Longrightarrow> gate_inv s'"
proof (induction rule: gate_step.induct)
  case (call pid s call)
  then show ?case by (simp add: gate_inv_gate)
next
  case (judged pid s c d)
  then show ?case by (simp add: gate_inv_judged)
next
  case (aborted pid s c)
  then show ?case by (simp add: gate_inv_abort)
next
  case (approved s i p)
  then show ?case unfolding approve_def by (intro update_pending_inv resolves_ops) simp_all
next
  case (denied s i p)
  then show ?case unfolding deny_def by (intro update_pending_inv resolves_ops) simp_all
next
  case (poll s)
  then show ?case using expiryD(1) [OF expireDue_effect] by blast
next
  case (cleared s sids)
  then show ?case by (simp add: gate_inv_delete)
next
  case (pass s n)
  then show ?case by (elim gate_inv_cong [rotated 4]) simp_all
next
  case (settings s au yo cr)
  then show ?case by (elim gate_inv_cong [rotated 4]) simp_all
qed

interpretation gate_system: transition_system "\<lambda>s. \<exists>now. s = new_gate_state now" "gate_step cfg" gate_inv for cfg
proof unfold_locales
  fix s assume "\<exists>now. s = new_gate_state now"
  then show "gate_inv s"
    by (auto simp: gate_inv_def waiters_ok_def waiting_on_def new_gate_state_def map_get_def keys_of_def)
qed (rule gate_step_inv)

section \<open>What the gate guarantees\<close>

abbreviation gate_run :: "gate_config \<Rightarrow> gate_state \<Rightarrow> gate_state \<Rightarrow> bool" where
  "gate_run cfg \<equiv> (gate_step cfg)\<^sup>*\<^sup>*"

lemma gate_run_inv: "gate_run cfg (new_gate_state t0) s \<Longrightarrow> gate_inv s"
  by (rule gate_system.reachable_inv) blast+

lemma update_pending_settings:
  "gs_auto (snd (update_pending P f out i s)) = gs_auto s" "gs_yolo (snd (update_pending P f out i s)) = gs_yolo s"
  "gs_cruise (snd (update_pending P f out i s)) = gs_cruise s"
proof -
  have "gs_auto (resume_call out c t) = gs_auto t \<and> gs_yolo (resume_call out c t) = gs_yolo t
      \<and> gs_cruise (resume_call out c t) = gs_cruise t" for c t
    by (simp add: resume_call_def Let_def split: gate_status.splits hitl_outcome.splits)
  then have "gs_auto (fold (resume_call out) ws t) = gs_auto t \<and> gs_yolo (fold (resume_call out) ws t) = gs_yolo t
      \<and> gs_cruise (fold (resume_call out) ws t) = gs_cruise t" for ws t
    by (induction ws arbitrary: t) simp_all
  then show "gs_auto (snd (update_pending P f out i s)) = gs_auto s" "gs_yolo (snd (update_pending P f out i s)) = gs_yolo s"
    "gs_cruise (snd (update_pending P f out i s)) = gs_cruise s"
    by (simp_all add: update_pending_def onResolved_def split: prod.splits)
qed

lemma expireDue_settings [simp]:
  "gs_auto (snd (expireDue s)) = gs_auto s" "gs_yolo (snd (expireDue s)) = gs_yolo s"
  "gs_cruise (snd (expireDue s)) = gs_cruise s"
proof -
  have "gs_auto (snd (expire_loop now is n t)) = gs_auto t \<and> gs_yolo (snd (expire_loop now is n t)) = gs_yolo t
      \<and> gs_cruise (snd (expire_loop now is n t)) = gs_cruise t" for now "is" n t
  proof (induction "is" arbitrary: n t)
    case (Cons i "is")
    obtain b t1 where t1: "expire_one now i t = (b, t1)" by fastforce
    then have "gs_auto t1 = gs_auto t" "gs_yolo t1 = gs_yolo t" "gs_cruise t1 = gs_cruise t"
      using update_pending_settings [of "overdue now" "expired_row now" OutDenied i t]
      by (simp_all add: expire_one_eq)
    then show ?case using Cons [of _ t1] by (simp add: t1)
  qed simp
  then show "gs_auto (snd (expireDue s)) = gs_auto s" "gs_yolo (snd (expireDue s)) = gs_yolo s"
    "gs_cruise (snd (expireDue s)) = gs_cruise s"
    by (simp_all add: expireDue_def)
qed

text \<open>Whether an approval the operator gave for the tool covers the call.\<close>

definition auto_approved :: "gate_config \<Rightarrow> gate_state \<Rightarrow> gate_call \<Rightarrow> bool" where
  "auto_approved cfg s call \<longleftrightarrow>
     \<not> yolo_isEnabled (gs_yolo s) (gl_session call)
     \<and> TIER_RANK (gt_bypass cfg (gl_session call)) < TIER_RANK (classifyToolRisk (gl_resource call) (gt_toolRisk cfg))
     \<and> classifyToolRisk (gl_resource call) (gt_toolRisk cfg) \<noteq> TierNever
     \<and> per_shouldAutoApprove (gs_auto s) (gl_session call) (gl_resource call)"

text \<open>
  C12. When a tool call runs without anybody being asked, and who is asked otherwise, at the moment the gate
  is entered in any reachable state. The call passes at once exactly when policy does not demand a review and
  the session is in yolo mode, or the risk tier of the call is within the session's bypass, or the call
  is approved automatically and its tier is not \<open>never\<close>; in the first two cases a tool of tier
  \<open>never\<close> passes too, although \<open>docs/daemon.md\<close> says of that tier that it always requires approval.
  A call that does not pass is put before the judge exactly when the session has a cruise policy, no
  automatic approval covers the call and its turn is not aborted: then no pending action is made. Every other
  call is put before the operator: a pending action for its session, resource and tier, with its call id and
  arguments and the configured time to live, is in the table, and the call waits for it (or has ended as
  aborted, when its turn was aborted before).
\<close>
theorem gate_passes_exactly:
  fixes call :: gate_call
  assumes "gate_run cfg (new_gate_state t0) s" "pid \<notin> set (gs_used s)"
  defines "passes \<equiv> \<not> gl_review call \<and>
      (yolo_isEnabled (gs_yolo s) (gl_session call)
       \<or> TIER_RANK (classifyToolRisk (gl_resource call) (gt_toolRisk cfg)) \<le> TIER_RANK (gt_bypass cfg (gl_session call))
       \<or> classifyToolRisk (gl_resource call) (gt_toolRisk cfg) \<noteq> TierNever
          \<and> per_shouldAutoApprove (gs_auto s) (gl_session call) (gl_resource call))"
    and "judged \<equiv> map_has (gs_cruise s) (gl_session call) \<and> \<not> auto_approved cfg s call \<and> \<not> gl_aborted call"
    and "s' \<equiv> hitlApprovalGate cfg call pid s"
  shows "gl_status (last (gs_calls s')) =
      (if passes then GPassed else if judged then GJudging else if gl_aborted call then GAborted else GWaiting pid)
    \<and> (passes \<or> judged \<longrightarrow> gs_used s' = gs_used s \<and> pid \<notin> pa_id ` set (gs_rows s'))
    \<and> (\<not> passes \<and> \<not> judged \<longrightarrow>
         (\<exists>r \<in> set (gs_rows s'). pa_id r = pid \<and> pa_session r = gl_session call \<and> pa_tool r = gl_resource call
            \<and> pa_tier r = classifyToolRisk (gl_resource call) (gt_toolRisk cfg) \<and> pa_status r = PaPending
            \<and> pa_payload r = JObj [(''argsJson'', JStr (gl_argsJson call)), (''toolCallId'', JStr (gl_toolCallId call))]
            \<and> pa_expires r = gs_now s + gt_timeoutMs cfg))"
proof -
  have inv: "gate_inv s" using assms(1) by (rule gate_run_inv)
  let ?s1 = "snd (expireDue s)"
  let ?call = "call\<lparr>gl_tier := classifyToolRisk (gl_resource call) (gt_toolRisk cfg), gl_status := GJudging\<rparr>"
  let ?s = "?s1\<lparr>gs_calls := gs_calls ?s1 @ [?call]\<rparr>" and ?c = "length (gs_calls ?s1)"
  let ?q = "queue_call cfg ?c pid ?s"
  let ?v = "gate_verdict_of cfg ?s (gl_session call) (gl_resource call) (gl_review call)"
  note E = expiryD [OF expireDue_effect [OF inv]]
  have i: "gate_inv ?s" by (rule inv_add_call [OF E(1)]) simp
  have c: "?c < length (gs_calls ?s)" "gl_status (gs_calls ?s ! ?c) = GJudging" by simp_all
  have u: "pid \<notin> set (gs_used ?s)" using assms(2) E(2) by simp
  have free: "pid \<notin> pa_id ` set (gs_rows ?s1)" "gs_used ?s1 = gs_used s"
    using gate_invD(2) [OF E(1)] assms(2) E(2) by auto
  have rank: "TIER_RANK t \<le> 3" for t by (cases t) simp_all
  have v: "?v = PassNow \<longleftrightarrow> passes"
    "\<not> passes \<Longrightarrow> ?v = AskJudge \<longleftrightarrow> map_has (gs_cruise s) (gl_session call) \<and> \<not> auto_approved cfg s call"
    using rank [of "classifyToolRisk (gl_resource call) (gt_toolRisk cfg)"] unfolding passes_def
    by (auto simp: gate_verdict_of_def Let_def requiresHumanApproval_def auto_approved_def split: if_splits)
  have len: "length (gs_calls ?q) = length (gs_calls ?s)"
    using expiryD(4) [OF queue_call_shape(2) [OF i u, where cfg = cfg and c = ?c]]
    unfolding queue_call_shape(5) [OF i u, where cfg = cfg and c = ?c] by simp
  have "last (gs_calls ?q) = gs_calls ?q ! ?c"
    using len by (subst last_conv_nth) auto
  then have q: "gl_status (last (gs_calls ?q)) = (if gl_aborted call then GAborted else GWaiting pid)"
    using queue_call_facts(2) [OF i u c, where cfg = cfg] by simp
  have row: "gate_row cfg ?s ?call pid \<in> set (gs_rows ?q)"
    using queue_call_facts(3) [OF i u c, where cfg = cfg] by simp
  have p: "gl_status (last (gs_calls (set_status ?c GPassed ?s))) = GPassed"
    by (simp add: set_status_def)
  show ?thesis
  proof (cases ?v)
    case PassNow
    then have "s' = set_status ?c GPassed ?s" "passes" using v(1) by (simp_all add: s'_def hitlApprovalGate_def Let_def)
    with p free show ?thesis by simp
  next
    case AskJudge
    then have n: "\<not> passes" using v(1) by auto
    with AskJudge v(2) have j: "judged \<longleftrightarrow> \<not> gl_aborted call" by (simp add: judged_def)
    have "s' = (if gl_aborted call then ?q else ?s)" using AskJudge by (simp add: s'_def hitlApprovalGate_def Let_def)
    with n j q row free E(3) show ?thesis by (auto simp: gate_row_def intro!: bexI [OF _ row])
  next
    case AskOperator
    then have n: "\<not> passes" "\<not> judged" using v by (auto simp: judged_def)
    have "s' = ?q" using AskOperator by (simp add: s'_def hitlApprovalGate_def Let_def)
    with n q row E(3) show ?thesis by (auto simp: gate_row_def intro!: bexI [OF _ row])
  qed
qed

text \<open>
  C13. A call that was put before an operator runs only if the pending action made for it, with its session,
  resource and tier, was approved by a named principal; it is refused only if that action was denied, and
  the reason it reports is the reason of the action.
\<close>
theorem operator_decision_binding:
  assumes "gate_run cfg (new_gate_state t0) s" "c < length (gs_calls s)"
  shows "(\<forall>pid. gl_status (gs_calls s ! c) = GApproved pid \<longrightarrow>
      (\<exists>r \<in> set (gs_rows s). row_for (gs_calls s ! c) pid r \<and> pa_status r = PaApproved \<and> pa_resolver r \<noteq> None))
    \<and> (\<forall>pid d. gl_status (gs_calls s ! c) = GDenied pid d \<longrightarrow>
      (\<exists>r \<in> set (gs_rows s). row_for (gs_calls s ! c) pid r \<and> pa_status r = PaDenied \<and> pa_denial r = Some d))"
  using gate_invD(5) [OF gate_run_inv [OF assms(1)] assms(2)] by (auto simp: call_ok_def)

lemma waiting_resolved:
  assumes inv: "gate_inv s" and f: "resolves out f" and c: "c < length (gs_calls s)"
    and st: "gl_status (gs_calls s ! c) = GWaiting pid" and r: "r \<in> set (gs_rows s)" "pa_id r = pid"
  shows "gl_status (gs_calls (snd (update_pending (\<lambda>r. pa_status r = PaPending) f out pid s)) ! c) =
    (case out of OutApproved \<Rightarrow> GApproved pid | OutDenied \<Rightarrow> GDenied pid (the (pa_denial (f r))))"
proof -
  have p: "pa_status r = PaPending"
    using gate_invD(5) [OF inv c] st r by (auto simp: call_ok_def)
  show ?thesis
    using update_pending_calls(4) [where P = "\<lambda>r. pa_status r = PaPending" and r = r, OF inv f _ r(1) p c] st
    unfolding r(2) [symmetric] by simp
qed

text \<open>
  C37. No wake-up is lost: while the action of a waiting call is in the table, whatever resolves it resumes the
  call with that outcome, be it an approval, a denial or the expiry poll.
\<close>
theorem resolution_resumes:
  assumes "gate_run cfg (new_gate_state t0) s" "c < length (gs_calls s)"
    and "gl_status (gs_calls s ! c) = GWaiting pid" "r \<in> set (gs_rows s)" "pa_id r = pid"
  shows "gl_status (gs_calls (snd (approve pid p s)) ! c) = GApproved pid
    \<and> gl_status (gs_calls (snd (deny pid p s)) ! c) = GDenied pid ByOperator
    \<and> (pa_expires r div 1000 < gs_now s div 1000 \<longrightarrow>
        gl_status (gs_calls (snd (expireDue s)) ! c) = GDenied pid ByTimeout)"
proof -
  have inv: "gate_inv s" using assms(1) by (rule gate_run_inv)
  note W = waiting_resolved [OF inv _ assms(2-5)]
  have "pa_status r = PaPending"
    using gate_invD(5) [OF inv assms(2)] assms(3-5) by (auto simp: call_ok_def)
  then have "gl_status (gs_calls (snd (expireDue s)) ! c) = GDenied pid ByTimeout"
    if "pa_expires r div 1000 < gs_now s div 1000"
    using expiryD(8) [OF expireDue_effect [OF inv] assms(2)] that assms(3-5)
    by (auto simp: expired_call_def overdue_def image_iff)
  then show ?thesis
    using W [OF resolves_ops(1)] W [OF resolves_ops(2)] by (simp add: approve_def deny_def)
qed

text \<open>
  An abort while the judge is deciding does not end the call: the rejection counts as a failure of the
  judge, so a pending action is put before the operators on behalf of a turn that is over.
\<close>
theorem abort_while_judged_still_asks:
  assumes "gate_run cfg (new_gate_state t0) s" "c < length (gs_calls s)"
    and "gl_status (gs_calls s ! c) = GJudging" "pid \<notin> set (gs_used s)"
  shows "gl_status (gs_calls (abort_call cfg c pid s) ! c) = GAborted
    \<and> (\<exists>r \<in> set (gs_rows (abort_call cfg c pid s)). pa_id r = pid \<and> pa_status r = PaPending)"
proof -
  have inv: "gate_inv s" using assms(1) by (rule gate_run_inv)
  let ?s = "s\<lparr>gs_calls := (gs_calls s)[c := (gs_calls s ! c)\<lparr>gl_aborted := True\<rparr>]\<rparr>"
  have i: "gate_inv ?s" by (rule inv_abort_flag [OF inv assms(2)])
  have c: "c < length (gs_calls ?s)" "gl_status (gs_calls ?s ! c) = GJudging" "pid \<notin> set (gs_used ?s)"
    using assms(2-4) by simp_all
  have eq: "abort_call cfg c pid s = queue_call cfg c pid ?s"
    using assms(2,3) by (simp add: abort_call_def)
  note Q = queue_call_facts [OF i c(3) c(1,2), where cfg = cfg]
  have "pa_id (gate_row cfg ?s (gs_calls ?s ! c) pid) = pid"
    "pa_status (gate_row cfg ?s (gs_calls ?s ! c) pid) = PaPending" by (simp_all add: gate_row_def)
  then show ?thesis using Q(2,3) assms(2) unfolding eq by auto
qed

subsection \<open>A pending action that disappears\<close>

text \<open>The call \<open>c\<close> waits, or its turn was aborted, for an action that is no longer in the table.\<close>

definition stranded :: "nat \<Rightarrow> string \<Rightarrow> gate_state \<Rightarrow> bool" where
  "stranded c pid s \<longleftrightarrow>
     gate_inv s \<and> c < length (gs_calls s) \<and> pid \<in> set (gs_used s) \<and> pid \<notin> pa_id ` set (gs_rows s)
     \<and> gl_status (gs_calls s ! c) \<in> {GWaiting pid, GAborted}"

lemma strandedD:
  assumes "stranded c pid s"
  shows "gate_inv s" "c < length (gs_calls s)" "pid \<in> set (gs_used s)" "pid \<notin> pa_id ` set (gs_rows s)"
    "gl_status (gs_calls s ! c) \<in> {GWaiting pid, GAborted}"
  using assms by (simp_all add: stranded_def)

lemma stranded_update:
  assumes st: "stranded c pid s" and f: "resolves out f" and P: "\<forall>r. P r \<longrightarrow> pa_status r = PaPending"
  shows "stranded c pid (snd (update_pending P f out i s))" (is "stranded c pid ?s")
proof (cases "\<exists>r \<in> set (gs_rows s). pa_id r = i \<and> P r")
  case False
  then show ?thesis using st by (simp add: update_pending_None)
next
  case True
  then obtain r where r: "r \<in> set (gs_rows s)" "pa_id r = i" "P r" by auto
  note S = strandedD [OF st]
  note U = update_pending_calls [where P = P and r = r, OF S(1) f P r(1,3), unfolded r(2)]
  obtain b where b: "update_pending P f out i s = (b, ?s)" by (metis prod.collapse)
  have ne: "pid \<noteq> i" using S(4) r by auto
  have idf: "pa_id (f r) = i" using f r(2) by (simp add: resolves_def)
  then have "pid \<notin> pa_id ` set (gs_rows ?s)" using S(4) ne unfolding U(1) by auto
  moreover have "gs_calls ?s ! c = gs_calls s ! c" using U(5) [OF S(2)] S(5) ne by auto
  ultimately show ?thesis
    using S(2,3,5) update_pending_frame [OF b] update_pending_inv [OF S(1) f P, of i] by (simp add: stranded_def)
qed

lemma expired_call_stays:
  assumes "pid \<notin> pa_id ` set rows" "gl_status call \<in> {GWaiting pid, GAborted}"
  shows "expired_call I now rows call = call"
  using assms by (auto simp: expired_call_def)

lemma expired_row_ids [simp]: "pa_id ` set (expired_rows I now rows) = pa_id ` set rows"
proof -
  have "map pa_id (expired_rows I now rows) = map pa_id rows"
    by (simp add: expired_rows_def expired_row_def)
  then show ?thesis by (metis list.set_map)
qed

lemma stranded_expire:
  assumes st: "stranded c pid s"
  shows "stranded c pid (snd (expireDue s))"
proof -
  note S = strandedD [OF st] and E = expiryD [OF expireDue_effect [OF strandedD(1) [OF st]]]
  show ?thesis
    using S E(1-4) E(5) E(8) [OF S(2)] expired_call_stays [OF S(4,5)] by (simp add: stranded_def)
qed

lemma stranded_status:
  assumes st: "stranded c pid s" and j: "j \<noteq> c \<or> v = GAborted" and inv: "gate_inv (set_status j v s)"
  shows "stranded c pid (set_status j v s)"
  using strandedD [OF st] j inv by (auto simp: stranded_def set_status_nth)

lemma stranded_queue:
  assumes st: "stranded c pid s" and new: "q \<notin> set (gs_used s)" and j: "j < length (gs_calls s)"
    and v: "gl_status (gs_calls s ! j) = GJudging"
  shows "stranded c pid (queue_call cfg j q s)" (is "stranded c pid ?q")
proof -
  note S = strandedD [OF st]
  note Q = queue_call_shape [OF S(1) new, where cfg = cfg and c = j]
  note E = expiryD [OF Q(2)]
  have jc: "j \<noteq> c" using S(5) v by auto
  have ne: "pid \<noteq> q" using S(3) new by auto
  let ?rows = "gs_rows s @ [gate_row cfg s (gs_calls s ! j) q]"
  have ids: "pid \<notin> pa_id ` set ?rows" using S(4) ne by (auto simp: gate_row_def)
  have "gs_calls ?q ! c = gs_calls s ! c"
    using E(8) [of c] S(2) jc E(4) expired_call_stays [OF ids S(5)] by (simp add: Q(5) set_status_nth)
  moreover have "pid \<notin> pa_id ` set (gs_rows ?q)" using E(5) ids by (simp add: Q(5))
  moreover have "gs_used ?q = q # gs_used s" "length (gs_calls ?q) = length (gs_calls s)"
    using E(2,4) by (simp_all add: Q(5))
  ultimately show ?thesis
    using S queue_call_facts(1) [OF S(1) new j v, where cfg = cfg] by (simp add: stranded_def)
qed

lemma stranded_frame:
  assumes "gs_rows t = gs_rows s" "gs_hub t = gs_hub s" "gs_calls t = gs_calls s" "gs_used t = gs_used s"
    and "stranded c pid s"
  shows "stranded c pid t"
  using assms gate_inv_cong [OF assms(1-4)] by (simp add: stranded_def)

lemma stranded_add_call:
  "stranded c pid s \<Longrightarrow> gl_status call = GJudging \<Longrightarrow> stranded c pid (s\<lparr>gs_calls := gs_calls s @ [call]\<rparr>)"
  using inv_add_call [of s call] by (auto simp: stranded_def nth_append)

lemma stranded_gate:
  assumes st: "stranded c pid s" and new: "q \<notin> set (gs_used s)"
  shows "stranded c pid (hitlApprovalGate cfg call q s)"
proof -
  let ?s1 = "snd (expireDue s)"
  let ?call = "call\<lparr>gl_tier := classifyToolRisk (gl_resource call) (gt_toolRisk cfg), gl_status := GJudging\<rparr>"
  let ?s = "?s1\<lparr>gs_calls := gs_calls ?s1 @ [?call]\<rparr>" and ?j = "length (gs_calls ?s1)"
  note E = expiryD [OF expireDue_effect [OF strandedD(1) [OF st]]]
  have s: "stranded c pid ?s" by (rule stranded_add_call [OF stranded_expire [OF st]]) simp
  have j: "?j < length (gs_calls ?s)" "gl_status (gs_calls ?s ! ?j) = GJudging" by simp_all
  have "stranded c pid (queue_call cfg ?j q ?s)"
    by (rule stranded_queue [OF s _ j]) (use new E(2) in simp)
  moreover have "stranded c pid (set_status ?j GPassed ?s)"
    using inv_set_status [OF strandedD(1) [OF s] j(1), of GPassed] judging_not_waiting [OF strandedD(1) [OF s] j(2)]
      strandedD(2) [OF st] E(4)
    by (intro stranded_status [OF s]) simp_all
  ultimately show ?thesis
    using s unfolding hitlApprovalGate_def Let_def by (simp split: gate_verdict.splits)
qed

lemma stranded_judged:
  assumes st: "stranded c pid s" and new: "q \<notin> set (gs_used s)"
  shows "stranded c pid (judge_answered cfg j d q s)"
proof (cases "j < length (gs_calls s) \<and> gl_status (gs_calls s ! j) = GJudging")
  case False
  then show ?thesis using st by (auto simp: judge_answered_def)
next
  case True
  then have j: "j < length (gs_calls s)" "gl_status (gs_calls s ! j) = GJudging" by simp_all
  note S = strandedD [OF st]
  have ne: "j \<noteq> c" using j(2) S(5) by auto
  have set: "stranded c pid (set_status j v s)" if "v \<in> {GPassedByJudge, GDeniedByJudge}" for v
    using inv_set_status [OF S(1) j(1), of v] judging_not_waiting [OF S(1) j(2)] ne that
    by (intro stranded_status [OF st]) auto
  have "stranded c pid ((set_status j GDeniedByJudge s)\<lparr>gs_pushed := m\<rparr>)" for m
    by (rule stranded_frame [OF _ _ _ _ set [of GDeniedByJudge]]) simp_all
  then show ?thesis
    using True set stranded_queue [OF st new j] by (cases d) (simp_all add: judge_answered_def)
qed

lemma stranded_abort:
  assumes st: "stranded c pid s" and new: "q \<notin> set (gs_used s)"
  shows "stranded c pid (abort_call cfg j q s)"
proof (cases "j < length (gs_calls s)")
  case False
  then show ?thesis using st by (simp add: abort_call_def)
next
  case True
  let ?s = "s\<lparr>gs_calls := (gs_calls s)[j := (gs_calls s ! j)\<lparr>gl_aborted := True\<rparr>]\<rparr>"
  have i: "gate_inv ?s" by (rule inv_abort_flag [OF strandedD(1) [OF st] True])
  have s: "stranded c pid ?s" using strandedD [OF st] i by (cases "j = c") (simp_all add: stranded_def)
  have "stranded c pid (queue_call cfg j q ?s)" if "gl_status (gs_calls s ! j) = GJudging"
    by (rule stranded_queue [OF s]) (use that new True in simp_all)
  moreover have "stranded c pid (set_status j GAborted ?s)"
    using inv_set_status [OF i, of j GAborted] True by (intro stranded_status [OF s]) simp_all
  ultimately show ?thesis
    using s True by (simp add: abort_call_def Let_def split: gate_status.splits)
qed

lemma stranded_delete: "stranded c pid s \<Longrightarrow> stranded c pid (snd (deletePendingForSessionIds sids s))"
  using gate_inv_delete [of s sids] by (auto simp: stranded_def deletePendingForSessionIds_def Let_def)

lemma stranded_step: "gate_step cfg s s' \<Longrightarrow> stranded c pid s \<Longrightarrow> stranded c pid s'"
proof (induction rule: gate_step.induct)
  case (call q s call)
  then show ?case by (simp add: stranded_gate)
next
  case (judged q s j d)
  then show ?case by (simp add: stranded_judged)
next
  case (aborted q s j)
  then show ?case by (simp add: stranded_abort)
next
  case (approved s i p)
  then show ?case unfolding approve_def by (intro stranded_update resolves_ops) simp_all
next
  case (denied s i p)
  then show ?case unfolding deny_def by (intro stranded_update resolves_ops) simp_all
next
  case (poll s)
  then show ?case by (rule stranded_expire)
next
  case (cleared s sids)
  then show ?case by (rule stranded_delete)
next
  case (pass s n)
  then show ?case by (elim stranded_frame [rotated 4]) simp_all
next
  case (settings s au yo cr)
  then show ?case by (elim stranded_frame [rotated 4]) simp_all
qed

text \<open>
  C38. Deleting the pending actions of a session resolves nothing: the waiter of a deleted action is not told,
  and no later event resumes it. The call waits until its turn is aborted, however long the approval
  timeout is.
\<close>
theorem deleted_call_stranded:
  assumes "gate_run cfg (new_gate_state t0) s" "c < length (gs_calls s)"
    and "gl_status (gs_calls s ! c) = GWaiting pid" "gl_session (gs_calls s ! c) \<in> set (map js_trim sids)"
    and "gate_run cfg (snd (deletePendingForSessionIds sids s)) s'"
  shows "gl_status (gs_calls s' ! c) = GWaiting pid \<or> gl_status (gs_calls s' ! c) = GAborted"
proof -
  have inv: "gate_inv s" using assms(1) by (rule gate_run_inv)
  have ok: "call_ok s c (gs_calls s ! c)" using gate_invD(5) [OF inv assms(2)] .
  then have rows: "pa_status r = PaPending \<and> row_for (gs_calls s ! c) pid r" if "r \<in> set (gs_rows s)" "pa_id r = pid" for r
    using that assms(3) by (auto simp: call_ok_def)
  have used: "pid \<in> set (gs_used s)" using call_ok_waiting [OF ok assms(3)] gate_invD(3) [OF inv] by blast
  have "stranded c pid (snd (deletePendingForSessionIds sids s))"
    using gate_inv_delete [OF inv, of sids] assms(2-4) used rows
    by (auto simp: stranded_def deletePendingForSessionIds_def Let_def row_for_def)
  with assms(5) have "stranded c pid s'"
    by (induction rule: rtranclp_induct) (auto intro: stranded_step)
  then show ?thesis using strandedD(5) by auto
qed

subsection \<open>Decisions are final\<close>

definition keeps_resolved :: "gate_state \<Rightarrow> gate_state \<Rightarrow> bool" where
  "keeps_resolved s s' \<longleftrightarrow> (\<forall>r \<in> set (gs_rows s). pa_status r \<noteq> PaPending \<longrightarrow> r \<in> set (gs_rows s'))"

lemma keeps_refl [simp]: "keeps_resolved s s" and keeps_trans [trans]:
  "keeps_resolved s t \<Longrightarrow> keeps_resolved t u \<Longrightarrow> keeps_resolved s u"
  by (simp_all add: keeps_resolved_def)

lemma keeps_same: "gs_rows s' = gs_rows t \<Longrightarrow> keeps_resolved s t \<Longrightarrow> keeps_resolved s s'"
  by (simp add: keeps_resolved_def)

lemma keeps_update:
  "\<forall>r. P r \<longrightarrow> pa_status r = PaPending \<Longrightarrow> keeps_resolved s (snd (update_pending P f out i s))"
  by (auto simp: keeps_resolved_def update_pending_def onResolved_def image_iff split: prod.splits)

lemma keeps_expire: "keeps_resolved s (snd (expireDue s))"
proof -
  have "keeps_resolved t (snd (expire_loop now is n t))" for now "is" n t
  proof (induction "is" arbitrary: n t)
    case (Cons i "is")
    obtain b t1 where t1: "expire_one now i t = (b, t1)" by fastforce
    have "keeps_resolved t t1"
      using keeps_update [where P = "overdue now" and f = "expired_row now" and out = OutDenied and i = i and s = t, OF overdue_pending] t1
      by (simp add: expire_one_eq)
    from keeps_trans [OF this Cons] show ?case by (simp add: t1)
  qed simp
  then show ?thesis by (simp add: expireDue_def)
qed

lemma keeps_queue: "keeps_resolved s (queue_call cfg c pid s)"
proof -
  let ?s = "s\<lparr>gs_used := pid # gs_used s\<rparr>"
  have e: "keeps_resolved s (snd (expireDue (?s\<lparr>gs_rows := gs_rows s @ [row]\<rparr>)))" for row
    by (rule keeps_trans [OF _ keeps_expire]) (simp add: keeps_resolved_def)
  show ?thesis
    unfolding queue_call_def Let_def enqueue_action_def
    by (auto split: prod.splits option.splits intro: keeps_same [OF _ e] keeps_same [OF _ keeps_refl])
qed

lemma keeps_step: "gate_step cfg s s' \<Longrightarrow> keeps_resolved s s'"
proof (induction rule: gate_step.induct)
  case (call pid s call)
  have "keeps_resolved s (queue_call cfg c pid ((snd (expireDue s))\<lparr>gs_calls := cs\<rparr>))" for c cs
    by (rule keeps_trans [OF _ keeps_queue]) (rule keeps_same [OF _ keeps_expire], simp)
  moreover have "keeps_resolved s ((snd (expireDue s))\<lparr>gs_calls := cs\<rparr>)" for cs
    by (rule keeps_same [OF _ keeps_expire]) simp
  ultimately show ?case
    by (auto simp: hitlApprovalGate_def Let_def set_status_def split: gate_verdict.splits)
next
  case (judged pid s c d)
  then show ?case
    by (auto simp: judge_answered_def keeps_queue split: cruise_decision.splits intro: keeps_same [OF _ keeps_refl])
next
  case (aborted pid s c)
  have "keeps_resolved s (queue_call cfg c pid (s\<lparr>gs_calls := cs\<rparr>))" for cs
    by (rule keeps_trans [OF _ keeps_queue]) (rule keeps_same [OF _ keeps_refl], simp)
  then show ?case
    by (auto simp: abort_call_def Let_def split: gate_status.splits intro: keeps_same [OF _ keeps_refl])
next
  case (cleared s sids)
  then show ?case by (simp add: keeps_resolved_def deletePendingForSessionIds_def Let_def)
qed (auto simp: approve_def deny_def keeps_expire intro: keeps_update keeps_same [OF _ keeps_refl])

text \<open>
  The first resolution of an action is the last: once it was approved or denied, no later event, be it
  another operator, the expiry poll or a deletion, changes its row.
\<close>
theorem resolution_final:
  assumes "gate_run cfg s s'" "r \<in> set (gs_rows s)" "pa_status r \<noteq> PaPending"
  shows "r \<in> set (gs_rows s')"
proof -
  have "keeps_resolved s s'" using assms(1)
    by (induction rule: rtranclp_induct) (auto intro: keeps_trans keeps_step)
  then show ?thesis using assms(2,3) by (simp add: keeps_resolved_def)
qed

section \<open>Examples\<close>

definition demo_gate_config :: gate_config where
  "demo_gate_config = \<lparr>gt_toolRisk = [(''builtin-web'', TierCritical)], gt_timeoutMs = 300000, gt_bypass = (\<lambda>_. TierSafe)\<rparr>"

definition demo_gate_call :: "string \<Rightarrow> gate_call" where
  "demo_gate_call tool =
     \<lparr>gl_session = ''s1'', gl_resource = tool, gl_review = False, gl_tier = TierSafe, gl_toolCallId = ''t1'',
      gl_argsJson = ''{}'', gl_runId = ''r1'', gl_aborted = False, gl_status = GJudging\<rparr>"

definition demo_asked :: gate_state where
  "demo_asked = hitlApprovalGate demo_gate_config (demo_gate_call ''builtin-web'') ''p1'' (new_gate_state 1000)"

definition demo_judged :: gate_state where
  "demo_judged = hitlApprovalGate demo_gate_config (demo_gate_call ''builtin-web'') ''p1''
     ((new_gate_state 1000)\<lparr>gs_cruise := [(''s1'', \<lparr>cp_model = None, cp_yes = ''safe'', cp_no = ''risky'', cp_escalate = None\<rparr>)]\<rparr>)"

lemmas demo_gate_defs = demo_gate_config_def demo_gate_call_def new_gate_state_def hitlApprovalGate_def Let_def
  expireDue_def gate_verdict_of_def classifyToolRisk_def risk_of_def map_get_def map_has_def yolo_isEnabled_def
  requiresHumanApproval_def

lemma no_approvals [simp]: "\<not> per_shouldAutoApprove \<lparr>pg_rows = [], pg_agentToolsMem = [], pg_agents = []\<rparr> s t"
  by (simp add: per_should tools_of_def map_get_def)

definition demo_pending :: pending_action where
  "demo_pending =
     \<lparr>pa_id = ''p1'', pa_session = ''s1'', pa_correlation = Some ''r1'', pa_tool = ''builtin-web'', pa_summary = None,
      pa_payload = JObj [(''argsJson'', JStr ''{}''), (''toolCallId'', JStr ''t1'')], pa_tier = TierCritical,
      pa_status = PaPending, pa_denial = None, pa_created = 1, pa_expires = 301000, pa_resolved = None, pa_resolver = None\<rparr>"

lemma demo_asked_eq:
  "demo_asked = (new_gate_state 1000)\<lparr>gs_rows := [demo_pending], gs_hub := \<lparr>hub_waiters = [(''p1'', [0])], hub_early = []\<rparr>,
     gs_calls := [(demo_gate_call ''builtin-web'')\<lparr>gl_tier := TierCritical, gl_status := GWaiting ''p1''\<rparr>], gs_used := [''p1'']\<rparr>"
  by (simp add: demo_asked_def demo_pending_def demo_gate_defs queue_call_def enqueue_action_def overdue_def
      waitFor_def set_status_def nullish_def map_set_def)

lemma demo_asked_run: "gate_run demo_gate_config (new_gate_state 1000) demo_asked"
  unfolding demo_asked_def by (rule r_into_rtranclp, rule gate_step.call) (simp add: new_gate_state_def)

lemma demo_waiting:
  "length (gs_calls demo_asked) = 1" "gl_status (gs_calls demo_asked ! 0) = GWaiting ''p1''"
  "gl_session (gs_calls demo_asked ! 0) = ''s1''" "demo_pending \<in> set (gs_rows demo_asked)"
  "gs_now demo_asked = 1000" "gs_used demo_asked = [''p1'']" "pa_id demo_pending = ''p1''" "pa_expires demo_pending = 301000"
  by (simp_all add: demo_asked_eq demo_gate_call_def new_gate_state_def demo_pending_def)

theorem gate_passes_exactly_witness:
  "gl_status (last (gs_calls (hitlApprovalGate demo_gate_config (demo_gate_call ''builtin-read'') ''p2'' demo_asked))) = GPassed
   \<and> gl_status (last (gs_calls (hitlApprovalGate demo_gate_config (demo_gate_call ''builtin-exec'') ''p2'' demo_asked))) = GWaiting ''p2''
   \<and> (\<exists>r \<in> set (gs_rows (hitlApprovalGate demo_gate_config (demo_gate_call ''builtin-exec'') ''p2'' demo_asked)).
        pa_id r = ''p2'' \<and> pa_tool r = ''builtin-exec'' \<and> pa_status r = PaPending)"
proof -
  have u: "''p2'' \<notin> set (gs_used demo_asked)" by (simp add: demo_waiting)
  have "classifyToolRisk ''builtin-read'' (gt_toolRisk demo_gate_config) = TierSafe"
    "classifyToolRisk ''builtin-exec'' (gt_toolRisk demo_gate_config) = TierCritical"
    by (simp_all add: demo_gate_defs DEFAULT_TOOL_RISK_def)
  moreover have "gt_bypass demo_gate_config s = TierSafe" for s by (simp add: demo_gate_config_def)
  moreover have "\<not> per_shouldAutoApprove (gs_auto demo_asked) s t" "\<not> yolo_isEnabled (gs_yolo demo_asked) s"
    "\<not> map_has (gs_cruise demo_asked) s" for s t
    by (simp_all add: demo_asked_eq new_gate_state_def yolo_isEnabled_def map_has_def map_get_def)
  ultimately show ?thesis
    using gate_passes_exactly [OF demo_asked_run u, of "demo_gate_call ''builtin-read''"]
      gate_passes_exactly [OF demo_asked_run u, of "demo_gate_call ''builtin-exec''"]
    by (auto simp: demo_gate_call_def)
qed

definition demo_granted :: gate_state where
  "demo_granted = snd (approve ''p1'' ''op'' demo_asked)"

lemma demo_granted_run: "gate_run demo_gate_config (new_gate_state 1000) demo_granted"
  unfolding demo_granted_def by (rule rtranclp.rtrancl_into_rtrancl [OF demo_asked_run], rule gate_step.approved)

lemma demo_granted_facts:
  "length (gs_calls demo_granted) = 1" "gl_status (gs_calls demo_granted ! 0) = GApproved ''p1''"
  "gs_rows demo_granted = [demo_pending\<lparr>pa_status := PaApproved, pa_resolved := Some 1, pa_resolver := Some ''op''\<rparr>]"
  by (simp_all add: demo_granted_def approve_def update_pending_def onResolved_def notifyResolved_def Let_def demo_asked_eq
      demo_pending_def map_get_def nullish_def resume_call_def new_gate_state_def)

theorem operator_decision_binding_witness:
  "\<exists>r \<in> set (gs_rows demo_granted). row_for (gs_calls demo_granted ! 0) ''p1'' r \<and> pa_status r = PaApproved \<and> pa_resolver r \<noteq> None"
  using operator_decision_binding [OF demo_granted_run, of 0] by (simp add: demo_granted_facts)

theorem resolution_resumes_witness:
  "gl_status (gs_calls (snd (approve ''p1'' ''op'' demo_asked)) ! 0) = GApproved ''p1''
   \<and> gl_status (gs_calls (snd (deny ''p1'' ''op'' demo_asked)) ! 0) = GDenied ''p1'' ByOperator"
  using resolution_resumes [OF demo_asked_run _ _ demo_waiting(4), of 0 "''p1''" "''op''"] by (simp add: demo_waiting)

lemma gate_run_one: "gate_step cfg s s' \<Longrightarrow> gate_run cfg s s'"
  by (rule r_into_rtranclp)

theorem resolution_final_witness:
  "demo_pending\<lparr>pa_status := PaApproved, pa_resolved := Some 1, pa_resolver := Some ''op''\<rparr>
     \<in> set (gs_rows (snd (deny ''p1'' ''other'' demo_granted)))"
proof -
  have run: "gate_run demo_gate_config demo_granted (snd (deny ''p1'' ''other'' demo_granted))"
    by (rule gate_run_one, rule gate_step.denied)
  show ?thesis using resolution_final [OF run] by (simp add: demo_granted_facts)
qed

theorem deleted_call_stranded_witness:
  "gl_status (gs_calls (snd (approve ''p1'' ''op'' (snd (deletePendingForSessionIds [''s1''] demo_asked)))) ! 0) = GWaiting ''p1''
   \<or> gl_status (gs_calls (snd (approve ''p1'' ''op'' (snd (deletePendingForSessionIds [''s1''] demo_asked)))) ! 0) = GAborted"
proof -
  let ?s = "snd (deletePendingForSessionIds [''s1''] demo_asked)"
  have run: "gate_run demo_gate_config ?s (snd (approve ''p1'' ''op'' ?s))"
    by (rule gate_run_one, rule gate_step.approved)
  have "js_trim ''s1'' = ''s1''" by code_simp
  then show ?thesis
    using deleted_call_stranded [OF demo_asked_run _ _ _ run, of 0 "''p1''"] by (simp add: demo_waiting)
qed

lemma demo_judged_facts:
  "length (gs_calls demo_judged) = 1" "gl_status (gs_calls demo_judged ! 0) = GJudging" "gs_used demo_judged = []"
  by (simp_all add: demo_judged_def demo_gate_defs)

lemma demo_judged_run: "gate_run demo_gate_config (new_gate_state 1000) demo_judged"
proof -
  let ?cr = "[(''s1'', \<lparr>cp_model = None, cp_yes = ''safe'', cp_no = ''risky'', cp_escalate = None\<rparr>)]"
  have "gate_step demo_gate_config (new_gate_state 1000) ((new_gate_state 1000)\<lparr>gs_cruise := ?cr\<rparr>)"
    using gate_step.settings [where s = "new_gate_state 1000" and au = "gs_auto (new_gate_state 1000)" and yo = "gs_yolo (new_gate_state 1000)" and cr = ?cr]
    by (simp add: new_gate_state_def)
  moreover have "gate_step demo_gate_config ((new_gate_state 1000)\<lparr>gs_cruise := ?cr\<rparr>) demo_judged"
    unfolding demo_judged_def by (rule gate_step.call) (simp add: new_gate_state_def)
  ultimately show ?thesis by (meson rtranclp.rtrancl_into_rtrancl rtranclp.rtrancl_refl)
qed

theorem abort_while_judged_still_asks_witness:
  "gl_status (gs_calls (abort_call demo_gate_config 0 ''p1'' demo_judged) ! 0) = GAborted
   \<and> (\<exists>r \<in> set (gs_rows (abort_call demo_gate_config 0 ''p1'' demo_judged)). pa_id r = ''p1'' \<and> pa_status r = PaPending)"
  using abort_while_judged_still_asks [OF demo_judged_run, of 0 "''p1''"] by (simp add: demo_judged_facts)

end
