(* ===== verification/Tool_Dispatch.thy ===== *)
theory Tool_Dispatch
  imports Tool_Args Runaway_Breaker Transcript Policy Approval_Gate
begin

text \<open>
  One tool call of a turn (\<open>processSingleToolCall\<close> of \<open>daemon/src/sessions/tool-loop.ts\<close>): its name, its
  arguments, the policy, the system gates, the human gate, the circuit breaker and the executor, in the
  order of the code. What the awaits of a call bring (the verdicts of the gates, the outcome of the
  executor, an abort) is its environment \<open>call_env\<close>; the status of the human gate is the one that
  \<open>Approval_Gate\<close> gives the call. Log messages and statistics are left out; the text of an answer is
  represented by a constructor.
\<close>

section \<open>State\<close>

text \<open>A call as the provider sent it, and after the arguments were sanitized.\<close>

record raw_call =
  rc_id :: string
  rc_name :: "string option"
  rc_argsJson :: "string option"
  rc_thoughtSignature :: "string option"

record tool_call =
  tc_id :: string
  tc_name :: "string option"
  tc_argsJson :: string
  tc_thoughtSignature :: "string option"

datatype tool_answer =
    AInvalidName
  | AAcknowledged
  | ANearMiss string
  | AUnknownTool string
  | AOutputTruncated string
  | ABadJson string
  | ABadArguments string "arg_error list"
  | APolicyDenied string deny_reason
  | AReviewRequired string
  | AGated string
  | AHitlDenied "string option" string
  | ATimeout string
  | AToolError string string
  | AResult string
  | ABreakerBlocked
  | ABreakerSkipped
  | ABreakerCanceled bool
  | ABatchLimit nat nat
  | ASkipped

datatype steer_message = SteerRunaway runaway_trigger | SteerCorrection string | SteerOperator string

datatype tx_event =
    TxAssistant "string option" "tool_call list" "string option"
  | TxTool string tool_answer
  | TxUser steer_message

record loop_state =
  ls_pushed :: "(string \<times> tool_answer) list"
  ls_steers :: "steer_message list"
  ls_events :: "tx_event list"
  ls_executed :: "(string \<times> string \<times> string) list"
  ls_audit :: "(string \<times> string) list"
  ls_names :: "string list"
  ls_schemas :: "(string, schema_like) jsmap"
  ls_breaker :: "breaker option"
  ls_structuredOutputAttempt :: nat
  ls_consecutiveInvalid :: nat
  ls_canceled :: bool

text \<open>
  \<open>lo_session\<close> and \<open>lo_runId\<close> are the session and the run of the turn;
  \<open>lo_policy\<close> is \<open>options.policy.check\<close> on a resource for the session and principal of the turn;
  \<open>lo_hitl\<close> and \<open>lo_gates\<close> say whether the turn has a human gate and system gates; \<open>lo_parse\<close> is
  \<open>JSON.parse\<close> and \<open>lo_hash\<close> the hash of the breaker.
\<close>

record loop_options =
  lo_session :: string
  lo_runId :: string
  lo_policy :: "string \<Rightarrow> decision"
  lo_transcript :: bool
  lo_hitl :: bool
  lo_gates :: bool
  lo_registry :: "extractor_registry option"
  lo_maxToolsPerBatch :: "nat option"
  lo_parse :: "string \<Rightarrow> json option"
  lo_hash :: "string \<Rightarrow> string"

datatype gate_pre = PrePass | PreGated string | PreThrew string

datatype exec_outcome = ExecOk string | ExecTimeout | ExecFailed string | ExecAborted

type_synonym tool_list = "(string \<times> schema_like option) list"

record call_env =
  ce_abortedBefore :: bool
  ce_pre :: gate_pre
  ce_gate :: "gate_call \<Rightarrow> gate_status"
  ce_abortedAtExec :: bool
  ce_exec :: exec_outcome
  ce_refresh :: "tool_list option"

datatype loop_error = TurnAborted | ToolCallTruncated string | OtherError string | Suspended

datatype dispatch =
    SkipInvalidName
  | SkipThinkingLeak
  | SkipUnknownTool
  | SkipNearMiss
  | SkipBadArgs
  | SkipTruncatedArgs
  | SkipValidationError
  | SkipPolicyDenied
  | SkipReviewUnavailable
  | SkipSystemGated
  | SkipHitlDenied
  | Prevented runaway_verdict
  | Proceed string

type_synonym dispatch_result = "(loop_error + dispatch) \<times> loop_state"

definition allowedNames :: "tool_list \<Rightarrow> string list" where
  "allowedNames tools = fold (\<lambda>t. set_add (fst t)) tools []"

definition buildSchemaMap :: "tool_list \<Rightarrow> (string, schema_like) jsmap" where
  "buildSchemaMap tools =
     fold (\<lambda>(name, schema) m. case schema of Some sc \<Rightarrow> map_set name sc m | None \<Rightarrow> m) tools []"

definition pushToolMessage :: "string \<Rightarrow> tool_answer \<Rightarrow> loop_state \<Rightarrow> loop_state" where
  "pushToolMessage i a s = s\<lparr>ls_pushed := ls_pushed s @ [(i, a)]\<rparr>"

definition appendTx :: "loop_options \<Rightarrow> tx_event \<Rightarrow> loop_state \<Rightarrow> loop_state" where
  "appendTx opts ev s = (if lo_transcript opts then s\<lparr>ls_events := ls_events s @ [ev]\<rparr> else s)"

definition audit :: "string \<Rightarrow> string \<Rightarrow> loop_state \<Rightarrow> loop_state" where
  "audit phase i s = s\<lparr>ls_audit := ls_audit s @ [(phase, i)]\<rparr>"

text \<open>The answer to a call: to the model, and to the transcript when there is one.\<close>

definition answer :: "loop_options \<Rightarrow> string \<Rightarrow> tool_answer \<Rightarrow> loop_state \<Rightarrow> loop_state" where
  "answer opts i a s = appendTx opts (TxTool i a) (pushToolMessage i a s)"

section \<open>The stages\<close>

definition STRUCTURED_OUTPUT_TOOL_NAME :: string where
  "STRUCTURED_OUTPUT_TOOL_NAME = ''__structured_output__''"

definition isNearMissStructuredOutputTool :: "string \<Rightarrow> bool" where
  "isNearMissStructuredOutputTool name \<longleftrightarrow>
     name \<noteq> STRUCTURED_OUTPUT_TOOL_NAME \<and> js_includes name STRUCTURED_OUTPUT_TOOL_NAME"

definition valid_tool_name :: "string option \<Rightarrow> bool" where
  "valid_tool_name name =
     (case name of
        None \<Rightarrow> False
      | Some n \<Rightarrow> 1 \<le> length n \<and> length n \<le> 128
          \<and> list_all (\<lambda>c. is_ident_start c \<or> is_digit c \<or> c \<in> set ''-:.'') n)"

definition thinking_leak :: "string \<Rightarrow> bool" where
  "thinking_leak name =
     (let n = map lower_char name; sep = (\<lambda>i. i < length n \<and> (n ! i = CHR ''_'' \<or> is_ws (n ! i)))
      in js_starts_with n ''thinking'' \<and> sep 8 \<or> js_starts_with n ''think'' \<and> sep 5)"

text \<open>Stage 1: the name, and arguments that could not be parsed.\<close>

definition stage_name ::
  "loop_options \<Rightarrow> string list \<Rightarrow> string list \<Rightarrow> tool_call \<Rightarrow> loop_state \<Rightarrow> dispatch option \<times> loop_state" where
  "stage_name opts badArgIds truncatedArgIds tc s =
     (let i = tc_id tc; name = the (tc_name tc) in
      if \<not> valid_tool_name (tc_name tc)
        then (Some SkipInvalidName, answer opts i AInvalidName (audit ''invalid_tool_name'' i s))
      else if thinking_leak name
        then (Some SkipThinkingLeak, pushToolMessage i AAcknowledged (audit ''thinking_leak'' i s))
      else if name \<notin> set (ls_names s)
        then (if isNearMissStructuredOutputTool name
              then (Some SkipNearMiss, answer opts i (ANearMiss name) (audit ''structured_output_tool_near_miss'' i s))
              else (Some SkipUnknownTool, answer opts i (AUnknownTool name) (audit ''unknown_tool'' i s)))
      else if i \<in> set truncatedArgIds
        then (Some SkipTruncatedArgs, answer opts i (AOutputTruncated name) (audit ''args_truncated'' i s))
      else if i \<in> set badArgIds
        then (Some SkipBadArgs, answer opts i (ABadJson name) (audit ''args_parse_error'' i s))
      else (None, s))"

text \<open>Stage 2: the arguments against the schema of the tool.\<close>

definition stage_args :: "loop_options \<Rightarrow> tool_call \<Rightarrow> json \<Rightarrow> loop_state \<Rightarrow> dispatch option \<times> loop_state" where
  "stage_args opts tc toolArgs s =
     (case map_get (ls_schemas s) (the (tc_name tc)) of
        None \<Rightarrow> (None, s)
      | Some schema \<Rightarrow>
          (let errs = validateToolArgs toolArgs schema in
           if errs \<noteq> []
           then (Some SkipValidationError,
                 answer opts (tc_id tc) (ABadArguments (the (tc_name tc)) errs) (audit ''args_validation_error'' (tc_id tc) s))
           else (None, s)))"

text \<open>
  The properties of parsed arguments: other values than objects have none of the names that are read,
  and reading from \<open>null\<close> throws (\<open>None\<close>).
\<close>

fun args_object :: "json \<Rightarrow> tool_args option" where
  "args_object (JObj fs) = Some fs"
| "args_object JNull = None"
| "args_object _ = Some []"

definition compound_resource :: "loop_options \<Rightarrow> string \<Rightarrow> json \<Rightarrow> string option" where
  "compound_resource opts name toolArgs =
     (case lo_registry opts of
        None \<Rightarrow> Some name
      | Some registry \<Rightarrow>
          (if map_has registry name
           then map_option (\<lambda>args. resolveCompoundResource name args registry) (args_object toolArgs)
           else Some name))"

text \<open>Stage 3: policy. A denial is final; a review needs a human gate.\<close>

definition stage_policy :: "loop_options \<Rightarrow> string \<Rightarrow> string \<Rightarrow> loop_state \<Rightarrow> dispatch option \<times> loop_state" where
  "stage_policy opts i resource s0 =
     (let s = audit ''policy'' i s0 in
      case lo_policy opts resource of
        Allow \<Rightarrow> (None, s)
      | Deny RequiresReview \<Rightarrow>
          (if lo_hitl opts then (None, s)
           else (Some SkipReviewUnavailable, answer opts i (AReviewRequired resource) (audit ''review_unavailable'' i s)))
      | Deny reason \<Rightarrow> (Some SkipPolicyDenied, answer opts i (APolicyDenied resource reason) (audit ''policy_denied'' i s)))"

text \<open>Stage 3.5: the system gates.\<close>

definition stage_gates ::
  "loop_options \<Rightarrow> call_env \<Rightarrow> string \<Rightarrow> loop_state \<Rightarrow> (loop_error + dispatch option) \<times> loop_state" where
  "stage_gates opts env i s =
     (if lo_gates opts
      then (case ce_pre env of
              PrePass \<Rightarrow> (Inr None, s)
            | PreGated result \<Rightarrow> (Inr (Some SkipSystemGated), answer opts i (AGated result) (audit ''system_gated'' i s))
            | PreThrew e \<Rightarrow> (Inl (OtherError e), s))
      else (Inr None, s))"

text \<open>
  Stage 4: the human gate, with the denial it pushes itself. The gate is entered with the resource, the
  call and the demand of policy; it sets the tier itself, and an abort reaches it later, as an event.
\<close>

definition gate_request :: "loop_options \<Rightarrow> tool_call \<Rightarrow> string \<Rightarrow> bool \<Rightarrow> gate_call" where
  "gate_request opts tc resource requiresReview =
     \<lparr>gl_session = lo_session opts, gl_resource = resource, gl_review = requiresReview, gl_tier = TierSafe,
      gl_toolCallId = tc_id tc, gl_argsJson = tc_argsJson tc, gl_runId = lo_runId opts, gl_aborted = False,
      gl_status = GJudging\<rparr>"

definition stage_hitl ::
  "loop_options \<Rightarrow> call_env \<Rightarrow> tool_call \<Rightarrow> string \<Rightarrow> bool \<Rightarrow> loop_state
     \<Rightarrow> (loop_error + dispatch option) \<times> loop_state" where
  "stage_hitl opts env tc resource requiresReview s =
     (let i = tc_id tc in
      if lo_hitl opts
      then (case ce_gate env (gate_request opts tc resource requiresReview) of
              GPassed \<Rightarrow> (Inr None, s)
            | GPassedByJudge \<Rightarrow> (Inr None, s)
            | GApproved _ \<Rightarrow> (Inr None, s)
            | GDeniedByJudge \<Rightarrow>
                (Inr (Some SkipHitlDenied), answer opts i (AHitlDenied None ''cruise'') (audit ''hitl_denied'' i s))
            | GDenied pid d \<Rightarrow>
                (Inr (Some SkipHitlDenied), answer opts i (AHitlDenied (Some pid) (reason_text d)) (audit ''hitl_denied'' i s))
            | GAborted \<Rightarrow> (Inl TurnAborted, s)
            | GThrew \<Rightarrow> (Inl (OtherError ''enqueue''), s)
            | GJudging \<Rightarrow> (Inl Suspended, s)
            | GWaiting _ \<Rightarrow> (Inl Suspended, s))
      else (Inr None, s))"

text \<open>Stage 4.5: the hook of the circuit breaker, which answers a call that it prevents.\<close>

definition beforeExecute :: "loop_options \<Rightarrow> tool_call \<Rightarrow> loop_state \<Rightarrow> dispatch option \<times> loop_state" where
  "beforeExecute opts tc s =
     (case ls_breaker s of
        None \<Rightarrow> (None, s)
      | Some b \<Rightarrow>
          (case breaker_record (lo_hash opts) (the (tc_name tc)) (tc_argsJson tc) b of
             (v, b') \<Rightarrow>
               (let s' = s\<lparr>ls_breaker := Some b'\<rparr> in
                if v = VOk then (None, s') else (Some (Prevented v), answer opts (tc_id tc) ABreakerBlocked s'))))"

text \<open>Stages 5 and 6: execution and its result.\<close>

definition stage_execute :: "loop_options \<Rightarrow> call_env \<Rightarrow> tool_call \<Rightarrow> string \<Rightarrow> loop_state \<Rightarrow> dispatch_result" where
  "stage_execute opts env tc resource s0 =
     (let i = tc_id tc; s = audit ''execute_start'' i s0 in
      if ce_abortedAtExec env then (Inl TurnAborted, s)
      else
        (let s' = s\<lparr>ls_executed := ls_executed s @ [(i, the (tc_name tc), tc_argsJson tc)]\<rparr> in
         case ce_exec env of
           ExecAborted \<Rightarrow> (Inl TurnAborted, s')
         | ExecTimeout \<Rightarrow> (Inr SkipHitlDenied, answer opts i (ATimeout resource) (audit ''execute_timeout'' i s'))
         | ExecFailed e \<Rightarrow> (Inr SkipHitlDenied, answer opts i (AToolError resource e) (audit ''execute_error'' i s'))
         | ExecOk result \<Rightarrow> (Inr (Proceed resource), answer opts i (AResult result) (audit ''execute_done'' i s'))))"

definition processSingleToolCall ::
  "loop_options \<Rightarrow> call_env \<Rightarrow> string list \<Rightarrow> string list \<Rightarrow> tool_call \<Rightarrow> loop_state \<Rightarrow> dispatch_result" where
  "processSingleToolCall opts env badArgIds truncatedArgIds tc s =
     (if ce_abortedBefore env then (Inl TurnAborted, s)
      else
        (case stage_name opts badArgIds truncatedArgIds tc s of
           (Some k, s1) \<Rightarrow> (Inr k, s1)
         | (None, s1) \<Rightarrow>
             (case lo_parse opts (tc_argsJson tc) of
                None \<Rightarrow> (Inl (OtherError ''SyntaxError''), s1)
              | Some toolArgs \<Rightarrow>
                  (case stage_args opts tc toolArgs s1 of
                     (Some k, s2) \<Rightarrow> (Inr k, s2)
                   | (None, s2) \<Rightarrow>
                       (case compound_resource opts (the (tc_name tc)) toolArgs of
                          None \<Rightarrow> (Inl (OtherError ''TypeError''), s2)
                        | Some resource \<Rightarrow>
                            (case stage_policy opts (tc_id tc) resource s2 of
                               (Some k, s3) \<Rightarrow> (Inr k, s3)
                             | (None, s3) \<Rightarrow>
                                 (case stage_gates opts env (tc_id tc) s3 of
                                    (Inl e, s4) \<Rightarrow> (Inl e, s4)
                                  | (Inr (Some k), s4) \<Rightarrow> (Inr k, s4)
                                  | (Inr None, s4) \<Rightarrow>
                                      (case stage_hitl opts env tc resource (lo_policy opts resource = Deny RequiresReview) s4 of
                                         (Inl e, s5) \<Rightarrow> (Inl e, s5)
                                       | (Inr (Some k), s5) \<Rightarrow> (Inr k, s5)
                                       | (Inr None, s5) \<Rightarrow>
                                           (case beforeExecute opts tc s5 of
                                              (Some k, s6) \<Rightarrow> (Inr k, s6)
                                            | (None, s6) \<Rightarrow> stage_execute opts env tc resource s6)))))))))"

section \<open>One call: answered once, executed only when cleared\<close>

lemma pushToolMessage_simps [simp]:
  "ls_pushed (pushToolMessage i a s) = ls_pushed s @ [(i, a)]" "ls_executed (pushToolMessage i a s) = ls_executed s"
  "ls_names (pushToolMessage i a s) = ls_names s" "ls_schemas (pushToolMessage i a s) = ls_schemas s"
  "ls_breaker (pushToolMessage i a s) = ls_breaker s" "ls_events (pushToolMessage i a s) = ls_events s"
  "ls_steers (pushToolMessage i a s) = ls_steers s" "ls_canceled (pushToolMessage i a s) = ls_canceled s"
  "ls_consecutiveInvalid (pushToolMessage i a s) = ls_consecutiveInvalid s"
  "ls_structuredOutputAttempt (pushToolMessage i a s) = ls_structuredOutputAttempt s"
  by (simp_all add: pushToolMessage_def)

lemma appendTx_simps [simp]:
  "ls_pushed (appendTx opts ev s) = ls_pushed s" "ls_executed (appendTx opts ev s) = ls_executed s"
  "ls_names (appendTx opts ev s) = ls_names s" "ls_schemas (appendTx opts ev s) = ls_schemas s"
  "ls_breaker (appendTx opts ev s) = ls_breaker s" "ls_steers (appendTx opts ev s) = ls_steers s"
  "ls_canceled (appendTx opts ev s) = ls_canceled s"
  "ls_events (appendTx opts ev s) = (if lo_transcript opts then ls_events s @ [ev] else ls_events s)"
  "ls_consecutiveInvalid (appendTx opts ev s) = ls_consecutiveInvalid s"
  "ls_structuredOutputAttempt (appendTx opts ev s) = ls_structuredOutputAttempt s"
  by (simp_all add: appendTx_def)

lemma audit_simps [simp]:
  "ls_pushed (audit p i s) = ls_pushed s" "ls_executed (audit p i s) = ls_executed s" "ls_names (audit p i s) = ls_names s"
  "ls_schemas (audit p i s) = ls_schemas s" "ls_breaker (audit p i s) = ls_breaker s" "ls_events (audit p i s) = ls_events s"
  "ls_steers (audit p i s) = ls_steers s" "ls_canceled (audit p i s) = ls_canceled s"
  "ls_consecutiveInvalid (audit p i s) = ls_consecutiveInvalid s"
  "ls_structuredOutputAttempt (audit p i s) = ls_structuredOutputAttempt s"
  by (simp_all add: audit_def)

lemma answer_simps [simp]:
  "ls_pushed (answer opts i a s) = ls_pushed s @ [(i, a)]" "ls_executed (answer opts i a s) = ls_executed s"
  "ls_names (answer opts i a s) = ls_names s" "ls_schemas (answer opts i a s) = ls_schemas s"
  "ls_breaker (answer opts i a s) = ls_breaker s" "ls_steers (answer opts i a s) = ls_steers s"
  "ls_canceled (answer opts i a s) = ls_canceled s"
  "ls_events (answer opts i a s) = (if lo_transcript opts then ls_events s @ [TxTool i a] else ls_events s)"
  "ls_consecutiveInvalid (answer opts i a s) = ls_consecutiveInvalid s"
  "ls_structuredOutputAttempt (answer opts i a s) = ls_structuredOutputAttempt s"
  by (simp_all add: answer_def)

text \<open>What a stage that ends the call does, and what one that lets it through leaves alone.\<close>

definition answered :: "string \<Rightarrow> loop_state \<Rightarrow> loop_state \<Rightarrow> bool" where
  "answered i s s' \<longleftrightarrow>
     (\<exists>a. ls_pushed s' = ls_pushed s @ [(i, a)] \<and> (ls_events s' = ls_events s \<or> ls_events s' = ls_events s @ [TxTool i a]))"

definition untouched_call :: "loop_state \<Rightarrow> loop_state \<Rightarrow> bool" where
  "untouched_call s s' \<longleftrightarrow>
     ls_pushed s' = ls_pushed s \<and> ls_events s' = ls_events s \<and> ls_executed s' = ls_executed s"

definition same_books :: "loop_state \<Rightarrow> loop_state \<Rightarrow> bool" where
  "same_books s s' \<longleftrightarrow>
     ls_steers s' = ls_steers s \<and> ls_canceled s' = ls_canceled s \<and> ls_names s' = ls_names s \<and> ls_schemas s' = ls_schemas s
     \<and> ls_consecutiveInvalid s' = ls_consecutiveInvalid s \<and> ls_structuredOutputAttempt s' = ls_structuredOutputAttempt s"

named_theorems stage_defs

lemmas [stage_defs] = stage_name_def stage_args_def stage_policy_def stage_gates_def stage_hitl_def beforeExecute_def
  stage_execute_def Let_def

lemma stage_name_effect:
  "stage_name opts bad trunc tc s = (r, s') \<Longrightarrow>
     (r = None \<longrightarrow> s' = s) \<and> (r \<noteq> None \<longrightarrow> answered (tc_id tc) s s' \<and> ls_executed s' = ls_executed s) \<and> same_books s s'
     \<and> ls_breaker s' = ls_breaker s"
  by (auto simp: stage_defs answered_def same_books_def split: if_splits)

lemma stage_args_effect:
  "stage_args opts tc args s = (r, s') \<Longrightarrow>
     (r = None \<longrightarrow> s' = s) \<and> (r \<noteq> None \<longrightarrow> answered (tc_id tc) s s' \<and> ls_executed s' = ls_executed s) \<and> same_books s s'
     \<and> ls_breaker s' = ls_breaker s"
  by (auto simp: stage_defs answered_def same_books_def split: if_splits option.splits)

lemma stage_policy_effect:
  "stage_policy opts i resource s = (r, s') \<Longrightarrow>
     (r = None \<longrightarrow> untouched_call s s') \<and> (r \<noteq> None \<longrightarrow> answered i s s' \<and> ls_executed s' = ls_executed s) \<and> same_books s s'
     \<and> ls_breaker s' = ls_breaker s"
  by (auto simp: stage_defs answered_def untouched_call_def same_books_def split: if_splits decision.splits deny_reason.splits)

lemma stage_gates_effect:
  "stage_gates opts env i s = (r, s') \<Longrightarrow>
     ((r = Inr None \<or> isl r) \<longrightarrow> s' = s)
     \<and> (r \<noteq> Inr None \<and> \<not> isl r \<longrightarrow> answered i s s' \<and> ls_executed s' = ls_executed s) \<and> same_books s s'
     \<and> ls_breaker s' = ls_breaker s"
  by (auto simp: stage_defs answered_def same_books_def split: if_splits gate_pre.splits)

lemma stage_hitl_effect:
  "stage_hitl opts env tc resource rr s = (r, s') \<Longrightarrow>
     ((r = Inr None \<or> isl r) \<longrightarrow> s' = s)
     \<and> (r \<noteq> Inr None \<and> \<not> isl r \<longrightarrow> answered (tc_id tc) s s' \<and> ls_executed s' = ls_executed s) \<and> same_books s s'
     \<and> ls_breaker s' = ls_breaker s"
  by (auto simp: stage_defs Let_def answered_def same_books_def split: if_splits gate_status.splits)

lemma beforeExecute_effect:
  "beforeExecute opts tc s = (r, s') \<Longrightarrow>
     (r = None \<longrightarrow> untouched_call s s') \<and> (r \<noteq> None \<longrightarrow> answered (tc_id tc) s s' \<and> ls_executed s' = ls_executed s) \<and> same_books s s'"
  by (auto simp: stage_defs answered_def untouched_call_def same_books_def split: if_splits option.splits prod.splits)

lemma stage_execute_effect:
  "stage_execute opts env tc resource s = (r, s') \<Longrightarrow>
     (\<not> isl r \<longrightarrow> answered (tc_id tc) s s') \<and> same_books s s'
     \<and> ls_executed s' = (if ce_abortedAtExec env then ls_executed s else ls_executed s @ [(tc_id tc, the (tc_name tc), tc_argsJson tc)])
     \<and> (isl r \<longrightarrow> ls_pushed s' = ls_pushed s \<and> ls_events s' = ls_events s)"
  by (auto simp: stage_defs answered_def same_books_def split: if_splits exec_outcome.splits)

lemmas stage_effects = stage_name_effect stage_args_effect stage_policy_effect stage_gates_effect stage_hitl_effect
  beforeExecute_effect stage_execute_effect

definition passing :: "gate_status \<Rightarrow> bool" where
  "passing st = (case st of GPassed \<Rightarrow> True | GPassedByJudge \<Rightarrow> True | GApproved _ \<Rightarrow> True | _ \<Rightarrow> False)"

text \<open>When a stage lets a call through.\<close>

lemma stage_name_None:
  "fst (stage_name opts bad trunc tc s) = None \<longleftrightarrow>
     valid_tool_name (tc_name tc) \<and> \<not> thinking_leak (the (tc_name tc)) \<and> the (tc_name tc) \<in> set (ls_names s)
     \<and> tc_id tc \<notin> set trunc \<and> tc_id tc \<notin> set bad"
  by (auto simp: stage_defs)

lemma stage_args_None:
  "fst (stage_args opts tc args s) = None \<longleftrightarrow>
     (\<forall>schema. map_get (ls_schemas s) (the (tc_name tc)) = Some schema \<longrightarrow> validateToolArgs args schema = [])"
  by (auto simp: stage_defs split: option.splits)

lemma stage_policy_None:
  "fst (stage_policy opts i resource s) = None \<longleftrightarrow>
     lo_policy opts resource = Allow \<or> lo_policy opts resource = Deny RequiresReview \<and> lo_hitl opts"
  by (auto simp: stage_defs split: decision.splits deny_reason.splits)

lemma stage_gates_None: "fst (stage_gates opts env i s) = Inr None \<longleftrightarrow> (lo_gates opts \<longrightarrow> ce_pre env = PrePass)"
  by (auto simp: stage_defs split: gate_pre.splits)

lemma stage_hitl_None:
  "fst (stage_hitl opts env tc resource rr s) = Inr None \<longleftrightarrow>
     (lo_hitl opts \<longrightarrow> passing (ce_gate env (gate_request opts tc resource rr)))"
  by (auto simp: stage_defs passing_def split: gate_status.splits)

lemma beforeExecute_None:
  "fst (beforeExecute opts tc s) = None \<longleftrightarrow>
     (\<forall>b. ls_breaker s = Some b \<longrightarrow> fst (breaker_record (lo_hash opts) (the (tc_name tc)) (tc_argsJson tc) b) = VOk)"
  by (auto simp: stage_defs split: option.splits prod.splits)

lemmas stage_None = stage_name_None stage_args_None stage_policy_None stage_gates_None stage_hitl_None beforeExecute_None

text \<open>Everything that has to hold for a call to reach the executor.\<close>

definition cleared :: "loop_options \<Rightarrow> call_env \<Rightarrow> string list \<Rightarrow> string list \<Rightarrow> tool_call \<Rightarrow> loop_state \<Rightarrow> string \<Rightarrow> bool" where
  "cleared opts env bad trunc tc s resource \<longleftrightarrow>
     \<not> ce_abortedBefore env \<and> fst (stage_name opts bad trunc tc s) = None
     \<and> (\<exists>args. lo_parse opts (tc_argsJson tc) = Some args \<and> fst (stage_args opts tc args s) = None
          \<and> compound_resource opts (the (tc_name tc)) args = Some resource)
     \<and> fst (stage_policy opts (tc_id tc) resource s) = None
     \<and> fst (stage_gates opts env (tc_id tc) s) = Inr None \<and> fst (stage_hitl opts env tc resource (lo_policy opts resource = Deny RequiresReview) s) = Inr None
     \<and> fst (beforeExecute opts tc s) = None"

text \<open>
  The way of a call through the stages: either one of them ends it, or it reaches the executor.
\<close>

lemma dispatch_cases:
  assumes "processSingleToolCall opts env bad trunc tc s = (r, s')"
  obtains (early) "r = Inl TurnAborted" "s' = s" "ce_abortedBefore env"
  | (skipped) k s0 where "r = Inr k" "answered (tc_id tc) s0 s'" "untouched_call s s0" "same_books s s'" "ls_executed s' = ls_executed s"
  | (failed) e where "r = Inl e" "untouched_call s s'" "same_books s s'"
  | (executes) resource s0 where "stage_execute opts env tc resource s0 = (r, s')" "untouched_call s s0" "same_books s s0"
      "cleared opts env bad trunc tc s resource"
proof (cases "ce_abortedBefore env")
  case False
  note unt = untouched_call_def same_books_def
  obtain r1 s1 where 1: "stage_name opts bad trunc tc s = (r1, s1)" by fastforce
  note E1 = stage_name_effect [OF 1]
  show ?thesis
  proof (cases r1)
    case (Some k)
    then show ?thesis using assms False 1 E1 by (intro skipped [of k s]) (simp_all add: processSingleToolCall_def unt)
  next
    case n1: None
    then have s1: "s1 = s" using E1 by simp
    show ?thesis
    proof (cases "lo_parse opts (tc_argsJson tc)")
      case None
      then show ?thesis using assms False 1 n1 s1
        by (intro failed [of "OtherError ''SyntaxError''"]) (simp_all add: processSingleToolCall_def unt)
    next
      case p: (Some args)
      obtain r2 s2 where 2: "stage_args opts tc args s = (r2, s2)" by fastforce
      note E2 = stage_args_effect [OF 2]
      show ?thesis
      proof (cases r2)
        case (Some k)
        then show ?thesis using assms False 1 n1 s1 p 2 E2 by (intro skipped [of k s]) (simp_all add: processSingleToolCall_def unt)
      next
        case n2: None
        then have s2: "s2 = s" using E2 by simp
        show ?thesis
        proof (cases "compound_resource opts (the (tc_name tc)) args")
          case None
          then show ?thesis using assms False 1 n1 s1 p 2 n2 s2
            by (intro failed [of "OtherError ''TypeError''"]) (simp_all add: processSingleToolCall_def unt)
        next
          case c: (Some resource)
          obtain r3 s3 where 3: "stage_policy opts (tc_id tc) resource s = (r3, s3)" by fastforce
          note E3 = stage_policy_effect [OF 3]
          obtain r4 s4 where 4: "stage_gates opts env (tc_id tc) s3 = (r4, s4)" by fastforce
          note E4 = stage_gates_effect [OF 4]
          obtain r5 s5 where 5: "stage_hitl opts env tc resource (lo_policy opts resource = Deny RequiresReview) s3 = (r5, s5)" by fastforce
          note E5 = stage_hitl_effect [OF 5]
          obtain r6 s6 where 6: "beforeExecute opts tc s3 = (r6, s6)" by fastforce
          note E6 = beforeExecute_effect [OF 6]
          have run: "(r, s') = (case r3 of Some k \<Rightarrow> (Inr k, s3) | None \<Rightarrow>
              (case r4 of Inl e \<Rightarrow> (Inl e, s4) | Inr (Some k) \<Rightarrow> (Inr k, s4) | Inr None \<Rightarrow>
              (case r5 of Inl e \<Rightarrow> (Inl e, s5) | Inr (Some k) \<Rightarrow> (Inr k, s5) | Inr None \<Rightarrow>
              (case r6 of Some k \<Rightarrow> (Inr k, s6) | None \<Rightarrow> stage_execute opts env tc resource s6))))"
            using assms False 1 n1 s1 p 2 n2 s2 c 3 4 5 6 E4 E5
            by (auto simp: processSingleToolCall_def split: option.splits sum.splits)
          consider (a) k where "r3 = Some k" | (b) k where "r3 = None" "r4 = Inr (Some k)" | (c) e where "r3 = None" "r4 = Inl e"
            | (d) k where "r3 = None" "r4 = Inr None" "r5 = Inr (Some k)" | (e) e where "r3 = None" "r4 = Inr None" "r5 = Inl e"
            | (f) k where "r3 = None" "r4 = Inr None" "r5 = Inr None" "r6 = Some k"
            | (g) "r3 = None" "r4 = Inr None" "r5 = Inr None" "r6 = None"
            by (metis option.exhaust sum.exhaust)
          then show ?thesis
          proof cases
            case (a k)
            then show ?thesis using run E3 by (intro skipped [of k s]) (simp_all add: unt)
          next
            case (b k)
            then show ?thesis using run E3 E4 by (intro skipped [of k s3]) (simp_all add: unt)
          next
            case (c e)
            then show ?thesis using run E3 E4 by (intro failed [of e]) (simp_all add: unt)
          next
            case (d k)
            then show ?thesis using run E3 E5 by (intro skipped [of k s3]) (simp_all add: unt)
          next
            case (e e)
            then show ?thesis using run E3 E5 by (intro failed [of e]) (simp_all add: unt)
          next
            case (f k)
            then show ?thesis using run E3 E6 by (intro skipped [of k s3]) (simp_all add: unt)
          next
            case g
            have "fst (stage_gates opts env (tc_id tc) s) = Inr None" "fst (stage_hitl opts env tc resource (lo_policy opts resource = Deny RequiresReview) s) = Inr None"
              using 4 5 g by (simp_all add: stage_gates_def stage_hitl_def Let_def split: if_splits gate_pre.splits gate_status.splits)
            moreover have "fst (beforeExecute opts tc s) = None" using 6 g E3 beforeExecute_None by (metis fst_conv)
            ultimately have "cleared opts env bad trunc tc s resource"
              using False 1 n1 p 2 n2 c 3 g by (simp add: cleared_def)
            then show ?thesis using run E3 E6 g by (intro executes [of resource s6]) (simp_all add: unt)
          qed
        qed
      qed
    qed
  qed
qed (use assms in \<open>simp add: processSingleToolCall_def\<close>)

lemma dispatch_effect:
  assumes "processSingleToolCall opts env bad trunc tc s = (r, s')"
  shows "same_books s s'" "\<not> isl r \<Longrightarrow> answered (tc_id tc) s s'"
    "isl r \<Longrightarrow> ls_pushed s' = ls_pushed s \<and> ls_events s' = ls_events s"
proof -
  have "same_books s s' \<and> (\<not> isl r \<longrightarrow> answered (tc_id tc) s s')
      \<and> (isl r \<longrightarrow> ls_pushed s' = ls_pushed s \<and> ls_events s' = ls_events s)"
    using assms
  proof (cases rule: dispatch_cases)
    case (executes resource s0)
    then show ?thesis
      using stage_execute_effect [OF executes(1)] by (auto simp: answered_def untouched_call_def same_books_def)
  qed (auto simp: answered_def untouched_call_def same_books_def)
  then show "same_books s s'" "\<not> isl r \<Longrightarrow> answered (tc_id tc) s s'"
    "isl r \<Longrightarrow> ls_pushed s' = ls_pushed s \<and> ls_events s' = ls_events s" by simp_all
qed

lemma cleared_executes:
  assumes "cleared opts env bad trunc tc s resource"
  obtains s0 where "processSingleToolCall opts env bad trunc tc s = stage_execute opts env tc resource s0" "untouched_call s s0"
proof -
  obtain args where args: "lo_parse opts (tc_argsJson tc) = Some args" "fst (stage_args opts tc args s) = None"
    "compound_resource opts (the (tc_name tc)) args = Some resource"
    using assms by (auto simp: cleared_def)
  note C = assms [unfolded cleared_def]
  obtain s3 where 3: "stage_policy opts (tc_id tc) resource s = (None, s3)" using C by (metis prod.collapse)
  note E3 = stage_policy_effect [OF 3]
  have 1: "stage_name opts bad trunc tc s = (None, s)"
    using C stage_name_effect [of opts bad trunc tc s] by (metis prod.collapse)
  have 2: "stage_args opts tc args s = (None, s)"
    using args(2) stage_args_effect [of opts tc args s] by (metis prod.collapse)
  have "fst (stage_gates opts env (tc_id tc) s3) = Inr None" "fst (stage_hitl opts env tc resource (lo_policy opts resource = Deny RequiresReview) s3) = Inr None"
    using C by (simp_all add: stage_None)
  then have 4: "stage_gates opts env (tc_id tc) s3 = (Inr None, s3)" and 5: "stage_hitl opts env tc resource (lo_policy opts resource = Deny RequiresReview) s3 = (Inr None, s3)"
    using stage_gates_effect [of opts env "tc_id tc" s3] stage_hitl_effect [of opts env tc resource "lo_policy opts resource = Deny RequiresReview" s3] by (metis prod.collapse)+
  have "fst (beforeExecute opts tc s3) = None" using C E3 by (simp add: beforeExecute_None)
  then obtain s6 where 6: "beforeExecute opts tc s3 = (None, s6)" by (metis prod.collapse)
  have "processSingleToolCall opts env bad trunc tc s = stage_execute opts env tc resource s6"
    using C 1 2 3 4 5 6 args by (simp add: processSingleToolCall_def)
  moreover have "untouched_call s s6" using E3 beforeExecute_effect [OF 6] by (simp add: untouched_call_def)
  ultimately show ?thesis by (rule that)
qed

text \<open>
  C7. A tool call is executed exactly when it passes everything: its name is well formed, no leaked thought
  and on the list of tools; its arguments parse and satisfy the schema of the tool; policy allows the
  resource it touches, or demands a review and there is a human gate; the system gates let it pass; the
  human gate, where there is one, was asked about this resource, call and demand of policy and has passed or
  approved it; the circuit breaker does not trip; and the
  turn is not aborted. It is then executed once, with the arguments that were checked.
\<close>
theorem executes_iff_cleared:
  "ls_executed (snd (processSingleToolCall opts env bad trunc tc s)) = ls_executed s @
     (if \<not> ce_abortedBefore env \<and> \<not> ce_abortedAtExec env
         \<and> valid_tool_name (tc_name tc) \<and> \<not> thinking_leak (the (tc_name tc)) \<and> the (tc_name tc) \<in> set (ls_names s)
         \<and> tc_id tc \<notin> set trunc \<and> tc_id tc \<notin> set bad
         \<and> (\<exists>args resource. lo_parse opts (tc_argsJson tc) = Some args
             \<and> (\<forall>schema. map_get (ls_schemas s) (the (tc_name tc)) = Some schema \<longrightarrow> validateToolArgs args schema = [])
             \<and> compound_resource opts (the (tc_name tc)) args = Some resource
             \<and> (lo_policy opts resource = Allow \<or> lo_policy opts resource = Deny RequiresReview \<and> lo_hitl opts)
             \<and> (lo_hitl opts \<longrightarrow>
                 passing (ce_gate env (gate_request opts tc resource (lo_policy opts resource = Deny RequiresReview)))))
         \<and> (lo_gates opts \<longrightarrow> ce_pre env = PrePass)
         \<and> (\<forall>b. ls_breaker s = Some b \<longrightarrow>
              fst (breaker_record (lo_hash opts) (the (tc_name tc)) (tc_argsJson tc) b) = VOk)
      then [(tc_id tc, the (tc_name tc), tc_argsJson tc)] else [])" (is "_ = _ @ (if ?C then _ else [])")
proof -
  have iff: "?C \<longleftrightarrow> \<not> ce_abortedAtExec env \<and> (\<exists>resource. cleared opts env bad trunc tc s resource)"
    unfolding cleared_def stage_None by blast
  obtain r s' where r: "processSingleToolCall opts env bad trunc tc s = (r, s')" by fastforce
  show ?thesis
  proof (cases "\<exists>resource. cleared opts env bad trunc tc s resource")
    case True
    then obtain resource where "cleared opts env bad trunc tc s resource" ..
    then obtain s0 where "stage_execute opts env tc resource s0 = (r, s')" "untouched_call s s0"
      using r by (metis cleared_executes)
    then show ?thesis unfolding iff r using True stage_execute_effect by (fastforce simp: untouched_call_def)
  next
    case False
    have "ls_executed s' = ls_executed s"
      using r by (cases rule: dispatch_cases) (use False in \<open>auto simp: untouched_call_def\<close>)
    then show ?thesis unfolding iff r using False by simp
  qed
qed

section \<open>A call that policy wants reviewed\<close>

text \<open>No event of the gate passes a call under review without asking.\<close>

definition reviews_asked :: "gate_state \<Rightarrow> bool" where
  "reviews_asked s \<longleftrightarrow> list_all (\<lambda>call. gl_status call = GPassed \<longrightarrow> \<not> gl_review call) (gs_calls s)"

lemma reviews_same: "gs_calls t = gs_calls s \<Longrightarrow> reviews_asked s \<Longrightarrow> reviews_asked t"
  by (simp add: reviews_asked_def)

lemma list_all_update: "list_all P xs \<Longrightarrow> P x \<Longrightarrow> list_all P (xs[i := x])"
  by (auto simp: list_all_iff dest: set_update_subset_insert [THEN subsetD])

lemma reviews_set: "reviews_asked s \<Longrightarrow> st \<noteq> GPassed \<Longrightarrow> reviews_asked (set_status c st s)"
  by (simp add: reviews_asked_def set_status_def list_all_update)

lemma reviews_resume: "reviews_asked s \<Longrightarrow> reviews_asked (resume_call out c s)"
  by (auto simp: reviews_asked_def resume_call_def Let_def list_all_update split: gate_status.splits hitl_outcome.splits)

lemma reviews_fold: "reviews_asked s \<Longrightarrow> reviews_asked (fold (resume_call out) ws s)"
  by (induction ws arbitrary: s) (simp_all add: reviews_resume)

lemma reviews_update: "reviews_asked s \<Longrightarrow> reviews_asked (snd (update_pending P f out i s))"
  by (auto simp: update_pending_def onResolved_def split: prod.splits intro!: reviews_fold intro: reviews_same [of _ s])

lemma reviews_expire: "reviews_asked s \<Longrightarrow> reviews_asked (snd (expireDue s))"
proof -
  have "reviews_asked t \<Longrightarrow> reviews_asked (snd (expire_loop now is n t))" for now "is" n t
  proof (induction "is" arbitrary: n t)
    case (Cons i "is")
    obtain b t1 where t1: "expire_one now i t = (b, t1)" by fastforce
    then have "reviews_asked t1" using reviews_update [OF Cons.prems] by (metis expire_one_eq snd_conv)
    then show ?case using Cons.IH by (simp add: t1)
  qed simp
  then show "reviews_asked s \<Longrightarrow> ?thesis" by (simp add: expireDue_def)
qed

lemma reviews_queue:
  assumes s: "reviews_asked s"
  shows "reviews_asked (queue_call cfg c pid s)"
proof -
  have e: "reviews_asked ((snd (expireDue (s\<lparr>gs_used := u, gs_rows := rows\<rparr>)))\<lparr>gs_hub := h\<rparr>)" for u rows h
  proof -
    have "reviews_asked (s\<lparr>gs_used := u, gs_rows := rows\<rparr>)" by (rule reviews_same [OF _ s]) simp
    from reviews_same [OF _ reviews_expire [OF this]] show ?thesis by simp
  qed
  have t: "reviews_asked (set_status c GThrew (s\<lparr>gs_used := u\<rparr>))" for u
    by (rule reviews_set [OF reviews_same [OF _ s]]) simp_all
  show ?thesis
    unfolding queue_call_def Let_def
    by (auto split: option.splits prod.splits intro!: reviews_resume reviews_set e t)
qed

lemma reviews_step: "gate_step cfg s s' \<Longrightarrow> reviews_asked s \<Longrightarrow> reviews_asked s'"
proof (induction rule: gate_step.induct)
  case (call pid s call)
  let ?s1 = "snd (expireDue s)"
  let ?call = "call\<lparr>gl_tier := classifyToolRisk (gl_resource call) (gt_toolRisk cfg), gl_status := GJudging\<rparr>"
  let ?s = "?s1\<lparr>gs_calls := gs_calls ?s1 @ [?call]\<rparr>"
  have a: "reviews_asked ?s" using reviews_expire [OF call(2)] by (simp add: reviews_asked_def)
  have "\<not> gl_review call"
    if "gate_verdict_of cfg ?s (gl_session call) (gl_resource call) (gl_review call) = PassNow"
    using that by (auto simp: gate_verdict_of_def Let_def split: if_splits)
  then have "reviews_asked (set_status (length (gs_calls ?s1)) GPassed ?s)"
    if "gate_verdict_of cfg ?s (gl_session call) (gl_resource call) (gl_review call) = PassNow"
    using that a by (simp add: reviews_asked_def set_status_def)
  then show ?case
    using a reviews_queue [OF a] by (simp add: hitlApprovalGate_def Let_def split: gate_verdict.splits)
next
  case (judged pid s c d)
  then show ?case
    by (cases d) (auto simp: judge_answered_def intro: reviews_set reviews_queue reviews_same [of _ "set_status c GDeniedByJudge s"])
next
  case (aborted pid s c)
  have "reviews_asked (s\<lparr>gs_calls := (gs_calls s)[c := (gs_calls s ! c)\<lparr>gl_aborted := True\<rparr>]\<rparr>)" if "c < length (gs_calls s)"
    using aborted(2) that by (auto simp: reviews_asked_def list_all_length nth_list_update)
  then show ?case
    using aborted(2)
    by (auto simp: abort_call_def Let_def split: gate_status.splits intro!: reviews_queue reviews_set)
next
  case (poll s)
  then show ?case by (rule reviews_expire)
next
  case (cleared s sids)
  then show ?case by (simp add: reviews_asked_def deletePendingForSessionIds_def Let_def)
qed (auto simp: approve_def deny_def reviews_update intro: reviews_same)

lemma reviews_run: "gate_run cfg (new_gate_state t0) s \<Longrightarrow> reviews_asked s"
proof (induction rule: rtranclp_induct)
  case base
  show ?case by (simp add: reviews_asked_def new_gate_state_def)
qed (rule reviews_step)

text \<open>
  The human gate of a turn is the gate of a run: it lets a call through only by the status of a call that was
  entered in that run with the same session, resource, demand of a review, call id, arguments and run id.
\<close>

definition gate_entered :: "gate_call \<Rightarrow> gate_call \<Rightarrow> bool" where
  "gate_entered request call \<longleftrightarrow>
     gl_session call = gl_session request \<and> gl_resource call = gl_resource request \<and> gl_review call = gl_review request
     \<and> gl_toolCallId call = gl_toolCallId request \<and> gl_argsJson call = gl_argsJson request
     \<and> gl_runId call = gl_runId request"

definition gate_of_run :: "gate_state \<Rightarrow> call_env \<Rightarrow> bool" where
  "gate_of_run g env \<longleftrightarrow>
     (\<forall>request. passing (ce_gate env request) \<longrightarrow>
        (\<exists>c < length (gs_calls g). gate_entered request (gs_calls g ! c) \<and> gl_status (gs_calls g ! c) = ce_gate env request))"

text \<open>
  C14. Policy and approval together: when policy demands a review of the resource that a call touches, and the
  human gate of the turn, if there is one, answers by the statuses of a run of the gate, the call is executed
  only if the gate was entered for this session, resource, call id, arguments and run with the demand of
  policy, and there the judge approved it, or a named operator approved the pending action made for
  this session, this resource and this tier. Neither the yolo flag nor an automatic approval is enough.
\<close>
theorem reviewed_call_authorised:
  assumes "gate_run cfg (new_gate_state t0) g" "gate_of_run g env"
    and "lo_parse opts (tc_argsJson tc) = Some args" "compound_resource opts (the (tc_name tc)) args = Some resource"
    and "lo_policy opts resource = Deny RequiresReview"
    and "ls_executed (snd (processSingleToolCall opts env bad trunc tc s)) \<noteq> ls_executed s"
  shows "\<exists>call \<in> set (gs_calls g).
      gl_session call = lo_session opts \<and> gl_resource call = resource \<and> gl_review call \<and> gl_toolCallId call = tc_id tc
      \<and> gl_argsJson call = tc_argsJson tc \<and> gl_runId call = lo_runId opts
      \<and> (gl_status call = GPassedByJudge
         \<or> (\<exists>pid. \<exists>r \<in> set (gs_rows g). row_for call pid r \<and> pa_status r = PaApproved \<and> pa_resolver r \<noteq> None))"
proof -
  obtain r s' where r: "processSingleToolCall opts env bad trunc tc s = (r, s')" by fastforce
  have "\<exists>res. cleared opts env bad trunc tc s res"
    using r by (cases rule: dispatch_cases) (use assms(6) r in \<open>auto simp: untouched_call_def\<close>)
  then have "cleared opts env bad trunc tc s resource" using assms(3,4) by (auto simp: cleared_def)
  then have "passing (ce_gate env (gate_request opts tc resource True))"
    using assms(5) by (auto simp: cleared_def stage_None)
  with assms(2) obtain c where c: "c < length (gs_calls g)"
    "gate_entered (gate_request opts tc resource True) (gs_calls g ! c)" "passing (gl_status (gs_calls g ! c))"
    by (auto simp: gate_of_run_def)
  have "gl_status (gs_calls g ! c) \<noteq> GPassed"
    using reviews_run [OF assms(1)] c(1,2) by (auto simp: reviews_asked_def list_all_length gate_entered_def gate_request_def)
  moreover have "call_ok g c (gs_calls g ! c)" by (rule gate_invD(5) [OF gate_run_inv [OF assms(1)] c(1)])
  ultimately have "gl_status (gs_calls g ! c) = GPassedByJudge
      \<or> (\<exists>pid. \<exists>r \<in> set (gs_rows g). row_for (gs_calls g ! c) pid r \<and> pa_status r = PaApproved \<and> pa_resolver r \<noteq> None)"
    using c(3) by (auto simp: passing_def call_ok_def split: gate_status.splits)
  with c(1,2) show ?thesis
    by (intro bexI [of _ "gs_calls g ! c"]) (simp_all add: gate_entered_def gate_request_def)
qed

section \<open>Examples\<close>

definition demo_loop_options :: "decision \<Rightarrow> loop_options" where
  "demo_loop_options d =
     \<lparr>lo_session = ''s1'', lo_runId = ''r1'', lo_policy = (\<lambda>_. d), lo_transcript = True, lo_hitl = True, lo_gates = True, lo_registry = None, lo_maxToolsPerBatch = None,
      lo_parse = (\<lambda>s. if s = ''{}'' then Some (JObj []) else None), lo_hash = (\<lambda>s. s)\<rparr>"

definition demo_call_env :: "gate_status \<Rightarrow> call_env" where
  "demo_call_env st =
     \<lparr>ce_abortedBefore = False, ce_pre = PrePass, ce_gate = (\<lambda>_. st), ce_abortedAtExec = False, ce_exec = ExecOk ''done'', ce_refresh = None\<rparr>"

definition demo_tool_call :: tool_call where
  "demo_tool_call = \<lparr>tc_id = ''t1'', tc_name = Some ''builtin-web'', tc_argsJson = ''{}'', tc_thoughtSignature = None\<rparr>"

definition demo_dispatch_state :: loop_state where
  "demo_dispatch_state =
     \<lparr>ls_pushed = [], ls_steers = [], ls_events = [], ls_executed = [], ls_audit = [], ls_names = [''builtin-web''],
      ls_schemas = [], ls_breaker = None, ls_structuredOutputAttempt = 0, ls_consecutiveInvalid = 0, ls_canceled = False\<rparr>"

definition demo_review :: gate_state where
  "demo_review = hitlApprovalGate demo_gate_config ((demo_gate_call ''builtin-web'')\<lparr>gl_review := True\<rparr>) ''p1'' (new_gate_state 1000)"

definition demo_reviewed :: gate_state where
  "demo_reviewed = snd (approve ''p1'' ''op'' demo_review)"

lemma demo_review_eq:
  "demo_review = (new_gate_state 1000)\<lparr>gs_rows := [demo_pending], gs_hub := \<lparr>hub_waiters = [(''p1'', [0])], hub_early = []\<rparr>,
     gs_calls := [(demo_gate_call ''builtin-web'')\<lparr>gl_review := True, gl_tier := TierCritical, gl_status := GWaiting ''p1''\<rparr>],
     gs_used := [''p1'']\<rparr>"
  by (simp add: demo_review_def demo_pending_def demo_gate_defs queue_call_def enqueue_action_def overdue_def
      waitFor_def set_status_def nullish_def map_set_def)

lemma demo_reviewed_run: "gate_run demo_gate_config (new_gate_state 1000) demo_reviewed"
proof -
  have "gate_step demo_gate_config (new_gate_state 1000) demo_review"
    unfolding demo_review_def by (rule gate_step.call) (simp add: new_gate_state_def)
  moreover have "gate_step demo_gate_config demo_review demo_reviewed"
    unfolding demo_reviewed_def by (rule gate_step.approved)
  ultimately show ?thesis by (meson rtranclp.rtrancl_into_rtrancl rtranclp.rtrancl_refl)
qed

lemma demo_reviewed_facts:
  "length (gs_calls demo_reviewed) = 1" "gl_review (gs_calls demo_reviewed ! 0)"
  "gl_status (gs_calls demo_reviewed ! 0) = GApproved ''p1''" "gl_session (gs_calls demo_reviewed ! 0) = ''s1''"
  "gl_resource (gs_calls demo_reviewed ! 0) = ''builtin-web''" "gl_toolCallId (gs_calls demo_reviewed ! 0) = ''t1''"
  "gl_argsJson (gs_calls demo_reviewed ! 0) = ''{}''" "gl_runId (gs_calls demo_reviewed ! 0) = ''r1''"
  by (simp_all add: demo_reviewed_def approve_def update_pending_def onResolved_def notifyResolved_def Let_def demo_review_eq
      demo_pending_def map_get_def nullish_def resume_call_def new_gate_state_def demo_gate_call_def)

text \<open>A turn whose human gate is the gate of that run: it has answered the one call that was entered there.\<close>

definition demo_review_env :: call_env where
  "demo_review_env = (demo_call_env GPassed)\<lparr>ce_gate := (\<lambda>request.
     if gl_session request = ''s1'' \<and> gl_resource request = ''builtin-web'' \<and> gl_review request
        \<and> gl_toolCallId request = ''t1'' \<and> gl_argsJson request = ''{}'' \<and> gl_runId request = ''r1''
     then GApproved ''p1'' else GJudging)\<rparr>"

lemma demo_review_executed:
  "ls_executed (snd (processSingleToolCall (demo_loop_options (Deny RequiresReview)) demo_review_env [] []
     demo_tool_call demo_dispatch_state)) = [(''t1'', ''builtin-web'', ''{}'')]"
  by code_simp

theorem reviewed_call_authorised_witness:
  "\<exists>call \<in> set (gs_calls demo_reviewed). gl_review call \<and> gl_toolCallId call = ''t1''
    \<and> (gl_status call = GPassedByJudge
       \<or> (\<exists>pid. \<exists>r \<in> set (gs_rows demo_reviewed). row_for call pid r \<and> pa_status r = PaApproved \<and> pa_resolver r \<noteq> None))"
proof -
  let ?opts = "demo_loop_options (Deny RequiresReview)"
  have "gate_of_run demo_reviewed demo_review_env"
    unfolding gate_of_run_def
    by (auto simp: demo_review_env_def passing_def gate_entered_def demo_reviewed_facts split: if_splits intro!: exI [of _ 0])
  moreover have "lo_parse ?opts (tc_argsJson demo_tool_call) = Some (JObj [])"
    "compound_resource ?opts (the (tc_name demo_tool_call)) (JObj []) = Some ''builtin-web''"
    "lo_policy ?opts ''builtin-web'' = Deny RequiresReview" "tc_id demo_tool_call = ''t1''"
    by (simp_all add: demo_loop_options_def demo_tool_call_def compound_resource_def)
  ultimately show ?thesis
    using reviewed_call_authorised [OF demo_reviewed_run, of demo_review_env ?opts demo_tool_call "JObj []" "''builtin-web''"
        "[]" "[]" demo_dispatch_state] demo_review_executed
    by (auto simp: demo_dispatch_state_def)
qed

theorem executes_iff_cleared_witness:
  "ls_executed (snd (processSingleToolCall (demo_loop_options Allow) (demo_call_env GPassed) [] [] demo_tool_call demo_dispatch_state))
     = [(''t1'', ''builtin-web'', ''{}'')]
   \<and> ls_executed (snd (processSingleToolCall (demo_loop_options Allow) (demo_call_env GAborted) [] [] demo_tool_call demo_dispatch_state)) = []"
proof -
  have "valid_tool_name (Some ''builtin-web'')" "\<not> thinking_leak ''builtin-web''" by code_simp+
  then show ?thesis
    unfolding executes_iff_cleared
    by (simp add: demo_loop_options_def demo_call_env_def demo_tool_call_def demo_dispatch_state_def map_get_def
        compound_resource_def passing_def)
qed

end
