(* ===== verification/Event_Queue.thy ===== *)
theory Event_Queue
  imports Workflow_Types
begin

text \<open>
  The durable event queue of the daemon: the \<open>events\<close> and \<open>event_processing_done\<close> tables with the
  statements of \<open>events/events-queue.ts\<close>, the dead letters of \<open>dlq.ts\<close>, and the heartbeat consumer
  of \<open>heartbeat-consumer.ts\<close>, whose pools of workers run interleaved with each other, with emits
  and with restarts (\<open>boot-reconciliation.ts\<close>).

  A table is the list of its rows. The texts that \<open>datetime('now')\<close> writes have the resolution of a
  second and their order is the order of the times, so a time column is a number of seconds since
  1970; a JSON column is the value its text denotes.
\<close>

section \<open>Rows and statements\<close>

definition EVENT_SCOPE_GLOBAL :: string where
  "EVENT_SCOPE_GLOBAL = ''global''"

definition sessionEventScope :: "string \<Rightarrow> string" where
  "sessionEventScope sessionId = ''session:'' @ sessionId"

datatype event_status = EvPending | EvProcessing | EvCompleted | EvDead

record event_row =
  ev_id :: nat
  ev_scope :: string
  ev_type :: string
  ev_payload :: json
  ev_key :: "string option"
  ev_status :: event_status
  ev_attempts :: nat
  ev_max :: int
  ev_next :: "nat option"
  ev_error :: "string option"
  ev_claimed :: "nat option"
  ev_created :: nat
  ev_updated :: nat

record event_db =
  ed_events :: "event_row list"
  ed_nextId :: nat
  ed_done :: "nat list"

definition new_event_db :: event_db where
  "new_event_db = \<lparr>ed_events = [], ed_nextId = 1, ed_done = []\<rparr>"

text \<open>What a consumer sees of a row.\<close>

record queue_row =
  q_id :: nat
  q_scope :: string
  q_type :: string
  q_payload :: json
  q_key :: "string option"
  q_status :: event_status
  q_attempts :: nat
  q_max :: int
  q_next :: "nat option"
  q_error :: "string option"

definition mapRow :: "event_row \<Rightarrow> queue_row" where
  "mapRow r =
     \<lparr>q_id = ev_id r, q_scope = ev_scope r, q_type = ev_type r, q_payload = ev_payload r,
      q_key = ev_key r, q_status = ev_status r, q_attempts = ev_attempts r, q_max = ev_max r,
      q_next = ev_next r, q_error = ev_error r\<rparr>"

definition get_event :: "event_db \<Rightarrow> nat \<Rightarrow> event_row option" where
  "get_event db i = find (\<lambda>r. ev_id r = i) (ed_events db)"

text \<open>\<open>UPDATE events SET ... WHERE id = @id\<close>.\<close>

definition update_event :: "nat \<Rightarrow> (event_row \<Rightarrow> event_row) \<Rightarrow> event_db \<Rightarrow> event_db" where
  "update_event i f db =
     db\<lparr>ed_events := map (\<lambda>r. if ev_id r = i then f r else r) (ed_events db)\<rparr>"

text \<open>
  \<open>datetime('now', '+n seconds')\<close>: a result after the year 9999 is out of the range of the
  database's dates and is \<open>NULL\<close>.
\<close>

definition datetime_plus :: "nat \<Rightarrow> nat \<Rightarrow> nat option" where
  "datetime_plus now n = (if now + n \<le> 253402300799 then Some (now + n) else None)"

text \<open>\<open>LIMIT n\<close>: a negative limit is no limit.\<close>

definition sql_limit :: "int \<Rightarrow> 'a list \<Rightarrow> 'a list" where
  "sql_limit n xs = (if n < 0 then xs else take (nat n) xs)"

section \<open>Emitting, claiming, settling\<close>

definition backoffSecondsAfterFailure :: "nat \<Rightarrow> nat" where
  "backoffSecondsAfterFailure attemptsAfterIncrement = min 3600 (2 ^ min attemptsAfterIncrement 20)"

datatype sql_error = UniqueConstraint | ForeignKeyConstraint

datatype emit_result = EmitOk nat | EmitDuplicate nat

definition emitEvent ::
  "nat \<Rightarrow> string \<Rightarrow> string \<Rightarrow> json \<Rightarrow> string option \<Rightarrow> int option \<Rightarrow> event_db
     \<Rightarrow> (sql_error + emit_result) \<times> event_db" where
  "emitEvent now scope eventType payload idempotencyKey maxAttempts db =
     (if idempotencyKey \<noteq> None \<and> idempotencyKey \<in> ev_key ` set (ed_events db)
      then
        ((if truthy_str idempotencyKey
          then (case find (\<lambda>r. ev_key r = idempotencyKey) (ed_events db) of
                  Some r \<Rightarrow> Inr (EmitDuplicate (ev_id r))
                | None \<Rightarrow> Inl UniqueConstraint)
          else Inl UniqueConstraint), db)
      else
        (let i = ed_nextId db;
             row = \<lparr>ev_id = i, ev_scope = scope, ev_type = eventType, ev_payload = payload,
                    ev_key = idempotencyKey, ev_status = EvPending, ev_attempts = 0,
                    ev_max = nullish maxAttempts 8, ev_next = Some now, ev_error = None,
                    ev_claimed = None, ev_created = now, ev_updated = now\<rparr>
         in (Inr (EmitOk i), db\<lparr>ed_events := ed_events db @ [row], ed_nextId := i + 1\<rparr>)))"

definition claimable :: "nat \<Rightarrow> event_row \<Rightarrow> bool" where
  "claimable now r \<longleftrightarrow>
     ev_status r = EvPending \<and> (case ev_next r of None \<Rightarrow> True | Some t \<Rightarrow> t \<le> now)"

definition claim_ids :: "nat \<Rightarrow> int \<Rightarrow> event_db \<Rightarrow> nat list" where
  "claim_ids now limit db =
     sql_limit limit (map ev_id (sort_key ev_id (filter (claimable now) (ed_events db))))"

definition claim_row :: "nat \<Rightarrow> event_row \<Rightarrow> event_row" where
  "claim_row now r = r\<lparr>ev_status := EvProcessing, ev_claimed := Some now, ev_updated := now\<rparr>"

definition claimPendingEvents :: "nat \<Rightarrow> int \<Rightarrow> event_db \<Rightarrow> queue_row list \<times> event_db" where
  "claimPendingEvents now limit db =
     (let idList = claim_ids now limit db;
          db' = fold (\<lambda>i. update_event i (claim_row now)) idList db
      in if idList = [] then ([], db')
         else (map mapRow (sort_key ev_id (filter (\<lambda>r. ev_id r \<in> set idList) (ed_events db'))), db'))"

definition hasEventProcessingRecord :: "event_db \<Rightarrow> nat \<Rightarrow> bool" where
  "hasEventProcessingRecord db eventId \<longleftrightarrow> eventId \<in> set (ed_done db)"

text \<open>The two statements of \<open>markEventCompleted\<close>; a crash can fall between them.\<close>

definition insert_done :: "nat \<Rightarrow> event_db \<Rightarrow> sql_error + event_db" where
  "insert_done eventId db =
     (if get_event db eventId = None then Inl ForeignKeyConstraint
      else Inr (db\<lparr>ed_done := set_add eventId (ed_done db)\<rparr>))"

definition complete_row :: "nat \<Rightarrow> event_row \<Rightarrow> event_row" where
  "complete_row now r = r\<lparr>ev_status := EvCompleted, ev_updated := now, ev_claimed := None\<rparr>"

definition markEventCompleted :: "nat \<Rightarrow> nat \<Rightarrow> event_db \<Rightarrow> sql_error + event_db" where
  "markEventCompleted now eventId db =
     (case insert_done eventId db of
        Inl e \<Rightarrow> Inl e
      | Inr db' \<Rightarrow> Inr (update_event eventId (complete_row now) db'))"

definition fail_row :: "nat \<Rightarrow> string \<Rightarrow> event_row \<Rightarrow> event_row" where
  "fail_row now errorMessage r =
     (let nextAttempts = ev_attempts r + 1 in
      if ev_max r \<le> int nextAttempts
      then r\<lparr>ev_status := EvDead, ev_attempts := nextAttempts, ev_error := Some errorMessage,
             ev_updated := now, ev_claimed := None, ev_next := None\<rparr>
      else r\<lparr>ev_status := EvPending, ev_attempts := nextAttempts, ev_error := Some errorMessage,
             ev_next := datetime_plus now (backoffSecondsAfterFailure nextAttempts),
             ev_updated := now, ev_claimed := None\<rparr>)"

definition markEventFailed :: "nat \<Rightarrow> nat \<Rightarrow> string \<Rightarrow> event_db \<Rightarrow> event_db" where
  "markEventFailed now eventId errorMessage db =
     (case get_event db eventId of
        None \<Rightarrow> db
      | Some _ \<Rightarrow> update_event eventId (fail_row now errorMessage) db)"

definition stale :: "nat \<Rightarrow> nat \<Rightarrow> event_row \<Rightarrow> bool" where
  "stale now staleMs r \<longleftrightarrow>
     ev_status r = EvProcessing \<and>
     (case ev_claimed r of None \<Rightarrow> False | Some t \<Rightarrow> t + max 1 (staleMs div 1000) < now)"

definition reconcileStaleProcessing :: "nat \<Rightarrow> nat \<Rightarrow> event_db \<Rightarrow> nat \<times> event_db" where
  "reconcileStaleProcessing now staleMs db =
     (length (filter (stale now staleMs) (ed_events db)),
      db\<lparr>ed_events := map (\<lambda>r. if stale now staleMs r
                                  then r\<lparr>ev_status := EvPending, ev_claimed := None, ev_updated := now\<rparr>
                                  else r) (ed_events db)\<rparr>)"

record dead_letter =
  dl_id :: nat
  dl_scope :: string
  dl_type :: string
  dl_payload :: json
  dl_attempts :: nat
  dl_max :: int
  dl_error :: "string option"
  dl_created :: nat

definition listDeadLetterEvents :: "int \<Rightarrow> event_db \<Rightarrow> dead_letter list" where
  "listDeadLetterEvents limit db =
     map (\<lambda>r. \<lparr>dl_id = ev_id r, dl_scope = ev_scope r, dl_type = ev_type r, dl_payload = ev_payload r,
                dl_attempts = ev_attempts r, dl_max = ev_max r, dl_error = ev_error r,
                dl_created = ev_created r\<rparr>)
       (sql_limit limit (rev (sort_key ev_id (filter (\<lambda>r. ev_status r = EvDead) (ed_events db)))))"

section \<open>The heartbeat consumer\<close>

text \<open>
  A pool is a call of \<open>runPool\<close> that has not ended: the batch, the shared index \<open>next\<close> and its
  workers, each between two items, suspended in a handler, or at its end. The consumer's state
  adds the clock and, as history, the events that were dispatched (\<open>hb_log\<close>, one entry for every
  item that got past the check of the processing record) and the dispatches whose handler was cut
  off by the end of the process (\<open>hb_lost\<close>).
\<close>

datatype worker = Idle | Busy queue_row | Ended

record pool =
  pl_items :: "queue_row list"
  pl_next :: nat
  pl_workers :: "worker list"

record heartbeat =
  hb_now :: nat
  hb_db :: event_db
  hb_pools :: "pool list"
  hb_log :: "nat list"
  hb_lost :: "nat list"

definition new_heartbeat :: "nat \<Rightarrow> heartbeat" where
  "new_heartbeat now = \<lparr>hb_now = now, hb_db = new_event_db, hb_pools = [], hb_log = [], hb_lost = []\<rparr>"

definition runPool :: "queue_row list \<Rightarrow> int \<Rightarrow> pool" where
  "runPool items conc =
     \<lparr>pl_items = items, pl_next = 0,
      pl_workers = replicate (nat (max 1 (min conc (int (length items))))) Idle\<rparr>"

definition runHeartbeatBatch :: "int \<Rightarrow> int \<Rightarrow> heartbeat \<Rightarrow> heartbeat" where
  "runHeartbeatBatch batchLimit conc s =
     (case claimPendingEvents (hb_now s) batchLimit (hb_db s) of
        (batch, db) \<Rightarrow>
          if batch = [] then s\<lparr>hb_db := db\<rparr>
          else s\<lparr>hb_db := db, hb_pools := hb_pools s @ [runPool batch conc]\<rparr>)"

text \<open>
  \<open>processOne\<close> up to its await: the state of the worker afterwards, the tables, and whether the event
  was dispatched. \<open>handlers\<close> says for which event types a handler is registered.
\<close>

definition processOne :: "(string \<Rightarrow> bool) \<Rightarrow> nat \<Rightarrow> queue_row \<Rightarrow> event_db \<Rightarrow> worker \<times> event_db \<times> bool" where
  "processOne handlers now row db =
     (if hasEventProcessingRecord db (q_id row)
      then (case markEventCompleted now (q_id row) db of
              Inl _ \<Rightarrow> (Ended, db, False)
            | Inr db' \<Rightarrow> (Idle, db', False))
      else if \<not> handlers (q_type row)
      then (Idle, markEventFailed now (q_id row) (''no_handler:'' @ q_type row) db, True)
      else (Busy row, db, True))"

text \<open>What follows the await: the handler has returned or thrown.\<close>

datatype handler_outcome = HandlerOk | HandlerThrew string

definition handler_settled :: "nat \<Rightarrow> queue_row \<Rightarrow> handler_outcome \<Rightarrow> event_db \<Rightarrow> event_db" where
  "handler_settled now row out db =
     (case out of
        HandlerOk \<Rightarrow>
          (case markEventCompleted now (q_id row) db of
             Inr db' \<Rightarrow> db'
           | Inl e \<Rightarrow> markEventFailed now (q_id row) ''FOREIGN KEY constraint failed'' db)
      | HandlerThrew msg \<Rightarrow> markEventFailed now (q_id row) msg db)"

text \<open>One turn of the loop of worker \<open>w\<close> of pool \<open>p\<close>.\<close>

definition worker_turn :: "(string \<Rightarrow> bool) \<Rightarrow> nat \<Rightarrow> nat \<Rightarrow> heartbeat \<Rightarrow> heartbeat" where
  "worker_turn handlers p w s =
     (if p < length (hb_pools s) \<and> w < length (pl_workers (hb_pools s ! p))
         \<and> pl_workers (hb_pools s ! p) ! w = Idle
      then
        (let pl = hb_pools s ! p; i = pl_next pl in
         if length (pl_items pl) \<le> i
         then s\<lparr>hb_pools := (hb_pools s)[p := pl\<lparr>pl_next := i + 1, pl_workers := (pl_workers pl)[w := Ended]\<rparr>]\<rparr>
         else
           (case processOne handlers (hb_now s) (pl_items pl ! i) (hb_db s) of
              (wk, db, dispatched) \<Rightarrow>
                s\<lparr>hb_db := db,
                  hb_pools := (hb_pools s)[p := pl\<lparr>pl_next := i + 1, pl_workers := (pl_workers pl)[w := wk]\<rparr>],
                  hb_log := hb_log s @ (if dispatched then [q_id (pl_items pl ! i)] else [])\<rparr>))
      else s)"

definition busy_row :: "nat \<Rightarrow> nat \<Rightarrow> heartbeat \<Rightarrow> queue_row option" where
  "busy_row p w s =
     (if p < length (hb_pools s) \<and> w < length (pl_workers (hb_pools s ! p))
      then (case pl_workers (hb_pools s ! p) ! w of Busy row \<Rightarrow> Some row | _ \<Rightarrow> None) else None)"

definition release_worker :: "nat \<Rightarrow> nat \<Rightarrow> pool list \<Rightarrow> pool list" where
  "release_worker p w ps = ps[p := (ps ! p)\<lparr>pl_workers := (pl_workers (ps ! p))[w := Idle]\<rparr>]"

definition handler_ends :: "nat \<Rightarrow> nat \<Rightarrow> handler_outcome \<Rightarrow> heartbeat \<Rightarrow> heartbeat" where
  "handler_ends p w out s =
     (case busy_row p w s of
        None \<Rightarrow> s
      | Some row \<Rightarrow>
          s\<lparr>hb_db := handler_settled (hb_now s) row out (hb_db s),
            hb_pools := release_worker p w (hb_pools s)\<rparr>)"

definition worker_ids :: "worker \<Rightarrow> nat list" where
  "worker_ids wk = (case wk of Busy row \<Rightarrow> [q_id row] | _ \<Rightarrow> [])"

text \<open>The events with a handler running.\<close>

definition in_flight :: "heartbeat \<Rightarrow> nat list" where
  "in_flight s = concat (map (\<lambda>pl. concat (map worker_ids (pl_workers pl))) (hb_pools s))"

text \<open>
  The process ends, at once or between the two statements of \<open>markEventCompleted\<close>, and comes up again
  after \<open>n\<close> seconds with \<open>runBootReconciliation\<close>.
\<close>

definition restart_daemon :: "nat \<Rightarrow> nat \<Rightarrow> heartbeat \<Rightarrow> heartbeat" where
  "restart_daemon staleMs n s =
     s\<lparr>hb_now := hb_now s + n, hb_db := snd (reconcileStaleProcessing (hb_now s + n) staleMs (hb_db s)),
       hb_pools := [], hb_lost := hb_lost s @ in_flight s\<rparr>"

definition crash_completing :: "nat \<Rightarrow> nat \<Rightarrow> nat \<Rightarrow> nat \<Rightarrow> heartbeat \<Rightarrow> heartbeat" where
  "crash_completing staleMs n p w s =
     (case busy_row p w s of
        None \<Rightarrow> s
      | Some row \<Rightarrow>
          (case insert_done (q_id row) (hb_db s) of
             Inl _ \<Rightarrow> s
           | Inr db \<Rightarrow>
               restart_daemon staleMs n
                 (s\<lparr>hb_db := db, hb_pools := release_worker p w (hb_pools s)\<rparr>)))"

datatype hb_ev =
    Emit string string json "string option" "int option"
  | Beat int int
  | Turn nat nat
  | HandlerEnds nat nat handler_outcome
  | Pass nat
  | Restart nat
  | CrashCompleting nat nat nat

fun hb_event :: "(string \<Rightarrow> bool) \<Rightarrow> nat \<Rightarrow> hb_ev \<Rightarrow> heartbeat \<Rightarrow> heartbeat" where
  "hb_event hs staleMs (Emit scope ty payload key m) s =
     s\<lparr>hb_db := snd (emitEvent (hb_now s) scope ty payload key m (hb_db s))\<rparr>"
| "hb_event hs staleMs (Beat limit conc) s = runHeartbeatBatch limit conc s"
| "hb_event hs staleMs (Turn p w) s = worker_turn hs p w s"
| "hb_event hs staleMs (HandlerEnds p w out) s = handler_ends p w out s"
| "hb_event hs staleMs (Pass n) s = s\<lparr>hb_now := hb_now s + n\<rparr>"
| "hb_event hs staleMs (Restart n) s = restart_daemon staleMs n s"
| "hb_event hs staleMs (CrashCompleting n p w) s = crash_completing staleMs n p w s"

section \<open>The ledger of an event\<close>

text \<open>
  \<open>held\<close>: the events that some pool has claimed and not yet settled.
\<close>

definition pool_ids :: "pool \<Rightarrow> nat list" where
  "pool_ids pl = concat (map worker_ids (pl_workers pl)) @ map q_id (drop (pl_next pl) (pl_items pl))"

definition held :: "heartbeat \<Rightarrow> nat list" where
  "held s = concat (map pool_ids (hb_pools s))"

definition event_ids :: "event_db \<Rightarrow> nat set" where
  "event_ids db = ev_id ` set (ed_events db)"

text \<open>The part of the table that no update changes: identifiers and idempotency keys.\<close>

definition event_keys :: "event_db \<Rightarrow> (nat \<times> string option) list" where
  "event_keys db = map (\<lambda>r. (ev_id r, ev_key r)) (ed_events db)"

definition event_db_ok :: "event_db \<Rightarrow> bool" where
  "event_db_ok db \<longleftrightarrow>
     sorted (map fst (event_keys db)) \<and> distinct (map fst (event_keys db)) \<and>
     (\<forall>i \<in> event_ids db. i < ed_nextId db) \<and> set (ed_done db) \<subseteq> event_ids db \<and>
     (\<forall>i j k. (i, Some k) \<in> set (event_keys db) \<and> (j, Some k) \<in> set (event_keys db) \<longrightarrow> i = j)"

definition attempts_ok :: "event_row \<Rightarrow> bool" where
  "attempts_ok r \<longleftrightarrow>
     (if ev_status r = EvDead then int (ev_attempts r) = max 1 (ev_max r)
      else ev_attempts r = 0 \<or> int (ev_attempts r) < ev_max r)"

text \<open>
  The books of one event: what was dispatched is what failed, what runs, what was completed and what
  a restart cut off. The arguments are the counts of the event among the held and the running ones,
  in the log and among the lost.
\<close>

definition row_ok :: "nat list \<Rightarrow> (nat \<Rightarrow> nat) \<Rightarrow> (nat \<Rightarrow> nat) \<Rightarrow> (nat \<Rightarrow> nat) \<Rightarrow> (nat \<Rightarrow> nat) \<Rightarrow> event_row \<Rightarrow> bool" where
  "row_ok dn h f lg lost r \<longleftrightarrow>
     (let i = ev_id r in
      attempts_ok r \<and>
      lg i = ev_attempts r + f i + (if i \<in> set dn then 1 else 0) + lost i \<and>
      (ev_status r = EvCompleted \<longrightarrow> i \<in> set dn) \<and> (i \<in> set dn \<longrightarrow> ev_status r \<noteq> EvDead) \<and>
      (h i \<noteq> 0 \<longrightarrow> ev_status r = EvProcessing))"

definition ledger ::
  "event_db \<Rightarrow> (nat \<Rightarrow> nat) \<Rightarrow> (nat \<Rightarrow> nat) \<Rightarrow> (nat \<Rightarrow> nat) \<Rightarrow> (nat \<Rightarrow> nat) \<Rightarrow> bool" where
  "ledger db h f lg lost \<longleftrightarrow>
     event_db_ok db \<and> (\<forall>i. f i \<le> h i \<and> h i \<le> 1) \<and>
     (\<forall>i. i \<notin> event_ids db \<longrightarrow> h i = 0 \<and> lg i = 0 \<and> lost i = 0) \<and>
     (\<forall>i \<in> set (ed_done db). f i = 0) \<and>
     (\<forall>r \<in> set (ed_events db). row_ok (ed_done db) h f lg lost r)"

definition hb_ok :: "heartbeat \<Rightarrow> bool" where
  "hb_ok s \<longleftrightarrow>
     ledger (hb_db s) (count_list (held s)) (count_list (in_flight s)) (count_list (hb_log s))
       (count_list (hb_lost s))"

subsection \<open>Tables\<close>

lemma get_event_Some: "get_event db i = Some r \<Longrightarrow> r \<in> set (ed_events db) \<and> ev_id r = i"
  by (auto simp: get_event_def find_Some_iff)

lemma get_event_None: "get_event db i = None \<longleftrightarrow> i \<notin> event_ids db"
  by (auto simp: get_event_def find_None_iff event_ids_def)

lemma map_fst_keys: "map fst (event_keys db) = map ev_id (ed_events db)"
  by (simp add: event_keys_def)

lemma event_ids_keys: "event_ids db = fst ` set (event_keys db)"
  by (auto simp: event_ids_def event_keys_def image_image)

lemma event_row_unique:
  "event_db_ok db \<Longrightarrow> r \<in> set (ed_events db) \<Longrightarrow> r' \<in> set (ed_events db) \<Longrightarrow> ev_id r = ev_id r' \<Longrightarrow> r = r'"
  unfolding event_db_ok_def map_fst_keys by (meson distinct_map inj_onD)

lemma get_event_iff:
  assumes "event_db_ok db"
  shows "get_event db i = Some r \<longleftrightarrow> r \<in> set (ed_events db) \<and> ev_id r = i"
proof
  assume r: "r \<in> set (ed_events db) \<and> ev_id r = i"
  then obtain r' where r': "get_event db i = Some r'"
    by (metis event_ids_def get_event_None imageI not_None_eq)
  with r assms show "get_event db i = Some r"
    by (metis get_event_Some event_row_unique)
qed (rule get_event_Some)

lemma update_event_sel [simp]:
  "ed_nextId (update_event i f db) = ed_nextId db" "ed_done (update_event i f db) = ed_done db"
  by (simp_all add: update_event_def)

lemma update_event_rows:
  "r \<in> set (ed_events (update_event i f db)) \<longleftrightarrow>
     (\<exists>r0 \<in> set (ed_events db). r = (if ev_id r0 = i then f r0 else r0))"
proof -
  have "ed_events (update_event i f db) = map (\<lambda>r. if ev_id r = i then f r else r) (ed_events db)"
    by (simp add: update_event_def)
  then show ?thesis by (simp only: set_map image_iff)
qed

text \<open>An update of other columns.\<close>

definition keeps_key :: "(event_row \<Rightarrow> event_row) \<Rightarrow> bool" where
  "keeps_key f \<longleftrightarrow> (\<forall>r. ev_id (f r) = ev_id r \<and> ev_key (f r) = ev_key r)"

lemma event_keys_update: "keeps_key f \<Longrightarrow> event_keys (update_event i f db) = event_keys db"
  by (simp add: update_event_def event_keys_def keeps_key_def)

lemma event_db_ok_cong:
  "event_keys db' = event_keys db \<Longrightarrow> ed_nextId db' = ed_nextId db \<Longrightarrow>
     set (ed_done db') \<subseteq> event_ids db \<Longrightarrow> event_db_ok db \<Longrightarrow> event_db_ok db'"
  by (simp add: event_db_ok_def event_ids_keys)

lemma event_ids_update: "keeps_key f \<Longrightarrow> event_ids (update_event i f db) = event_ids db"
  by (simp add: event_ids_keys event_keys_update)

lemma event_db_ok_update: "keeps_key f \<Longrightarrow> event_db_ok db \<Longrightarrow> event_db_ok (update_event i f db)"
  by (rule event_db_ok_cong [of _ db]) (simp_all add: event_keys_update event_db_ok_def)

lemma event_keys_map:
  "keeps_key g \<Longrightarrow>
     event_keys (db\<lparr>ed_events := map (\<lambda>r. if P r then g r else r) (ed_events db)\<rparr>) = event_keys db"
  by (simp add: event_keys_def keeps_key_def)

lemma event_db_ok_map:
  assumes "keeps_key g" and ok: "event_db_ok db"
  shows "event_db_ok (db\<lparr>ed_events := map (\<lambda>r. if P r then g r else r) (ed_events db)\<rparr>)"
  using ok by (intro event_db_ok_cong [OF event_keys_map [OF assms(1)] _ _ ok]) (simp_all add: event_db_ok_def)

lemma event_db_ok_append:
  assumes ok: "event_db_ok db" and keys: "event_keys db' = event_keys db @ [(ed_nextId db, key)]"
    and "ed_nextId db' = Suc (ed_nextId db)" "ed_done db' = ed_done db"
    and key: "\<And>j. key \<noteq> None \<Longrightarrow> (j, key) \<notin> set (event_keys db)"
  shows "event_db_ok db'"
proof -
  let ?ids = "map fst (event_keys db)"
  have lt: "i < ed_nextId db" if "i \<in> set ?ids" for i
    using ok that by (auto simp: event_db_ok_def event_ids_keys)
  have ids: "event_ids db' = insert (ed_nextId db) (event_ids db)"
    by (simp add: event_ids_keys keys)
  have "sorted (?ids @ [ed_nextId db])" "distinct (?ids @ [ed_nextId db])"
    using ok lt by (auto simp: event_db_ok_def sorted_append intro: less_imp_le)
  moreover have "\<forall>i \<in> event_ids db'. i < ed_nextId db'" "set (ed_done db') \<subseteq> event_ids db'"
    using ok lt assms(3,4) by (auto simp: event_db_ok_def ids intro: less_SucI)
  moreover have "\<forall>i j k. (i, Some k) \<in> set (event_keys db') \<and> (j, Some k) \<in> set (event_keys db') \<longrightarrow> i = j"
    using ok key unfolding keys event_db_ok_def by (auto, blast)
  ultimately show ?thesis by (simp add: event_db_ok_def keys)
qed

lemma keeps_key_rows [simp, intro]:
  "keeps_key (claim_row now)" "keeps_key (complete_row now)" "keeps_key (fail_row now e)"
  by (simp_all add: keeps_key_def claim_row_def complete_row_def fail_row_def Let_def)

lemma keeps_keyD [simp]: "keeps_key f \<Longrightarrow> ev_id (f r) = ev_id r"
  by (simp add: keeps_key_def)

lemma ledgerD:
  assumes "ledger db h f lg lost"
  shows "event_db_ok db" "f i \<le> h i" "h i \<le> 1" "f i \<noteq> 0 \<Longrightarrow> i \<notin> set (ed_done db)"
    "r \<in> set (ed_events db) \<Longrightarrow> row_ok (ed_done db) h f lg lost r"
    "h i \<noteq> 0 \<Longrightarrow> i \<in> event_ids db"
  using assms by (auto simp: ledger_def)

subsection \<open>Each operation keeps the books\<close>

lemma ledger_emit:
  assumes L: "ledger db h f lg lost"
  shows "ledger (snd (emitEvent now scope ty payload key m db)) h f lg lost"
proof (cases "key \<noteq> None \<and> key \<in> ev_key ` set (ed_events db)")
  case True
  then show ?thesis using L by (simp add: emitEvent_def)
next
  case False
  let ?i = "ed_nextId db"
  have new: "?i \<notin> event_ids db" using ledgerD(1) [OF L] by (auto simp: event_db_ok_def)
  then have z: "h ?i = 0" "lg ?i = 0" "lost ?i = 0" "f ?i = 0" "?i \<notin> set (ed_done db)"
    using L by (auto simp: ledger_def event_db_ok_def) (metis le_zero_eq)
  let ?db = "snd (emitEvent now scope ty payload key m db)"
  obtain row where ev: "ed_events ?db = ed_events db @ [row]" "ed_done ?db = ed_done db"
    "ed_nextId ?db = ?i + 1"
    and row: "ev_id row = ?i" "ev_key row = key" "ev_status row = EvPending" "ev_attempts row = 0"
    using False by (auto simp: emitEvent_def Let_def)
  have ids: "event_ids ?db = insert ?i (event_ids db)" by (simp add: event_ids_def ev row)
  have keys: "event_keys ?db = event_keys db @ [(?i, key)]" by (simp add: event_keys_def ev row)
  have key: "(j, key) \<notin> set (event_keys db)" if "key \<noteq> None" for j
    using False that by (auto simp: event_keys_def)
  have "event_db_ok ?db"
    by (rule event_db_ok_append [OF ledgerD(1) [OF L] keys]) (simp_all add: ev key)
  moreover have "row_ok (ed_done db) h f lg lost row"
    by (simp add: row_ok_def row z attempts_ok_def)
  ultimately show ?thesis
    using L unfolding ledger_def ids by (simp add: ev)
qed

text \<open>A statement about one event: the other events' books are untouched.\<close>

lemma ledger_update:
  assumes L: "ledger db h f lg lost" and i: "i \<in> event_ids db"
    and db': "event_keys db' = event_keys db" "ed_nextId db' = ed_nextId db"
    and rows: "\<And>q. q \<in> set (ed_events db') \<Longrightarrow> if ev_id q = i then q = r' else q \<in> set (ed_events db)"
    and dn: "\<And>j. j \<noteq> i \<Longrightarrow> j \<in> set (ed_done db') \<longleftrightarrow> j \<in> set (ed_done db)"
    and other: "\<And>j. j \<noteq> i \<Longrightarrow> h' j = h j \<and> f' j = f j \<and> lg' j = lg j \<and> lost' j = lost j"
    and at: "f' i \<le> h' i" "h' i \<le> 1" "i \<in> set (ed_done db') \<Longrightarrow> f' i = 0"
      "row_ok (ed_done db') h' f' lg' lost' r'"
  shows "ledger db' h' f' lg' lost'"
proof -
  have ids: "event_ids db' = event_ids db" by (simp add: event_ids_keys db')
  have sub: "set (ed_done db') \<subseteq> event_ids db"
  proof
    fix j assume "j \<in> set (ed_done db')"
    then show "j \<in> event_ids db"
      using i dn [of j] ledgerD(1) [OF L] by (cases "j = i") (auto simp: event_db_ok_def)
  qed
  have "event_db_ok db'"
    using event_db_ok_cong [OF db' sub ledgerD(1) [OF L]] .
  moreover have "f' j \<le> h' j \<and> h' j \<le> 1" for j
    using at other [of j] ledgerD(2,3) [OF L, of j] by (cases "j = i") auto
  moreover have "h' j = 0 \<and> lg' j = 0 \<and> lost' j = 0" if "j \<notin> event_ids db'" for j
    using that i ids other [of j] L by (cases "j = i") (auto simp: ledger_def)
  moreover have "f' j = 0" if "j \<in> set (ed_done db')" for j
    using that at(3) dn [of j] other [of j] L by (cases "j = i") (auto simp: ledger_def)
  moreover have "row_ok (ed_done db') h' f' lg' lost' q" if q: "q \<in> set (ed_events db')" for q
  proof (cases "ev_id q = i")
    case True
    then show ?thesis using rows [OF q] at(4) by simp
  next
    case False
    then show ?thesis
      using rows [OF q] ledgerD(5) [OF L, of q] dn [OF False] other [OF False]
      by (simp add: row_ok_def Let_def)
  qed
  ultimately show ?thesis unfolding ledger_def by blast
qed

lemma update_rows_one:
  assumes ok: "event_db_ok db" and r: "r \<in> set (ed_events db)" "ev_id r = i" and g: "keeps_key g"
    and q: "q \<in> set (ed_events (update_event i g db))"
  shows "if ev_id q = i then q = g r else q \<in> set (ed_events db)"
proof -
  obtain r0 where r0: "r0 \<in> set (ed_events db)" "q = (if ev_id r0 = i then g r0 else r0)"
    using q unfolding update_event_rows by blast
  show ?thesis
  proof (cases "ev_id r0 = i")
    case True
    then have "r0 = r" using event_row_unique [OF ok r0(1) r(1)] r(2) by simp
    then show ?thesis using True r0(2) g by simp
  next
    case False
    then show ?thesis using r0 by simp
  qed
qed

lemma ledger_fail:
  assumes L: "ledger db h f lg lost" and h: "h i = 1" "i \<notin> set (ed_done db)"
    and n: "lg' = lg(i := lg i + 1 - f i)"
  shows "ledger (markEventFailed now i e db) (h(i := 0)) (f(i := 0)) lg' lost"
proof -
  obtain r where r: "r \<in> set (ed_events db)" "ev_id r = i"
    using ledgerD(6) [OF L, of i] h by (auto simp: event_ids_def)
  have g: "get_event db i = Some r" using get_event_iff [OF ledgerD(1) [OF L]] r by simp
  have ok: "row_ok (ed_done db) h f lg lost r" using ledgerD(5) [OF L r(1)] .
  have "f i \<le> 1" using ledgerD(2,3) [OF L] by (metis order_trans)
  then have att: "lg i + 1 - f i = ev_attempts r + 1 + lost i" "ev_status r = EvProcessing"
    "ev_attempts r = 0 \<or> int (ev_attempts r) < ev_max r"
    using ok h r by (auto simp: row_ok_def attempts_ok_def Let_def)
  have i: "i \<in> event_ids db" using r by (auto simp: event_ids_def)
  have "row_ok (ed_done db) (h(i := 0)) (f(i := 0)) lg' lost (fail_row now e r)"
    using att by (cases "ev_max r \<le> int (ev_attempts r + 1)")
      (auto simp: row_ok_def attempts_ok_def fail_row_def Let_def r h n max_def)
  moreover have "event_keys (update_event i (fail_row now e) db) = event_keys db"
    by (rule event_keys_update) simp
  ultimately have "ledger (update_event i (fail_row now e) db) (h(i := 0)) (f(i := 0)) lg' lost"
    by (intro ledger_update [OF L i _ _ update_rows_one [OF ledgerD(1) [OF L] r]]) (simp_all add: n h)
  then show ?thesis by (simp add: markEventFailed_def g)
qed

lemma ledger_complete:
  assumes L: "ledger db h f lg lost" and h: "h i = 1" and d: "f i = 1 \<or> i \<in> set (ed_done db)"
  shows "\<exists>db'. markEventCompleted now i db = Inr db' \<and> ledger db' (h(i := 0)) (f(i := 0)) lg lost"
proof -
  obtain r where r: "r \<in> set (ed_events db)" "ev_id r = i"
    using ledgerD(6) [OF L, of i] h by (auto simp: event_ids_def)
  have g: "get_event db i = Some r" using get_event_iff [OF ledgerD(1) [OF L]] r by simp
  have ok: "row_ok (ed_done db) h f lg lost r" using ledgerD(5) [OF L r(1)] .
  have i: "i \<in> event_ids db" using r by (auto simp: event_ids_def)
  have fd: "f i = 1 \<longleftrightarrow> i \<notin> set (ed_done db)" "f i \<le> 1"
    using d L h unfolding ledger_def by force+
  let ?db = "db\<lparr>ed_done := set_add i (ed_done db)\<rparr>"
  let ?db' = "update_event i (complete_row now) ?db"
  have "row_ok (set_add i (ed_done db)) (h(i := 0)) (f(i := 0)) lg lost (complete_row now r)"
    using ok h r fd by (auto simp: row_ok_def attempts_ok_def complete_row_def Let_def split: if_splits)
  moreover have "event_keys ?db = event_keys db" by (simp add: event_keys_def)
  moreover have "if ev_id q = i then q = complete_row now r else q \<in> set (ed_events db)"
    if "q \<in> set (ed_events ?db')" for q
    using update_rows_one [OF ledgerD(1) [OF L] r, of "complete_row now" q] that
    by (simp add: update_event_rows)
  ultimately have "ledger ?db' (h(i := 0)) (f(i := 0)) lg lost"
    by (intro ledger_update [OF L i]) (simp_all add: event_keys_update)
  then show ?thesis by (simp add: markEventCompleted_def insert_done_def g)
qed

lemma row_of_id:
  assumes "ledger db h f lg lost" "r \<in> set (ed_events db)" "ev_id r = i" "q \<in> set (ed_events db)"
  shows "if ev_id q = i then q = r else q \<in> set (ed_events db)"
  using assms event_row_unique [OF ledgerD(1) [OF assms(1)] assms(4,2)] by simp

lemma ledger_insert_done:
  assumes L: "ledger db h f lg lost" and f: "f i = 1"
  shows "\<exists>db'. insert_done i db = Inr db' \<and> ledger db' (h(i := 0)) (f(i := 0)) lg lost"
proof -
  have h: "h i = 1" using ledgerD(2,3) [OF L, of i] f by simp
  then obtain r where r: "r \<in> set (ed_events db)" "ev_id r = i"
    using ledgerD(6) [OF L, of i] by (auto simp: event_ids_def)
  have g: "get_event db i = Some r" using get_event_iff [OF ledgerD(1) [OF L]] r by simp
  have i: "i \<in> event_ids db" using r by (auto simp: event_ids_def)
  have nd: "i \<notin> set (ed_done db)" using ledgerD(4) [OF L] f by simp
  have "row_ok (set_add i (ed_done db)) (h(i := 0)) (f(i := 0)) lg lost r"
    using ledgerD(5) [OF L r(1)] h f nd r by (auto simp: row_ok_def Let_def)
  then have "ledger (db\<lparr>ed_done := set_add i (ed_done db)\<rparr>) (h(i := 0)) (f(i := 0)) lg lost"
    by (intro ledger_update [OF L i _ _ row_of_id [OF L r]]) (auto simp: event_keys_def)
  then show ?thesis by (simp add: insert_done_def g)
qed

lemma ledger_dispatch:
  assumes L: "ledger db h f lg lost" and "h i = 1" "f i = 0" "i \<notin> set (ed_done db)"
  shows "ledger db h (f(i := 1)) (lg(i := lg i + 1)) lost"
proof -
  obtain r where r: "r \<in> set (ed_events db)" "ev_id r = i"
    using ledgerD(6) [OF L, of i] assms by (auto simp: event_ids_def)
  have "row_ok (ed_done db) h (f(i := 1)) (lg(i := lg i + 1)) lost r"
    using ledgerD(5) [OF L r(1)] assms r by (auto simp: row_ok_def Let_def)
  moreover have "i \<in> event_ids db" using r by (auto simp: event_ids_def)
  ultimately show ?thesis
    using assms by (intro ledger_update [OF L _ _ _ row_of_id [OF L r]]) auto
qed

lemma ledger_restart:
  assumes L: "ledger db h f lg lost"
  shows "ledger (snd (reconcileStaleProcessing now ms db)) (\<lambda>_. 0) (\<lambda>_. 0) lg (\<lambda>i. lost i + f i)"
proof -
  let ?db = "snd (reconcileStaleProcessing now ms db)"
  have k: "event_keys ?db = event_keys db" "ed_nextId ?db = ed_nextId db" "ed_done ?db = ed_done db"
    by (simp_all add: reconcileStaleProcessing_def event_keys_def)
  have ids: "event_ids ?db = event_ids db" by (simp add: event_ids_keys k)
  have "set (ed_done ?db) \<subseteq> event_ids db"
    using ledgerD(1) [OF L] by (simp add: k event_db_ok_def)
  then have ok: "event_db_ok ?db"
    using event_db_ok_cong [OF k(1,2)] ledgerD(1) [OF L] by blast
  have rows: "row_ok (ed_done db) (\<lambda>_. 0) (\<lambda>_. 0) lg (\<lambda>i. lost i + f i) q" if q: "q \<in> set (ed_events ?db)" for q
  proof -
    obtain r where r: "r \<in> set (ed_events db)"
      and qr: "q = (if stale now ms r then r\<lparr>ev_status := EvPending, ev_claimed := None, ev_updated := now\<rparr> else r)"
      using q by (auto simp: reconcileStaleProcessing_def image_iff split: if_splits)
    show ?thesis
      using ledgerD(5) [OF L r] qr by (auto simp: row_ok_def Let_def attempts_ok_def stale_def)
  qed
  have "f i = 0" if "i \<notin> event_ids db" for i
    using ledgerD(2) [OF L, of i] L that by (simp add: ledger_def)
  then show ?thesis
    unfolding ledger_def ids k using L ok rows by (simp add: ledger_def)
qed

subsection \<open>Claims\<close>

lemma sort_rows: "event_db_ok db \<Longrightarrow> sort_key ev_id (filter P (ed_events db)) = filter P (ed_events db)"
  unfolding event_db_ok_def map_fst_keys by (intro sort_key_id_if_sorted sorted_filter) simp

lemma filter_take_ids:
  "distinct (map g xs) \<Longrightarrow>
     filter (\<lambda>r. g r \<in> set (take n (map g (filter P xs)))) xs = take n (filter P xs)"
proof (induction xs arbitrary: n)
  case (Cons x xs)
  have x: "g x \<notin> g ` set xs" and IH: "filter (\<lambda>r. g r \<in> set (take m (map g (filter P xs)))) xs = take m (filter P xs)" for m
    using Cons by simp_all
  have sub: "set (take m (map g (filter P xs))) \<subseteq> g ` set xs" for m
    by (rule subset_trans [OF set_take_subset]) auto
  show ?case
  proof (cases "P x \<and> n \<noteq> 0")
    case True
    then obtain m where n: "n = Suc m" "P x" using not0_implies_Suc by blast
    have "filter (\<lambda>r. g r = g x \<or> g r \<in> set (take m (map g (filter P xs)))) xs = take m (filter P xs)"
      unfolding IH [symmetric] by (intro filter_cong refl) (metis x imageI)
    then show ?thesis using n by simp
  next
    case False
    then show ?thesis using IH [of n] sub [of n] x by (cases n) (auto simp: subset_iff)
  qed
qed simp

lemma sql_limit_take: "sql_limit n xs = take (if n < 0 then length xs else nat n) xs"
  by (simp add: sql_limit_def)

lemma sql_limit_map: "sql_limit n (map g xs) = map g (sql_limit n xs)"
  by (simp add: sql_limit_def take_map)

lemma fold_update_events:
  assumes g: "keeps_key g" "\<And>r. g (g r) = g r"
  shows "fold (\<lambda>i. update_event i g) is db =
    db\<lparr>ed_events := map (\<lambda>r. if ev_id r \<in> set is then g r else r) (ed_events db)\<rparr>"
proof (induction "is" arbitrary: db)
  case (Cons i "is")
  have "fold (\<lambda>i. update_event i g) (i # is) db = (update_event i g db)
      \<lparr>ed_events := map (\<lambda>r. if ev_id r \<in> set is then g r else r) (ed_events (update_event i g db))\<rparr>"
    by (simp add: Cons)
  also have "\<dots> = db\<lparr>ed_events := map (\<lambda>r. if ev_id r \<in> set (i # is) then g r else r) (ed_events db)\<rparr>"
    using g by (simp add: update_event_def)
  finally show ?case .
qed simp

lemma claim_row_idem [simp]: "claim_row now (claim_row now r) = claim_row now r"
  by (simp add: claim_row_def)

text \<open>What a claim does, in one equation for the rows returned and one for the table.\<close>

lemma claim_eq:
  assumes ok: "event_db_ok db"
  shows "claimPendingEvents now limit db =
    (let c = sql_limit limit (filter (claimable now) (ed_events db))
     in (map (mapRow \<circ> claim_row now) c,
         db\<lparr>ed_events := map (\<lambda>r. if r \<in> set c then claim_row now r else r) (ed_events db)\<rparr>))"
proof -
  let ?c = "sql_limit limit (filter (claimable now) (ed_events db))"
  let ?ids = "map ev_id ?c"
  let ?rows = "map (\<lambda>r. if ev_id r \<in> set ?ids then claim_row now r else r) (ed_events db)"
  have ids: "claim_ids now limit db = ?ids"
    using ok by (simp add: claim_ids_def sort_rows sql_limit_map)
  have d: "distinct (map ev_id (ed_events db))" using ok by (simp add: event_db_ok_def map_fst_keys)
  have mem: "ev_id r \<in> set ?ids \<longleftrightarrow> r \<in> set ?c" if "r \<in> set (ed_events db)" for r
  proof -
    have "set ?c \<subseteq> set (ed_events db)" by (auto simp: sql_limit_def dest: in_set_takeD)
    then show ?thesis using event_row_unique [OF ok that] by (auto simp: subset_iff)
  qed
  have db': "fold (\<lambda>i. update_event i (claim_row now)) ?ids db = db\<lparr>ed_events := ?rows\<rparr>"
    by (rule fold_update_events) simp_all
  have "filter (\<lambda>r. ev_id r \<in> set ?ids) ?rows = map (claim_row now) (filter (\<lambda>r. ev_id r \<in> set ?ids) (ed_events db))"
    unfolding filter_map o_def by (auto intro!: map_cong filter_cong)
  also have "filter (\<lambda>r. ev_id r \<in> set ?ids) (ed_events db) = ?c"
    unfolding sql_limit_take take_map [symmetric] by (rule filter_take_ids [OF d])
  finally have fl: "filter (\<lambda>r. ev_id r \<in> set ?ids) ?rows = map (claim_row now) ?c" .
  have ok': "event_db_ok (db\<lparr>ed_events := ?rows\<rparr>)"
    by (rule event_db_ok_map [OF _ ok]) simp
  have "?rows = map (\<lambda>r. if r \<in> set ?c then claim_row now r else r) (ed_events db)"
    using mem by (intro map_cong) auto
  moreover have "?ids = [] \<longleftrightarrow> ?c = []" by simp
  moreover have sel: "ed_events (db\<lparr>ed_events := X\<rparr>) = X" for X by simp
  moreover have "sort_key ev_id (filter (\<lambda>r. ev_id r \<in> set ?ids) ?rows) = map (claim_row now) ?c"
    using sort_rows [OF ok', of "\<lambda>r. ev_id r \<in> set ?ids"] unfolding sel fl .
  ultimately show ?thesis
    unfolding claimPendingEvents_def ids Let_def db' sel by (cases "?c = []") simp_all
qed

lemma count_list_distinct: "distinct xs \<Longrightarrow> count_list xs x = (if x \<in> set xs then 1 else 0)"
  by (induction xs) auto

lemma ledger_claim:
  assumes L: "ledger db h f lg lost" and cl: "claimPendingEvents now limit db = (batch, db')"
  shows "ledger db' (\<lambda>i. h i + count_list (map q_id batch) i) f lg lost"
proof -
  have ok: "event_db_ok db" using ledgerD(1) [OF L] .
  define c where "c = sql_limit limit (filter (claimable now) (ed_events db))"
  have b: "batch = map (mapRow \<circ> claim_row now) c"
    and db': "db' = db\<lparr>ed_events := map (\<lambda>r. if r \<in> set c then claim_row now r else r) (ed_events db)\<rparr>"
    using cl unfolding claim_eq [OF ok] c_def [symmetric] Let_def by simp_all
  have sub: "set c \<subseteq> {r \<in> set (ed_events db). claimable now r}"
    by (auto simp: c_def sql_limit_def dest: in_set_takeD)
  have d: "distinct (map ev_id (filter (claimable now) (ed_events db)))"
    using ok by (simp add: event_db_ok_def map_fst_keys distinct_map_filter)
  have ids: "map q_id batch = map ev_id c" by (simp add: b mapRow_def claim_row_def)
  have dc: "distinct (map ev_id c)"
    using d by (simp add: c_def sql_limit_def take_map [symmetric])
  have k: "event_keys db' = event_keys db" "ed_nextId db' = ed_nextId db" "ed_done db' = ed_done db"
    by (simp_all add: db' event_keys_map)
  have ok': "event_db_ok db'" unfolding db' by (rule event_db_ok_map [OF _ ok]) simp
  have free: "h (ev_id r) = 0" if "r \<in> set c" for r
    using that sub ledgerD(5) [OF L, of r] by (auto simp: row_ok_def Let_def claimable_def)
  have cnt: "count_list (map q_id batch) i = (if i \<in> ev_id ` set c then 1 else 0)" for i
    unfolding ids using count_list_distinct [OF dc, of i] by simp
  have le: "f i \<le> h i + count_list (map q_id batch) i \<and> h i + count_list (map q_id batch) i \<le> 1" for i
    using ledgerD(2,3) [OF L, of i] free by (auto simp: cnt)
  have in_c: "ev_id r \<in> ev_id ` set c \<longleftrightarrow> r \<in> set c" if "r \<in> set (ed_events db)" for r
    using event_row_unique [OF ok that] sub by (auto simp: subset_iff)
  have rows: "row_ok (ed_done db) (\<lambda>i. h i + count_list (map q_id batch) i) f lg lost q"
    if q: "q \<in> set (ed_events db')" for q
  proof -
    obtain r where r: "r \<in> set (ed_events db)" and qr: "q = (if r \<in> set c then claim_row now r else r)"
      using q unfolding db' by auto
    have "r \<in> set c \<Longrightarrow> ev_status r = EvPending" using sub by (auto simp: claimable_def)
    then show ?thesis
      using ledgerD(5) [OF L r] qr in_c [OF r]
      by (cases "r \<in> set c") (simp_all add: row_ok_def Let_def attempts_ok_def cnt claim_row_def)
  qed
  have out: "i \<notin> event_ids db \<Longrightarrow> count_list (map q_id batch) i = 0" for i
    using sub by (auto simp: cnt event_ids_def)
  show ?thesis
    unfolding ledger_def k event_ids_keys k(1)
    using L ok' le rows out by (simp add: ledger_def event_ids_keys [symmetric])
qed

subsection \<open>The consumer\<close>

lemma count_concat_update:
  "p < length xs \<Longrightarrow>
     count_list (concat (map g (xs[p := y]))) i + count_list (g (xs ! p)) i =
     count_list (concat (map g xs)) i + count_list (g y) i"
proof (induction xs arbitrary: p)
  case (Cons x xs)
  then show ?case by (cases p) (auto simp: add.commute add.left_commute)
qed simp

lemma count_pool_update:
  assumes p: "p < length (hb_pools s)"
  shows "count_list (held (s\<lparr>hb_pools := (hb_pools s)[p := pl]\<rparr>)) i + count_list (pool_ids (hb_pools s ! p)) i =
      count_list (held s) i + count_list (pool_ids pl) i"
    and "count_list (in_flight (s\<lparr>hb_pools := (hb_pools s)[p := pl]\<rparr>)) i
        + count_list (concat (map worker_ids (pl_workers (hb_pools s ! p)))) i =
      count_list (in_flight s) i + count_list (concat (map worker_ids (pl_workers pl))) i"
  using count_concat_update [OF p, of pool_ids pl i]
    count_concat_update [OF p, of "\<lambda>pl. concat (map worker_ids (pl_workers pl))" pl i]
  by (simp_all add: held_def in_flight_def)

lemma held_in_flight_cong [simp]:
  "held (s\<lparr>hb_db := d\<rparr>) = held s" "held (s\<lparr>hb_log := l\<rparr>) = held s" "held (s\<lparr>hb_now := n\<rparr>) = held s"
  "in_flight (s\<lparr>hb_db := d\<rparr>) = in_flight s" "in_flight (s\<lparr>hb_log := l\<rparr>) = in_flight s"
  "in_flight (s\<lparr>hb_now := n\<rparr>) = in_flight s" "held (s\<lparr>hb_lost := l\<rparr>) = held s"
  "in_flight (s\<lparr>hb_lost := l\<rparr>) = in_flight s"
  by (simp_all add: held_def in_flight_def)

text \<open>
  How one turn of a worker moves an event: from the unclaimed rest of the batch to the state \<open>wk\<close> of
  the worker.
\<close>

lemma turn_counts:
  assumes p: "p < length (hb_pools s)" and w: "w < length (pl_workers (hb_pools s ! p))"
    and idle: "pl_workers (hb_pools s ! p) ! w = Idle"
    and i: "i = pl_next (hb_pools s ! p)" "i < length (pl_items (hb_pools s ! p))"
    and pl: "pl = (hb_pools s ! p)\<lparr>pl_next := i + 1, pl_workers := (pl_workers (hb_pools s ! p))[w := wk]\<rparr>"
  shows "count_list (held (s\<lparr>hb_pools := (hb_pools s)[p := pl]\<rparr>)) j + count_list [q_id (pl_items (hb_pools s ! p) ! i)] j =
      count_list (held s) j + count_list (worker_ids wk) j"
    and "count_list (in_flight (s\<lparr>hb_pools := (hb_pools s)[p := pl]\<rparr>)) j =
      count_list (in_flight s) j + count_list (worker_ids wk) j"
proof -
  let ?pl = "hb_pools s ! p"
  have ws: "count_list (concat (map worker_ids (pl_workers pl))) j =
      count_list (concat (map worker_ids (pl_workers ?pl))) j + count_list (worker_ids wk) j"
    using count_concat_update [OF w, of worker_ids wk j] idle by (simp add: pl worker_ids_def)
  have dr: "drop i (pl_items ?pl) = pl_items ?pl ! i # drop (i + 1) (pl_items ?pl)"
    using i(2) by (simp add: Cons_nth_drop_Suc)
  have "count_list (pool_ids ?pl) j + count_list (worker_ids wk) j =
      count_list (pool_ids pl) j + count_list [q_id (pl_items ?pl ! i)] j"
    using ws by (simp add: pool_ids_def i(1) [symmetric] dr) (simp add: pl)
  then show "count_list (held (s\<lparr>hb_pools := (hb_pools s)[p := pl]\<rparr>)) j + count_list [q_id (pl_items (hb_pools s ! p) ! i)] j =
      count_list (held s) j + count_list (worker_ids wk) j"
    using count_pool_update(1) [OF p, of pl j] by linarith
  show "count_list (in_flight (s\<lparr>hb_pools := (hb_pools s)[p := pl]\<rparr>)) j =
      count_list (in_flight s) j + count_list (worker_ids wk) j"
    using count_pool_update(2) [OF p, of pl j] ws by linarith
qed

lemma release_counts:
  assumes b: "busy_row p w s = Some row"
  shows "count_list (held (s\<lparr>hb_pools := release_worker p w (hb_pools s)\<rparr>)) j + count_list [q_id row] j =
      count_list (held s) j"
    and "count_list (in_flight (s\<lparr>hb_pools := release_worker p w (hb_pools s)\<rparr>)) j + count_list [q_id row] j =
      count_list (in_flight s) j"
proof -
  let ?pl = "hb_pools s ! p"
  have p: "p < length (hb_pools s)" and w: "w < length (pl_workers ?pl)"
    and wk: "pl_workers ?pl ! w = Busy row"
    using b by (auto simp: busy_row_def split: if_splits worker.splits)
  let ?new = "?pl\<lparr>pl_workers := (pl_workers ?pl)[w := Idle]\<rparr>"
  have ws: "count_list (concat (map worker_ids (pl_workers ?new))) j + count_list [q_id row] j =
      count_list (concat (map worker_ids (pl_workers ?pl))) j"
    using count_concat_update [OF w, of worker_ids Idle j] wk by (simp add: worker_ids_def)
  then have "count_list (pool_ids ?new) j + count_list [q_id row] j = count_list (pool_ids ?pl) j"
    by (simp add: pool_ids_def)
  then show "count_list (held (s\<lparr>hb_pools := release_worker p w (hb_pools s)\<rparr>)) j + count_list [q_id row] j =
      count_list (held s) j"
    using count_pool_update(1) [OF p, of ?new j] unfolding release_worker_def by linarith
  show "count_list (in_flight (s\<lparr>hb_pools := release_worker p w (hb_pools s)\<rparr>)) j + count_list [q_id row] j =
      count_list (in_flight s) j"
    using count_pool_update(2) [OF p, of ?new j] ws unfolding release_worker_def by linarith
qed

lemma count_minus:
  assumes "\<And>j. h' j + count_list [i] j = h j" "h i \<le> (1 :: nat)"
  shows "h' = h(i := 0)" "h i = 1"
proof -
  show "h i = 1" using assms(1) [of i] assms(2) by simp
  show "h' = h(i := 0)"
  proof
    fix j
    show "h' j = (h(i := 0)) j" using assms(1) [of j] assms(1) [of i] assms(2) by (auto split: if_splits)
  qed
qed

lemma in_flight_le_held: "count_list (in_flight s) i \<le> count_list (held s) i"
proof -
  have "count_list (concat (map (\<lambda>pl. concat (map worker_ids (pl_workers pl))) ps)) i
      \<le> count_list (concat (map pool_ids ps)) i" for ps
    by (induction ps) (auto simp: pool_ids_def)
  then show ?thesis by (simp add: held_def in_flight_def)
qed

lemma hb_ok_D:
  assumes "hb_ok s"
  shows "ledger (hb_db s) (count_list (held s)) (count_list (in_flight s)) (count_list (hb_log s)) (count_list (hb_lost s))"
  using assms by (simp add: hb_ok_def)

lemma handler_ends_ok:
  assumes ok: "hb_ok s"
  shows "hb_ok (handler_ends p w out s)"
proof (cases "busy_row p w s")
  case None
  then show ?thesis using ok by (simp add: handler_ends_def)
next
  case (Some row)
  let ?h = "count_list (held s)" and ?f = "count_list (in_flight s)" and ?i = "q_id row"
  let ?s = "s\<lparr>hb_pools := release_worker p w (hb_pools s)\<rparr>"
  note L = hb_ok_D [OF ok]
  have f1: "?f ?i \<le> 1" using ledgerD(2,3) [OF L, of ?i] by linarith
  note H = count_minus [OF release_counts(1) [OF Some] ledgerD(3) [OF L]]
  note F = count_minus [OF release_counts(2) [OF Some] f1]
  have nd: "?i \<notin> set (ed_done (hb_db s))" using ledgerD(4) [OF L, of ?i] F(2) by simp
  have lg: "(count_list (hb_log s))(?i := count_list (hb_log s) ?i + 1 - ?f ?i) = count_list (hb_log s)"
    using F(2) by auto
  have "ledger (handler_settled (hb_now s) row out (hb_db s)) (?h(?i := 0)) (?f(?i := 0))
      (count_list (hb_log s)) (count_list (hb_lost s))"
    using ledger_complete [OF L H(2), of "hb_now s"] ledger_fail [OF L H(2) nd lg [symmetric]] F(2)
    by (auto simp: handler_settled_def split: handler_outcome.splits)
  then show ?thesis
    unfolding H(1) [symmetric] F(1) [symmetric]
    by (simp add: handler_ends_def Some hb_ok_def held_def in_flight_def)
qed

lemma worker_turn_ok:
  assumes ok: "hb_ok s"
  shows "hb_ok (worker_turn hs p w s)"
proof (cases "p < length (hb_pools s) \<and> w < length (pl_workers (hb_pools s ! p))
    \<and> pl_workers (hb_pools s ! p) ! w = Idle")
  case False
  then show ?thesis using ok by (auto simp: worker_turn_def)
next
  case True
  then have p: "p < length (hb_pools s)" and w: "w < length (pl_workers (hb_pools s ! p))"
    and idle: "pl_workers (hb_pools s ! p) ! w = Idle" by auto
  let ?pl = "hb_pools s ! p" and ?h = "count_list (held s)" and ?f = "count_list (in_flight s)"
  let ?lg = "count_list (hb_log s)" and ?lost = "count_list (hb_lost s)"
  define i where i: "i = pl_next ?pl"
  note L = hb_ok_D [OF ok]
  show ?thesis
  proof (cases "i < length (pl_items ?pl)")
    case False
    let ?new = "?pl\<lparr>pl_next := i + 1, pl_workers := (pl_workers ?pl)[w := Ended]\<rparr>"
    have ws: "count_list (concat (map worker_ids (pl_workers ?new))) j =
        count_list (concat (map worker_ids (pl_workers ?pl))) j" for j
      using count_concat_update [OF w, of worker_ids Ended j] idle by (simp add: worker_ids_def)
    then have "count_list (pool_ids ?new) j = count_list (pool_ids ?pl) j" for j
      using False by (simp add: pool_ids_def i)
    then have "count_list (held (s\<lparr>hb_pools := (hb_pools s)[p := ?new]\<rparr>)) = ?h"
      "count_list (in_flight (s\<lparr>hb_pools := (hb_pools s)[p := ?new]\<rparr>)) = ?f"
      using count_pool_update [OF p, of ?new] ws by (auto simp: fun_eq_iff)
    then show ?thesis
      using L p w idle False by (simp add: worker_turn_def Let_def hb_ok_def i)
  next
    case item: True
    define row where row: "row = pl_items ?pl ! i"
    let ?k = "q_id row"
    define new where new: "new wk = ?pl\<lparr>pl_next := i + 1, pl_workers := (pl_workers ?pl)[w := wk]\<rparr>" for wk
    let ?s = "\<lambda>wk. s\<lparr>hb_pools := (hb_pools s)[p := new wk]\<rparr>"
    note T = turn_counts [OF p w idle i item new, folded row]
    have free: "count_list (held (?s wk)) = ?h(?k := 0)" "?h ?k = 1" "count_list (in_flight (?s wk)) = ?f"
      "?f ?k = 0" if "worker_ids wk = []" for wk
    proof -
      have h: "count_list (held (?s wk)) j + count_list [?k] j = ?h j" for j
        using T(1) [where j = j and wk = wk] that by simp
      note H = count_minus [OF h ledgerD(3) [OF L]]
      show "count_list (held (?s wk)) = ?h(?k := 0)" "?h ?k = 1" by (rule H)+
      show f: "count_list (in_flight (?s wk)) = ?f" using T(2) [where wk = wk] that by auto
      show "?f ?k = 0" using in_flight_le_held [of "?s wk" ?k] unfolding f H(1) by simp
    qed
    have k: "?h ?k = 1" "?f ?k = 0" using free [of Idle] by (simp_all add: worker_ids_def)
    then have f0: "?f(?k := 0) = ?f" by auto
    have busy: "count_list (held (?s (Busy row))) = ?h" "count_list (in_flight (?s (Busy row))) = ?f(?k := 1)"
      using T(1) [where wk = "Busy row"] T(2) [where wk = "Busy row"] k by (auto simp: worker_ids_def fun_eq_iff)
    have lg: "count_list (hb_log s @ [?k]) = ?lg(?k := ?lg ?k + 1)" by (auto simp: fun_eq_iff)
    obtain wk db disp where po: "processOne hs (hb_now s) row (hb_db s) = (wk, db, disp)"
      using prod_cases3 by blast
    have eq: "worker_turn hs p w s =
        (?s wk)\<lparr>hb_db := db, hb_log := hb_log s @ (if disp then [?k] else [])\<rparr>"
      using p w idle item po by (simp add: worker_turn_def Let_def i row new)
    consider (recorded) "hasEventProcessingRecord (hb_db s) ?k"
      | (missing) "\<not> hasEventProcessingRecord (hb_db s) ?k" "\<not> hs (q_type row)"
      | (handled) "\<not> hasEventProcessingRecord (hb_db s) ?k" "hs (q_type row)" by blast
    then show ?thesis
    proof cases
      case recorded
      then obtain db' where "markEventCompleted (hb_now s) ?k (hb_db s) = Inr db'"
        and "ledger db' (?h(?k := 0)) (?f(?k := 0)) ?lg ?lost"
        using ledger_complete [OF L k(1), of "hb_now s"] by (auto simp: hasEventProcessingRecord_def)
      then show ?thesis
        using po recorded free [of Idle] unfolding eq f0
        by (auto simp: processOne_def hb_ok_def worker_ids_def held_def in_flight_def)
    next
      case missing
      then have "ledger (markEventFailed (hb_now s) ?k (''no_handler:'' @ q_type row) (hb_db s))
          (?h(?k := 0)) (?f(?k := 0)) (?lg(?k := ?lg ?k + 1)) ?lost"
        using ledger_fail [OF L k(1)] k(2) by (simp add: hasEventProcessingRecord_def)
      then show ?thesis
        using po missing free [of Idle] unfolding eq f0
        by (auto simp: processOne_def hb_ok_def worker_ids_def lg held_def in_flight_def)
    next
      case handled
      then have "ledger (hb_db s) ?h (?f(?k := 1)) (?lg(?k := ?lg ?k + 1)) ?lost"
        using ledger_dispatch [OF L k] by (simp add: hasEventProcessingRecord_def)
      then show ?thesis
        using po handled busy unfolding eq
        by (auto simp: processOne_def hb_ok_def lg held_def in_flight_def)
    qed
  qed
qed

lemma batch_ok:
  assumes ok: "hb_ok s"
  shows "hb_ok (runHeartbeatBatch limit conc s)"
proof -
  obtain batch db where cl: "claimPendingEvents (hb_now s) limit (hb_db s) = (batch, db)"
    by fastforce
  have idle: "concat (replicate n (worker_ids Idle)) = []" for n
    by (simp add: worker_ids_def)
  have "ledger db (\<lambda>i. count_list (held s) i + count_list (map q_id batch) i) (count_list (in_flight s))
      (count_list (hb_log s)) (count_list (hb_lost s))"
    using ledger_claim [OF hb_ok_D [OF ok] cl] .
  moreover have "count_list (held (s\<lparr>hb_db := db, hb_pools := hb_pools s @ [runPool batch conc]\<rparr>)) =
      (\<lambda>i. count_list (held s) i + count_list (map q_id batch) i)"
    by (simp add: fun_eq_iff held_def pool_ids_def runPool_def idle)
  moreover have "in_flight (s\<lparr>hb_db := db, hb_pools := hb_pools s @ [runPool batch conc]\<rparr>) = in_flight s"
    by (simp add: in_flight_def runPool_def idle)
  ultimately show ?thesis
    by (cases "batch = []") (simp_all add: runHeartbeatBatch_def cl hb_ok_def)
qed

lemma restart_ok:
  assumes ok: "hb_ok s"
  shows "hb_ok (restart_daemon ms n s)"
proof -
  have "count_list (hb_lost s @ in_flight s) = (\<lambda>i. count_list (hb_lost s) i + count_list (in_flight s) i)"
    by auto
  moreover have "count_list (held (restart_daemon ms n s)) = (\<lambda>_. 0)"
    "count_list (in_flight (restart_daemon ms n s)) = (\<lambda>_. 0)"
    by (auto simp: restart_daemon_def held_def in_flight_def)
  ultimately show ?thesis
    using ledger_restart [OF hb_ok_D [OF ok], of "hb_now s + n" ms]
    unfolding hb_ok_def by (simp add: restart_daemon_def)
qed

lemma crash_ok:
  assumes ok: "hb_ok s"
  shows "hb_ok (crash_completing ms n p w s)"
proof (cases "busy_row p w s")
  case None
  then show ?thesis using ok by (simp add: crash_completing_def)
next
  case (Some row)
  let ?i = "q_id row"
  note L = hb_ok_D [OF ok]
  have f1: "count_list (in_flight s) ?i \<le> 1" using ledgerD(2,3) [OF L, of ?i] by linarith
  note H = count_minus [OF release_counts(1) [OF Some] ledgerD(3) [OF L]]
  note F = count_minus [OF release_counts(2) [OF Some] f1]
  obtain db where db: "insert_done ?i (hb_db s) = Inr db"
    and "ledger db ((count_list (held s))(?i := 0)) ((count_list (in_flight s))(?i := 0))
      (count_list (hb_log s)) (count_list (hb_lost s))"
    using ledger_insert_done [OF L F(2)] by blast
  then have "hb_ok (s\<lparr>hb_db := db, hb_pools := release_worker p w (hb_pools s)\<rparr>)"
    unfolding H(1) [symmetric] F(1) [symmetric] by (simp add: hb_ok_def held_def in_flight_def)
  then show ?thesis by (simp add: crash_completing_def Some db restart_ok)
qed

lemma hb_event_ok: "hb_ok s \<Longrightarrow> hb_ok (hb_event hs ms ev s)"
proof (induction hs ms ev s rule: hb_event.induct)
  case (1 hs staleMs scope ty payload key m s)
  then show ?case using ledger_emit [OF hb_ok_D] by (simp add: hb_ok_def)
qed (simp_all add: batch_ok worker_turn_ok handler_ends_ok restart_ok crash_ok, simp add: hb_ok_def)

interpretation event_system: transition_system "\<lambda>s. \<exists>now. s = new_heartbeat now"
  "\<lambda>s s'. \<exists>ev. s' = hb_event hs ms ev s" hb_ok for hs ms
proof unfold_locales
  fix s assume "\<exists>now. s = new_heartbeat now"
  then show "hb_ok s"
    by (auto simp: hb_ok_def ledger_def new_heartbeat_def new_event_db_def event_db_ok_def event_keys_def
        event_ids_def held_def in_flight_def)
qed (auto intro: hb_event_ok)

section \<open>What the queue guarantees\<close>

abbreviation hb_run :: "(string \<Rightarrow> bool) \<Rightarrow> nat \<Rightarrow> heartbeat \<Rightarrow> heartbeat \<Rightarrow> bool" where
  "hb_run hs ms \<equiv> (\<lambda>s s'. \<exists>ev. s' = hb_event hs ms ev s)\<^sup>*\<^sup>*"

lemma hb_run_ok: "hb_run hs ms (new_heartbeat t0) s \<Longrightarrow> hb_ok s"
  by (rule event_system.reachable_inv) blast+

lemma event_books_parts:
  assumes run: "hb_run hs ms (new_heartbeat t0) s" and r: "r \<in> set (ed_events (hb_db s))"
  defines "i \<equiv> ev_id r"
  shows "count_list (hb_log s) i =
      ev_attempts r + count_list (in_flight s) i
      + (if hasEventProcessingRecord (hb_db s) i then 1 else 0) + count_list (hb_lost s) i"
    and "count_list (in_flight s) i \<le> 1"
    and "ev_status r = EvDead \<longleftrightarrow> max 1 (ev_max r) \<le> int (ev_attempts r)"
    and "int (count_list (hb_log s) i) \<le> max 1 (ev_max r) + int (count_list (hb_lost s) i)"
proof -
  note L = hb_ok_D [OF hb_run_ok [OF run]]
  have R: "attempts_ok r"
    "count_list (hb_log s) i = ev_attempts r + count_list (in_flight s) i
      + (if hasEventProcessingRecord (hb_db s) i then 1 else 0) + count_list (hb_lost s) i"
    "hasEventProcessingRecord (hb_db s) i \<Longrightarrow> ev_status r \<noteq> EvDead"
    "count_list (held s) i \<noteq> 0 \<Longrightarrow> ev_status r = EvProcessing"
    using ledgerD(5) [OF L r] by (auto simp: row_ok_def Let_def i_def hasEventProcessingRecord_def)
  show "count_list (hb_log s) i = ev_attempts r + count_list (in_flight s) i
      + (if hasEventProcessingRecord (hb_db s) i then 1 else 0) + count_list (hb_lost s) i"
    by (rule R)
  show f: "count_list (in_flight s) i \<le> 1" using ledgerD(2,3) [OF L, of i] by linarith
  show d: "ev_status r = EvDead \<longleftrightarrow> max 1 (ev_max r) \<le> int (ev_attempts r)"
    using R(1) by (auto simp: attempts_ok_def split: if_splits)
  have one: "count_list (in_flight s) i + (if hasEventProcessingRecord (hb_db s) i then 1 else 0) \<le> 1"
    using f ledgerD(4) [OF L, of i] by (auto simp: hasEventProcessingRecord_def)
  show "int (count_list (hb_log s) i) \<le> max 1 (ev_max r) + int (count_list (hb_lost s) i)"
  proof (cases "ev_status r = EvDead")
    case True
    then have "count_list (in_flight s) i = 0" using R(4) ledgerD(2) [OF L, of i] by fastforce
    then show ?thesis using R True by (auto simp: attempts_ok_def)
  next
    case False
    then show ?thesis using R(2) d one by linarith
  qed
qed

text \<open>
  C11. In every state the queue can reach, whatever the interleaving of emits, overlapping batches, handler
  results and restarts: an event was dispatched as often as it has failed, plus once if a handler
  runs on it, plus once if it was completed, plus the dispatches a restart cut off; at most one
  handler runs on it; it is dead exactly when its attempts are used up; and so, restarts apart, it is
  dispatched at most \<open>max_attempts\<close> times (once if that is not positive).
\<close>
theorem event_books:
  assumes "hb_run hs ms (new_heartbeat t0) s" and "r \<in> set (ed_events (hb_db s))"
  shows "count_list (hb_log s) (ev_id r) =
      ev_attempts r + count_list (in_flight s) (ev_id r)
      + (if hasEventProcessingRecord (hb_db s) (ev_id r) then 1 else 0) + count_list (hb_lost s) (ev_id r)
    \<and> count_list (in_flight s) (ev_id r) \<le> 1
    \<and> (ev_status r = EvDead \<longleftrightarrow> max 1 (ev_max r) \<le> int (ev_attempts r))
    \<and> int (count_list (hb_log s) (ev_id r)) \<le> max 1 (ev_max r) + int (count_list (hb_lost s) (ev_id r))"
  using event_books_parts [OF assms] by blast

lemma done_event:
  assumes "i \<in> set (ed_done (hb_db s))"
  shows "i \<in> set (ed_done (hb_db (hb_event hs ms ev s)))
    \<and> count_list (hb_log (hb_event hs ms ev s)) i = count_list (hb_log s) i"
proof -
  have f: "ed_done (fold (\<lambda>i. update_event i g) is db) = ed_done db" for g "is" and db :: event_db
    by (induction "is" arbitrary: db) simp_all
  have u: "i \<in> set (ed_done db) \<Longrightarrow> markEventCompleted now k db = Inr db' \<Longrightarrow> i \<in> set (ed_done db')"
    "i \<in> set (ed_done db) \<Longrightarrow> insert_done k db = Inr db' \<Longrightarrow> i \<in> set (ed_done db')"
    "ed_done (markEventFailed now k e db) = ed_done db" for now k e and db db' :: event_db
    by (auto simp: markEventCompleted_def insert_done_def markEventFailed_def split: sum.splits if_splits option.splits)
  show ?thesis
  proof (cases ev)
    case (Beat limit c)
    then show ?thesis using assms
      by (auto simp: runHeartbeatBatch_def claimPendingEvents_def Let_def f split: prod.splits)
  next
    case (Turn p w)
    have P: "i \<in> set (ed_done db') \<and> (disp \<longrightarrow> q_id row \<noteq> i)"
      if "processOne hs now row (hb_db s) = (wk, db', disp)" for now row wk db' disp
    proof (cases "q_id row \<in> set (ed_done (hb_db s))")
      case True
      then show ?thesis
        using that assms u(1) [OF assms, of now "q_id row"]
        by (cases "markEventCompleted now (q_id row) (hb_db s)")
          (auto simp: processOne_def hasEventProcessingRecord_def)
    next
      case False
      then show ?thesis using that assms
        by (cases "hs (q_type row)") (auto simp: processOne_def hasEventProcessingRecord_def u(3))
    qed
    then show ?thesis using assms Turn
      by (simp add: worker_turn_def Let_def split: prod.splits)
  next
    case (HandlerEnds p w out)
    have "i \<in> set (ed_done (handler_settled now row out (hb_db s)))" for now row
      using u(1) [OF assms, of now "q_id row"] assms
      by (cases "markEventCompleted now (q_id row) (hb_db s)"; cases out)
        (simp_all add: handler_settled_def u(3))
    then show ?thesis using assms HandlerEnds
      by (simp add: handler_ends_def split: option.splits)
  next
    case (CrashCompleting n p w)
    then show ?thesis using assms u(2) [OF assms]
      by (simp add: crash_completing_def restart_daemon_def reconcileStaleProcessing_def split: option.splits sum.splits)
  qed (use assms in \<open>auto simp: emitEvent_def Let_def restart_daemon_def reconcileStaleProcessing_def\<close>)
qed

text \<open>
  C23. Once an event has its processing record it is never dispatched again, whatever happens: not by a
  second batch, not by the retry of a stale claim after a crash between the two statements of
  \<open>markEventCompleted\<close>.
\<close>
theorem done_event_not_repeated:
  assumes "hb_run hs ms s s'" "hasEventProcessingRecord (hb_db s) i"
  shows "hasEventProcessingRecord (hb_db s') i \<and> count_list (hb_log s') i = count_list (hb_log s) i"
  using assms
proof (induction rule: rtranclp_induct)
  case (step s1 s2)
  then show ?case using done_event [of i s1 hs ms] by (auto simp: hasEventProcessingRecord_def)
qed simp

text \<open>
  A claim takes exactly the first \<open>limit\<close> events by identifier among the pending ones whose time has
  come, returns them in that order, marks them and leaves every other row alone.
\<close>
theorem claim_fifo:
  fixes now :: nat and limit :: int
  assumes "hb_run hs ms (new_heartbeat t0) s" "hb_db s = db"
  defines "c \<equiv> sql_limit limit (filter (claimable now) (ed_events db))"
  shows "claimPendingEvents now limit db =
      (map (mapRow \<circ> claim_row now) c,
       db\<lparr>ed_events := map (\<lambda>r. if r \<in> set c then claim_row now r else r) (ed_events db)\<rparr>)"
    and "sorted_wrt (<) (map q_id (fst (claimPendingEvents now limit db)))"
proof -
  have ok: "event_db_ok db" using ledgerD(1) [OF hb_ok_D [OF hb_run_ok [OF assms(1)]]] assms(2) by simp
  show eq: "claimPendingEvents now limit db =
      (map (mapRow \<circ> claim_row now) c,
       db\<lparr>ed_events := map (\<lambda>r. if r \<in> set c then claim_row now r else r) (ed_events db)\<rparr>)"
    using claim_eq [OF ok, of now limit] by (simp add: c_def Let_def)
  have "map q_id (fst (claimPendingEvents now limit db)) = map ev_id c"
    unfolding eq by (simp add: mapRow_def claim_row_def)
  moreover have "sorted_wrt (<) (map ev_id (filter (claimable now) (ed_events db)))"
    using ok unfolding event_db_ok_def map_fst_keys
    by (simp add: strict_sorted_iff sorted_filter distinct_map_filter)
  ultimately show "sorted_wrt (<) (map q_id (fst (claimPendingEvents now limit db)))"
    by (simp add: c_def sql_limit_def take_map [symmetric] sorted_wrt_take)
qed

text \<open>
  An idempotency key is used once: after an emit with a non-empty key, a second emit with that key
  changes nothing and returns the identifier of the first. With the empty string as the key the
  second emit throws, since the code takes it for no key where it handles the conflict.
\<close>
theorem emit_idempotent:
  "\<exists>i. fst (emitEvent now scope ty payload (Some k) m db) \<in> {Inr (EmitOk i), Inr (EmitDuplicate i), Inl UniqueConstraint}
     \<and> emitEvent now' scope' ty' payload' (Some k) m' (snd (emitEvent now scope ty payload (Some k) m db)) =
        ((if k = [] then Inl UniqueConstraint else Inr (EmitDuplicate i)),
         snd (emitEvent now scope ty payload (Some k) m db))"
proof (cases "Some k \<in> ev_key ` set (ed_events db)")
  case True
  then have "find (\<lambda>r. ev_key r = Some k) (ed_events db) \<noteq> None"
    by (auto simp: find_None_iff)
  then obtain r where "find (\<lambda>r. ev_key r = Some k) (ed_events db) = Some r" by blast
  then show ?thesis
    using True by (intro exI [of _ "ev_id r"]) (simp add: emitEvent_def truthy_str_def)
next
  case False
  then have n: "find (\<lambda>r. ev_key r = Some k) (ed_events db) = None"
    by (force simp: find_None_iff)
  obtain db' row where e: "emitEvent now scope ty payload (Some k) m db = (Inr (EmitOk (ed_nextId db)), db')"
    and rows: "ed_events db' = ed_events db @ [row]" and row: "ev_key row = Some k" "ev_id row = ed_nextId db"
    using False that unfolding emitEvent_def Let_def by force
  have f: "find (\<lambda>r. ev_key r = Some k) (ed_events db') = Some row"
    by (simp add: rows find_snoc n row)
  have "Some k \<in> ev_key ` set (ed_events db')" using row by (auto simp: rows)
  then show ?thesis
    unfolding e by (intro exI [of _ "ed_nextId db"]) (simp add: emitEvent_def truthy_str_def f row)
qed

subsection \<open>A claim that no restart releases\<close>

fun restarts :: "hb_ev \<Rightarrow> bool" where
  "restarts (Restart n) = True"
| "restarts (CrashCompleting n p w) = True"
| "restarts ev = False"

definition orphaned_claim :: "event_row \<Rightarrow> heartbeat \<Rightarrow> bool" where
  "orphaned_claim r s \<longleftrightarrow>
     r \<in> set (ed_events (hb_db s)) \<and> ev_status r = EvProcessing \<and> count_list (held s) (ev_id r) = 0"

lemma other_rows:
  assumes "r \<in> set (ed_events db)" "ev_id r \<noteq> k"
  shows "r \<in> set (ed_events (markEventFailed now k e db))"
    and "markEventCompleted now k db = Inr db' \<Longrightarrow> r \<in> set (ed_events db')"
  using assms
  by (auto simp: markEventFailed_def markEventCompleted_def insert_done_def update_event_rows
      split: option.splits sum.splits if_splits)

lemma processOne_other:
  assumes "processOne hs now row db = (wk, db', disp)" "r \<in> set (ed_events db)" "ev_id r \<noteq> q_id row"
  shows "r \<in> set (ed_events db')" "worker_ids wk \<in> {[], [q_id row]}"
  using assms other_rows [OF assms(2,3)]
  by (auto simp: processOne_def worker_ids_def split: if_splits sum.splits)

lemma orphan_turn:
  assumes o: "orphaned_claim r s"
  shows "orphaned_claim r (worker_turn hs p w s)
    \<and> count_list (hb_log (worker_turn hs p w s)) (ev_id r) = count_list (hb_log s) (ev_id r)"
proof (cases "p < length (hb_pools s) \<and> w < length (pl_workers (hb_pools s ! p))
    \<and> pl_workers (hb_pools s ! p) ! w = Idle")
  case False
  then show ?thesis using o by (auto simp: worker_turn_def)
next
  case True
  then have p: "p < length (hb_pools s)" and w: "w < length (pl_workers (hb_pools s ! p))"
    and idle: "pl_workers (hb_pools s ! p) ! w = Idle" by auto
  let ?pl = "hb_pools s ! p" and ?i = "ev_id r"
  define n where n: "n = pl_next ?pl"
  define new where new: "new wk = ?pl\<lparr>pl_next := n + 1, pl_workers := (pl_workers ?pl)[w := wk]\<rparr>" for wk
  have in_pool: "j \<in> set (pool_ids ?pl) \<Longrightarrow> j \<in> set (held s)" for j
    using nth_mem [OF p] by (auto simp: held_def)
  have free: "?i \<notin> set (held s)" using o by (simp add: orphaned_claim_def count_list_0_iff)
  have held: "?i \<notin> set (held (s\<lparr>hb_pools := (hb_pools s)[p := new wk]\<rparr>))" if "?i \<notin> set (worker_ids wk)" for wk
  proof -
    have "set (pool_ids (new wk)) \<subseteq> set (pool_ids ?pl) \<union> set (worker_ids wk)"
      using set_update_subset_insert [of "pl_workers ?pl" w wk] set_drop_subset_set_drop [of n "n + 1" "pl_items ?pl"]
      unfolding new pool_ids_def n by (auto 4 3)
    then have "?i \<notin> set (pool_ids (new wk))" using that in_pool free by auto
    then show ?thesis
      using free set_update_subset_insert [of "hb_pools s" p "new wk"] by (auto simp: held_def)
  qed
  show ?thesis
  proof (cases "n < length (pl_items ?pl)")
    case False
    then show ?thesis
      using True o held [of Ended]
      by (simp add: worker_turn_def Let_def n orphaned_claim_def count_list_0_iff new worker_ids_def)
  next
    case item: True
    let ?row = "pl_items ?pl ! n"
    have "drop (pl_next ?pl) (pl_items ?pl) = ?row # drop (Suc n) (pl_items ?pl)"
      using Cons_nth_drop_Suc [OF item] by (simp add: n)
    then have "q_id ?row \<in> set (pool_ids ?pl)" by (simp add: pool_ids_def)
    then have ne: "?i \<noteq> q_id ?row" using in_pool free by auto
    obtain wk db disp where po: "processOne hs (hb_now s) ?row (hb_db s) = (wk, db, disp)"
      using prod_cases3 by blast
    have O: "r \<in> set (ed_events db)" "worker_ids wk \<in> {[], [q_id ?row]}"
      using processOne_other [OF po _ ne] o by (auto simp: orphaned_claim_def)
    then have "?i \<notin> set (worker_ids wk)" using ne by auto
    from held [OF this] show ?thesis
      using True item po O(1) o ne
      by (simp add: worker_turn_def Let_def n orphaned_claim_def count_list_0_iff new held_def)
  qed
qed

lemma orphan_ends:
  assumes o: "orphaned_claim r s"
  shows "orphaned_claim r (handler_ends p w out s)
    \<and> count_list (hb_log (handler_ends p w out s)) (ev_id r) = count_list (hb_log s) (ev_id r)"
proof (cases "busy_row p w s")
  case None
  then show ?thesis using o by (simp add: handler_ends_def)
next
  case (Some row)
  have h: "count_list (held s) (ev_id r) = 0" using o by (simp add: orphaned_claim_def)
  then have ne: "ev_id r \<noteq> q_id row" and
    h': "count_list (held (s\<lparr>hb_pools := release_worker p w (hb_pools s)\<rparr>)) (ev_id r) = 0"
    using release_counts(1) [OF Some, of "ev_id r"] by (auto split: if_splits)
  have "r \<in> set (ed_events (handler_settled (hb_now s) row out (hb_db s)))"
    using o other_rows [OF _ ne] unfolding handler_settled_def orphaned_claim_def
    by (auto split: handler_outcome.splits sum.splits)
  then show ?thesis using o h' by (simp add: handler_ends_def Some orphaned_claim_def held_def)
qed

lemma orphan_batch:
  assumes ok: "hb_ok s" and o: "orphaned_claim r s"
  shows "orphaned_claim r (runHeartbeatBatch limit conc s)
    \<and> hb_log (runHeartbeatBatch limit conc s) = hb_log s"
proof -
  have db: "event_db_ok (hb_db s)" using ledgerD(1) [OF hb_ok_D [OF ok]] .
  define c where "c = sql_limit limit (filter (claimable (hb_now s)) (ed_events (hb_db s)))"
  have cl: "claimPendingEvents (hb_now s) limit (hb_db s) =
     (map (mapRow \<circ> claim_row (hb_now s)) c,
      (hb_db s)\<lparr>ed_events := map (\<lambda>r. if r \<in> set c then claim_row (hb_now s) r else r) (ed_events (hb_db s))\<rparr>)"
    using claim_eq [OF db, of "hb_now s" limit] by (simp add: c_def Let_def)
  have sub: "set c \<subseteq> {r \<in> set (ed_events (hb_db s)). claimable (hb_now s) r}"
    by (auto simp: c_def sql_limit_def dest: in_set_takeD)
  have r: "r \<in> set (ed_events (hb_db s))" "r \<notin> set c"
    using o sub by (auto simp: orphaned_claim_def claimable_def)
  then have nc: "ev_id r \<notin> ev_id ` set c"
    using event_row_unique [OF db r(1)] sub by blast
  let ?rows = "map (\<lambda>r. if r \<in> set c then claim_row (hb_now s) r else r) (ed_events (hb_db s))"
  have "r \<in> set ?rows" using r by force
  moreover have idle: "concat (replicate n (worker_ids Idle)) = []" for n
    by (simp add: worker_ids_def)
  have "ev_id r \<notin> set (pool_ids (runPool (map (mapRow \<circ> claim_row (hb_now s)) c) conc))"
    using nc by (auto simp: pool_ids_def runPool_def idle mapRow_def claim_row_def)
  ultimately show ?thesis
    using o unfolding runHeartbeatBatch_def cl
    by (simp add: orphaned_claim_def held_def count_list_0_iff)
qed

lemma orphan_event:
  assumes "hb_ok s" "orphaned_claim r s" "\<not> restarts ev"
  shows "orphaned_claim r (hb_event hs ms ev s)
    \<and> count_list (hb_log (hb_event hs ms ev s)) (ev_id r) = count_list (hb_log s) (ev_id r)"
proof (cases ev)
  case (Emit scope ty payload key m)
  have "set (ed_events db) \<subseteq> set (ed_events (snd (emitEvent now scope ty payload key m db)))" for now db
    by (auto simp: emitEvent_def Let_def)
  then show ?thesis using assms Emit by (auto simp: orphaned_claim_def held_def)
qed (use assms orphan_turn [OF assms(2)] orphan_ends [OF assms(2)] orphan_batch [OF assms(1,2)]
     in \<open>simp_all add: orphaned_claim_def held_def\<close>)

text \<open>
  The converse of a stale claim: when the daemon comes up again within the stale period of a claim
  (two minutes by default), the event keeps its claim, and no heartbeat ever takes it up: until
  another restart it is never dispatched and its row never changes.
\<close>
theorem fresh_claim_stuck:
  assumes "hb_run hs ms (new_heartbeat t0) s"
    and "r \<in> set (ed_events (hb_db s))" "ev_status r = EvProcessing" "ev_claimed r = Some t"
    and "hb_now s + n \<le> t + max 1 (ms div 1000)"
    and "(\<lambda>s s'. \<exists>ev. \<not> restarts ev \<and> s' = hb_event hs ms ev s)\<^sup>*\<^sup>* (hb_event hs ms (Restart n) s) s'"
  shows "r \<in> set (ed_events (hb_db s')) \<and> count_list (hb_log s') (ev_id r) = count_list (hb_log s) (ev_id r)"
proof -
  let ?s = "restart_daemon ms n s"
  have "\<not> stale (hb_now s + n) ms r" using assms(4,5) by (simp add: stale_def)
  then have "r \<in> set (ed_events (hb_db ?s))"
    using assms(2) by (force simp: restart_daemon_def reconcileStaleProcessing_def)
  then have o: "orphaned_claim r ?s" using assms(3) by (simp add: orphaned_claim_def restart_daemon_def held_def)
  have "hb_ok s' \<and> orphaned_claim r s' \<and> count_list (hb_log s') (ev_id r) = count_list (hb_log ?s) (ev_id r)"
    using assms(6)
  proof (induction rule: rtranclp_induct)
    case base
    then show ?case using o restart_ok [OF hb_run_ok [OF assms(1)]] by simp
  next
    case (step s1 s2)
    then show ?case using orphan_event [of s1 r] hb_event_ok by auto
  qed
  then show ?thesis by (simp add: orphaned_claim_def restart_daemon_def)
qed

section \<open>Witnesses\<close>

text \<open>
  Two events, the first one with an idempotency key; one batch with two workers, whose first worker
  runs a handler on the first event.
\<close>

definition demo_handlers :: "string \<Rightarrow> bool" where
  "demo_handlers ty \<longleftrightarrow> ty = ''cron.fire''"

definition demo_hb :: heartbeat where
  "demo_hb = fold (hb_event demo_handlers 9000)
     [Emit ''global'' ''cron.fire'' JNull (Some ''k'') None, Emit ''global'' ''cron.fire'' JNull None (Some 2),
      Beat 5 2, Turn 0 0] (new_heartbeat 100)"

definition demo_done :: heartbeat where
  "demo_done = hb_event demo_handlers 9000 (HandlerEnds 0 0 HandlerOk) demo_hb"

lemma hb_run_fold: "hb_run hs ms s (fold (hb_event hs ms) evs s)"
proof (induction evs arbitrary: s)
  case (Cons ev evs)
  have "hb_run hs ms s (hb_event hs ms ev s)" by (rule r_into_rtranclp) blast
  then show ?case using Cons [of "hb_event hs ms ev s"] by simp
qed simp

lemma demo_run: "hb_run demo_handlers 9000 (new_heartbeat 100) demo_hb"
  unfolding demo_hb_def by (rule hb_run_fold)

definition demo_row :: "nat \<Rightarrow> string option \<Rightarrow> int \<Rightarrow> event_row" where
  "demo_row i k m =
     \<lparr>ev_id = i, ev_scope = ''global'', ev_type = ''cron.fire'', ev_payload = JNull, ev_key = k,
      ev_status = EvProcessing, ev_attempts = 0, ev_max = m, ev_next = Some 100, ev_error = None,
      ev_claimed = Some 100, ev_created = 100, ev_updated = 100\<rparr>"

lemma demo_rows: "ed_events (hb_db demo_hb) = [demo_row 1 (Some ''k'') 8, demo_row 2 None 2]"
  "hb_now demo_hb = 100" "in_flight demo_hb = [1]" "hb_log demo_hb = [1]" "ed_done (hb_db demo_hb) = []"
  by code_simp+

lemma demo_done_rec: "ed_done (hb_db demo_done) = [1]" "hb_log demo_done = [1]"
  by code_simp+

theorem event_books_witness:
  "count_list (hb_log demo_hb) 1 = 0 + 1 + 0 + count_list (hb_lost demo_hb) 1
   \<and> int (count_list (hb_log demo_hb) 1) \<le> max 1 8 + int (count_list (hb_lost demo_hb) 1)"
proof -
  have r: "demo_row 1 (Some ''k'') 8 \<in> set (ed_events (hb_db demo_hb))" by (simp add: demo_rows)
  show ?thesis
    using event_books [OF demo_run r]
    by (simp add: demo_row_def demo_rows hasEventProcessingRecord_def)
qed

theorem done_event_not_repeated_witness:
  "count_list (hb_log (fold (hb_event demo_handlers 9000) [Restart 100, Beat 5 5, Turn 0 0] demo_done)) 1 = 1"
  using done_event_not_repeated [OF hb_run_fold, of demo_done 1 demo_handlers 9000 "[Restart 100, Beat 5 5, Turn 0 0]"]
  by (simp add: demo_done_rec hasEventProcessingRecord_def)

theorem claim_fifo_witness:
  "sorted_wrt (<) (map q_id (fst (claimPendingEvents 100 5 (hb_db demo_hb))))
   \<and> fst (claimPendingEvents 100 5 (hb_db demo_hb)) = []"
  using claim_fifo [OF demo_run refl, of 100 5]
  by (simp add: demo_rows demo_row_def claimable_def sql_limit_def)

theorem fresh_claim_stuck_witness:
  "demo_row 1 (Some ''k'') 8 \<in> set (ed_events (hb_db (hb_event demo_handlers 9000 (Beat 5 5)
     (hb_event demo_handlers 9000 (Pass 1000) (hb_event demo_handlers 9000 (Restart 9) demo_hb)))))"
proof -
  let ?r = "demo_row 1 (Some ''k'') 8" and ?s = "hb_event demo_handlers 9000 (Restart 9) demo_hb"
  let ?R = "\<lambda>s s'. \<exists>ev. \<not> restarts ev \<and> s' = hb_event demo_handlers 9000 ev s"
  let ?s1 = "hb_event demo_handlers 9000 (Pass 1000) ?s"
  have a: "?R ?s ?s1" and b: "?R ?s1 (hb_event demo_handlers 9000 (Beat 5 5) ?s1)"
    using restarts.simps by blast+
  have "?R\<^sup>*\<^sup>* ?s ?s1" using a by (rule r_into_rtranclp)
  then have run: "?R\<^sup>*\<^sup>* ?s (hb_event demo_handlers 9000 (Beat 5 5) ?s1)"
    using b by (rule rtranclp.rtrancl_into_rtrancl)
  show ?thesis
    using fresh_claim_stuck [OF demo_run, of ?r 100 9, OF _ _ _ _ run]
    by (simp add: demo_rows demo_row_def)
qed

end
