(* ===== verification/Cron_Scheduler.thy ===== *)
theory Cron_Scheduler
  imports Event_Queue "HOL-Library.Multiset"
begin

text \<open>
  What feeds the event queue and what its default handlers do: the cron registry
  (\<open>events/cron-scheduler.ts\<close>), the tool runs and the reconciliation at boot
  (\<open>sessions/tool-run-store.ts\<close>, \<open>events/boot-reconciliation.ts\<close>), the buffers of system context
  (\<open>sessions/system-context-buffer.ts\<close>) and the handlers of \<open>heartbeat-consumer.ts\<close> that fill them.
\<close>

section \<open>Cron jobs\<close>

text \<open>
  \<open>/^every:(\d+)s$/i\<close> on the trimmed text; a number of seconds too large for a double is \<open>Infinity\<close>
  and is refused.
\<close>

definition parseEverySchedule :: "string \<Rightarrow> nat option" where
  "parseEverySchedule scheduleExpr =
     (let t = js_trim scheduleExpr;
          ds = takeWhile is_digit (drop 6 t); r = dropWhile is_digit (drop 6 t); n = dec_val ds
      in if map lower_char (take 6 t) = ''every:'' \<and> ds \<noteq> [] \<and> map lower_char r = ''s''
            \<and> 0 < n \<and> n < 2 ^ 1024 - 2 ^ 970
         then Some n else None)"

record cron_job =
  cj_id :: string
  cj_schedule :: string
  cj_payload :: "json option"
  cj_enabled :: bool
  cj_session :: "string option"
  cj_contextLevel :: "string option"
  cj_lastRun :: "nat option"
  cj_nextRun :: "nat option"
  cj_lastStatus :: "string option"
  cj_lastError :: "string option"
  cj_created :: nat
  cj_updated :: nat

text \<open>
  \<open>sessions\<close> are the rows of the sessions table, which \<open>session_id\<close> refers to. A payload \<open>null\<close> is
  stored as no payload.
\<close>

definition upsertCronJob ::
  "nat \<Rightarrow> string list \<Rightarrow> string \<Rightarrow> string \<Rightarrow> json option \<Rightarrow> bool option \<Rightarrow> string option \<Rightarrow> string option
     \<Rightarrow> cron_job list \<Rightarrow> sql_error + cron_job list" where
  "upsertCronJob now sessions i scheduleExpr payload enabled sessionId contextLevel jobs =
     (let p = (if payload = Some JNull then None else payload); e = (enabled \<noteq> Some False) in
      if (case sessionId of None \<Rightarrow> False | Some sid \<Rightarrow> sid \<notin> set sessions) then Inl ForeignKeyConstraint
      else if i \<in> set (map cj_id jobs)
      then Inr (map (\<lambda>j. if cj_id j = i
                         then j\<lparr>cj_schedule := scheduleExpr, cj_payload := p, cj_enabled := e,
                                cj_session := sessionId, cj_contextLevel := contextLevel,
                                cj_nextRun := Some now, cj_updated := now\<rparr>
                         else j) jobs)
      else Inr (jobs @ [\<lparr>cj_id = i, cj_schedule = scheduleExpr, cj_payload = p, cj_enabled = e,
                         cj_session = sessionId, cj_contextLevel = contextLevel, cj_lastRun = None,
                         cj_nextRun = Some now, cj_lastStatus = None, cj_lastError = None,
                         cj_created = now, cj_updated = now\<rparr>]))"

definition cron_due :: "nat \<Rightarrow> cron_job \<Rightarrow> bool" where
  "cron_due now j \<longleftrightarrow> cj_enabled j \<and> (case cj_nextRun j of None \<Rightarrow> True | Some t \<Rightarrow> t \<le> now)"

definition cron_envelope :: "cron_job \<Rightarrow> json" where
  "cron_envelope j =
     JObj ([(''cronJobId'', JStr (cj_id j)), (''payload'', nullish (cj_payload j) (JObj []))]
           @ (if truthy_str (cj_contextLevel j) then [(''contextLevel'', JStr (the (cj_contextLevel j)))] else []))"

definition cron_scope :: "cron_job \<Rightarrow> string" where
  "cron_scope j = (if truthy_str (cj_session j) then sessionEventScope (the (cj_session j)) else EVENT_SCOPE_GLOBAL)"

definition update_job :: "string \<Rightarrow> (cron_job \<Rightarrow> cron_job) \<Rightarrow> cron_job list \<Rightarrow> cron_job list" where
  "update_job i f jobs = map (\<lambda>j. if cj_id j = i then f j else j) jobs"

definition cron_failed_row :: "nat \<Rightarrow> string \<Rightarrow> cron_job \<Rightarrow> cron_job" where
  "cron_failed_row now expr j =
     j\<lparr>cj_lastStatus := Some ''error'', cj_lastError := Some (''unsupported schedule_expr: '' @ expr), cj_updated := now\<rparr>"

definition cron_fired_row :: "nat \<Rightarrow> nat \<Rightarrow> cron_job \<Rightarrow> cron_job" where
  "cron_fired_row now sec j =
     j\<lparr>cj_lastRun := Some now, cj_nextRun := datetime_plus now sec, cj_lastStatus := Some ''ok'',
       cj_lastError := None, cj_updated := now\<rparr>"

text \<open>The loop over the selected jobs: the registry, the event queue and the number fired.\<close>

fun cron_loop :: "nat \<Rightarrow> cron_job list \<Rightarrow> cron_job list \<Rightarrow> event_db \<Rightarrow> nat \<Rightarrow> cron_job list \<times> event_db \<times> nat" where
  "cron_loop now [] jobs db fired = (jobs, db, fired)"
| "cron_loop now (job # rest) jobs db fired =
     (case parseEverySchedule (cj_schedule job) of
        None \<Rightarrow> cron_loop now rest (update_job (cj_id job) (cron_failed_row now (cj_schedule job)) jobs) db fired
      | Some intervalSec \<Rightarrow>
          cron_loop now rest (update_job (cj_id job) (cron_fired_row now intervalSec) jobs)
            (snd (emitEvent now (cron_scope job) ''cron.fire'' (cron_envelope job) None None db))
            (fired + 1))"

text \<open>The select has no \<open>ORDER BY\<close>: \<open>sel\<close> is the order the database returns the rows in.\<close>

definition runCronTick ::
  "(cron_job list \<Rightarrow> cron_job list) \<Rightarrow> nat \<Rightarrow> cron_job list \<Rightarrow> event_db \<Rightarrow> cron_job list \<times> event_db \<times> nat" where
  "runCronTick sel now jobs db = cron_loop now (sel (filter (cron_due now) jobs)) jobs db 0"

section \<open>Tool runs and reconciliation at boot\<close>

datatype tool_run_status = RunRunning | RunCompleted | RunFailed

record tool_run =
  tr_id :: string
  tr_session :: string
  tr_status :: tool_run_status
  tr_reason :: "string option"

definition insertRunning :: "string \<Rightarrow> string \<Rightarrow> tool_run list \<Rightarrow> sql_error + tool_run list" where
  "insertRunning i sid runs =
     (if i \<in> set (map tr_id runs) then Inl UniqueConstraint
      else Inr (runs @ [\<lparr>tr_id = i, tr_session = sid, tr_status = RunRunning, tr_reason = None\<rparr>]))"

definition markCompleted :: "string \<Rightarrow> tool_run list \<Rightarrow> tool_run list" where
  "markCompleted i runs =
     map (\<lambda>r. if tr_id r = i then r\<lparr>tr_status := RunCompleted, tr_reason := None\<rparr> else r) runs"

definition markFailed :: "string \<Rightarrow> string \<Rightarrow> tool_run list \<Rightarrow> tool_run list" where
  "markFailed i reason runs =
     map (\<lambda>r. if tr_id r = i then r\<lparr>tr_status := RunFailed, tr_reason := Some reason\<rparr> else r) runs"

definition markAllRunningFailed :: "string \<Rightarrow> tool_run list \<Rightarrow> nat \<times> tool_run list" where
  "markAllRunningFailed reason runs =
     (length (filter (\<lambda>r. tr_status r = RunRunning) runs),
      map (\<lambda>r. if tr_status r = RunRunning then r\<lparr>tr_status := RunFailed, tr_reason := Some reason\<rparr> else r) runs)"

definition runBootReconciliation ::
  "nat \<Rightarrow> nat \<Rightarrow> string \<Rightarrow> event_db \<Rightarrow> tool_run list \<Rightarrow> (nat \<times> nat) \<times> event_db \<times> tool_run list" where
  "runBootReconciliation now staleClaimMs orphanedToolRunReason db runs =
     (case reconcileStaleProcessing now staleClaimMs db of
        (staleEventsRequeued, db') \<Rightarrow>
          (case markAllRunningFailed orphanedToolRunReason runs of
             (toolRunsMarkedFailed, runs') \<Rightarrow> ((staleEventsRequeued, toolRunsMarkedFailed), db', runs')))"

section \<open>System context\<close>

definition STALE_TTL_MS :: nat where
  "STALE_TTL_MS = 5 * 60 * 1000"

record buffer_entry =
  be_entries :: "string list"
  be_lastPushAt :: nat

type_synonym context_buffers = "(string, buffer_entry) jsmap"

definition pushSystemContext :: "nat \<Rightarrow> string \<Rightarrow> string \<Rightarrow> context_buffers \<Rightarrow> context_buffers" where
  "pushSystemContext now sessionId ctx bufs =
     (case map_get bufs sessionId of
        Some b \<Rightarrow> map_set sessionId \<lparr>be_entries = be_entries b @ [ctx], be_lastPushAt = now\<rparr> bufs
      | None \<Rightarrow> map_set sessionId \<lparr>be_entries = [ctx], be_lastPushAt = now\<rparr> bufs)"

definition drainSystemContext :: "string \<Rightarrow> context_buffers \<Rightarrow> string list \<times> context_buffers" where
  "drainSystemContext sessionId bufs =
     (case map_get bufs sessionId of
        None \<Rightarrow> ([], map_delete sessionId bufs)
      | Some b \<Rightarrow> (if be_entries b = [] then ([], map_delete sessionId bufs)
                  else (be_entries b, map_delete sessionId bufs)))"

text \<open>The periodic sweep.\<close>

definition sweepBuffers :: "nat \<Rightarrow> context_buffers \<Rightarrow> context_buffers" where
  "sweepBuffers now bufs = filter (\<lambda>(sid, b). \<not> STALE_TTL_MS < now - be_lastPushAt b) bufs"

section \<open>The default handlers\<close>

text \<open>\<open>/^session:(.+)$/\<close>: the dot stops at a line terminator.\<close>

definition session_of_scope :: "string \<Rightarrow> string option" where
  "session_of_scope scope =
     (if js_starts_with scope ''session:'' \<and> drop 8 scope \<noteq> []
         \<and> list_all (\<lambda>c. of_char c \<notin> {10, 13 :: nat}) (drop 8 scope)
      then Some (drop 8 scope) else None)"

text \<open>\<open>payload?.contextLevel\<close>, which the scheduler sets to a text when it sets it.\<close>

definition payload_contextLevel :: "json \<Rightarrow> string option" where
  "payload_contextLevel p =
     (case p of
        JObj kvs \<Rightarrow> (case map_of kvs ''contextLevel'' of Some (JStr l) \<Rightarrow> Some l | _ \<Rightarrow> None)
      | _ \<Rightarrow> None)"

definition cron_fire_handler :: "nat \<Rightarrow> queue_row \<Rightarrow> context_buffers \<Rightarrow> context_buffers" where
  "cron_fire_handler now row bufs =
     (case session_of_scope (q_scope row) of
        None \<Rightarrow> bufs
      | Some sid \<Rightarrow>
          (let contextLevel = payload_contextLevel (q_payload row) in
           pushSystemContext now sid
             (''Scheduled cron job invocation.''
              @ (if truthy_str contextLevel then '' [contextLevel='' @ the contextLevel @ '']'' else [])) bufs))"

definition heartbeat_check_handler :: "nat \<Rightarrow> string option \<Rightarrow> queue_row \<Rightarrow> context_buffers \<Rightarrow> context_buffers" where
  "heartbeat_check_handler now heartbeatContextLevel row bufs =
     (case session_of_scope (q_scope row) of
        None \<Rightarrow> bufs
      | Some sid \<Rightarrow>
          pushSystemContext now sid
            (''Scheduled heartbeat check. [contextLevel='' @ nullish heartbeatContextLevel ''light'' @ '']'') bufs)"

definition createDefaultHeartbeatHandlers ::
  "nat \<Rightarrow> string option \<Rightarrow> string \<Rightarrow> (queue_row \<Rightarrow> context_buffers \<Rightarrow> context_buffers) option" where
  "createDefaultHeartbeatHandlers now heartbeatContextLevel eventType =
     (if eventType = ''cron.fire'' then Some (cron_fire_handler now)
      else if eventType = ''heartbeat.check'' then Some (heartbeat_check_handler now heartbeatContextLevel)
      else None)"

section \<open>Cron: every due job once\<close>

definition tick_row :: "nat \<Rightarrow> cron_job \<Rightarrow> cron_job" where
  "tick_row now j =
     (case parseEverySchedule (cj_schedule j) of
        None \<Rightarrow> cron_failed_row now (cj_schedule j) j
      | Some sec \<Rightarrow> cron_fired_row now sec j)"

definition supported :: "cron_job \<Rightarrow> bool" where
  "supported j \<longleftrightarrow> parseEverySchedule (cj_schedule j) \<noteq> None"

lemma emit_cron:
  "\<exists>row. ed_events (snd (emitEvent now scope ty p None m db)) = ed_events db @ [row]
     \<and> ev_scope row = scope \<and> ev_type row = ty \<and> ev_payload row = p \<and> ev_status row = EvPending
     \<and> ev_next row = Some now \<and> ev_id row = ed_nextId db"
  by (simp add: emitEvent_def Let_def)

text \<open>What one event of the queue says.\<close>

definition event_text :: "event_row \<Rightarrow> string \<times> string \<times> json \<times> event_status \<times> nat option" where
  "event_text r = (ev_scope r, ev_type r, ev_payload r, ev_status r, ev_next r)"

definition cron_event :: "nat \<Rightarrow> cron_job \<Rightarrow> string \<times> string \<times> json \<times> event_status \<times> nat option" where
  "cron_event now j = (cron_scope j, ''cron.fire'', cron_envelope j, EvPending, Some now)"

lemma cron_loop_events:
  assumes "cron_loop now rows jobs db fired = (jobs', db', n)"
  shows "n = fired + length (filter supported rows)"
    and "\<exists>new. ed_events db' = ed_events db @ new \<and> map event_text new = map (cron_event now) (filter supported rows)"
  using assms
proof (induction now rows jobs db fired rule: cron_loop.induct)
  case (2 now job rest jobs db fired)
  {
    case 1
    then show ?case using 2 by (auto simp: supported_def split: option.splits)
  next
    case 2
    show ?case
    proof (cases "parseEverySchedule (cj_schedule job)")
      case None
      then show ?thesis using "2.IH"(2) 2 by (simp add: supported_def)
    next
      case (Some sec)
      obtain row where row: "ed_events (snd (emitEvent now (cron_scope job) ''cron.fire'' (cron_envelope job) None None db))
            = ed_events db @ [row]" "event_text row = cron_event now job"
        using emit_cron [of now "cron_scope job" "''cron.fire''" "cron_envelope job" None db]
        by (auto simp: event_text_def cron_event_def)
      obtain new where "ed_events db' = (ed_events db @ [row]) @ new" "map event_text new = map (cron_event now) (filter supported rest)"
        using "2.IH"(4) [OF Some] 2 Some row(1) by auto
      moreover have "supported job" using Some by (simp add: supported_def)
      ultimately show ?thesis using row(2) by (intro exI [of _ "row # new"]) simp
    qed
  }
qed auto

lemma tick_row_id [simp]: "cj_id (tick_row now j) = cj_id j"
  by (simp add: tick_row_def cron_failed_row_def cron_fired_row_def split: option.splits)

lemma update_job_tick:
  assumes d: "distinct (map cj_id jobs)" and j: "job \<in> set jobs" "job \<notin> D" and g: "g job = tick_row now job"
  shows "update_job (cj_id job) g (map (\<lambda>j. if j \<in> D then tick_row now j else j) jobs) =
    map (\<lambda>j. if j \<in> insert job D then tick_row now j else j) jobs"
proof -
  have "cj_id x = cj_id job \<longleftrightarrow> x = job" if "x \<in> set jobs" for x
    using d j(1) that by (meson distinct_map inj_onD)
  then show ?thesis using j(2) g by (auto simp: update_job_def)
qed

lemma cron_loop_jobs:
  assumes "distinct (map cj_id jobs)" "set rows \<subseteq> set jobs" "distinct rows" "D \<inter> set rows = {}"
  shows "fst (cron_loop now rows (map (\<lambda>j. if j \<in> D then tick_row now j else j) jobs) db fired) =
    map (\<lambda>j. if j \<in> D \<union> set rows then tick_row now j else j) jobs"
  using assms(2-)
proof (induction rows arbitrary: D db fired)
  case (Cons job rest)
  have step: "update_job (cj_id job) g (map (\<lambda>j. if j \<in> D then tick_row now j else j) jobs) =
      map (\<lambda>j. if j \<in> insert job D then tick_row now j else j) jobs" if "g job = tick_row now job" for g
    using update_job_tick [of jobs job D g now] assms(1) that Cons.prems by auto
  have IH: "fst (cron_loop now rest (map (\<lambda>j. if j \<in> insert job D then tick_row now j else j) jobs) db' fired') =
      map (\<lambda>j. if j \<in> insert job D \<union> set rest then tick_row now j else j) jobs" for db' fired'
    using Cons.prems by (intro Cons.IH) auto
  show ?case
  proof (cases "parseEverySchedule (cj_schedule job)")
    case None
    then show ?thesis
      using step [of "cron_failed_row now (cj_schedule job)"] IH by (simp add: tick_row_def [of now job])
  next
    case (Some sec)
    then show ?thesis
      using step [of "cron_fired_row now sec"] IH by (simp add: tick_row_def [of now job])
  qed
qed simp

lemma cron_tick_parts:
  assumes "distinct (map cj_id jobs)" and "\<And>xs. mset (sel xs) = mset xs"
    and "runCronTick sel now jobs db = (jobs', db', fired)"
  shows "jobs' = map (\<lambda>j. if cron_due now j then tick_row now j else j) jobs"
    and "fired = length (filter (\<lambda>j. cron_due now j \<and> supported j) jobs)"
    and "\<exists>new. ed_events db' = ed_events db @ new
      \<and> mset (map event_text new) = mset (map (cron_event now) (filter (\<lambda>j. cron_due now j \<and> supported j) jobs))"
proof -
  let ?due = "filter (cron_due now) jobs"
  have m: "mset (sel ?due) = mset ?due" by (rule assms(2))
  then have s: "set (sel ?due) = set ?due" by (rule mset_eq_setD)
  have "distinct ?due" using assms(1) by (simp add: distinct_map)
  then have d: "distinct (sel ?due)" using m mset_eq_imp_distinct_iff by blast
  have "jobs' = map (\<lambda>j. if j \<in> {} \<union> set (sel ?due) then tick_row now j else j) jobs"
    using cron_loop_jobs [OF assms(1) _ d, of "{}" now db 0] assms(3) s by (simp add: runCronTick_def)
  then show "jobs' = map (\<lambda>j. if cron_due now j then tick_row now j else j) jobs"
    using s by simp
  have f: "filter supported ?due = filter (\<lambda>j. cron_due now j \<and> supported j) jobs"
    by (simp add: conj_commute)
  have mf: "mset (filter supported (sel ?due)) = mset (filter (\<lambda>j. cron_due now j \<and> supported j) jobs)"
    unfolding f [symmetric] using m by (simp only: mset_filter)
  note E = cron_loop_events [OF assms(3) [unfolded runCronTick_def]]
  show "fired = length (filter (\<lambda>j. cron_due now j \<and> supported j) jobs)"
    using E(1) mset_eq_length [OF mf] by simp
  show "\<exists>new. ed_events db' = ed_events db @ new
      \<and> mset (map event_text new) = mset (map (cron_event now) (filter (\<lambda>j. cron_due now j \<and> supported j) jobs))"
    using E(2) mf by (metis mset_map)
qed

text \<open>
  A tick of the cron scheduler, whatever the order in which the database lists the due jobs: every
  enabled job whose time has come is handled once, however many periods it has missed. A job with a
  supported schedule puts exactly one \<open>cron.fire\<close> event into the queue, for its session's scope, and
  is set to run again one interval from now; one with an unsupported schedule is marked as an error
  and keeps its time; no other job and no other event changes.
\<close>
theorem cron_tick_exact:
  assumes "distinct (map cj_id jobs)" and "\<And>xs. mset (sel xs) = mset xs"
    and "runCronTick sel now jobs db = (jobs', db', fired)"
  shows "jobs' = map (\<lambda>j. if cron_due now j then tick_row now j else j) jobs
    \<and> fired = length (filter (\<lambda>j. cron_due now j \<and> supported j) jobs)
    \<and> (\<exists>new. ed_events db' = ed_events db @ new
      \<and> mset (map event_text new) = mset (map (cron_event now) (filter (\<lambda>j. cron_due now j \<and> supported j) jobs)))"
  using cron_tick_parts [OF assms] by blast

text \<open>A job that fired is not due again before its interval is over.\<close>

lemma fired_not_due:
  assumes "parseEverySchedule (cj_schedule j) = Some sec" "now + sec \<le> 253402300799" "now' < now + sec"
  shows "\<not> cron_due now' (tick_row now j)"
  using assms by (simp add: tick_row_def cron_fired_row_def cron_due_def datetime_plus_def)

text \<open>
  An interval that leads past the year 9999 makes the next run \<open>NULL\<close>, which counts as due: such a
  job fires at every tick instead of (practically) never.
\<close>
theorem huge_interval_always_due:
  assumes "parseEverySchedule (cj_schedule j) = Some sec" "253402300799 < now + sec" "cj_enabled j"
  shows "cron_due now' (tick_row now j)"
  using assms by (simp add: tick_row_def cron_fired_row_def cron_due_def datetime_plus_def)

section \<open>Delivery\<close>

lemma drained:
  "fst (drainSystemContext sid bufs) = (case map_get bufs sid of None \<Rightarrow> [] | Some b \<Rightarrow> be_entries b)"
  by (simp add: drainSystemContext_def split: option.splits)

lemma push_drain:
  "fst (drainSystemContext sid (pushSystemContext now sid c bufs)) = fst (drainSystemContext sid bufs) @ [c]"
  unfolding drained by (cases "map_get bufs sid") (simp_all add: pushSystemContext_def)

lemma push_drain_other:
  "sid \<noteq> sid' \<Longrightarrow> fst (drainSystemContext sid (pushSystemContext now sid' c bufs)) = fst (drainSystemContext sid bufs)"
  unfolding drained by (cases "map_get bufs sid'") (simp_all add: pushSystemContext_def)

lemma drain_empties: "fst (drainSystemContext sid (snd (drainSystemContext sid bufs))) = []"
  by (simp add: drainSystemContext_def split: option.splits)

lemma session_of_session_scope:
  "sid \<noteq> [] \<Longrightarrow> list_all (\<lambda>c. of_char c \<notin> {10, 13 :: nat}) sid \<Longrightarrow> session_of_scope (sessionEventScope sid) = Some sid"
  by (simp add: session_of_scope_def sessionEventScope_def)

text \<open>
  From a cron job to the turn of its session: the event the tick emits for a job of a session makes
  the default handler append one line to the context of that session, with the context level of the
  job, and change no other session's context.
\<close>
theorem cron_reaches_session:
  assumes "cj_session j = Some sid" "sid \<noteq> []" "list_all (\<lambda>c. of_char c \<notin> {10, 13 :: nat}) sid"
    and "event_text r = cron_event t j"
    and "createDefaultHeartbeatHandlers now lvl (q_type (mapRow r)) = Some handler"
  shows "fst (drainSystemContext s (handler (mapRow r) bufs)) =
    fst (drainSystemContext s bufs)
    @ (if s = sid
       then [''Scheduled cron job invocation.''
             @ (if truthy_str (cj_contextLevel j) then '' [contextLevel='' @ the (cj_contextLevel j) @ '']'' else [])]
       else [])"
proof -
  have r: "q_scope (mapRow r) = sessionEventScope sid" "q_type (mapRow r) = ''cron.fire''"
    "q_payload (mapRow r) = cron_envelope j"
    using assms(1,2,4) by (simp_all add: event_text_def cron_event_def mapRow_def cron_scope_def truthy_str_def)
  have l: "truthy_str (payload_contextLevel (cron_envelope j)) = truthy_str (cj_contextLevel j)"
    "truthy_str (cj_contextLevel j) \<Longrightarrow> payload_contextLevel (cron_envelope j) = cj_contextLevel j"
    by (auto simp: payload_contextLevel_def cron_envelope_def truthy_str_def split: option.splits)
  have h: "handler = cron_fire_handler now"
    using assms(5) r(2) by (simp add: createDefaultHeartbeatHandlers_def)
  show ?thesis
    unfolding h cron_fire_handler_def r session_of_session_scope [OF assms(2,3)] Let_def
    using l by (simp add: push_drain push_drain_other)
qed

section \<open>Witnesses\<close>

definition demo_job :: "string \<Rightarrow> cron_job" where
  "demo_job expr =
     \<lparr>cj_id = ''j'', cj_schedule = expr, cj_payload = None, cj_enabled = True, cj_session = Some ''s'',
      cj_contextLevel = Some ''full'', cj_lastRun = None, cj_nextRun = Some 100, cj_lastStatus = None,
      cj_lastError = None, cj_created = 100, cj_updated = 100\<rparr>"

lemma demo_schedule: "parseEverySchedule '' every:60s '' = Some 60" "parseEverySchedule ''every:0s'' = None"
  "parseEverySchedule ''every:999999999999s'' = Some 999999999999"
  by (simp_all add: parseEverySchedule_def js_trim_def is_ws_def is_digit_def lower_char_def dec_val_def digit_val_def)

theorem cron_tick_exact_witness:
  "fst (runCronTick rev 100 [demo_job '' every:60s ''] new_event_db) = [tick_row 100 (demo_job '' every:60s '')]"
proof -
  obtain jobs db n where t: "runCronTick rev 100 [demo_job '' every:60s ''] new_event_db = (jobs, db, n)"
    using prod_cases3 by blast
  show ?thesis
    using cron_tick_exact [OF _ _ t] t by (simp add: cron_due_def demo_job_def)
qed

theorem huge_interval_always_due_witness: "cron_due 101 (tick_row 100 (demo_job ''every:999999999999s''))"
  by (rule huge_interval_always_due [of _ 999999999999]) (simp_all add: demo_job_def demo_schedule)

definition demo_fire :: event_row where
  "demo_fire = last (ed_events (snd (emitEvent 100 (cron_scope (demo_job '' every:60s '')) ''cron.fire''
     (cron_envelope (demo_job '' every:60s '')) None None new_event_db)))"

theorem cron_reaches_session_witness:
  "fst (drainSystemContext ''s'' (cron_fire_handler 200 (mapRow demo_fire) [])) =
     [''Scheduled cron job invocation. [contextLevel=full]'']"
proof -
  have "event_text demo_fire = cron_event 100 (demo_job '' every:60s '')"
    by (simp add: demo_fire_def emitEvent_def Let_def event_text_def cron_event_def)
  moreover have "q_type (mapRow demo_fire) = ''cron.fire''"
    by (simp add: demo_fire_def emitEvent_def Let_def mapRow_def)
  ultimately show ?thesis
    using cron_reaches_session [of "demo_job '' every:60s ''" "''s''" demo_fire 100 200 None "cron_fire_handler 200" "''s''" "[]"]
    by (simp add: demo_job_def createDefaultHeartbeatHandlers_def truthy_str_def drained map_get_def)
qed

end
