(* ===== verification/Tool_Loop.thy ===== *)
theory Tool_Loop
  imports Tool_Dispatch Cron_Scheduler
begin

text \<open>
  The loop of a turn (\<open>runToolLoop\<close> of \<open>daemon/src/sessions/tool-loop.ts\<close>): rounds of a model call and
  the tool calls it asks for, with the budgets that end a turn. A round is driven by a \<open>round_input\<close>:
  what the model replied, what the awaits of its calls brought and which messages operators sent.
  A list of inputs is a beginning of a turn, so that a turn that never ends is one on which every list
  leaves the loop running. The deferred compaction between rounds is left out.
\<close>

section \<open>Definitions\<close>

definition STRUCTURED_OUTPUT_MAX_RETRIES :: nat where "STRUCTURED_OUTPUT_MAX_RETRIES = 2"

definition MAX_CONSECUTIVE_INVALID_TOOL_CALLS :: nat where "MAX_CONSECUTIVE_INVALID_TOOL_CALLS = 5"

datatype model_reply =
    Reply "string option" "raw_call list" "string option" "string option"
  | ReplyNotConforming string
  | ReplyThrew string
  | ReplyAborted

record round_input =
  ri_aborted :: bool
  ri_reply :: model_reply
  ri_envs :: "nat \<Rightarrow> call_env"
  ri_steers :: "string list"

datatype breaker_tripped = StructuredOutputExhausted | InvalidToolCallBackstop | RunawayCancel

datatype args_state = ArgsFine | ArgsBad | ArgsTruncated

text \<open>Sanitizing the arguments of one call.\<close>

definition sanitize_call :: "loop_options \<Rightarrow> bool \<Rightarrow> raw_call \<Rightarrow> tool_call \<times> args_state" where
  "sanitize_call opts roundWasTruncated rc =
     (let tc = (\<lambda>args. \<lparr>tc_id = rc_id rc, tc_name = rc_name rc, tc_argsJson = args, tc_thoughtSignature = rc_thoughtSignature rc\<rparr>)
      in case rc_argsJson rc of
           None \<Rightarrow> (tc ''{}'', ArgsBad)
         | Some raw \<Rightarrow>
             (let fixedArgs = sanitizeJsonEscapes raw in
              case lo_parse opts fixedArgs of
                Some _ \<Rightarrow> (tc fixedArgs, ArgsFine)
              | None \<Rightarrow> (tc ''{}'', if roundWasTruncated then ArgsTruncated else ArgsBad)))"

definition ids_in_state :: "args_state \<Rightarrow> (tool_call \<times> args_state) list \<Rightarrow> string list" where
  "ids_in_state st calls = map (tc_id \<circ> fst) (filter (\<lambda>c. snd c = st) calls)"

definition answer_all :: "loop_options \<Rightarrow> tool_answer \<Rightarrow> tool_call list \<Rightarrow> loop_state \<Rightarrow> loop_state" where
  "answer_all opts a tcs s = fold (\<lambda>tc. answer opts (tc_id tc) a) tcs s"

definition pushSteerMessage :: "loop_options \<Rightarrow> steer_message \<Rightarrow> loop_state \<Rightarrow> loop_state" where
  "pushSteerMessage opts m s = appendTx opts (TxUser m) (s\<lparr>ls_steers := ls_steers s @ [m]\<rparr>)"

text \<open>\<open>handleRunawayVerdict\<close>: whether the turn has to be cancelled.\<close>

definition handleRunawayVerdict :: "loop_options \<Rightarrow> runaway_verdict \<Rightarrow> loop_state \<Rightarrow> bool \<times> loop_state" where
  "handleRunawayVerdict opts v s =
     (case v of
        VOk \<Rightarrow> (False, s)
      | VSteer trigger \<Rightarrow> (False, pushSteerMessage opts (SteerRunaway trigger) (audit ''runaway_breaker_steer'' [] s))
      | VCancel trigger \<Rightarrow> (True, (audit ''runaway_breaker_cancel'' [] s)\<lparr>ls_canceled := True\<rparr>))"

definition refresh :: "call_env \<Rightarrow> loop_state \<Rightarrow> loop_state" where
  "refresh env s =
     (case ce_refresh env of
        None \<Rightarrow> s
      | Some tools \<Rightarrow> s\<lparr>ls_names := allowedNames tools, ls_schemas := buildSchemaMap tools\<rparr>)"

text \<open>What the loop makes of the result of a call: stop the round, or take the next call.\<close>

datatype loop_next = Stop "loop_error + breaker_tripped option" | Next

definition after_dispatch ::
  "loop_options \<Rightarrow> tool_call \<Rightarrow> tool_call list \<Rightarrow> dispatch \<Rightarrow> loop_state \<Rightarrow> loop_next \<times> loop_state" where
  "after_dispatch opts tc rest d s =
     (case d of
        Prevented v \<Rightarrow>
          (case handleRunawayVerdict opts v (answer_all opts ABreakerSkipped rest s) of
             (cancel, s2) \<Rightarrow> (Stop (Inr (if cancel then Some RunawayCancel else None)), s2))
      | SkipTruncatedArgs \<Rightarrow>
          (Stop (Inl (ToolCallTruncated (the (tc_name tc)))),
           answer_all opts ASkipped rest (audit ''args_truncated_turn_terminated'' (tc_id tc) s))
      | SkipNearMiss \<Rightarrow>
          (let s2 = s\<lparr>ls_structuredOutputAttempt := ls_structuredOutputAttempt s + 1\<rparr> in
           (if STRUCTURED_OUTPUT_MAX_RETRIES < ls_structuredOutputAttempt s2
            then Stop (Inr (Some StructuredOutputExhausted)) else Next, s2))
      | _ \<Rightarrow>
          (if d = SkipUnknownTool \<or> d = SkipBadArgs \<or> d = SkipValidationError
           then
             (let s2 = s\<lparr>ls_consecutiveInvalid := ls_consecutiveInvalid s + 1\<rparr> in
              if MAX_CONSECUTIVE_INVALID_TOOL_CALLS < ls_consecutiveInvalid s2
              then (Stop (Inr (Some InvalidToolCallBackstop)), audit ''invalid_tool_call_backstop'' [] s2)
              else (Next, s2))
           else (Next, s\<lparr>ls_consecutiveInvalid := 0\<rparr>)))"

text \<open>The loop over the calls of a round, with the index of the next call.\<close>

fun dispatch_loop ::
  "loop_options \<Rightarrow> (nat \<Rightarrow> call_env) \<Rightarrow> string list \<Rightarrow> string list \<Rightarrow> nat \<Rightarrow> tool_call list \<Rightarrow> loop_state
     \<Rightarrow> (loop_error + breaker_tripped option) \<times> loop_state" where
  "dispatch_loop opts envs bad trunc n [] s = (Inr None, s)"
| "dispatch_loop opts envs bad trunc n (tc # rest) s =
     (case processSingleToolCall opts (envs n) bad trunc tc s of
        (Inl e, s1) \<Rightarrow> (Inl e, s1)
      | (Inr d, s1) \<Rightarrow>
          (case after_dispatch opts tc rest d s1 of
             (Stop r, s2) \<Rightarrow> (r, s2)
           | (Next, s2) \<Rightarrow> dispatch_loop opts envs bad trunc (n + 1) rest (refresh (envs n) s2)))"

text \<open>The budget of prose: whether the turn goes on.\<close>

definition charge_prose :: "loop_options \<Rightarrow> string option \<Rightarrow> loop_state \<Rightarrow> bool \<times> loop_state" where
  "charge_prose opts content s =
     (case (ls_breaker s, content) of
        (Some b, Some (c # cs)) \<Rightarrow>
          (case recordProse (length (c # cs)) b of
             (v, b') \<Rightarrow> handleRunawayVerdict opts v (s\<lparr>ls_breaker := Some b'\<rparr>))
      | _ \<Rightarrow> (False, s))"

definition cancel_answers :: "loop_options \<Rightarrow> tool_call list \<Rightarrow> loop_state \<Rightarrow> loop_state" where
  "cancel_answers opts tcs s =
     (if lo_transcript opts
      then answer_all opts (ABreakerCanceled False) (tl tcs) (answer_all opts (ABreakerCanceled True) (take 1 tcs) s)
      else s)"

text \<open>One round; \<open>True\<close> when the loop goes on.\<close>

definition run_calls ::
  "loop_options \<Rightarrow> round_input \<Rightarrow> string option \<Rightarrow> raw_call list \<Rightarrow> string option \<Rightarrow> string option \<Rightarrow> loop_state
     \<Rightarrow> (loop_error + bool) \<times> loop_state" where
  "run_calls opts inp content toolCalls finishReason reasoning s =
     (let sanitized = map (sanitize_call opts (isTruncationFinishReason finishReason)) toolCalls;
          bad = ids_in_state ArgsBad sanitized; trunc = ids_in_state ArgsTruncated sanitized;
          tcs = map fst sanitized;
          s1 = appendTx opts (TxAssistant content tcs reasoning) s
      in case charge_prose opts content s1 of
           (True, s2) \<Rightarrow> (Inr False, cancel_answers opts tcs s2)
         | (False, s2) \<Rightarrow>
             (let maxTools = nullish (lo_maxToolsPerBatch opts) 10 in
              if maxTools < length tcs
              then (Inr True, answer_all opts (ABatchLimit (length tcs) maxTools) tcs s2)
              else
                (case dispatch_loop opts (ri_envs inp) bad trunc 0 tcs s2 of
                   (Inl e, s3) \<Rightarrow> (Inl e, s3)
                 | (Inr (Some _), s3) \<Rightarrow> (Inr False, s3)
                 | (Inr None, s3) \<Rightarrow> (Inr True, fold (\<lambda>m. pushSteerMessage opts (SteerOperator m)) (ri_steers inp) s3))))"

definition run_round :: "loop_options \<Rightarrow> round_input \<Rightarrow> loop_state \<Rightarrow> (loop_error + bool) \<times> loop_state" where
  "run_round opts inp s =
     (if ri_aborted inp then (Inl TurnAborted, s)
      else
        (case ri_reply inp of
           ReplyAborted \<Rightarrow> (Inl TurnAborted, s)
         | ReplyThrew e \<Rightarrow> (Inl (OtherError e), s)
         | ReplyNotConforming raw \<Rightarrow>
             (let s1 = s\<lparr>ls_structuredOutputAttempt := ls_structuredOutputAttempt s + 1\<rparr>;
                  s2 = appendTx opts (TxAssistant (Some raw) [] None) (audit ''structured_output_validation_failed'' [] s1)
              in if STRUCTURED_OUTPUT_MAX_RETRIES < ls_structuredOutputAttempt s1 then (Inr False, s2)
                 else (Inr True, pushSteerMessage opts (SteerCorrection raw) s2))
         | Reply content toolCalls finishReason reasoning \<Rightarrow>
             (if toolCalls = []
              then
                (let s1 = (if truthy_str content then appendTx opts (TxAssistant content [] reasoning) s else s)
                 in (Inr False, s1\<lparr>ls_structuredOutputAttempt := 0, ls_consecutiveInvalid := 0\<rparr>))
              else run_calls opts inp content toolCalls finishReason reasoning s)))"

text \<open>\<open>Inr True\<close>: after these inputs the loop is still running.\<close>

fun run_rounds :: "loop_options \<Rightarrow> round_input list \<Rightarrow> loop_state \<Rightarrow> (loop_error + bool) \<times> loop_state" where
  "run_rounds opts [] s = (Inr True, s)"
| "run_rounds opts (inp # inps) s =
     (case run_round opts inp s of
        (Inr True, s') \<Rightarrow> run_rounds opts inps s'
      | (r, s') \<Rightarrow> (r, s'))"

definition new_loop_state :: "tool_list \<Rightarrow> breaker option \<Rightarrow> loop_state" where
  "new_loop_state tools b =
     \<lparr>ls_pushed = [], ls_steers = [], ls_events = [], ls_executed = [], ls_audit = [], ls_names = allowedNames tools,
      ls_schemas = buildSchemaMap tools, ls_breaker = b, ls_structuredOutputAttempt = 0, ls_consecutiveInvalid = 0,
      ls_canceled = False\<rparr>"

text \<open>The reason of a failed run; \<open>describe\<close> is \<open>String(e)\<close> of the error that was thrown.\<close>

definition error_reason :: "(loop_error \<Rightarrow> string) \<Rightarrow> loop_error \<Rightarrow> string" where
  "error_reason describe e = (if e = TurnAborted then ''aborted'' else ''error:'' @ describe e)"

text \<open>
  The rows that a turn appends to the transcript; \<open>text\<close> and \<open>meta\<close> give the texts and the metadata of
  the events, and a missing name is stored as an empty one.
\<close>

definition tx_of :: "(tx_event \<Rightarrow> string option) \<Rightarrow> (tx_event \<Rightarrow> json option) \<Rightarrow> string \<Rightarrow> string \<Rightarrow> tx_event \<Rightarrow> tx_input" where
  "tx_of text meta sessionId ctxSeg ev =
     \<lparr>ti_session = sessionId, ti_segment = ctxSeg,
      ti_role = (case ev of TxAssistant _ _ _ \<Rightarrow> ''assistant'' | TxTool _ _ \<Rightarrow> ''tool'' | TxUser _ \<Rightarrow> ''user''),
      ti_content = (case ev of TxAssistant content _ _ \<Rightarrow> content | _ \<Rightarrow> text ev),
      ti_toolCallId = (case ev of TxTool i _ \<Rightarrow> Some i | _ \<Rightarrow> None),
      ti_toolCalls = (case ev of
          TxAssistant _ tcs _ \<Rightarrow>
            Some (map (\<lambda>tc. \<lparr>te_id = tc_id tc, te_name = nullish (tc_name tc) [], te_argsJson = tc_argsJson tc,
              te_thoughtSignature = tc_thoughtSignature tc\<rparr>) tcs)
        | _ \<Rightarrow> None),
      ti_metadata = meta ev, ti_systemContext = None\<rparr>"

definition turn_ops ::
  "(tx_event \<Rightarrow> string option) \<Rightarrow> (tx_event \<Rightarrow> json option) \<Rightarrow> (nat \<Rightarrow> string) \<Rightarrow> string \<Rightarrow> string \<Rightarrow> loop_state \<Rightarrow> tx_op list" where
  "turn_ops text meta clock sessionId ctxSeg s =
     map (\<lambda>(k, ev). TxAppend (clock k) (tx_of text meta sessionId ctxSeg ev)) (enumerate 0 (ls_events s))"

text \<open>
  The whole turn with its row in the table of tool runs. \<open>others\<close> is what other writers do to that table
  while the turn runs.
\<close>

datatype loop_start_error = SegmentRequired | StartSql sql_error

definition runToolLoop ::
  "loop_options \<Rightarrow> (loop_error \<Rightarrow> string) \<Rightarrow> string option \<Rightarrow> tool_list \<Rightarrow> breaker option \<Rightarrow> round_input list
     \<Rightarrow> (tool_run list \<Rightarrow> tool_run list) \<Rightarrow> tool_run list
     \<Rightarrow> loop_start_error + (loop_error + bool) \<times> loop_state \<times> tool_run list" where
  "runToolLoop opts describe contextSegmentId tools b inps others runs =
     (if lo_transcript opts \<and> js_trim (nullish contextSegmentId []) = [] then Inl SegmentRequired
      else
        (case insertRunning (lo_runId opts) (lo_session opts) runs of
           Inl e \<Rightarrow> Inl (StartSql e)
         | Inr runs0 \<Rightarrow>
             (let runs1 = others runs0 in
              case run_rounds opts inps (new_loop_state tools b) of
                (Inr True, s) \<Rightarrow> Inr (Inr True, s, runs1)
              | (Inr False, s) \<Rightarrow> Inr (Inr False, s, markCompleted (lo_runId opts) runs1)
              | (Inl Suspended, s) \<Rightarrow> Inr (Inl Suspended, s, runs1)
              | (Inl e, s) \<Rightarrow>
                  Inr (Inl e, s,
                    if (case find (\<lambda>r. tr_id r = lo_runId opts) runs1 of
                          None \<Rightarrow> False | Some r \<Rightarrow> tr_status r = RunRunning)
                    then markFailed (lo_runId opts) (error_reason describe e) runs1 else runs1))))"

section \<open>Every call is answered\<close>

abbreviation pushed_ids :: "loop_state \<Rightarrow> string list" where
  "pushed_ids s \<equiv> map fst (ls_pushed s)"

lemma answer_all_pushed [simp]: "pushed_ids (answer_all opts a tcs s) = pushed_ids s @ map tc_id tcs"
  by (induction tcs arbitrary: s) (simp_all add: answer_all_def)

lemma handle_pushed [simp]: "ls_pushed (snd (handleRunawayVerdict opts v s)) = ls_pushed s"
  by (simp add: handleRunawayVerdict_def pushSteerMessage_def split: runaway_verdict.splits)

lemma handle_cancel: "fst (handleRunawayVerdict opts v s) = is_cancel v"
  by (cases v) (simp_all add: handleRunawayVerdict_def)

lemma refresh_simps [simp]:
  "ls_pushed (refresh env s) = ls_pushed s" "ls_events (refresh env s) = ls_events s"
  "ls_consecutiveInvalid (refresh env s) = ls_consecutiveInvalid s"
  "ls_breaker (refresh env s) = ls_breaker s" "ls_canceled (refresh env s) = ls_canceled s"
  by (simp_all add: refresh_def split: option.splits)

lemma dispatch_answers_one:
  assumes "processSingleToolCall opts env bad trunc tc s = (Inr d, s')"
  shows "pushed_ids s' = pushed_ids s @ [tc_id tc]"
  using dispatch_effect(2) [OF assms] by (auto simp: answered_def)

lemma after_dispatch_pushed:
  assumes "after_dispatch opts tc rest d s = (nx, s')"
  shows "nx = Next \<Longrightarrow> pushed_ids s' = pushed_ids s"
    and "nx = Stop (Inr None) \<or> nx = Stop (Inr (Some RunawayCancel)) \<Longrightarrow> pushed_ids s' = pushed_ids s @ map tc_id rest"
proof -
  have "pushed_ids (snd (handleRunawayVerdict opts v (answer_all opts a rest s))) = pushed_ids s @ map tc_id rest" for v a
    by simp
  then show "nx = Next \<Longrightarrow> pushed_ids s' = pushed_ids s"
    "nx = Stop (Inr None) \<or> nx = Stop (Inr (Some RunawayCancel)) \<Longrightarrow> pushed_ids s' = pushed_ids s @ map tc_id rest"
    using assms by (auto simp: after_dispatch_def Let_def case_prod_beta split: dispatch.splits if_splits)
qed

lemma dispatch_loop_answers:
  "dispatch_loop opts envs bad trunc n tcs s = (Inr t, s') \<Longrightarrow> t = None \<or> t = Some RunawayCancel \<Longrightarrow>
     pushed_ids s' = pushed_ids s @ map tc_id tcs"
proof (induction opts envs bad trunc n tcs s rule: dispatch_loop.induct)
  case (2 opts envs bad trunc n tc rest s)
  obtain d s1 where d: "processSingleToolCall opts (envs n) bad trunc tc s = (Inr d, s1)"
    using 2(2) by (auto split: sum.splits prod.splits)
  obtain nx s2 where nx: "after_dispatch opts tc rest d s1 = (nx, s2)" by fastforce
  note one = dispatch_answers_one [OF d] and A = after_dispatch_pushed [OF nx]
  show ?case
  proof (cases nx)
    case (Stop r)
    then show ?thesis using 2(2,3) d nx one A(2) by auto
  next
    case Next
    then show ?thesis using 2(1) [OF d [symmetric] refl nx [symmetric] Next] 2(2,3) d nx one A(1) by simp
  qed
qed simp

fun reply_ids :: "model_reply \<Rightarrow> string list" where
  "reply_ids (Reply content calls finish reasoning) = map rc_id calls"
| "reply_ids _ = []"

lemma sanitize_call_id [simp]: "tc_id (fst (sanitize_call opts t rc)) = rc_id rc"
  by (simp add: sanitize_call_def Let_def split: option.splits)

lemma pushSteer_pushed [simp]:
  "ls_pushed (pushSteerMessage opts m s) = ls_pushed s"
  "ls_pushed (fold (\<lambda>m. pushSteerMessage opts (SteerOperator m)) ms s) = ls_pushed s"
proof -
  show p: "ls_pushed (pushSteerMessage opts m s) = ls_pushed s" for m s by (simp add: pushSteerMessage_def)
  show "ls_pushed (fold (\<lambda>m. pushSteerMessage opts (SteerOperator m)) ms s) = ls_pushed s"
    by (induction ms arbitrary: s) (simp_all add: p)
qed

lemma charge_prose_pushed [simp]: "ls_pushed (snd (charge_prose opts content s)) = ls_pushed s"
  by (auto simp: charge_prose_def split: option.splits list.splits prod.splits)

lemma run_round_answers:
  assumes "run_round opts inp s = (Inr True, s')"
  shows "pushed_ids s' = pushed_ids s @ reply_ids (ri_reply inp)"
proof (cases "ri_reply inp")
  case (Reply content calls fr re)
  let ?sc = "map (sanitize_call opts (isTruncationFinishReason fr)) calls"
  let ?s1 = "appendTx opts (TxAssistant content (map fst ?sc) re) s"
  have ne: "calls \<noteq> []" "\<not> ri_aborted inp" using assms Reply by (auto simp: run_round_def Let_def split: if_splits)
  have run: "run_calls opts inp content calls fr re s = (Inr True, s')" using assms Reply ne by (simp add: run_round_def)
  obtain s2 where s2: "charge_prose opts content ?s1 = (False, s2)"
    using run by (cases "charge_prose opts content ?s1") (auto simp: run_calls_def Let_def split: bool.splits)
  have p2: "ls_pushed s2 = ls_pushed s" using arg_cong [OF s2, of "\<lambda>x. ls_pushed (snd x)"] by simp
  have ids: "map tc_id (map fst ?sc) = map rc_id calls" by simp
  show ?thesis
  proof (cases "nullish (lo_maxToolsPerBatch opts) 10 < length calls")
    case True
    then show ?thesis using run s2 p2 Reply by (auto simp: run_calls_def Let_def)
  next
    case False
    obtain s3 where s3: "dispatch_loop opts (ri_envs inp) (ids_in_state ArgsBad ?sc) (ids_in_state ArgsTruncated ?sc) 0 (map fst ?sc) s2 = (Inr None, s3)"
      "s' = fold (\<lambda>m. pushSteerMessage opts (SteerOperator m)) (ri_steers inp) s3"
      using run s2 False by (auto simp: run_calls_def Let_def split: prod.splits sum.splits option.splits)
    from dispatch_loop_answers [OF s3(1)] show ?thesis using p2 s3(2) Reply by (simp add: ids)
  qed
qed (use assms in \<open>auto simp: run_round_def Let_def split: if_splits\<close>)

text \<open>
  C9. As long as a turn runs, every tool call the model has made was answered exactly once and in order:
  executed, refused, gated, blocked by a breaker or rejected with its batch, no call is left open when
  the model is asked again.
\<close>
theorem every_call_answered:
  assumes "run_rounds opts inps (new_loop_state tools b) = (Inr True, s)"
  shows "map fst (ls_pushed s) = concat (map (\<lambda>inp. reply_ids (ri_reply inp)) inps)"
proof -
  have "run_rounds opts inps s0 = (Inr True, s) \<Longrightarrow>
      pushed_ids s = pushed_ids s0 @ concat (map (\<lambda>inp. reply_ids (ri_reply inp)) inps)" for s0
  proof (induction inps arbitrary: s0)
    case (Cons inp inps)
    obtain s1 where s1: "run_round opts inp s0 = (Inr True, s1)" "run_rounds opts inps s1 = (Inr True, s)"
      using Cons.prems by (auto split: prod.splits sum.splits bool.splits)
    show ?case using Cons.IH [OF s1(2)] run_round_answers [OF s1(1)] by simp
  qed simp
  from this [OF assms] show ?thesis by (simp add: new_loop_state_def)
qed

section \<open>When a turn ends, and when it does not\<close>

text \<open>Calls that can never run, although their names are well formed: their arguments are not JSON.\<close>

definition garbled :: "loop_options \<Rightarrow> raw_call \<Rightarrow> bool" where
  "garbled opts rc \<longleftrightarrow>
     valid_tool_name (rc_name rc) \<and> \<not> thinking_leak (the (rc_name rc)) \<and> \<not> isNearMissStructuredOutputTool (the (rc_name rc))
     \<and> (case rc_argsJson rc of None \<Rightarrow> True | Some raw \<Rightarrow> lo_parse opts (sanitizeJsonEscapes raw) = None)"

definition garbled_round :: "loop_options \<Rightarrow> round_input \<Rightarrow> bool" where
  "garbled_round opts inp \<longleftrightarrow>
     \<not> ri_aborted inp \<and> (\<forall>n. \<not> ce_abortedBefore (ri_envs inp n))
     \<and> (case ri_reply inp of
          Reply content calls fr re \<Rightarrow>
            \<not> isTruncationFinishReason fr \<and> calls \<noteq> []
            \<and> length calls \<le> nullish (lo_maxToolsPerBatch opts) 10 \<and> list_all (garbled opts) calls
        | _ \<Rightarrow> False)"

lemma sanitize_garbled:
  assumes "garbled opts rc"
  shows "sanitize_call opts False rc =
    (\<lparr>tc_id = rc_id rc, tc_name = rc_name rc, tc_argsJson = ''{}'', tc_thoughtSignature = rc_thoughtSignature rc\<rparr>, ArgsBad)"
  using assms by (auto simp: garbled_def sanitize_call_def Let_def split: option.splits)

lemma dispatch_garbled:
  assumes "valid_tool_name (tc_name tc)" "\<not> thinking_leak (the (tc_name tc))"
    "\<not> isNearMissStructuredOutputTool (the (tc_name tc))" "tc_id tc \<in> set bad" "\<not> ce_abortedBefore env"
  obtains d s' where "processSingleToolCall opts env bad [] tc s = (Inr d, s')" "d = SkipUnknownTool \<or> d = SkipBadArgs"
    "ls_consecutiveInvalid s' = ls_consecutiveInvalid s"
proof -
  obtain d s' where st: "stage_name opts bad [] tc s = (Some d, s')" "d = SkipUnknownTool \<or> d = SkipBadArgs"
  proof (cases "the (tc_name tc) \<in> set (ls_names s)")
    case True
    then show thesis using assms that [of SkipBadArgs] by (simp add: stage_name_def Let_def)
  next
    case False
    then show thesis using assms that [of SkipUnknownTool] by (simp add: stage_name_def Let_def)
  qed
  show ?thesis
    using st assms(5) stage_name_effect [OF st(1)] by (intro that [of d s']) (auto simp: processSingleToolCall_def same_books_def)
qed

lemma dispatch_loop_garbled:
  assumes "\<forall>tc \<in> set tcs. valid_tool_name (tc_name tc) \<and> \<not> thinking_leak (the (tc_name tc))
      \<and> \<not> isNearMissStructuredOutputTool (the (tc_name tc)) \<and> tc_id tc \<in> set bad"
    and "\<forall>n. \<not> ce_abortedBefore (envs n)" "ls_consecutiveInvalid s \<le> 5"
  shows "\<exists>s'. dispatch_loop opts envs bad [] n tcs s =
      (Inr (if 5 < ls_consecutiveInvalid s + length tcs then Some InvalidToolCallBackstop else None), s')
    \<and> (ls_consecutiveInvalid s + length tcs \<le> 5 \<longrightarrow> ls_consecutiveInvalid s' = ls_consecutiveInvalid s + length tcs)"
  using assms
proof (induction tcs arbitrary: n s)
  case (Cons tc tcs)
  obtain d s1 where d: "processSingleToolCall opts (envs n) bad [] tc s = (Inr d, s1)" "d = SkipUnknownTool \<or> d = SkipBadArgs"
    "ls_consecutiveInvalid s1 = ls_consecutiveInvalid s"
    using dispatch_garbled [of tc bad "envs n" opts s] Cons.prems by auto
  let ?s2 = "s1\<lparr>ls_consecutiveInvalid := ls_consecutiveInvalid s1 + 1\<rparr>"
  have a: "after_dispatch opts tc tcs d s1 =
      (if 5 < ls_consecutiveInvalid s + 1 then (Stop (Inr (Some InvalidToolCallBackstop)), audit ''invalid_tool_call_backstop'' [] ?s2)
       else (Next, ?s2))"
    using d(2,3) by (auto simp: after_dispatch_def Let_def MAX_CONSECUTIVE_INVALID_TOOL_CALLS_def)
  show ?case
  proof (cases "5 < ls_consecutiveInvalid s + 1")
    case True
    then show ?thesis using d(1) a by simp
  next
    case False
    then have "ls_consecutiveInvalid (refresh (envs n) ?s2) \<le> 5" using d(3) by simp
    from Cons.IH [OF _ Cons.prems(2) this, of "n + 1"] Cons.prems(1) obtain s' where
      "dispatch_loop opts envs bad [] (n + 1) tcs (refresh (envs n) ?s2) =
        (Inr (if 5 < ls_consecutiveInvalid s + 1 + length tcs then Some InvalidToolCallBackstop else None), s')"
      "ls_consecutiveInvalid s + 1 + length tcs \<le> 5 \<longrightarrow> ls_consecutiveInvalid s' = ls_consecutiveInvalid s + 1 + length tcs"
      using d(3) by auto
    then show ?thesis using False d(1) a by simp
  qed
qed simp

lemma charge_no_prose: "\<not> truthy_str content \<Longrightarrow> charge_prose opts content s = (False, s)"
  by (auto simp: charge_prose_def truthy_str_def split: option.splits list.splits)

lemma charge_prose_invalid:
  "charge_prose opts content s = (stop, s') \<Longrightarrow> ls_consecutiveInvalid s' = ls_consecutiveInvalid s"
  by (auto simp: charge_prose_def handleRunawayVerdict_def pushSteerMessage_def
      split: option.splits list.splits prod.splits runaway_verdict.splits)

lemma pushSteer_invalid [simp]:
  "ls_consecutiveInvalid (fold (\<lambda>m. pushSteerMessage opts (SteerOperator m)) ms s) = ls_consecutiveInvalid s"
  by (induction ms arbitrary: s) (simp_all add: pushSteerMessage_def)

lemma run_round_garbled:
  assumes "garbled_round opts inp" "ls_consecutiveInvalid s \<le> 5"
  shows "fst (run_round opts inp s) = Inr False
    \<or> (fst (run_round opts inp s) = Inr True \<and> ls_consecutiveInvalid s < ls_consecutiveInvalid (snd (run_round opts inp s))
        \<and> ls_consecutiveInvalid (snd (run_round opts inp s)) \<le> 5)"
proof -
  obtain content calls fr re where reply: "ri_reply inp = Reply content calls fr re"
    using assms(1) by (auto simp: garbled_round_def split: model_reply.splits)
  note G = assms(1) [unfolded garbled_round_def reply, simplified]
  let ?tc = "\<lambda>rc. \<lparr>tc_id = rc_id rc, tc_name = rc_name rc, tc_argsJson = ''{}'', tc_thoughtSignature = rc_thoughtSignature rc\<rparr>"
  let ?tcs = "map ?tc calls" and ?bad = "map rc_id calls"
  have sc: "map (sanitize_call opts (isTruncationFinishReason fr)) calls = map (\<lambda>rc. (?tc rc, ArgsBad)) calls"
    using G sanitize_garbled by (auto simp: list_all_iff)
  have ids: "ids_in_state ArgsBad (map (\<lambda>rc. (?tc rc, ArgsBad)) calls) = ?bad"
    "ids_in_state ArgsTruncated (map (\<lambda>rc. (?tc rc, ArgsBad)) calls) = []"
    by (simp_all add: ids_in_state_def filter_map comp_def)
  have tcs: "map fst (map (\<lambda>rc. (?tc rc, ArgsBad)) calls) = ?tcs" by simp
  let ?s1 = "appendTx opts (TxAssistant content ?tcs re) s"
  obtain stop s2 where ch: "charge_prose opts content ?s1 = (stop, s2)" by fastforce
  have n2: "ls_consecutiveInvalid s2 = ls_consecutiveInvalid s" using charge_prose_invalid [OF ch] by simp
  have "\<forall>tc \<in> set ?tcs. valid_tool_name (tc_name tc) \<and> \<not> thinking_leak (the (tc_name tc))
      \<and> \<not> isNearMissStructuredOutputTool (the (tc_name tc)) \<and> tc_id tc \<in> set ?bad"
    using G by (auto simp: list_all_iff garbled_def)
  from dispatch_loop_garbled [OF this, of "ri_envs inp" s2 opts 0] G assms(2) n2 obtain s' where
    s': "dispatch_loop opts (ri_envs inp) ?bad [] 0 ?tcs s2 =
      (Inr (if 5 < ls_consecutiveInvalid s + length calls then Some InvalidToolCallBackstop else None), s')"
    "ls_consecutiveInvalid s + length calls \<le> 5 \<Longrightarrow> ls_consecutiveInvalid s' = ls_consecutiveInvalid s + length calls"
    by auto
  have rr: "run_round opts inp s = run_calls opts inp content calls fr re s" using G by (simp add: run_round_def reply)
  have "run_round opts inp s = (if stop then (Inr False, cancel_answers opts ?tcs s2)
      else if 5 < ls_consecutiveInvalid s + length calls then (Inr False, s')
      else (Inr True, fold (\<lambda>m. pushSteerMessage opts (SteerOperator m)) (ri_steers inp) s'))"
    unfolding rr run_calls_def Let_def sc ids tcs ch using G s'(1) by simp
  moreover have "0 < length calls" using G by simp
  ultimately show ?thesis using s'(2) by auto
qed

text \<open>
  C19. The backstop: a model that sends nothing but calls whose arguments are not JSON is stopped. Take rounds in
  which the turn is not aborted and the reply was not cut off by the token limit, holds at least one call and
  no more than \<open>maxToolsPerBatch\<close>, and each of its calls has missing or unparseable arguments and a
  name that is well formed, no leaked thought and no near miss of the structured-output tool. Whatever the
  tools, the prose beside the calls and the operators' messages are, after at most six such rounds the turn
  is over. Without the limit on the batch or with malformed names it is not: see
  \<open>oversized_batches_never_end\<close> and \<open>malformed_names_never_end\<close>.
\<close>
theorem garbled_calls_end_turn:
  assumes "list_all (garbled_round opts) inps" "6 \<le> length inps"
  shows "fst (run_rounds opts inps (new_loop_state tools b)) = Inr False"
proof -
  have "fst (run_rounds opts inps s) = Inr False"
    if "ls_consecutiveInvalid s \<le> 5" "6 \<le> ls_consecutiveInvalid s + length inps" "list_all (garbled_round opts) inps" for s
    using that
  proof (induction inps arbitrary: s)
    case (Cons inp inps)
    obtain r s1 where r: "run_round opts inp s = (r, s1)" by fastforce
    then consider "r = Inr False" | "r = Inr True" "ls_consecutiveInvalid s < ls_consecutiveInvalid s1" "ls_consecutiveInvalid s1 \<le> 5"
      using run_round_garbled [of opts inp s] Cons.prems by auto
    then show ?case
    proof cases
      case 2
      then show ?thesis using Cons.IH [of s1] Cons.prems r by simp
    qed (simp add: r)
  qed simp
  from this [of "new_loop_state tools b"] show ?thesis using assms by (simp add: new_loop_state_def)
qed

text \<open>
  A batch that is over the limit is rejected before any of its calls is looked at: it is counted neither by
  the backstop nor, when it comes without prose, by the circuit breaker. A model that sends only such
  batches keeps its turn running for any number of rounds.
\<close>

definition oversized_round :: "loop_options \<Rightarrow> round_input \<Rightarrow> bool" where
  "oversized_round opts inp \<longleftrightarrow>
     \<not> ri_aborted inp
     \<and> (case ri_reply inp of
          Reply content calls fr re \<Rightarrow> \<not> truthy_str content \<and> nullish (lo_maxToolsPerBatch opts) 10 < length calls
        | _ \<Rightarrow> False)"

theorem oversized_batches_never_end:
  assumes "list_all (oversized_round opts) inps"
  shows "fst (run_rounds opts inps s) = Inr True"
  using assms
proof (induction inps arbitrary: s)
  case (Cons inp inps)
  obtain content calls fr re where reply: "ri_reply inp = Reply content calls fr re"
    using Cons.prems by (auto simp: oversized_round_def split: model_reply.splits)
  have "\<not> ri_aborted inp" "\<not> truthy_str content" "nullish (lo_maxToolsPerBatch opts) 10 < length calls"
    using Cons.prems by (simp_all add: oversized_round_def reply)
  then have "fst (run_round opts inp s) = Inr True"
    by (auto simp: run_round_def reply run_calls_def Let_def charge_no_prose)
  then obtain s1 where "run_round opts inp s = (Inr True, s1)" by (metis prod.collapse)
  then show ?case using Cons.IH [of s1] Cons.prems by simp
qed simp

text \<open>Rounds in which every call has a malformed name.\<close>

definition nameless_round :: "round_input \<Rightarrow> bool" where
  "nameless_round inp \<longleftrightarrow>
     \<not> ri_aborted inp \<and> (\<forall>n. \<not> ce_abortedBefore (ri_envs inp n))
     \<and> (case ri_reply inp of
          Reply content calls fr re \<Rightarrow>
            \<not> truthy_str content \<and> calls \<noteq> [] \<and> list_all (\<lambda>rc. \<not> valid_tool_name (rc_name rc)) calls
        | _ \<Rightarrow> False)"

lemma dispatch_loop_nameless:
  "\<forall>tc \<in> set tcs. \<not> valid_tool_name (tc_name tc) \<Longrightarrow> \<forall>n. \<not> ce_abortedBefore (envs n) \<Longrightarrow>
     fst (dispatch_loop opts envs bad trunc n tcs s) = Inr None"
proof (induction tcs arbitrary: n s)
  case (Cons tc tcs)
  obtain s1 where "processSingleToolCall opts (envs n) bad trunc tc s = (Inr SkipInvalidName, s1)"
    using Cons.prems by (simp add: processSingleToolCall_def stage_name_def Let_def)
  then show ?case using Cons by (simp add: after_dispatch_def)
qed simp

text \<open>
  C39. The comment at the end of a round says that the breakers keep the loop from spinning forever. A call
  whose name is malformed resets the counter of invalid calls and never reaches the circuit breaker: a
  model that sends nothing else keeps its turn running for any number of rounds.
\<close>
theorem malformed_names_never_end:
  assumes "list_all nameless_round inps"
  shows "fst (run_rounds opts inps s) = Inr True"
  using assms
proof (induction inps arbitrary: s)
  case (Cons inp inps)
  obtain content calls fr re where reply: "ri_reply inp = Reply content calls fr re"
    using Cons.prems by (auto simp: nameless_round_def split: model_reply.splits)
  have G: "\<not> ri_aborted inp" "\<forall>n. \<not> ce_abortedBefore (ri_envs inp n)" "\<not> truthy_str content" "calls \<noteq> []"
    "\<forall>rc \<in> set calls. \<not> valid_tool_name (rc_name rc)"
    using Cons.prems by (simp_all add: nameless_round_def reply list_all_iff)
  have "tc_name (fst (sanitize_call opts x rc)) = rc_name rc" for x rc
    by (simp add: sanitize_call_def Let_def split: option.splits)
  then have "\<forall>tc \<in> set (map fst (map (sanitize_call opts x) calls)). \<not> valid_tool_name (tc_name tc)" for x
    using G(5) by simp
  from dispatch_loop_nameless [OF this G(2)] have d: "fst (dispatch_loop opts (ri_envs inp) bad trunc 0
      (map fst (map (sanitize_call opts x) calls)) s1) = Inr None" for bad trunc x s1 .
  have "fst (run_round opts inp s) = Inr True"
    using G(1,3,4) d by (simp add: run_round_def reply run_calls_def Let_def charge_no_prose case_prod_beta split: sum.splits option.splits)
  then obtain s1 where "run_round opts inp s = (Inr True, s1)" by (metis prod.collapse)
  then show ?case using Cons.IH [of s1] Cons.prems by simp
qed simp

section \<open>The row of a turn and its transcript\<close>

text \<open>
  The row of a turn that threw: it fails with the reason of the error if it is still running, and is left as it
  is if another writer has settled it meanwhile. A turn that ended completes its row in any case. The rows of other runs stay
  as the other writers left them.
\<close>

definition settled_row :: "(loop_error \<Rightarrow> string) \<Rightarrow> loop_error + bool \<Rightarrow> tool_run \<Rightarrow> tool_run" where
  "settled_row describe r row =
     (case r of
        Inr going \<Rightarrow> if going then row else row\<lparr>tr_status := RunCompleted, tr_reason := None\<rparr>
      | Inl e \<Rightarrow>
          if e = Suspended \<or> tr_status row \<noteq> RunRunning then row
          else row\<lparr>tr_status := RunFailed, tr_reason := Some (error_reason describe e)\<rparr>)"

lemma find_distinct_key: "distinct (map k xs) \<Longrightarrow> x \<in> set xs \<Longrightarrow> find (\<lambda>y. k y = k x) xs = Some x"
  by (induction xs) (auto simp: image_iff)

theorem run_row_settled:
  assumes "runToolLoop opts describe seg tools b inps others runs = Inr (r, s, runs')"
    and "distinct (map tr_id (others (runs @ [\<lparr>tr_id = lo_runId opts, tr_session = lo_session opts,
      tr_status = RunRunning, tr_reason = None\<rparr>])))"
  shows "runs' = map (\<lambda>row. if tr_id row = lo_runId opts then settled_row describe r row else row)
    (others (runs @ [\<lparr>tr_id = lo_runId opts, tr_session = lo_session opts, tr_status = RunRunning, tr_reason = None\<rparr>]))"
proof -
  let ?i = "lo_runId opts"
  let ?row = "\<lparr>tr_id = ?i, tr_session = lo_session opts, tr_status = RunRunning, tr_reason = None\<rparr>"
  let ?runs = "others (runs @ [?row])"
  have ins: "insertRunning ?i (lo_session opts) runs = Inr (runs @ [?row])"
    using assms(1) by (auto simp: runToolLoop_def insertRunning_def split: if_splits)
  have f: "find (\<lambda>r. tr_id r = ?i) ?runs = Some row" if "row \<in> set ?runs" "tr_id row = ?i" for row
    using find_distinct_key [OF assms(2) that(1)] that(2) by simp
  let ?alive = "case find (\<lambda>r. tr_id r = ?i) ?runs of None \<Rightarrow> False | Some r \<Rightarrow> tr_status r = RunRunning"
  have runs': "runs' = (case r of
      Inr going \<Rightarrow> if going then ?runs else markCompleted ?i ?runs
    | Inl e \<Rightarrow> if e = Suspended \<or> \<not> ?alive then ?runs else markFailed ?i (error_reason describe e) ?runs)"
    using assms(1) ins
    by (auto simp: runToolLoop_def Let_def split: if_splits prod.splits sum.splits bool.splits loop_error.splits)
  show ?thesis
  proof (cases r)
    case (Inr going)
    then show ?thesis unfolding runs' by (cases going) (auto simp: settled_row_def markCompleted_def intro!: map_idI [symmetric])
  next
    case (Inl e)
    have "row = settled_row describe (Inl e) row" if "\<not> ?alive" "row \<in> set ?runs" "tr_id row = ?i" for row
      using that f by (auto simp: settled_row_def)
    moreover have "tr_status row = RunRunning" if "?alive" "row \<in> set ?runs" "tr_id row = ?i" for row
      using that f by auto
    ultimately show ?thesis
      unfolding runs' using Inl
      by (cases "e = Suspended \<or> \<not> ?alive")
        (auto simp: settled_row_def markFailed_def intro!: map_idI [symmetric])
  qed
qed

definition event_ok :: "tx_event \<Rightarrow> bool" where
  "event_ok ev = (case ev of
     TxTool i _ \<Rightarrow> i \<noteq> [] | TxAssistant _ tcs _ \<Rightarrow> list_all (\<lambda>tc. tc_id tc \<noteq> []) tcs | TxUser _ \<Rightarrow> True)"

definition events_ok :: "loop_state \<Rightarrow> bool" where
  "events_ok s \<longleftrightarrow> list_all event_ok (ls_events s)"

lemma events_ok_append [simp]: "events_ok (appendTx opts ev s) \<longleftrightarrow> events_ok s \<and> (lo_transcript opts \<longrightarrow> event_ok ev)"
  by (auto simp: events_ok_def)

lemma events_ok_same: "ls_events t = ls_events s \<Longrightarrow> events_ok t = events_ok s"
  by (simp add: events_ok_def)

lemma events_ok_simps [simp]:
  "events_ok (audit p i s) = events_ok s" "events_ok (refresh env s) = events_ok s"
  "events_ok (s\<lparr>ls_consecutiveInvalid := n\<rparr>) = events_ok s" "events_ok (s\<lparr>ls_structuredOutputAttempt := m\<rparr>) = events_ok s"
  "events_ok (s\<lparr>ls_canceled := c\<rparr>) = events_ok s" "events_ok (s\<lparr>ls_breaker := br\<rparr>) = events_ok s"
  "events_ok (s\<lparr>ls_steers := ms\<rparr>) = events_ok s" "events_ok (pushToolMessage i a s) = events_ok s"
  by (simp_all add: events_ok_def)

lemma events_steer [simp]: "events_ok (pushSteerMessage opts m s) = events_ok s"
  by (simp add: pushSteerMessage_def event_ok_def)

lemma events_steers [simp]: "events_ok (fold (\<lambda>m. pushSteerMessage opts (SteerOperator m)) ms s) = events_ok s"
  by (induction ms arbitrary: s) simp_all

lemma events_handle [simp]: "events_ok (snd (handleRunawayVerdict opts v s)) = events_ok s"
  by (simp add: handleRunawayVerdict_def split: runaway_verdict.splits)

lemma events_answer_all: "events_ok s \<Longrightarrow> list_all (\<lambda>tc. tc_id tc \<noteq> []) tcs \<Longrightarrow> events_ok (answer_all opts a tcs s)"
  by (induction tcs arbitrary: s) (simp_all add: answer_all_def answer_def event_ok_def)

lemma events_dispatch:
  "processSingleToolCall opts env bad trunc tc s = (r, s') \<Longrightarrow> events_ok s \<Longrightarrow> tc_id tc \<noteq> [] \<Longrightarrow> events_ok s'"
  using dispatch_effect(2,3) [of opts env bad trunc tc s r s'] by (cases r) (auto simp: answered_def events_ok_def event_ok_def)

lemma events_after:
  assumes "after_dispatch opts tc rest d s = (nx, s')" "events_ok s" "list_all (\<lambda>tc. tc_id tc \<noteq> []) rest"
  shows "events_ok s'"
proof -
  have "events_ok (snd (handleRunawayVerdict opts v (answer_all opts a rest s)))"
    "events_ok (answer_all opts a rest (audit p i s))" for v a p i
    using assms(2,3) by (simp_all add: events_answer_all)
  then show ?thesis
    using assms(1,2) by (auto simp: after_dispatch_def Let_def case_prod_beta split: dispatch.splits if_splits)
qed

lemma events_loop:
  "dispatch_loop opts envs bad trunc n tcs s = (r, s') \<Longrightarrow> events_ok s \<Longrightarrow> list_all (\<lambda>tc. tc_id tc \<noteq> []) tcs \<Longrightarrow> events_ok s'"
proof (induction opts envs bad trunc n tcs s rule: dispatch_loop.induct)
  case (2 opts envs bad trunc n tc rest s)
  obtain r1 s1 where 1: "processSingleToolCall opts (envs n) bad trunc tc s = (r1, s1)" by fastforce
  have e1: "events_ok s1" using events_dispatch [OF 1] 2 by simp
  show ?case
  proof (cases r1)
    case (Inr d)
    obtain nx s2 where nx: "after_dispatch opts tc rest d s1 = (nx, s2)" by fastforce
    have e2: "events_ok s2" using events_after [OF nx e1] 2 by simp
    show ?thesis
    proof (cases nx)
      case Next
      then show ?thesis
        using 2(1) [OF 1 [symmetric] Inr nx [symmetric] Next] 2(2,4) 1 Inr nx e2 by simp
    qed (use 2(2) 1 Inr nx e2 in simp)
  qed (use 2(2) 1 e1 in simp)
qed simp

lemma events_prose: "charge_prose opts content s = (c, s') \<Longrightarrow> events_ok s' = events_ok s"
  using events_handle [of opts]
  by (auto simp: charge_prose_def split: option.splits list.splits prod.splits) (metis events_ok_simps(6) events_handle snd_conv)+

lemma list_all_subset: "list_all P xs \<Longrightarrow> set ys \<subseteq> set xs \<Longrightarrow> list_all P ys"
  by (auto simp: list_all_iff)

lemma in_set_tlD: "x \<in> set (tl xs) \<Longrightarrow> x \<in> set xs"
  by (cases xs) simp_all

lemma events_calls:
  assumes "run_calls opts inp content calls fr re s = (r, s')" "events_ok s" "list_all (\<lambda>rc. rc_id rc \<noteq> []) calls"
  shows "events_ok s'"
proof -
  let ?sc = "map (sanitize_call opts (isTruncationFinishReason fr)) calls"
  let ?tcs = "map fst ?sc"
  have ids: "list_all (\<lambda>tc. tc_id tc \<noteq> []) ?tcs" using assms(3) by (simp add: list_all_iff)
  have half: "list_all (\<lambda>tc. tc_id tc \<noteq> []) (take 1 ?tcs)" "list_all (\<lambda>tc. tc_id tc \<noteq> []) (tl ?tcs)"
    by (rule list_all_subset [OF ids], auto dest: in_set_takeD in_set_tlD)+
  obtain c s2 where c: "charge_prose opts content (appendTx opts (TxAssistant content ?tcs re) s) = (c, s2)" by fastforce
  have e2: "events_ok s2" using events_prose [OF c] assms(2) ids by (simp add: event_ok_def)
  obtain r3 s3 where 3: "dispatch_loop opts (ri_envs inp) (ids_in_state ArgsBad ?sc) (ids_in_state ArgsTruncated ?sc) 0 ?tcs s2 = (r3, s3)"
    by fastforce
  have "events_ok (cancel_answers opts ?tcs s2)" using e2 half by (simp add: cancel_answers_def events_answer_all)
  moreover have "events_ok (answer_all opts a ?tcs s2)" for a by (rule events_answer_all [OF e2 ids])
  moreover have "events_ok s3" by (rule events_loop [OF 3 e2 ids])
  ultimately show ?thesis
    using assms(1) unfolding run_calls_def Let_def c 3 by (auto simp: 3 [simplified] split: bool.splits if_splits sum.splits option.splits)
qed

lemma events_round:
  assumes "run_round opts inp s = (r, s')" "events_ok s" "list_all (\<lambda>i. i \<noteq> []) (reply_ids (ri_reply inp))"
  shows "events_ok s'"
proof (cases "ri_reply inp")
  case (Reply content calls fr re)
  then have "list_all (\<lambda>rc. rc_id rc \<noteq> []) calls" using assms(3) by (simp add: list_all_iff)
  then show ?thesis
    using assms(1,2) Reply events_calls by (auto simp: run_round_def Let_def event_ok_def split: if_splits)
qed (use assms in \<open>auto simp: run_round_def Let_def event_ok_def split: if_splits\<close>)

lemma events_rounds:
  "run_rounds opts inps s = (r, s') \<Longrightarrow> events_ok s \<Longrightarrow>
     list_all (\<lambda>inp. list_all (\<lambda>i. i \<noteq> []) (reply_ids (ri_reply inp))) inps \<Longrightarrow> events_ok s'"
proof (induction inps arbitrary: s)
  case (Cons inp inps)
  obtain r1 s1 where 1: "run_round opts inp s = (r1, s1)" by fastforce
  have e1: "events_ok s1" using events_round [OF 1] Cons.prems by simp
  show ?case
    using Cons.prems Cons.IH [OF _ e1] 1 e1 by (auto split: sum.splits bool.splits)
qed simp

lemma turn_ops_ok: "events_ok s \<Longrightarrow> list_all tx_op_ok (turn_ops text meta clock sid seg s)"
proof -
  assume ok: "events_ok s"
  have "tx_op_ok (TxAppend now (tx_of text meta sid seg ev))" if "event_ok ev" for now ev
    using that by (cases ev) (auto simp: event_ok_def tx_op_ok_def tx_of_def truthy_str_def nullish_def list_all_iff)
  moreover have "event_ok ev" if "(k, ev) \<in> set (enumerate 0 (ls_events s))" for k ev
    using ok that by (auto simp: events_ok_def list_all_iff enumerate_eq_zip dest: set_zip_rightD)
  ultimately show ?thesis by (auto simp: turn_ops_def list_all_iff)
qed

text \<open>
  C8. The loop and the store together: whatever the model replies and however the turn ends or is broken
  off, also between two calls of a batch, and whatever other writers do to the table meanwhile, the next
  reader of any segment finds every tool call answered before the next message. The ids of the calls must
  not be empty, and no fifty tool results may follow one another.
\<close>
theorem loop_transcript_well_formed:
  assumes "run_rounds opts inps (new_loop_state tools b) = (r, s)"
    and "list_all (\<lambda>inp. list_all (\<lambda>i. i \<noteq> []) (reply_ids (ri_reply inp))) inps"
    and "list_all tx_op_ok others" "ops \<in> shuffles others (turn_ops text meta clock sid seg s)"
    and "short_runs (segment_rows sid' seg' (fold tx_apply ops []))"
  shows "exchanges_ok (segment_rows sid' seg' (fold tx_apply ops []))"
proof -
  have "events_ok s" using events_rounds [OF assms(1) _ assms(2)] by (simp add: events_ok_def new_loop_state_def)
  then have "list_all tx_op_ok ops"
    using turn_ops_ok assms(3) set_shuffles [OF assms(4)] by (fastforce simp: list_all_iff)
  from tx_inv_run [OF this tx_inv_Nil] show ?thesis using assms(5) by (simp add: tx_inv_def segment_rows_view)
qed

section \<open>Examples\<close>

definition demo_raw :: "string \<Rightarrow> string \<Rightarrow> string \<Rightarrow> raw_call" where
  "demo_raw i name args = \<lparr>rc_id = i, rc_name = Some name, rc_argsJson = Some args, rc_thoughtSignature = None\<rparr>"

definition demo_round :: "raw_call list \<Rightarrow> round_input" where
  "demo_round calls =
     \<lparr>ri_aborted = False, ri_reply = Reply None calls None None, ri_envs = (\<lambda>_. demo_call_env GPassed), ri_steers = [''hurry'']\<rparr>"

definition demo_tools :: tool_list where
  "demo_tools = [(''t'', None)]"

definition demo_inputs :: "round_input list" where
  "demo_inputs = [demo_round [demo_raw ''a'' ''t'' ''{}'', demo_raw ''b'' ''u'' ''{}''], demo_round [demo_raw ''c'' ''think_x'' ''{}'']]"

lemma demo_inputs_run:
  "fst (run_rounds (demo_loop_options Allow) demo_inputs (new_loop_state demo_tools None)) = Inr True"
  by code_simp

theorem every_call_answered_witness:
  "map fst (ls_pushed (snd (run_rounds (demo_loop_options Allow) demo_inputs (new_loop_state demo_tools None)))) = [''a'', ''b'', ''c'']"
proof -
  let ?run = "run_rounds (demo_loop_options Allow) demo_inputs (new_loop_state demo_tools None)"
  have "?run = (Inr True, snd ?run)" using demo_inputs_run by (metis prod.collapse)
  from every_call_answered [OF this] show ?thesis by (simp add: demo_inputs_def demo_round_def demo_raw_def)
qed

definition demo_garbled :: "round_input list" where
  "demo_garbled = replicate 6 (demo_round [demo_raw ''a'' ''t'' ''x''])"

lemma demo_garbled_rounds: "list_all (garbled_round (demo_loop_options Allow)) demo_garbled"
proof -
  have "garbled (demo_loop_options Allow) (demo_raw ''a'' ''t'' ''x'')" by code_simp
  then have "garbled_round (demo_loop_options Allow) (demo_round [demo_raw ''a'' ''t'' ''x''])"
    by (simp add: garbled_round_def demo_round_def demo_call_env_def truthy_str_def isTruncationFinishReason_def
        nullish_def demo_loop_options_def)
  then show ?thesis by (simp add: demo_garbled_def list_all_iff)
qed

theorem garbled_calls_end_turn_witness:
  "fst (run_rounds (demo_loop_options Allow) demo_garbled (new_loop_state demo_tools None)) = Inr False"
  by (rule garbled_calls_end_turn [OF demo_garbled_rounds]) (simp add: demo_garbled_def)

theorem malformed_names_never_end_witness:
  "fst (run_rounds (demo_loop_options Allow) (replicate 1000 (demo_round [demo_raw ''a'' ''no such tool'' ''{}'']))
     (new_loop_state demo_tools (Some (new_breaker None None None None)))) = Inr True"
proof -
  have "\<not> valid_tool_name (Some ''no such tool'')" by code_simp
  then have "nameless_round (demo_round [demo_raw ''a'' ''no such tool'' ''{}''])"
    by (simp add: nameless_round_def demo_round_def demo_raw_def demo_call_env_def truthy_str_def)
  then show ?thesis by (intro malformed_names_never_end) (simp add: list_all_iff)
qed

theorem oversized_batches_never_end_witness:
  "fst (run_rounds (demo_loop_options Allow) (replicate 1000 (demo_round (replicate 11 (demo_raw ''a'' ''t'' ''{}''))))
     (new_loop_state demo_tools (Some (new_breaker None None None None)))) = Inr True"
proof -
  have "oversized_round (demo_loop_options Allow) (demo_round (replicate 11 (demo_raw ''a'' ''t'' ''{}'')))"
    by (simp add: oversized_round_def demo_round_def demo_loop_options_def truthy_str_def nullish_def)
  then show ?thesis by (intro oversized_batches_never_end) (simp add: list_all_iff)
qed

theorem run_row_settled_witness:
  "\<exists>s. runToolLoop (demo_loop_options Allow) (\<lambda>_. []) (Some ''g1'') demo_tools None demo_garbled (\<lambda>runs. runs) [] =
     Inr (Inr False, s, [\<lparr>tr_id = ''r1'', tr_session = ''s1'', tr_status = RunCompleted, tr_reason = None\<rparr>])"
proof -
  let ?res = "runToolLoop (demo_loop_options Allow) (\<lambda>_. []) (Some ''g1'') demo_tools None demo_garbled (\<lambda>runs. runs) []"
  have o: "lo_runId (demo_loop_options Allow) = ''r1''" "lo_session (demo_loop_options Allow) = ''s1''"
    by (simp_all add: demo_loop_options_def)
  have "case ?res of Inl e \<Rightarrow> False | Inr (r, _) \<Rightarrow> r = Inr False" by code_simp
  then obtain s runs where r: "?res = Inr (Inr False, s, runs)" by (auto split: sum.splits)
  from run_row_settled [OF this] r show ?thesis by (simp add: settled_row_def o)
qed

definition demo_turn :: loop_state where
  "demo_turn = snd (run_rounds (demo_loop_options Allow) demo_inputs (new_loop_state demo_tools None))"

definition demo_turn_ops :: "tx_op list" where
  "demo_turn_ops = turn_ops (\<lambda>_. None) (\<lambda>_. None) (\<lambda>_. ''now'') ''s1'' ''g1'' demo_turn"

lemma demo_turn_rows:
  "map tx_toolCallId (segment_rows ''s1'' ''g1'' (fold tx_apply demo_turn_ops [])) =
     [None, Some ''a'', Some ''b'', None, None, Some ''c'', None]"
  by code_simp

theorem loop_transcript_well_formed_witness: "exchanges_ok (segment_rows ''s1'' ''g1'' (fold tx_apply demo_turn_ops []))"
proof (rule loop_transcript_well_formed [where s = demo_turn and inps = demo_inputs and opts = "demo_loop_options Allow"
      and tools = demo_tools and b = None and r = "Inr True" and others = "[]"])
  show "run_rounds (demo_loop_options Allow) demo_inputs (new_loop_state demo_tools None) = (Inr True, demo_turn)"
    using demo_inputs_run unfolding demo_turn_def by (metis prod.collapse)
  show "list_all (\<lambda>inp. list_all (\<lambda>i. i \<noteq> []) (reply_ids (ri_reply inp))) demo_inputs"
    by (simp add: demo_inputs_def demo_round_def demo_raw_def)
  show "demo_turn_ops \<in> shuffles [] (turn_ops (\<lambda>_. None) (\<lambda>_. None) (\<lambda>_. ''now'') ''s1'' ''g1'' demo_turn)"
    by (simp add: demo_turn_ops_def)
  have "length (segment_rows ''s1'' ''g1'' (fold tx_apply demo_turn_ops [])) = 7"
    using arg_cong [OF demo_turn_rows, of length] by simp
  then show "short_runs (segment_rows ''s1'' ''g1'' (fold tx_apply demo_turn_ops []))" by (intro short_runs_short) simp
qed simp

end
