(* ===== verification/Turn_Mailbox.thy ===== *)
theory Turn_Mailbox
  imports Prelude "HOL-Library.Multiset"
begin

text \<open>
  What a running turn is told from outside: the steer channel (\<open>daemon/src/sessions/steer-channel.ts\<close>) and
  the compaction gate (\<open>compaction-gate.ts\<close>) with the loop that drains it (\<open>drainDeferredCompaction\<close> of
  \<open>tool-loop.ts\<close>). Both keep a map from sessions to queues and hand out a handle that closes over its
  queue; the queues are numbered in the order of their creation, and a handle is the number of its queue.
\<close>

section \<open>Definitions\<close>

record 'e mailbox =
  mb_channels :: "(string, nat) jsmap"
  mb_queues :: "'e list list"
  mb_owners :: "string list"
  mb_closed :: "bool list"

definition new_mailbox :: "'e mailbox" where
  "new_mailbox = \<lparr>mb_channels = [], mb_queues = [], mb_owners = [], mb_closed = []\<rparr>"

definition mb_put :: "nat \<Rightarrow> 'e list \<Rightarrow> 'e mailbox \<Rightarrow> 'e mailbox" where
  "mb_put q es mb = mb\<lparr>mb_queues := (mb_queues mb)[q := es]\<rparr>"

text \<open>The entries that are dropped, and the mailbox.\<close>

definition registerSteerChannel :: "string \<Rightarrow> 'e mailbox \<Rightarrow> 'e list \<times> 'e mailbox" where
  "registerSteerChannel sessionId mb =
     (let prev = map_get (mb_channels mb) sessionId;
          dropped = (case prev of Some q \<Rightarrow> mb_queues mb ! q | None \<Rightarrow> []);
          mb1 = (case prev of Some q \<Rightarrow> mb_put q [] mb | None \<Rightarrow> mb)
      in (dropped,
          mb1\<lparr>mb_channels := map_set sessionId (length (mb_queues mb)) (mb_channels mb1), mb_queues := mb_queues mb1 @ [[]],
              mb_owners := mb_owners mb1 @ [sessionId], mb_closed := mb_closed mb1 @ [False]\<rparr>))"

definition steer_unregister :: "nat \<Rightarrow> 'e mailbox \<Rightarrow> 'e list \<times> 'e mailbox" where
  "steer_unregister q mb =
     (let sessionId = mb_owners mb ! q;
          mb1 = (if map_get (mb_channels mb) sessionId = Some q
                 then mb\<lparr>mb_channels := map_delete sessionId (mb_channels mb)\<rparr> else mb)
      in if mb_closed mb ! q then ([], mb1)
         else (mb_queues mb ! q, (mb_put q [] mb1)\<lparr>mb_closed := (mb_closed mb)[q := True]\<rparr>))"

definition pushSteer :: "string \<Rightarrow> 'e \<Rightarrow> 'e mailbox \<Rightarrow> bool \<times> 'e mailbox" where
  "pushSteer sessionId e mb =
     (case map_get (mb_channels mb) sessionId of
        None \<Rightarrow> (False, mb)
      | Some q \<Rightarrow> (True, mb_put q (mb_queues mb ! q @ [e]) mb))"

definition drainSteers :: "string \<Rightarrow> 'e mailbox \<Rightarrow> 'e list \<times> 'e mailbox" where
  "drainSteers sessionId mb =
     (case map_get (mb_channels mb) sessionId of
        None \<Rightarrow> ([], mb)
      | Some q \<Rightarrow> (mb_queues mb ! q, mb_put q [] mb))"

text \<open>The compaction gate: the same map of queues, with requests as entries, drained through the handle.\<close>

type_synonym request = nat

definition registerCompactionGate :: "string \<Rightarrow> request mailbox \<Rightarrow> request list \<times> request mailbox" where
  "registerCompactionGate sessionId mb = registerSteerChannel sessionId mb"

definition gate_unregister :: "nat \<Rightarrow> request mailbox \<Rightarrow> request list \<times> request mailbox" where
  "gate_unregister q mb = steer_unregister q mb"

definition gate_drain :: "nat \<Rightarrow> request mailbox \<Rightarrow> request list \<times> request mailbox" where
  "gate_drain q mb = (if mb_closed mb ! q then ([], mb) else (mb_queues mb ! q, mb_put q [] mb))"

definition pushCompactionRequest :: "string \<Rightarrow> request \<Rightarrow> request mailbox \<Rightarrow> bool \<times> request mailbox" where
  "pushCompactionRequest sessionId r mb = pushSteer sessionId r mb"

section \<open>The mailbox keeps its entries\<close>

definition mailbox_ok :: "'e mailbox \<Rightarrow> bool" where
  "mailbox_ok mb \<longleftrightarrow>
     length (mb_owners mb) = length (mb_queues mb) \<and> length (mb_closed mb) = length (mb_queues mb)
     \<and> (\<forall>s q. map_get (mb_channels mb) s = Some q \<longrightarrow> q < length (mb_queues mb) \<and> mb_owners mb ! q = s \<and> \<not> mb_closed mb ! q)
     \<and> (\<forall>q < length (mb_queues mb). mb_queues mb ! q \<noteq> [] \<longrightarrow> map_get (mb_channels mb) (mb_owners mb ! q) = Some q)"

text \<open>The waiting entries, each with its session.\<close>

definition waiting :: "'e mailbox \<Rightarrow> (string \<times> 'e) multiset" where
  "waiting mb = sum_list (map2 (\<lambda>s es. mset (map (Pair s) es)) (mb_owners mb) (mb_queues mb))"

lemma mailbox_okD:
  assumes "mailbox_ok mb"
  shows "length (mb_owners mb) = length (mb_queues mb)" "length (mb_closed mb) = length (mb_queues mb)"
    "map_get (mb_channels mb) s = Some q \<Longrightarrow> q < length (mb_queues mb)"
    "map_get (mb_channels mb) s = Some q \<Longrightarrow> mb_owners mb ! q = s"
    "map_get (mb_channels mb) s = Some q \<Longrightarrow> \<not> mb_closed mb ! q"
    "q < length (mb_queues mb) \<Longrightarrow> mb_queues mb ! q \<noteq> [] \<Longrightarrow> map_get (mb_channels mb) (mb_owners mb ! q) = Some q"
  using assms by (auto simp: mailbox_ok_def)

lemma sum_list_update_mset:
  "q < length xs \<Longrightarrow> sum_list (xs[q := y]) + xs ! q = sum_list xs + (y :: 'a multiset)"
proof (induction xs arbitrary: q)
  case (Cons x xs)
  then show ?case by (cases q) (simp_all add: union_ac add.assoc)
qed simp

lemma in_sum_list: "x \<in># sum_list ms \<longleftrightarrow> (\<exists>m \<in> set ms. x \<in># m)"
  by (induction ms) simp_all

lemma waiting_put:
  assumes "mailbox_ok mb" "q < length (mb_queues mb)"
  shows "waiting (mb_put q es mb) + mset (map (Pair (mb_owners mb ! q)) (mb_queues mb ! q)) =
    waiting mb + mset (map (Pair (mb_owners mb ! q)) es)"
proof -
  let ?f = "\<lambda>s es. mset (map (Pair s) es)"
  let ?xs = "map2 ?f (mb_owners mb) (mb_queues mb)"
  have len: "length (mb_owners mb) = length (mb_queues mb)" using assms(1) by (simp add: mailbox_ok_def)
  have "map2 ?f (mb_owners mb) ((mb_queues mb)[q := es]) = ?xs[q := ?f (mb_owners mb ! q) es]"
  proof (rule nth_equalityI)
    fix i assume "i < length (map2 ?f (mb_owners mb) ((mb_queues mb)[q := es]))"
    then show "map2 ?f (mb_owners mb) ((mb_queues mb)[q := es]) ! i = ?xs[q := ?f (mb_owners mb ! q) es] ! i"
      using len assms(2) by (cases "i = q") simp_all
  qed simp
  moreover have "?xs ! q = ?f (mb_owners mb ! q) (mb_queues mb ! q)" using len assms(2) by simp
  ultimately show ?thesis
    using sum_list_update_mset [of q ?xs "?f (mb_owners mb ! q) es"] len assms(2) by (simp add: waiting_def mb_put_def)
qed

lemma waiting_cong: "mb_queues t = mb_queues mb \<Longrightarrow> mb_owners t = mb_owners mb \<Longrightarrow> waiting t = waiting mb"
  by (simp add: waiting_def)

lemma ok_put: "mailbox_ok mb \<Longrightarrow> q < length (mb_queues mb) \<Longrightarrow> es = [] \<or> map_get (mb_channels mb) (mb_owners mb ! q) = Some q \<Longrightarrow> mailbox_ok (mb_put q es mb)"
  by (auto simp: mailbox_ok_def mb_put_def nth_list_update split: if_splits)

lemma waiting_snoc:
  assumes "mailbox_ok mb"
  shows "waiting (mb\<lparr>mb_channels := c, mb_queues := mb_queues mb @ [[]], mb_owners := mb_owners mb @ [s], mb_closed := d\<rparr>) = waiting mb"
  using assms by (simp add: waiting_def mailbox_ok_def)

lemma register_ok:
  assumes ok: "mailbox_ok mb" and r: "registerSteerChannel s mb = (dropped, mb')"
  shows "mailbox_ok mb'" "waiting mb = waiting mb' + mset (map (Pair s) dropped)"
proof -
  let ?mb1 = "case map_get (mb_channels mb) s of Some q \<Rightarrow> mb_put q [] mb | None \<Rightarrow> mb"
  have ok1: "mailbox_ok ?mb1" using ok mailbox_okD(3) [OF ok] by (auto intro!: ok_put split: option.split)
  have len: "length (mb_queues ?mb1) = length (mb_queues mb)" and own: "mb_owners ?mb1 = mb_owners mb"
    and ch: "mb_channels ?mb1 = mb_channels mb" and cl: "mb_closed ?mb1 = mb_closed mb"
    by (simp_all add: mb_put_def split: option.split)
  have mb': "mb' = ?mb1\<lparr>mb_channels := map_set s (length (mb_queues mb)) (mb_channels ?mb1), mb_queues := mb_queues ?mb1 @ [[]],
      mb_owners := mb_owners ?mb1 @ [s], mb_closed := mb_closed ?mb1 @ [False]\<rparr>"
    and dr: "dropped = (case map_get (mb_channels mb) s of Some q \<Rightarrow> mb_queues mb ! q | None \<Rightarrow> [])"
    using r by (simp_all add: registerSteerChannel_def Let_def)
  have empty: "mb_queues ?mb1 ! q = []" if "q < length (mb_queues mb)" "mb_owners mb ! q = s" for q
  proof (rule ccontr)
    assume "mb_queues ?mb1 ! q \<noteq> []"
    then have "map_get (mb_channels mb) s = Some q" using mailbox_okD(6) [OF ok1] that len own ch by metis
    then show False using \<open>mb_queues ?mb1 ! q \<noteq> []\<close> that by (simp add: mb_put_def)
  qed
  show "mailbox_ok mb'"
    unfolding mailbox_ok_def
  proof (intro conjI allI impI)
    show "length (mb_owners mb') = length (mb_queues mb')" "length (mb_closed mb') = length (mb_queues mb')"
      using mailbox_okD(1,2) [OF ok1] by (simp_all add: mb')
    show "q < length (mb_queues mb')" "mb_owners mb' ! q = t" "\<not> mb_closed mb' ! q"
      if "map_get (mb_channels mb') t = Some q" for t q
      using that mailbox_okD(1,2) [OF ok] mailbox_okD(3-5) [OF ok, of t q] len own cl
      by (auto simp: mb' ch nth_append split: if_splits)
    show "map_get (mb_channels mb') (mb_owners mb' ! q) = Some q" if "q < length (mb_queues mb')" "mb_queues mb' ! q \<noteq> []" for q
      using that mailbox_okD(6) [OF ok1, of q] empty [of q] len own ch mailbox_okD(1) [OF ok]
      by (auto simp: mb' nth_append split: if_splits)
  qed
  have "waiting mb' = waiting ?mb1" unfolding mb' by (rule waiting_snoc [OF ok1])
  moreover have "waiting mb = waiting ?mb1 + mset (map (Pair s) dropped)"
  proof (cases "map_get (mb_channels mb) s")
    case (Some q)
    then show ?thesis using waiting_put [OF ok, of q "[]"] mailbox_okD(3,4) [OF ok Some] dr by simp
  qed (simp add: dr)
  ultimately show "waiting mb = waiting mb' + mset (map (Pair s) dropped)" by simp
qed

lemma unregister_ok:
  assumes ok: "mailbox_ok mb" and q: "q < length (mb_queues mb)" and r: "steer_unregister q mb = (dropped, mb')"
  shows "mailbox_ok mb'" "waiting mb = waiting mb' + mset (map (Pair (mb_owners mb ! q)) dropped)"
proof -
  let ?s = "mb_owners mb ! q"
  let ?mb1 = "if map_get (mb_channels mb) ?s = Some q then mb\<lparr>mb_channels := map_delete ?s (mb_channels mb)\<rparr> else mb"
  have w: "waiting (mb_put q [] ?mb1) = waiting (mb_put q [] mb)" "waiting ?mb1 = waiting mb"
    by (auto simp: mb_put_def intro!: waiting_cong)
  have put: "waiting mb = waiting (mb_put q [] mb) + mset (map (Pair ?s) (mb_queues mb ! q))"
    using waiting_put [OF ok q, of "[]"] by simp
  have clw: "waiting (t\<lparr>mb_closed := d\<rparr>) = waiting t" for t :: "'a mailbox" and d by (rule waiting_cong) simp_all
  show "waiting mb = waiting mb' + mset (map (Pair ?s) dropped)"
    using r put w by (auto simp: steer_unregister_def Let_def clw split: if_splits)
  show "mailbox_ok mb'"
  proof (cases "mb_closed mb ! q")
    case True
    then have "map_get (mb_channels mb) ?s \<noteq> Some q" using mailbox_okD(5) [OF ok] by blast
    then show ?thesis using r ok True by (simp add: steer_unregister_def Let_def)
  next
    case False
    then have "mb' = (mb_put q [] ?mb1)\<lparr>mb_closed := (mb_closed mb)[q := True]\<rparr>"
      using r by (simp add: steer_unregister_def Let_def)
    then have fields: "mb_queues mb' = (mb_queues mb)[q := []]" "mb_owners mb' = mb_owners mb" "mb_closed mb' = (mb_closed mb)[q := True]"
      "map_get (mb_channels mb') t = (if t = ?s \<and> map_get (mb_channels mb) ?s = Some q then None else map_get (mb_channels mb) t)" for t
      by (simp_all add: mb_put_def)
    have other: "q' \<noteq> q" if "map_get (mb_channels mb') t = Some q'" for t q'
      using that fields(4) mailbox_okD(4) [OF ok, of t q'] by (auto split: if_splits)
    have get: "map_get (mb_channels mb) t = Some q'" if "map_get (mb_channels mb') t = Some q'" for t q'
      using that fields(4) by (simp split: if_splits)
    show ?thesis
      unfolding mailbox_ok_def
    proof (intro conjI allI impI)
      show "length (mb_owners mb') = length (mb_queues mb')" "length (mb_closed mb') = length (mb_queues mb')"
        using mailbox_okD(1,2) [OF ok] by (simp_all add: fields)
      show "q' < length (mb_queues mb')" "mb_owners mb' ! q' = t" "\<not> mb_closed mb' ! q'"
        if "map_get (mb_channels mb') t = Some q'" for t q'
        using mailbox_okD(3-5) [OF ok get [OF that]] other [OF that] by (simp_all add: fields(1-3))
      show "map_get (mb_channels mb') (mb_owners mb' ! q') = Some q'"
        if "q' < length (mb_queues mb')" "mb_queues mb' ! q' \<noteq> []" for q'
      proof -
        have "q' \<noteq> q" using that q by (auto simp: fields(1))
        moreover have "map_get (mb_channels mb) (mb_owners mb ! q') = Some q'"
          using mailbox_okD(6) [OF ok, of q'] that calculation by (simp add: fields(1))
        ultimately show ?thesis by (auto simp: fields(2,4))
      qed
    qed
  qed
qed

lemma push_ok:
  assumes ok: "mailbox_ok mb" and r: "pushSteer s e mb = (b, mb')"
  shows "mailbox_ok mb'" "waiting mb' = waiting mb + (if b then {#(s, e)#} else {#})"
proof -
  show "mailbox_ok mb'"
    using r ok mailbox_okD(3,4) [OF ok, of s] by (auto simp: pushSteer_def intro!: ok_put split: option.splits)
  show "waiting mb' = waiting mb + (if b then {#(s, e)#} else {#})"
  proof (cases "map_get (mb_channels mb) s")
    case (Some q)
    note D = mailbox_okD(3,4) [OF ok Some]
    from waiting_put [OF ok D(1), of "mb_queues mb ! q @ [e]"] show ?thesis
      using r Some D(2) by (auto simp: pushSteer_def)
  qed (use r in \<open>simp add: pushSteer_def\<close>)
qed

lemma drain_put_ok:
  assumes ok: "mailbox_ok mb" and q: "q < length (mb_queues mb)"
  shows "mailbox_ok (mb_put q [] mb)" "waiting mb = waiting (mb_put q [] mb) + mset (map (Pair (mb_owners mb ! q)) (mb_queues mb ! q))"
  using ok_put [OF ok q] waiting_put [OF ok q, of "[]"] by simp_all

lemma drain_ok:
  assumes ok: "mailbox_ok mb" and r: "drainSteers s mb = (es, mb')"
  shows "mailbox_ok mb'" "waiting mb = waiting mb' + mset (map (Pair s) es)"
  using r ok drain_put_ok [OF ok] mailbox_okD(3,4) [OF ok, of s]
  by (auto simp: drainSteers_def split: option.splits)

lemma gate_drain_ok:
  assumes ok: "mailbox_ok mb" and q: "q < length (mb_queues mb)" and r: "gate_drain q mb = (es, mb')"
  shows "mailbox_ok mb'" "waiting mb = waiting mb' + mset (map (Pair (mb_owners mb ! q)) es)"
  using r ok drain_put_ok [OF ok q] by (auto simp: gate_drain_def split: if_splits)

lemma waiting_open:
  assumes ok: "mailbox_ok mb" and "(s, e) \<in># waiting mb"
  shows "map_get (mb_channels mb) s \<noteq> None"
proof -
  have "\<exists>q < length (mb_queues mb). mb_owners mb ! q = s \<and> e \<in> set (mb_queues mb ! q)"
    using assms(2) mailbox_okD(1) [OF ok]
    by (auto simp: waiting_def in_sum_list set_zip)
  then show ?thesis using mailbox_okD(6) [OF ok] by (metis empty_iff list.set(1) option.discI)
qed

section \<open>The steer channel: a message is delivered or reported as dropped\<close>

text \<open>A message with the number of its \<open>onDropped\<close> callback, and what has become of the messages.\<close>

type_synonym steer_entry = "string \<times> nat option"

record steer_log =
  sl_box :: "steer_entry mailbox"
  sl_accepted :: "(string \<times> steer_entry) list"
  sl_delivered :: "(string \<times> steer_entry) list"
  sl_dropped :: "(string \<times> steer_entry) list"

definition new_steer_log :: steer_log where
  "new_steer_log = \<lparr>sl_box = new_mailbox, sl_accepted = [], sl_delivered = [], sl_dropped = []\<rparr>"

inductive steer_step :: "steer_log \<Rightarrow> steer_log \<Rightarrow> bool" where
  turn_started: "registerSteerChannel s (sl_box l) = (dropped, mb) \<Longrightarrow>
    steer_step l (l\<lparr>sl_box := mb, sl_dropped := sl_dropped l @ map (Pair s) dropped\<rparr>)"
| turn_ended: "q < length (mb_queues (sl_box l)) \<Longrightarrow> steer_unregister q (sl_box l) = (dropped, mb) \<Longrightarrow>
    steer_step l (l\<lparr>sl_box := mb, sl_dropped := sl_dropped l @ map (Pair (mb_owners (sl_box l) ! q)) dropped\<rparr>)"
| pushed: "pushSteer s e (sl_box l) = (b, mb) \<Longrightarrow>
    steer_step l (l\<lparr>sl_box := mb, sl_accepted := sl_accepted l @ (if b then [(s, e)] else [])\<rparr>)"
| drained: "drainSteers s (sl_box l) = (es, mb) \<Longrightarrow>
    steer_step l (l\<lparr>sl_box := mb, sl_delivered := sl_delivered l @ map (Pair s) es\<rparr>)"

definition steer_inv :: "steer_log \<Rightarrow> bool" where
  "steer_inv l \<longleftrightarrow>
     mailbox_ok (sl_box l) \<and> mset (sl_accepted l) = mset (sl_delivered l) + mset (sl_dropped l) + waiting (sl_box l)"

lemma mailbox_ok_new: "mailbox_ok new_mailbox" "waiting new_mailbox = {#}"
  by (simp_all add: mailbox_ok_def new_mailbox_def waiting_def map_get_def)

interpretation steering: transition_system "\<lambda>l. l = new_steer_log" steer_step steer_inv
proof
  show "steer_inv l" if "l = new_steer_log" for l
    using that mailbox_ok_new by (simp add: steer_inv_def new_steer_log_def)
  show "steer_inv l'" if "steer_inv l" "steer_step l l'" for l l'
    using that(2,1)
  proof (induction rule: steer_step.induct)
    case (turn_started s l dropped mb)
    then show ?case using register_ok [of "sl_box l" s dropped mb] by (simp add: steer_inv_def)
  next
    case (turn_ended q l dropped mb)
    then show ?case using unregister_ok [of "sl_box l" q dropped mb] by (simp add: steer_inv_def)
  next
    case (pushed s e l b mb)
    then show ?case using push_ok [of "sl_box l" s e b mb] by (simp add: steer_inv_def)
  next
    case (drained s l es mb)
    then show ?case using drain_ok [of "sl_box l" s es mb] by (simp add: steer_inv_def)
  qed
qed

text \<open>
  A steer message that was accepted is not lost, however turns start, end and replace each other: once
  the session has no running turn, every accepted message was either drained into a turn or dropped with
  its callback, exactly once and never both.
\<close>
theorem steer_never_lost:
  assumes "steer_step\<^sup>*\<^sup>* new_steer_log l" "map_get (mb_channels (sl_box l)) s = None"
  shows "filter_mset (\<lambda>x. fst x = s) (mset (sl_accepted l)) =
    filter_mset (\<lambda>x. fst x = s) (mset (sl_delivered l)) + filter_mset (\<lambda>x. fst x = s) (mset (sl_dropped l))"
proof -
  have inv: "steer_inv l" by (rule steering.reachable_inv [OF refl assms(1)])
  have "filter_mset (\<lambda>x. fst x = s) (waiting (sl_box l)) = {#}"
    using waiting_open [of "sl_box l"] inv assms(2) by (auto simp: steer_inv_def filter_mset_eq_conv) fastforce?
  then show ?thesis using inv by (simp add: steer_inv_def)
qed

section \<open>The compaction gate\<close>

datatype settlement = Compacted | CompactionFailed | GateClosed

text \<open>
  The requests are numbered in the order they are made. \<open>cg_running\<close> has, for each turn, the request whose
  compaction it awaits; \<open>cg_discarded\<close> the requests that a drain took and no code refers to any more.
\<close>

record compaction_state =
  cg_box :: "request mailbox"
  cg_next :: nat
  cg_running :: "(nat, request) jsmap"
  cg_settled :: "(request \<times> settlement) list"
  cg_discarded :: "request list"

definition new_compaction_state :: compaction_state where
  "new_compaction_state = \<lparr>cg_box = new_mailbox, cg_next = 0, cg_running = [], cg_settled = [], cg_discarded = []\<rparr>"

text \<open>One iteration of \<open>drainDeferredCompaction\<close>: the gate is drained and the first request is run.\<close>

definition drainDeferredCompaction :: "nat \<Rightarrow> compaction_state \<Rightarrow> compaction_state" where
  "drainDeferredCompaction q st =
     (case gate_drain q (cg_box st) of
        ([], mb) \<Rightarrow> st\<lparr>cg_box := mb, cg_running := map_delete q (cg_running st)\<rparr>
      | (entry # rest, mb) \<Rightarrow>
          st\<lparr>cg_box := mb, cg_running := map_set q entry (map_delete q (cg_running st)), cg_discarded := cg_discarded st @ rest\<rparr>)"

inductive compaction_step :: "compaction_state \<Rightarrow> compaction_state \<Rightarrow> bool" where
  loop_started: "registerCompactionGate s (cg_box st) = (rejected, mb) \<Longrightarrow>
    compaction_step st (st\<lparr>cg_box := mb, cg_settled := cg_settled st @ map (\<lambda>r. (r, GateClosed)) rejected\<rparr>)"
| loop_ended: "q < length (mb_queues (cg_box st)) \<Longrightarrow> gate_unregister q (cg_box st) = (rejected, mb) \<Longrightarrow>
    compaction_step st (st\<lparr>cg_box := mb, cg_settled := cg_settled st @ map (\<lambda>r. (r, GateClosed)) rejected\<rparr>)"
| requested: "pushCompactionRequest s (cg_next st) (cg_box st) = (True, mb) \<Longrightarrow>
    compaction_step st (st\<lparr>cg_box := mb, cg_next := cg_next st + 1\<rparr>)"
| break_reached: "q < length (mb_queues (cg_box st)) \<Longrightarrow> map_get (cg_running st) q = None \<Longrightarrow>
    compaction_step st (drainDeferredCompaction q st)"
| compaction_ran: "q < length (mb_queues (cg_box st)) \<Longrightarrow> map_get (cg_running st) q = Some r \<Longrightarrow> out \<noteq> GateClosed \<Longrightarrow>
    compaction_step st (drainDeferredCompaction q (st\<lparr>cg_settled := cg_settled st @ [(r, out)]\<rparr>))"

definition compaction_inv :: "compaction_state \<Rightarrow> bool" where
  "compaction_inv st \<longleftrightarrow>
     mailbox_ok (cg_box st) \<and> map_ok (cg_running st)
     \<and> mset [0..<cg_next st] =
         mset (map fst (cg_settled st)) + mset (map snd (cg_running st)) + image_mset snd (waiting (cg_box st)) + mset (cg_discarded st)"

lemma running_delete:
  "map_ok m \<Longrightarrow> map_get m q = Some r \<Longrightarrow> mset (map snd m) = add_mset r (mset (map snd (map_delete q m)))"
proof (induction m)
  case (Cons kv m)
  obtain k v where kv: "kv = (k, v)" by fastforce
  show ?case
  proof (cases "k = q")
    case True
    have "map_delete q m = m" using Cons.prems(1) True kv by (simp add: map_delete_def delete_id)
    then show ?thesis using Cons.prems True kv by (simp add: map_get_def map_delete_def)
  next
    case False
    then show ?thesis using Cons kv by (simp add: map_get_def map_delete_def)
  qed
qed (simp add: map_get_def)

lemma running_delete_None: "map_get m q = None \<Longrightarrow> map_delete q m = m"
  by (simp add: map_get_def map_delete_def delete_id map_of_eq_None_iff)

lemma running_set: "map_get m q = None \<Longrightarrow> mset (map snd (map_set q r m)) = add_mset r (mset (map snd m))"
  by (induction m) (auto simp: map_get_def map_set_def split: if_splits)

lemma drain_next_inv:
  assumes q: "q < length (mb_queues (cg_box st))" and ok: "mailbox_ok (cg_box st)" "map_ok (cg_running st)"
    and all: "mset [0..<cg_next st] = mset (map fst (cg_settled st)) + mset (map snd (map_delete q (cg_running st)))
      + image_mset snd (waiting (cg_box st)) + mset (cg_discarded st)"
  shows "compaction_inv (drainDeferredCompaction q st)"
proof -
  obtain es mb where g: "gate_drain q (cg_box st) = (es, mb)" by fastforce
  note D = gate_drain_ok [OF ok(1) q g]
  have w: "image_mset snd (waiting (cg_box st)) = image_mset snd (waiting mb) + mset es"
    by (simp add: D(2) image_mset.compositionality comp_def)
  show ?thesis
    using D(1) ok(2) all w running_set [of "map_delete q (cg_running st)" q]
    by (cases es) (simp_all add: drainDeferredCompaction_def g compaction_inv_def)
qed

interpretation compacting: transition_system "\<lambda>st. st = new_compaction_state" compaction_step compaction_inv
proof
  show "compaction_inv st" if "st = new_compaction_state" for st
    using that mailbox_ok_new by (simp add: compaction_inv_def new_compaction_state_def)
  show "compaction_inv st'" if "compaction_inv st" "compaction_step st st'" for st st'
    using that(2,1)
  proof (induction rule: compaction_step.induct)
    case (loop_started s st rejected mb)
    then show ?case
      using register_ok [of "cg_box st" s rejected mb] by (simp add: compaction_inv_def registerCompactionGate_def image_mset.compositionality comp_def)
  next
    case (loop_ended q st rejected mb)
    then show ?case
      using unregister_ok [of "cg_box st" q rejected mb] by (simp add: compaction_inv_def gate_unregister_def image_mset.compositionality comp_def)
  next
    case (requested s st mb)
    then show ?case
      using push_ok [of "cg_box st" s "cg_next st" True mb] by (simp add: compaction_inv_def pushCompactionRequest_def)
  next
    case (break_reached q st)
    then show ?case by (intro drain_next_inv) (simp_all add: compaction_inv_def running_delete_None)
  next
    case (compaction_ran q st r out)
    then show ?case
      using running_delete [of "cg_running st" q r] by (intro drain_next_inv) (simp_all add: compaction_inv_def)
  qed
qed

lemma discarded_mono: "compaction_step st st' \<Longrightarrow> set (cg_discarded st) \<subseteq> set (cg_discarded st')"
  by (induction rule: compaction_step.induct) (auto simp: drainDeferredCompaction_def split: prod.splits list.splits)

lemma discarded_run: "compaction_step\<^sup>*\<^sup>* st st' \<Longrightarrow> set (cg_discarded st) \<subseteq> set (cg_discarded st')"
  by (induction rule: rtranclp_induct) (use discarded_mono in blast)+

lemma discarded_never_settled:
  assumes "compaction_inv st" "r \<in> set (cg_discarded st)"
  shows "r \<notin> fst ` set (cg_settled st)"
proof
  assume "r \<in> fst ` set (cg_settled st)"
  then have "2 \<le> count (mset (map fst (cg_settled st)) + mset (cg_discarded st)) r"
    using assms(2) by (metis One_nat_def Suc_1 add_mono count_greater_eq_one_iff count_union list.set_map one_add_one set_mset_mset)
  also have "\<dots> \<le> count (mset [0..<cg_next st]) r" using assms(1) by (simp add: compaction_inv_def)
  also have "\<dots> \<le> 1"
    using distinct_upt [of 0 "cg_next st"] unfolding distinct_count_atmost_1 by (metis le_refl zero_le_one)
  finally show False by simp
qed

text \<open>
  C28. The comment says that the loop drains the parked requests and runs each of them. Each iteration takes
  the whole queue and keeps its first request only: when the open gate of a turn holds further requests as
  the turn, with no compaction under way, reaches a break, none of these further requests is ever
  resolved or rejected, whatever happens afterwards.
\<close>
theorem second_compaction_request_hangs:
  assumes "compaction_step\<^sup>*\<^sup>* new_compaction_state st" "q < length (mb_queues (cg_box st))" "\<not> mb_closed (cg_box st) ! q"
    and "mb_queues (cg_box st) ! q = r1 # rs" "map_get (cg_running st) q = None"
    and "compaction_step\<^sup>*\<^sup>* (drainDeferredCompaction q st) st'"
  shows "set rs \<inter> fst ` set (cg_settled st') = {}"
proof -
  have run: "compaction_step\<^sup>*\<^sup>* new_compaction_state (drainDeferredCompaction q st)"
    by (rule rtranclp.rtrancl_into_rtrancl [OF assms(1) break_reached [OF assms(2,5)]])
  have "set rs \<subseteq> set (cg_discarded (drainDeferredCompaction q st))"
    using assms(3,4) by (simp add: drainDeferredCompaction_def gate_drain_def)
  then have "set rs \<subseteq> set (cg_discarded st')" using discarded_run [OF assms(6)] by blast
  moreover have "compaction_inv st'" by (rule compacting.reachable_inv [OF refl rtranclp_trans [OF run assms(6)]])
  ultimately show ?thesis using discarded_never_settled by blast
qed

text \<open>
  Every other request is settled exactly once: when no turn runs any more and no compaction is under
  way, the requests that were made are those settled and those discarded.
\<close>
theorem compaction_requests_settled:
  assumes "compaction_step\<^sup>*\<^sup>* new_compaction_state st" "mb_channels (cg_box st) = []" "cg_running st = []"
  shows "mset (map fst (cg_settled st)) + mset (cg_discarded st) = mset [0..<cg_next st]"
proof -
  have inv: "compaction_inv st" by (rule compacting.reachable_inv [OF refl assms(1)])
  have "waiting (cg_box st) = {#}"
    using waiting_open [of "cg_box st"] inv assms(2)
    by (intro multiset_eqI) (metis compaction_inv_def count_empty map_get_def map_of.simps(1) not_in_iff prod.collapse)
  then show ?thesis using inv assms(3) by (simp add: compaction_inv_def)
qed

section \<open>Examples\<close>

definition demo_steer :: steer_log where
  "demo_steer =
     (let (d1, b1) = registerSteerChannel ''s'' new_mailbox; (a2, b2) = pushSteer ''s'' (''go'', Some 1) b1;
          (d3, b3) = steer_unregister 0 b2
      in \<lparr>sl_box = b3, sl_accepted = [(''s'', ''go'', Some 1)], sl_delivered = [], sl_dropped = map (Pair ''s'') d3\<rparr>)"

lemma demo_steer_run: "steer_step\<^sup>*\<^sup>* new_steer_log demo_steer"
proof -
  let ?b1 = "snd (registerSteerChannel ''s'' (new_mailbox :: steer_entry mailbox))"
  let ?b2 = "snd (pushSteer ''s'' (''go'', Some 1) ?b1)"
  let ?l1 = "new_steer_log\<lparr>sl_box := ?b1\<rparr>" and ?l2 = "new_steer_log\<lparr>sl_box := ?b2, sl_accepted := [(''s'', ''go'', Some 1)]\<rparr>"
  have "steer_step new_steer_log ?l1"
    using turn_started [of "''s''" new_steer_log "[]" ?b1] by (simp add: new_steer_log_def registerSteerChannel_def new_mailbox_def map_get_def Let_def)
  moreover have "steer_step ?l1 ?l2"
    using pushed [of "''s''" "(''go'', Some 1)" ?l1 True ?b2]
    by (simp add: new_steer_log_def pushSteer_def registerSteerChannel_def new_mailbox_def map_get_def map_set_def Let_def)
  moreover have "steer_step ?l2 demo_steer"
    using turn_ended [of 0 ?l2 "[(''go'', Some 1)]" "sl_box demo_steer"]
    by (simp add: new_steer_log_def demo_steer_def steer_unregister_def pushSteer_def registerSteerChannel_def new_mailbox_def
        map_get_def map_set_def mb_put_def Let_def)
  ultimately show ?thesis by (meson rtranclp.rtrancl_into_rtrancl rtranclp.rtrancl_refl)
qed

theorem steer_never_lost_witness:
  "filter_mset (\<lambda>x. fst x = ''s'') (mset (sl_accepted demo_steer)) =
     filter_mset (\<lambda>x. fst x = ''s'') (mset (sl_delivered demo_steer)) + filter_mset (\<lambda>x. fst x = ''s'') (mset (sl_dropped demo_steer))
   \<and> sl_dropped demo_steer = [(''s'', ''go'', Some 1)]"
proof -
  have "map_get (mb_channels (sl_box demo_steer)) ''s'' = None" "sl_dropped demo_steer = [(''s'', ''go'', Some 1)]" by code_simp+
  then show ?thesis using steer_never_lost [OF demo_steer_run, of "''s''"] by simp
qed

definition demo_gate_open :: compaction_state where
  "demo_gate_open = new_compaction_state\<lparr>cg_box := snd (registerCompactionGate ''s'' new_mailbox)\<rparr>"

definition demo_one_parked :: compaction_state where
  "demo_one_parked = demo_gate_open\<lparr>cg_box := snd (pushCompactionRequest ''s'' 0 (cg_box demo_gate_open)), cg_next := 1\<rparr>"

definition demo_two_parked :: compaction_state where
  "demo_two_parked = demo_one_parked\<lparr>cg_box := snd (pushCompactionRequest ''s'' 1 (cg_box demo_one_parked)), cg_next := 2\<rparr>"

lemmas demo_gate_box_defs = demo_gate_open_def demo_one_parked_def demo_two_parked_def new_compaction_state_def new_mailbox_def
  registerCompactionGate_def pushCompactionRequest_def registerSteerChannel_def pushSteer_def map_get_def map_set_def mb_put_def Let_def

lemma demo_two_parked_run: "compaction_step\<^sup>*\<^sup>* new_compaction_state demo_two_parked"
proof -
  have "compaction_step new_compaction_state demo_gate_open"
    using loop_started [of "''s''" new_compaction_state "[]" "cg_box demo_gate_open"] by (simp add: demo_gate_box_defs)
  moreover have "compaction_step demo_gate_open demo_one_parked"
    using requested [of "''s''" demo_gate_open "cg_box demo_one_parked"] by (simp add: demo_gate_box_defs)
  moreover have "compaction_step demo_one_parked demo_two_parked"
    using requested [of "''s''" demo_one_parked "cg_box demo_two_parked"] by (simp add: demo_gate_box_defs numeral_2_eq_2)
  ultimately show ?thesis by (meson rtranclp.rtrancl_into_rtrancl rtranclp.rtrancl_refl)
qed

theorem second_compaction_request_hangs_witness:
  "1 \<notin> fst ` set (cg_settled (drainDeferredCompaction 0 demo_two_parked)) \<and> cg_next (drainDeferredCompaction 0 demo_two_parked) = 2"
proof -
  have "mb_queues (cg_box demo_two_parked) = [[0, 1]]" "mb_closed (cg_box demo_two_parked) = [False]" "cg_running demo_two_parked = []"
    "cg_next (drainDeferredCompaction 0 demo_two_parked) = 2"
    by code_simp+
  then show ?thesis
    using second_compaction_request_hangs [OF demo_two_parked_run, of 0 0 "[1]"] by (simp add: map_get_def)
qed

end
