(* ===== verification/Spawn_Policy.thy ===== *)
theory Spawn_Policy
  imports Session_Urn
begin

text \<open>
  Who may talk to whom, and who may spawn subagents: the allowlists
  (\<open>shared/src/agent-to-agent-policy.ts\<close>, \<open>shared/src/subagent-spawn-allow-policy.ts\<close>), the nesting depth
  (\<open>shared/src/spawn-depth.ts\<close>), and the guards of the control operations that combine them
  (\<open>daemon/src/control/integration-ops.ts\<close>).
\<close>

section \<open>Configuration\<close>

text \<open>
  An allow section may be absent, present without a list, or present with one. An absent map of agents is
  an empty one.
\<close>

record agent_entry =
  ae_maxSpawnDepth :: "jsnum option"
  ae_subagentSpawnAllow :: "string list option option"
  ae_agentToAgentAllow :: "string list option"

record spawn_config =
  sp_maxSpawnDepth :: "jsnum option"
  sp_subagentSpawnAllow :: "string list option option"
  sp_agentToAgentAllow :: "string list option"
  sp_agents :: "(string, agent_entry) jsmap"

section \<open>Allowlists\<close>

text \<open>The loop that merges two lists: trimmed, without empty entries and duplicates.\<close>

fun merge_patterns :: "string list \<Rightarrow> string list \<Rightarrow> string list" where
  "merge_patterns [] seen = []"
| "merge_patterns (x # xs) seen =
     (let t = js_trim x in
      if t = [] \<or> t \<in> set seen then merge_patterns xs seen else t # merge_patterns xs (t # seen))"

definition resolveAgentsListToAgentAllow :: "spawn_config \<Rightarrow> string \<Rightarrow> string list option" where
  "resolveAgentsListToAgentAllow cfg senderAgentId =
     (case map_get (sp_agents cfg) (js_trim senderAgentId) of None \<Rightarrow> None | Some entry \<Rightarrow> ae_agentToAgentAllow entry)"

definition mergeAgentToAgentAllowPatterns :: "spawn_config \<Rightarrow> string \<Rightarrow> string list" where
  "mergeAgentToAgentAllowPatterns cfg senderAgentId =
     merge_patterns (nullish (sp_agentToAgentAllow cfg) [] @ nullish (resolveAgentsListToAgentAllow cfg senderAgentId) []) []"

definition crossAgentSessionSendAllowed :: "spawn_config \<Rightarrow> string \<Rightarrow> string \<Rightarrow> bool" where
  "crossAgentSessionSendAllowed cfg senderAgentId targetAgentId \<longleftrightarrow>
     senderAgentId = targetAgentId
     \<or> list_ex (\<lambda>p. p = ''*'' \<or> p = targetAgentId) (mergeAgentToAgentAllowPatterns cfg senderAgentId)"

definition perSenderSubagentSpawnAllow :: "spawn_config \<Rightarrow> string \<Rightarrow> string list option option" where
  "perSenderSubagentSpawnAllow cfg senderAgentId =
     (case map_get (sp_agents cfg) (js_trim senderAgentId) of None \<Rightarrow> None | Some entry \<Rightarrow> ae_subagentSpawnAllow entry)"

definition mergeSubagentSpawnAllowPatterns :: "spawn_config \<Rightarrow> string \<Rightarrow> string list" where
  "mergeSubagentSpawnAllowPatterns cfg senderAgentId =
     merge_patterns (nullish (nullish (sp_subagentSpawnAllow cfg) None) []
       @ nullish (nullish (perSenderSubagentSpawnAllow cfg senderAgentId) None) []) []"

definition hasExplicitSubagentSpawnAllowConfig :: "spawn_config \<Rightarrow> string \<Rightarrow> bool" where
  "hasExplicitSubagentSpawnAllowConfig cfg senderAgentId \<longleftrightarrow>
     sp_subagentSpawnAllow cfg \<noteq> None \<or> perSenderSubagentSpawnAllow cfg senderAgentId \<noteq> None"

definition effectiveSubagentSpawnAllowedAgentIds :: "spawn_config \<Rightarrow> string \<Rightarrow> string list" where
  "effectiveSubagentSpawnAllowedAgentIds cfg senderAgentId =
     (let sender = js_trim senderAgentId in
      if sender = [] then []
      else if \<not> hasExplicitSubagentSpawnAllowConfig cfg sender then [sender]
      else mergeSubagentSpawnAllowPatterns cfg sender)"

definition agentMayInvokeSubagentSpawnByAllowlist :: "spawn_config \<Rightarrow> string \<Rightarrow> bool" where
  "agentMayInvokeSubagentSpawnByAllowlist cfg logicalAgentId =
     (let sender = js_trim logicalAgentId in
      list_ex (\<lambda>p. p = ''*'' \<or> p = sender) (effectiveSubagentSpawnAllowedAgentIds cfg sender))"

section \<open>Nesting depth\<close>

definition DEFAULT_MAX_SPAWN_DEPTH :: nat where "DEFAULT_MAX_SPAWN_DEPTH = 1"

definition MAX_LINEAGE_WALK :: nat where "MAX_LINEAGE_WALK = 64"

text \<open>A number that is an integer and not negative.\<close>

definition whole_number :: "jsnum option \<Rightarrow> nat option" where
  "whole_number n =
     (case n of
        Some (JsNum q) \<Rightarrow> (if snd (quotient_of q) = 1 \<and> 0 \<le> q then Some (nat (fst (quotient_of q))) else None)
      | _ \<Rightarrow> None)"

definition effectiveMaxSpawnDepth :: "spawn_config \<Rightarrow> string option \<Rightarrow> nat" where
  "effectiveMaxSpawnDepth cfg logicalAgentId =
     (let per = (case logicalAgentId of
                   Some (c # cs) \<Rightarrow>
                     (case map_get (sp_agents cfg) (c # cs) of None \<Rightarrow> None | Some entry \<Rightarrow> whole_number (ae_maxSpawnDepth entry))
                 | _ \<Rightarrow> None)
      in case per of
           Some d \<Rightarrow> d
         | None \<Rightarrow> nullish (whole_number (sp_maxSpawnDepth cfg)) DEFAULT_MAX_SPAWN_DEPTH)"

text \<open>
  \<open>lookupParent\<close> gives \<open>None\<close> for \<open>undefined\<close> and \<open>Some None\<close> for \<open>null\<close>. The loop ends because the depth is
  at most \<open>MAX_LINEAGE_WALK\<close>.
\<close>

function depth_loop :: "(string \<Rightarrow> string option option) \<Rightarrow> nat \<Rightarrow> string \<Rightarrow> string list \<Rightarrow> int" where
  "depth_loop lookupParent depth current seen =
     (case lookupParent current of
        None \<Rightarrow> -1
      | Some None \<Rightarrow> int depth
      | Some (Some parent) \<Rightarrow>
          (if parent \<in> set seen \<or> MAX_LINEAGE_WALK \<le> depth then -1
           else depth_loop lookupParent (depth + 1) parent (parent # seen)))"
  by pat_completeness auto
termination
  by (relation "measure (\<lambda>(lookupParent, depth, current, seen). MAX_LINEAGE_WALK - depth)") auto

declare depth_loop.simps [simp del]

definition computeSessionDepth :: "(string \<Rightarrow> string option option) \<Rightarrow> string \<Rightarrow> int" where
  "computeSessionDepth lookupParent sessionId = depth_loop lookupParent 0 sessionId [sessionId]"

definition maySpawnSubagentAtDepth :: "int \<Rightarrow> nat \<Rightarrow> bool" where
  "maySpawnSubagentAtDepth currentDepth maxDepth \<longleftrightarrow> 0 \<le> currentDepth \<and> currentDepth < int maxDepth"

section \<open>The guards of the control operations\<close>

record session_row =
  sr_id :: string
  sr_parent :: "string option"
  sr_terminated :: bool

definition session_by_id :: "session_row list \<Rightarrow> string \<Rightarrow> session_row option" where
  "session_by_id rows i = find (\<lambda>r. sr_id r = i) rows"

definition computeSessionDepthFromStore :: "session_row list \<Rightarrow> string \<Rightarrow> int" where
  "computeSessionDepthFromStore rows sessionId = computeSessionDepth (\<lambda>i. map_option sr_parent (session_by_id rows i)) sessionId"

datatype op_principal = Operator | Agent string | OtherPrincipal

datatype op_error = ErrForbidden | ErrParentSessionInvalid | ErrSubagentNestingForbidden

definition agent_id_of :: "string \<Rightarrow> string option" where
  "agent_id_of sessionId = map_option u_agentId (parseAgentSessionUrn sessionId)"

definition assertAgentMayTargetSessionForSendOrList :: "op_principal \<Rightarrow> string \<Rightarrow> spawn_config \<Rightarrow> op_error + unit" where
  "assertAgentMayTargetSessionForSendOrList p targetSessionId config =
     (case p of
        Agent sessionId \<Rightarrow>
          (case (agent_id_of sessionId, agent_id_of targetSessionId) of
             (Some (c # cs), Some (t # ts)) \<Rightarrow>
               (if crossAgentSessionSendAllowed config (c # cs) (t # ts) then Inr () else Inl ErrForbidden)
           | _ \<Rightarrow> Inl ErrForbidden)
      | _ \<Rightarrow> Inr ())"

definition assertAgentMayUseSubagentSpawn :: "op_principal \<Rightarrow> string \<Rightarrow> session_row list \<Rightarrow> spawn_config \<Rightarrow> op_error + unit" where
  "assertAgentMayUseSubagentSpawn p parentSessionId rows config =
     (case p of
        Agent sessionId \<Rightarrow>
          (if sessionId \<noteq> parentSessionId then Inl ErrForbidden
           else (case session_by_id rows sessionId of
                   None \<Rightarrow> Inl ErrParentSessionInvalid
                 | Some row \<Rightarrow>
                     (if sr_terminated row then Inl ErrParentSessionInvalid
                      else if \<not> maySpawnSubagentAtDepth (computeSessionDepthFromStore rows sessionId)
                                  (effectiveMaxSpawnDepth config (agent_id_of sessionId))
                        then Inl ErrSubagentNestingForbidden
                      else Inr ())))
      | _ \<Rightarrow> Inr ())"

definition assertAgentMayUseSubagentSessionOps :: "op_principal \<Rightarrow> session_row list \<Rightarrow> spawn_config \<Rightarrow> op_error + unit" where
  "assertAgentMayUseSubagentSessionOps p rows config =
     (case p of
        Agent sessionId \<Rightarrow>
          (case session_by_id rows sessionId of
             None \<Rightarrow> Inl ErrParentSessionInvalid
           | Some row \<Rightarrow>
               (if \<not> maySpawnSubagentAtDepth (computeSessionDepthFromStore rows sessionId)
                       (effectiveMaxSpawnDepth config (agent_id_of sessionId))
                then Inl ErrSubagentNestingForbidden else Inr ()))
      | _ \<Rightarrow> Inr ())"

text \<open>The authorisation of \<open>subagent_spawn\<close>, where the subagent runtime is configured and the payload names a parent session.\<close>

definition subagent_spawn_guard :: "op_principal \<Rightarrow> string \<Rightarrow> session_row list \<Rightarrow> spawn_config \<Rightarrow> op_error + unit" where
  "subagent_spawn_guard p parentSessionId rows config =
     (case p of
        OtherPrincipal \<Rightarrow> Inl ErrForbidden
      | Operator \<Rightarrow> Inr ()
      | Agent sessionId \<Rightarrow>
          (case agent_id_of sessionId of
             Some (c # cs) \<Rightarrow>
               (if \<not> agentMayInvokeSubagentSpawnByAllowlist config (c # cs) then Inl ErrForbidden
                else assertAgentMayUseSubagentSpawn p parentSessionId rows config)
           | _ \<Rightarrow> assertAgentMayUseSubagentSpawn p parentSessionId rows config))"

section \<open>What the allowlists allow\<close>

lemma merge_patterns_set: "set (merge_patterns xs seen) \<union> set seen = (js_trim ` set xs - {[]}) \<union> set seen"
  by (induction xs seen rule: merge_patterns.induct) (auto simp: Let_def)

lemma merge_patterns_members: "p \<in> set (merge_patterns xs []) \<longleftrightarrow> p \<noteq> [] \<and> p \<in> js_trim ` set xs"
  using merge_patterns_set [of xs "[]"] by auto

lemma merge_patterns_distinct: "distinct (merge_patterns xs seen) \<and> set (merge_patterns xs seen) \<inter> set seen = {}"
  by (induction xs seen rule: merge_patterns.induct) (auto simp: Let_def)

text \<open>
  An agent reaches a session of another agent exactly when an entry of the global list or of its own
  list, trimmed, is the star or that agent's id; its own sessions it always reaches.
\<close>
theorem cross_agent_send_iff:
  "assertAgentMayTargetSessionForSendOrList (Agent sender) target cfg = Inr () \<longleftrightarrow>
     (\<exists>a b. agent_id_of sender = Some a \<and> agent_id_of target = Some b \<and> a \<noteq> [] \<and> b \<noteq> []
        \<and> (a = b \<or> (\<exists>p \<in> set (nullish (sp_agentToAgentAllow cfg) [])
               \<union> set (nullish (resolveAgentsListToAgentAllow cfg a) []). js_trim p = ''*'' \<or> js_trim p = b)))"
proof -
  let ?ps = "\<lambda>a. nullish (sp_agentToAgentAllow cfg) [] @ nullish (resolveAgentsListToAgentAllow cfg a) []"
  have "crossAgentSessionSendAllowed cfg a b \<longleftrightarrow> a = b \<or> (\<exists>p \<in> set (?ps a). js_trim p = ''*'' \<or> js_trim p = b)" if "b \<noteq> []" for a b
  proof -
    have "p \<in> set (mergeAgentToAgentAllowPatterns cfg a) \<longleftrightarrow> p \<noteq> [] \<and> (\<exists>x \<in> set (?ps a). p = js_trim x)" for p
      unfolding mergeAgentToAgentAllowPatterns_def merge_patterns_members image_iff ..
    then have "(\<exists>p \<in> set (mergeAgentToAgentAllowPatterns cfg a). p = ''*'' \<or> p = b) \<longleftrightarrow>
        (\<exists>x \<in> set (?ps a). js_trim x = ''*'' \<or> js_trim x = b)"
      using that by (metis list.distinct(1))
    then show ?thesis unfolding crossAgentSessionSendAllowed_def list_ex_iff by (rule arg_cong)
  qed
  then have "(case (agent_id_of sender, agent_id_of target) of
        (Some (c # cs), Some (t # ts)) \<Rightarrow> (if crossAgentSessionSendAllowed cfg (c # cs) (t # ts) then Inr () else Inl ErrForbidden)
      | _ \<Rightarrow> Inl ErrForbidden) = Inr () \<longleftrightarrow>
    (\<exists>a b. agent_id_of sender = Some a \<and> agent_id_of target = Some b \<and> a \<noteq> [] \<and> b \<noteq> []
      \<and> (a = b \<or> (\<exists>p \<in> set (?ps a). js_trim p = ''*'' \<or> js_trim p = b)))"
    by (simp split: option.split list.split)
  then show ?thesis by (simp only: assertAgentMayTargetSessionForSendOrList_def op_principal.case set_append)
qed

section \<open>How deep subagents nest\<close>

text \<open>The length of the way to a session without a parent.\<close>

inductive lineage :: "(string \<Rightarrow> string option option) \<Rightarrow> string \<Rightarrow> nat \<Rightarrow> bool" for lookupParent where
  top: "lookupParent s = Some None \<Longrightarrow> lineage lookupParent s 0"
| child: "lookupParent s = Some (Some p) \<Longrightarrow> lineage lookupParent p d \<Longrightarrow> lineage lookupParent s (d + 1)"

lemma lineage_unique: "lineage l s d \<Longrightarrow> lineage l s d' \<Longrightarrow> d' = d"
proof (induction arbitrary: d' rule: lineage.induct)
  case (top s)
  from top.prems top.hyps show ?case by (cases rule: lineage.cases) simp_all
next
  case (child s p d)
  from child.prems obtain d1 where "d' = d1 + 1" "lineage l p d1"
    using child.hyps(1) by (cases rule: lineage.cases) simp_all
  then show ?case using child.IH by simp
qed

text \<open>The sessions already seen have a longer way, so that they are not met again.\<close>

lemma depth_loop_lineage:
  assumes "lineage l s d" "\<forall>x \<in> set seen. \<forall>e. lineage l x e \<longrightarrow> d \<le> e" "n + d \<le> MAX_LINEAGE_WALK"
  shows "depth_loop l n s seen = int (n + d)"
  using assms
proof (induction arbitrary: n seen rule: lineage.induct)
  case (top s)
  then show ?case by (subst depth_loop.simps) simp
next
  case (child s p d)
  have "p \<notin> set seen"
  proof
    assume "p \<in> set seen"
    then have "d + 1 \<le> d" using child.prems(1) child.hyps(2) by blast
    then show False by simp
  qed
  moreover have "\<forall>x \<in> set (p # seen). \<forall>e. lineage l x e \<longrightarrow> d \<le> e"
    using child.prems(1) lineage_unique [OF child.hyps(2)] by fastforce
  ultimately have "depth_loop l (n + 1) p (p # seen) = int (n + 1 + d)" using child.IH child.prems(2) by simp
  then show ?case using child.hyps(1) child.prems(2) \<open>p \<notin> set seen\<close> by (subst depth_loop.simps) simp
qed

lemma depth_loop_sound:
  "depth_loop l n s seen = int m \<Longrightarrow> n \<le> MAX_LINEAGE_WALK \<Longrightarrow> \<exists>d. lineage l s d \<and> m = n + d \<and> m \<le> MAX_LINEAGE_WALK"
proof (induction l n s seen rule: depth_loop.induct)
  case (1 l n s seen)
  show ?case
  proof (cases "l s")
    case (Some a)
    show ?thesis
    proof (cases a)
      case None
      then show ?thesis using 1(2,3) Some by (subst (asm) depth_loop.simps) (auto intro: lineage.top)
    next
      case (Some p)
      have "\<not> (p \<in> set seen \<or> MAX_LINEAGE_WALK \<le> n)" and "depth_loop l (n + 1) p (p # seen) = int m"
        using 1(2) \<open>l s = Some a\<close> Some by (subst (asm) depth_loop.simps, simp split: if_splits)+
      with 1(1) [OF \<open>l s = Some a\<close> Some] obtain d where "lineage l p d" "m = n + 1 + d" "m \<le> MAX_LINEAGE_WALK" by auto
      then show ?thesis using lineage.child [of l s p d] \<open>l s = Some a\<close> Some by auto
    qed
  qed (use 1(2) in \<open>subst (asm) depth_loop.simps, simp\<close>)
qed

lemma depth_loop_range: "-1 \<le> depth_loop l n s seen"
proof (induction l n s seen rule: depth_loop.induct)
  case (1 l n s seen)
  then show ?case by (subst depth_loop.simps) (simp split: option.splits)
qed

text \<open>
  The depth that a walk along the parents computes is right: it is \<open>d\<close> exactly when the session is \<open>d\<close>
  levels below one without a parent and \<open>d\<close> is at most 64; in every other case, a missing row, a cycle or
  a longer chain, the walk ends with -1, which no limit lets pass.
\<close>
theorem session_depth_exact:
  "computeSessionDepth l s = k \<longleftrightarrow>
     (if \<exists>d. lineage l s d \<and> d \<le> MAX_LINEAGE_WALK then lineage l s (nat k) \<and> 0 \<le> k else k = -1)"
proof (cases "\<exists>d. lineage l s d \<and> d \<le> MAX_LINEAGE_WALK")
  case True
  then obtain d where d: "d \<le> MAX_LINEAGE_WALK" "lineage l s d" by auto
  have "\<forall>x \<in> set [s]. \<forall>e. lineage l x e \<longrightarrow> d \<le> e" using lineage_unique [OF d(2)] by simp
  from depth_loop_lineage [OF d(2) this, of 0] d(1) have "computeSessionDepth l s = int d" by (simp add: computeSessionDepth_def)
  moreover have "int d = k \<longleftrightarrow> lineage l s (nat k) \<and> 0 \<le> k"
  proof
    assume "lineage l s (nat k) \<and> 0 \<le> k"
    then have "nat k = d" using lineage_unique [OF d(2)] by blast
    then show "int d = k" using \<open>lineage l s (nat k) \<and> 0 \<le> k\<close> by auto
  qed (use d(2) in auto)
  ultimately show ?thesis using True by simp
next
  case False
  have "computeSessionDepth l s \<noteq> int m" for m
    using depth_loop_sound [of l 0 s "[s]" m] False by (auto simp: computeSessionDepth_def)
  moreover have "-1 \<le> computeSessionDepth l s" by (simp add: computeSessionDepth_def depth_loop_range)
  ultimately have "computeSessionDepth l s = -1"
    by (metis add.left_inverse int_nat_eq not_le order_antisym_conv zless_add1_eq zle_add1_eq_le)
  then show ?thesis using False by auto
qed

section \<open>The tree that agents can grow\<close>

definition parent_of :: "session_row list \<Rightarrow> string \<Rightarrow> string option option" where
  "parent_of rows i = map_option sr_parent (session_by_id rows i)"

text \<open>
  Sessions come and go: top-level sessions are created, agents spawn below their own session, sessions
  are terminated and rows deleted. Identifiers are not used twice.
\<close>

record spawn_tree =
  st_rows :: "session_row list"
  st_used :: "string list"

inductive spawn_step :: "spawn_config \<Rightarrow> spawn_tree \<Rightarrow> spawn_tree \<Rightarrow> bool" for cfg where
  session_created: "i \<notin> set (st_used t) \<Longrightarrow>
    spawn_step cfg t \<lparr>st_rows = st_rows t @ [\<lparr>sr_id = i, sr_parent = None, sr_terminated = False\<rparr>], st_used = i # st_used t\<rparr>"
| subagent_spawned: "subagent_spawn_guard (Agent p) p (st_rows t) cfg = Inr () \<Longrightarrow> i \<notin> set (st_used t) \<Longrightarrow>
    spawn_step cfg t \<lparr>st_rows = st_rows t @ [\<lparr>sr_id = i, sr_parent = Some p, sr_terminated = False\<rparr>], st_used = i # st_used t\<rparr>"
| session_terminated:
    "spawn_step cfg t (t\<lparr>st_rows := map (\<lambda>r. if sr_id r = i then r\<lparr>sr_terminated := True\<rparr> else r) (st_rows t)\<rparr>)"
| session_deleted: "spawn_step cfg t (t\<lparr>st_rows := filter (\<lambda>r. sr_id r \<noteq> i) (st_rows t)\<rparr>)"

definition new_tree :: spawn_tree where
  "new_tree = \<lparr>st_rows = [], st_used = []\<rparr>"

definition tree_inv :: "nat \<Rightarrow> spawn_tree \<Rightarrow> bool" where
  "tree_inv m t \<longleftrightarrow>
     (\<forall>r \<in> set (st_rows t). sr_id r \<in> set (st_used t) \<and> (\<forall>p. sr_parent r = Some p \<longrightarrow> p \<in> set (st_used t)))
     \<and> (\<forall>s d. lineage (parent_of (st_rows t)) s d \<longrightarrow> d \<le> m)"

lemma parent_of_row: "parent_of rows s = Some a \<Longrightarrow> \<exists>r \<in> set rows. sr_id r = s \<and> sr_parent r = a"
  by (auto simp: parent_of_def session_by_id_def find_Some_iff)

lemma parent_of_snoc: "s \<noteq> sr_id r \<Longrightarrow> parent_of (rows @ [r]) s = parent_of rows s"
  by (simp add: parent_of_def session_by_id_def find_snoc split: option.split)

lemma parent_of_new: "sr_id r \<notin> sr_id ` set rows \<Longrightarrow> parent_of (rows @ [r]) (sr_id r) = Some (sr_parent r)"
proof -
  assume "sr_id r \<notin> sr_id ` set rows"
  then have "find (\<lambda>x. sr_id x = sr_id r) rows = None" by (auto simp: find_None_iff) (metis image_eqI)
  then show ?thesis by (simp add: parent_of_def session_by_id_def find_snoc)
qed

lemma lineage_mono:
  assumes "lineage l s d" "\<And>x a. l x = Some a \<Longrightarrow> l' x = Some a"
  shows "lineage l' s d"
  using assms(1)
proof (induction rule: lineage.induct)
  case (child s p d)
  show ?case by (rule lineage.child [OF assms(2) [OF child.hyps(1)] child.IH])
qed (simp add: lineage.top assms(2))

text \<open>A new row changes the way of no other session.\<close>

lemma lineage_snoc:
  assumes inv: "tree_inv m t" and new: "sr_id r \<notin> set (st_used t)"
    and "lineage (parent_of (st_rows t @ [r])) s d" "s \<noteq> sr_id r"
  shows "lineage (parent_of (st_rows t)) s d"
  using assms(3,4)
proof (induction rule: lineage.induct)
  case (top s)
  then show ?case by (intro lineage.top) (simp add: parent_of_snoc)
next
  case (child s p d)
  have l: "parent_of (st_rows t) s = Some (Some p)" using child.hyps(1) child.prems by (simp add: parent_of_snoc)
  then have "p \<in> set (st_used t)" using inv parent_of_row [OF l] by (auto simp: tree_inv_def)
  then have "p \<noteq> sr_id r" using new by auto
  then show ?case using child.IH l by (intro lineage.child)
qed

lemma guard_depth:
  assumes "subagent_spawn_guard (Agent p) p rows cfg = Inr ()" "lineage (parent_of rows) p d"
  shows "d < effectiveMaxSpawnDepth cfg (agent_id_of p)"
proof -
  have "assertAgentMayUseSubagentSpawn (Agent p) p rows cfg = Inr ()"
    using assms(1) by (auto simp: subagent_spawn_guard_def split: option.splits list.splits if_splits)
  then have may: "maySpawnSubagentAtDepth (computeSessionDepth (parent_of rows) p) (effectiveMaxSpawnDepth cfg (agent_id_of p))"
    by (auto simp: assertAgentMayUseSubagentSpawn_def computeSessionDepthFromStore_def parent_of_def [abs_def]
        split: option.splits if_splits)
  then obtain k where k: "computeSessionDepth (parent_of rows) p = int k" "k < effectiveMaxSpawnDepth cfg (agent_id_of p)"
    unfolding maySpawnSubagentAtDepth_def by (metis int_nat_eq of_nat_less_iff)
  then obtain e where "lineage (parent_of rows) p e" "k = e"
    using depth_loop_sound [of "parent_of rows" 0 p "[p]" k] by (auto simp: computeSessionDepth_def)
  then show ?thesis using lineage_unique [OF assms(2)] k(2) by blast
qed

lemma spawn_step_inv:
  assumes "spawn_step cfg t t'" "tree_inv m t" and limit: "\<And>a. effectiveMaxSpawnDepth cfg a \<le> m"
  shows "tree_inv m t'"
  using assms(1,2)
proof (induction rule: spawn_step.induct)
  case (session_created i t)
  let ?r = "\<lparr>sr_id = i, sr_parent = None, sr_terminated = False\<rparr>"
  have new: "sr_id ?r \<notin> sr_id ` set (st_rows t)" using session_created by (auto simp: tree_inv_def)
  have "d \<le> m" if l: "lineage (parent_of (st_rows t @ [?r])) s d" for s d
  proof (cases "s = i")
    case True
    from l show ?thesis by (cases rule: lineage.cases) (use parent_of_new [OF new] True in auto)
  next
    case False
    then show ?thesis using lineage_snoc [of m t ?r s d] l session_created by (auto simp: tree_inv_def)
  qed
  then show ?case using session_created(2) by (auto simp: tree_inv_def)
next
  case (subagent_spawned p t i)
  let ?r = "\<lparr>sr_id = i, sr_parent = Some p, sr_terminated = False\<rparr>"
  have new: "sr_id ?r \<notin> sr_id ` set (st_rows t)" using subagent_spawned(2,3) by (auto simp: tree_inv_def)
  have "session_by_id (st_rows t) p \<noteq> None"
    using subagent_spawned(1)
    by (auto simp: subagent_spawn_guard_def assertAgentMayUseSubagentSpawn_def split: option.splits list.splits if_splits)
  then have p: "p \<in> set (st_used t)" using subagent_spawned(3) by (auto simp: tree_inv_def session_by_id_def find_Some_iff dest: nth_mem)
  have "d \<le> m" if l: "lineage (parent_of (st_rows t @ [?r])) s d" for s d
  proof (cases "s = i")
    case True
    have "parent_of (st_rows t @ [?r]) i = Some (Some p)" using parent_of_new [OF new] by simp
    with l True obtain e where e: "d = e + 1" "lineage (parent_of (st_rows t @ [?r])) p e" by (cases rule: lineage.cases) simp_all
    have "p \<noteq> i" using p subagent_spawned(2) by auto
    then have "lineage (parent_of (st_rows t)) p e" using lineage_snoc [OF subagent_spawned(3), of ?r p e] subagent_spawned(2) e(2) by simp
    from guard_depth [OF subagent_spawned(1) this] show ?thesis using limit [of "agent_id_of p"] e(1) by simp
  next
    case False
    then show ?thesis using lineage_snoc [of m t ?r s d] l subagent_spawned by (auto simp: tree_inv_def)
  qed
  then show ?case using subagent_spawned(3) p by (auto simp: tree_inv_def)
next
  case (session_terminated t i)
  let ?f = "\<lambda>r. if sr_id r = i then r\<lparr>sr_terminated := True\<rparr> else r"
  have "map_option sr_parent (find (\<lambda>r. sr_id r = s) (map ?f rows)) = map_option sr_parent (find (\<lambda>r. sr_id r = s) rows)" for s rows
    by (induction rows) auto
  then have "parent_of (map ?f (st_rows t)) = parent_of (st_rows t)" by (intro ext) (simp add: parent_of_def session_by_id_def)
  then show ?case using session_terminated by (auto simp: tree_inv_def)
next
  case (session_deleted t i)
  have sub: "find (\<lambda>r. sr_id r = s) (filter (\<lambda>r. sr_id r \<noteq> i) rows) = (if s = i then None else find (\<lambda>r. sr_id r = s) rows)" for s rows
    by (induction rows) auto
  have "lineage (parent_of (st_rows t)) s d" if "lineage (parent_of (filter (\<lambda>r. sr_id r \<noteq> i) (st_rows t))) s d" for s d
    by (rule lineage_mono [OF that]) (auto simp: parent_of_def session_by_id_def sub split: if_splits)
  then have "\<forall>s d. lineage (parent_of (filter (\<lambda>r. sr_id r \<noteq> i) (st_rows t))) s d \<longrightarrow> d \<le> m"
    using session_deleted unfolding tree_inv_def by blast
  then show ?case using session_deleted unfolding tree_inv_def by simp (metis (no_types, lifting))
qed

text \<open>
  Agents cannot nest deeper than the configuration says: as long as sessions are made at the top level
  or by agents through the guard of \<open>subagent_spawn\<close>, no session is further from the top than the largest
  limit of any agent, whatever else is terminated and deleted.
\<close>
theorem agents_nest_bounded:
  assumes "(spawn_step cfg)\<^sup>*\<^sup>* new_tree t" "\<And>a. effectiveMaxSpawnDepth cfg a \<le> m"
    and "lineage (parent_of (st_rows t)) s d"
  shows "d \<le> m"
proof -
  have "tree_inv m t"
    using assms(1)
  proof (induction rule: rtranclp_induct)
    case base
    have "\<not> lineage (parent_of []) s d" for s d
      by (auto simp: parent_of_def session_by_id_def elim: lineage.cases)
    then show ?case by (simp add: tree_inv_def new_tree_def)
  next
    case (step t1 t2)
    then show ?case using spawn_step_inv assms(2) by blast
  qed
  then show ?thesis using assms(3) by (simp add: tree_inv_def)
qed

section \<open>Examples\<close>

definition demo_spawn_config :: spawn_config where
  "demo_spawn_config = \<lparr>sp_maxSpawnDepth = None, sp_subagentSpawnAllow = None, sp_agentToAgentAllow = Some [''helper''], sp_agents = []\<rparr>"

definition demo_root :: string where "demo_root = ''agent:main:discord:channel:1''"

definition demo_tree :: spawn_tree where
  "demo_tree = \<lparr>st_rows = [\<lparr>sr_id = demo_root, sr_parent = None, sr_terminated = False\<rparr>,
     \<lparr>sr_id = ''child'', sr_parent = Some demo_root, sr_terminated = False\<rparr>], st_used = [''child'', demo_root]\<rparr>"

lemma demo_spawn_allowed:
  "subagent_spawn_guard (Agent demo_root) demo_root [\<lparr>sr_id = demo_root, sr_parent = None, sr_terminated = False\<rparr>] demo_spawn_config = Inr ()"
  by code_simp

lemma demo_tree_run: "(spawn_step demo_spawn_config)\<^sup>*\<^sup>* new_tree demo_tree"
proof -
  let ?t = "\<lparr>st_rows = [\<lparr>sr_id = demo_root, sr_parent = None, sr_terminated = False\<rparr>], st_used = [demo_root]\<rparr>"
  have "spawn_step demo_spawn_config new_tree ?t"
    using session_created [of demo_root new_tree demo_spawn_config] by (simp add: new_tree_def)
  moreover have "spawn_step demo_spawn_config ?t demo_tree"
    using subagent_spawned [of demo_root ?t demo_spawn_config "''child''"] demo_spawn_allowed
    by (simp add: demo_tree_def demo_root_def)
  ultimately show ?thesis by (meson rtranclp.rtrancl_into_rtrancl rtranclp.rtrancl_refl)
qed

theorem agents_nest_bounded_witness:
  "computeSessionDepthFromStore (st_rows demo_tree) ''child'' = 1
   \<and> (\<forall>d. lineage (parent_of (st_rows demo_tree)) ''child'' d \<longrightarrow> d \<le> 1)"
proof -
  have "effectiveMaxSpawnDepth demo_spawn_config a \<le> 1" for a
    by (simp add: effectiveMaxSpawnDepth_def demo_spawn_config_def map_get_def whole_number_def DEFAULT_MAX_SPAWN_DEPTH_def
        nullish_def split: option.split list.split)
  moreover have "computeSessionDepthFromStore (st_rows demo_tree) ''child'' = 1" by code_simp
  ultimately show ?thesis using agents_nest_bounded [OF demo_tree_run] by blast
qed

theorem cross_agent_send_iff_witness:
  "assertAgentMayTargetSessionForSendOrList (Agent demo_root) ''agent:helper:discord:channel:2'' demo_spawn_config = Inr ()"
proof -
  have "agent_id_of demo_root = Some ''main''" "agent_id_of ''agent:helper:discord:channel:2'' = Some ''helper''" "js_trim ''helper'' = ''helper''"
    by code_simp+
  then show ?thesis unfolding cross_agent_send_iff by (auto simp: demo_spawn_config_def nullish_def)
qed

theorem session_depth_exact_witness:
  "computeSessionDepth (\<lambda>s. Some (Some s)) ''x'' = -1"
proof -
  have "\<not> lineage (\<lambda>s. Some (Some s)) s d" for s d
  proof
    assume "lineage (\<lambda>s. Some (Some s)) s d"
    then show False by (induction rule: lineage.induct) simp_all
  qed
  then show ?thesis unfolding session_depth_exact by simp
qed

end
