(* ===== verification/Spec2Isabelle.thy ===== *)
theory Spec2Isabelle
  imports Scenario Scenario_Services Tool_Loop Turn_Mailbox Spawn_Policy
begin

text \<open>
  A verification development for Shoggoth, a daemon that runs language-model agents in sessions.
  It models the parts of the daemon that decide what happens, and in which order: the workflow
  engine, the turn queue of a session, the loop of a turn with its transcript, the tool policy, the resilience layer in front of the model
  providers, the timers, the event queue with its cron jobs, the human approval of tool calls, the rules for
  messages between agents and for subagents, and the supervisor of child processes.

  \<^bold>\<open>The program's parts and their theories\<close> (paths under \<open>src/packages\<close>)

  \<^item> \<open>Prelude\<close>: JavaScript's insertion-ordered maps and sets, string and number routines; the locales
    \<open>keyed_store\<close> (what a client of a map relies on) and \<open>transition_system\<close> (an invariant and the
    steps that keep it), which the components interpret.
  \<^item> Workflow engine (\<open>workflow/src\<close>). \<open>Workflow_Types\<close>: tasks, statuses, the transition guard
    (\<open>types.ts\<close>, \<open>hardening.ts\<close>). \<open>Graph\<close>, \<open>Graph_Dsl\<close>: the dependency graph and its lane syntax
    (\<open>graph.ts\<close>). \<open>Templates\<close>: references between tasks (\<open>templates.ts\<close>). \<open>Gate_Eval\<close>: the condition
    language (\<open>gate-eval.ts\<close>). \<open>Blocking\<close>, \<open>Orchestrator\<close> and the theories \<open>Orchestrator_Safety\<close>,
    \<open>Orchestrator_Progress\<close>, \<open>Orchestrator_Effects\<close>: \<open>orchestrator.ts\<close>, one definition per phase of
    \<open>tick\<close>, composed in the order of the code, what a tick does to any state, and what holds in every state that a
    new orchestrator reaches by starts, ticks, timers and its setters.
    \<open>Workflow_Store\<close>: state files and retention (\<open>state.ts\<close>, \<open>retention.ts\<close>). \<open>Workflow_Control\<close>: the
    control plane and the server (\<open>control.ts\<close>, \<open>server.ts\<close>). \<open>Status_Manager\<close>: the status message.
  \<^item> \<open>Turn_Queue\<close>: the two-tier queue that runs one turn at a time in a session
    (\<open>daemon/src/sessions/session-turn-queue.ts\<close>).
  \<^item> \<open>Session_Urn\<close>: session identifiers (\<open>shared/src/session-urn.ts\<close>). \<open>Policy\<close>: rules, decisions and
    compound resources (\<open>daemon/src/policy\<close>, \<open>sessions/tool-id-glob.ts\<close>, the defaults of
    \<open>shared/src/schema/policy.ts\<close>) and the MCP server rules
    (\<open>shared/src/effective-agent-for-session.ts\<close>). \<open>Spawn_Policy\<close>: which agents may message
    each other, spawn and manage subagents, and how deep subagents nest (\<open>shared/src/agent-to-agent-policy.ts\<close>,
    \<open>subagent-spawn-allow-policy.ts\<close>, \<open>spawn-depth.ts\<close>, and the guards of
    \<open>daemon/src/control/integration-ops.ts\<close>).
  \<^item> \<open>Resilience\<close>: backoff, error classes, rate-limit headers, the slots of a provider, the retry loop
    as any number of interleaved calls, and the failover chain (\<open>models/src/resilience\<close>, \<open>models/src/failover.ts\<close>).
  \<^item> \<open>Iso_Time\<close>, \<open>Timer_Heap\<close>, \<open>Timer_Scheduler\<close>, \<open>Timer_Tool\<close>: deferred timers
    (\<open>daemon/src/timers\<close>, \<open>builtin-handlers/timer-handler.ts\<close>). The heap is an interpretation of the
    locale \<open>keyed_queue\<close>, and the scheduler uses it through that contract.
  \<^item> \<open>Event_Queue\<close>: the table of events, its retries and dead letters, and the consumer
    (\<open>daemon/src/events\<close>: \<open>events-queue.ts\<close>, \<open>dlq.ts\<close>, \<open>heartbeat-consumer.ts\<close>). \<open>Cron_Scheduler\<close>: interval
    jobs, the default handlers, the reconciliation at boot, tool runs and the context buffer
    (\<open>cron-scheduler.ts\<close>, \<open>boot-reconciliation.ts\<close>, \<open>sessions/tool-run-store.ts\<close>,
    \<open>sessions/system-context-buffer.ts\<close>).
  \<^item> \<open>Approval_Rules\<close>: risk tiers, automatic approvals (two gates, one locale), the yolo flag and the
    cruise judge (\<open>daemon/src/hitl\<close>). \<open>Approval_Gate\<close>: pending actions, their waiters and the gate of a
    tool call (\<open>pending-actions-store.ts\<close>, \<open>hitl-resolution-hub.ts\<close>, \<open>hitlApprovalGate\<close> of
    \<open>sessions/tool-loop.ts\<close>).
  \<^item> The turn loop (\<open>daemon/src/sessions\<close>). \<open>Tool_Args\<close>: repair and validation of arguments
    (\<open>shared/src/sanitize-json-escapes.ts\<close>, \<open>validate-tool-args.ts\<close>). \<open>Runaway_Breaker\<close>: the circuit
    breaker (\<open>runaway-breaker.ts\<close>). \<open>Transcript\<close>: the table of messages, the history of the model and its
    compaction (\<open>transcript-store.ts\<close>, \<open>transcript-to-chat.ts\<close>, \<open>models/src/compaction.ts\<close>).
    \<open>Tool_Dispatch\<close>: one tool call, a definition per stage of \<open>processSingleToolCall\<close>; \<open>Tool_Loop\<close>: the
    rounds of \<open>runToolLoop\<close> (both \<open>tool-loop.ts\<close>), and their composition with the transcript and the table
    of tool runs. \<open>Turn_Mailbox\<close>: what a running turn is told from outside, the steer messages
    (\<open>steer-channel.ts\<close>) and the parked compaction requests (\<open>compaction-gate.ts\<close>,
    \<open>drainDeferredCompaction\<close>).
  \<^item> \<open>Ring_Buffer\<close>, \<open>Managed_Process\<close>, \<open>Process_Manager\<close>: the supervisor (\<open>procman/src\<close>).
  \<^item> \<open>Scenario\<close>, \<open>Scenario_Services\<close>: concrete runs, to which the properties are applied.

  \<^bold>\<open>How the parts interact.\<close> A workflow's orchestrator starts agents as subagent sessions, whose
  identifiers \<open>Session_Urn\<close> mints and whose tool calls \<open>Policy\<close> decides; their turns go through the
  session's \<open>Turn_Queue\<close>, whose turn-end callback flushes the timers set during the turn
  (\<open>flushSession\<close>). A turn is a run of \<open>Tool_Loop\<close>: its model calls go through \<open>Resilience\<close>, each tool
  call through \<open>Tool_Args\<close>, \<open>Policy\<close>, \<open>Approval_Gate\<close> and \<open>Runaway_Breaker\<close> before it is executed, its
  messages go to the \<open>Transcript\<close> and its row to the tool runs that the boot reconciles
  (\<open>Cron_Scheduler\<close>). Supervised processes run the
  MCP servers and tools.

  \<^bold>\<open>How state and effects are modelled.\<close> A class is a record of its fields, a method a function on
  it; exceptions are \<open>Inl\<close> values. Asynchronous code runs between two awaits without interruption: a
  suspended call is a part of the state, and every event that may come in between is a step, so that
  the invariants of the queue, the timers and the supervisor hold for every interleaving. Services
  outside the repository (agent sessions, SQLite, signals, \<open>spawn\<close>, \<open>Date.parse\<close> of free formats,
  \<open>Math.random\<close>) are parameters or parts of an event. Strings have 8-bit code units; numbers are exact
  rationals with NaN and the infinities, without the rounding of doubles.

  \<^bold>\<open>What the lemmas show.\<close> Workflow: in any state, also one that was restored or retried, a tick starts
  only tasks whose dependencies are done and moves statuses only forward; without restore and retry, never more
  tasks run than the cap; a workflow ends when its tasks do, completion is announced once; validation
  accepts exactly the acyclic graphs; a printed graph parses to what its lanes say, saving and loading are inverse; gate
  conditions mean what their grammar says. Turn queue: one turn at a time, nothing lost as long as
  removals name whole positions (and what happens when they do not), no
  starvation. Policy: which resources are allowed, for every rule list with globs, newlines included, no way around a denied command, subagents
  under their parent's policy; subagents nest no deeper than configured. Resilience: for every interleaving of
  calls, slots within the limit and always given back, bounded retries; bounded delays; the first usable
  provider answers. Timers: the array heap refines a priority
  queue; each timer fires once, not before its time, not after a confirmed cancellation, and no
  wake-up is lost. Events: every dispatch is accounted for, retries are bounded, a completed event is
  not repeated. Approvals: exactly which calls run unasked, an operator's decision binds the call it
  was made for, every resolution resumes its waiter and is final. Turn loop: exactly which calls are
  executed, a call under review only with an authorisation, every call answered, a well-formed
  transcript for every way a turn may end, the backstop that ends a turn and the calls that evade it; no accepted steer message is lost, but a second
  parked compaction request is;
  the breaker steers once before it cancels; compaction keeps results with their calls. Supervisor:
  bounded restarts, a completed stop whose kill worked is final, dependents stop before what they depend on.

  \<^bold>\<open>Fuel and termination.\<close> The gate evaluator recurses on the fuel \<open>gate_fuel\<close>, computed from the
  number of tokens and shown to be enough for every input. Every other loop is a total function with a
  termination proof; the chain loop of the graph syntax with an infinite bound, which never ends, is the
  value \<open>None\<close> of \<open>parseGraph\<close>. The loop of a turn, which a model may keep running, is a function of the list
  of its rounds' inputs, so that \<open>Inr True\<close> means that the turn is still running after them.

  \<^bold>\<open>Not modelled.\<close> The columns of the session store, the system gates (their verdict is an input of the turn
  loop), the rewriting of a transcript by a deferred compaction between two rounds, the control operations over
  sockets (only their guards are), subagent contracts and the rest of the effective configuration. Left out for good: the wire formats of the model providers, Discord, MCP and
  HTTP transports, sandboxed execution, the canvas service and the command line, which are I/O
  against third parties; logging; and the memory index, whose work is done by SQLite.
\<close>

section \<open>The dependency graph\<close>

text \<open>
  C24. Validation decides what the engine relies on: \<open>validateGraph\<close> accepts a graph for a
  list of task ids exactly when its nodes are those ids, every dependency is a node, and the
  dependency relation is acyclic.
\<close>

theorem validateGraph_iff:
  "(\<exists>warnings. validateGraph g taskIds = Inr warnings) \<longleftrightarrow>
     set taskIds = keys_of g \<and> (\<forall>e \<in> set g. set (snd e) \<subseteq> keys_of g) \<and> acyclic (edges g)"
  by (rule validateGraph_valid)

theorem validateGraph_iff_witness:
  "validateGraph demo_graph [js_nat 1, js_nat 2] = Inr [] \<and> acyclic (edges demo_graph)"
proof -
  have "validateGraph demo_graph [js_nat 1, js_nat 2] = Inr []" by code_simp
  with validateGraph_iff [of demo_graph "[js_nat 1, js_nat 2]"] show ?thesis by blast
qed

text \<open>
  A reported cycle is a cycle of the graph, and none is reported exactly when there is none.
\<close>

theorem detectCycles_exact:
  "(case detectCycles g of
      Some cyc \<Rightarrow> is_cycle g cyc
    | None \<Rightarrow> acyclic (edges g))"
  using detectCycles_cycle [of g] detectCycles_acyclic [of g] by (simp split: option.split)



text \<open>
  The dependents that a skipped gate skips and a retry resets are exactly the transitive
  dependents of the task.
\<close>

theorem dependents_exact:
  assumes "map_ok g"
  shows "set (getTransitiveDependents i g (Some (buildReverseGraph g))) = {t. (t, i) \<in> (edges g)\<^sup>+}"
  using transitive_search.search_trancl [OF transitive_search_dependents [OF assms], of i]
  by (auto simp: trancl_converse)

theorem dependents_exact_witness:
  "set (getTransitiveDependents (js_nat 1) demo_graph (Some (buildReverseGraph demo_graph))) =
     {t. (t, js_nat 1) \<in> (edges demo_graph)\<^sup>+}"
  by (rule dependents_exact) (simp add: demo_graph_def)

text \<open>
  Template validation: the references of a task pass exactly when each names a transitive
  dependency of the task.
\<close>

theorem template_refs_exact:
  "validateTemplateRefs i refs g = None \<longleftrightarrow> (\<forall>r \<in> set refs. (i, ref_taskId r) \<in> (edges g)\<^sup>+)"
  by (rule validateTemplateRefs_None)

theorem template_refs_exact_witness:
  "validateTemplateRefs (js_nat 2) (parseTemplateRefs ''{{task:1:output}}'') demo_graph = None
    \<and> (js_nat 2, js_nat 1) \<in> (edges demo_graph)\<^sup>+"
proof -
  have "validateTemplateRefs (js_nat 2) (parseTemplateRefs ''{{task:1:output}}'') demo_graph = None"
    "map ref_taskId (parseTemplateRefs ''{{task:1:output}}'') = [js_nat 1]" by code_simp+
  with template_refs_exact [of "js_nat 2" "parseTemplateRefs ''{{task:1:output}}''" demo_graph] show ?thesis
    by (cases "parseTemplateRefs ''{{task:1:output}}''") auto
qed

end
